(* ===== verification/Prelude.thy ===== *)
theory Prelude
  imports Main "HOL-Library.Word"
begin

text \<open>
  Shared ground of the development: the machine types of \<^verbatim>\<open>uefi.h\<close>, C string literals
  as byte lists, the lemma collections that carry the component proofs, and generic facts
  on lists and words that several components use.

  Sizes and buffer positions (\<^verbatim>\<open>UINTN\<close>, 64 bits) are \<open>nat\<close>: every one of them in this
  program is bounded by a buffer size below \<open>2 ^ 17\<close> plus a 32-bit length field, so no
  addition of the code wraps. 32-bit protocol fields, which can wrap, stay words.
\<close>

unbundle bit_operations_syntax

type_synonym byte = "8 word"
type_synonym u16 = "16 word"
type_synonym u32 = "32 word"
type_synonym u64 = "64 word"
type_synonym bytes = "byte list"

text \<open>
  \<open>frame\<close>: fields an operation leaves alone; \<open>inv_intros\<close>: operations keep the
  connection invariant; \<open>wire_simps\<close>: evaluation of readers and writers.
\<close>

named_theorems frame
named_theorems inv_intros
named_theorems wire_simps

subsection \<open>C string literals\<close>

text \<open>The bytes of a C string literal, without the terminating NUL.\<close>

definition bytes_of :: "string \<Rightarrow> bytes" where
  "bytes_of s = map (\<lambda>c. of_nat (of_char c)) s"

lemma bytes_of_Nil [simp]: "bytes_of [] = []"
  by (simp add: bytes_of_def)

lemma bytes_of_Cons [simp]: "bytes_of (c # s) = of_nat (of_char c) # bytes_of s"
  by (simp add: bytes_of_def)

lemma length_bytes_of [simp]: "length (bytes_of s) = length s"
  by (simp add: bytes_of_def)

text \<open>A NUL-terminated view of a byte list: what a \<^verbatim>\<open>const char *\<close> reader of it sees.\<close>

definition c_str :: "bytes \<Rightarrow> bytes" where
  "c_str bs = takeWhile (\<lambda>b. b \<noteq> 0) bs"

lemma c_str_id: "0 \<notin> set bs \<Longrightarrow> c_str bs = bs"
  by (simp add: c_str_def takeWhile_eq_all_conv) metis

lemma c_str_no_nul: "0 \<notin> set (c_str bs)"
  by (auto simp: c_str_def dest: set_takeWhileD)

lemma length_c_str_le: "length (c_str bs) \<le> length bs"
  by (simp add: c_str_def length_takeWhile_le)

subsection \<open>Big-endian values of byte lists\<close>

definition be_val :: "bytes \<Rightarrow> nat" where
  "be_val bs = foldl (\<lambda>a b. a * 256 + unat b) 0 bs"

lemma foldl_be: "foldl (\<lambda>a b. a * 256 + unat (b :: byte)) a bs = a * 256 ^ length bs + be_val bs"
proof (induction bs arbitrary: a)
  case Nil
  then show ?case by (simp add: be_val_def)
next
  case (Cons b bs)
  have "be_val (b # bs) = unat b * 256 ^ length bs + be_val bs"
    using Cons [of "unat b"] by (simp add: be_val_def)
  then show ?case
    using Cons [of "a * 256 + unat b"] by (simp add: algebra_simps)
qed

lemma be_val_Nil [simp]: "be_val [] = 0"
  by (simp add: be_val_def)

lemma be_val_Cons: "be_val (b # bs) = unat b * 256 ^ length bs + be_val bs"
  using foldl_be [of "unat b" bs] by (simp add: be_val_def)

lemma be_val_zero_Cons [simp]: "be_val (0 # bs) = be_val bs"
  by (simp add: be_val_Cons)

lemma unat_byte_less [simp]: "unat (b :: byte) < 256"
  using unsigned_less [of b] by simp

lemma unat_byte_le [simp]: "unat (b :: byte) \<le> 255"
  using unat_byte_less [of b] by linarith

lemma be_val_less: "be_val bs < 256 ^ length bs"
proof (induction bs)
  case Nil
  then show ?case by simp
next
  case (Cons b bs)
  have "unat b * 256 ^ length bs \<le> 255 * 256 ^ length bs"
    by (rule mult_right_mono) simp_all
  then have "unat b * 256 ^ length bs + be_val bs < 255 * 256 ^ length bs + 256 ^ length bs"
    using Cons by linarith
  then show ?case by (simp add: be_val_Cons)
qed

subsection \<open>Slices\<close>

definition bslice :: "nat \<Rightarrow> nat \<Rightarrow> 'a list \<Rightarrow> 'a list" where
  "bslice pos n xs = take n (drop pos xs)"

lemma length_bslice [simp]: "pos + n \<le> length xs \<Longrightarrow> length (bslice pos n xs) = n"
  by (simp add: bslice_def)

lemma bslice_append_mid: "length a = pos \<Longrightarrow> length m = n \<Longrightarrow> bslice pos n (a @ m @ r) = m"
  by (simp add: bslice_def)

lemma set_bslice_subset: "set (bslice pos n xs) \<subseteq> set xs"
  unfolding bslice_def by (meson order_trans set_drop_subset set_take_subset)

lemma zeroed_bytes: "length (replicate n (0 :: byte)) = n"
  by simp

end
