(* ===== verification/Wire.thy ===== *)
theory Wire
  imports Prelude
begin

text \<open>
  The wire format helpers of \<^verbatim>\<open>ssh.c\<close> (\<^verbatim>\<open>PutU32\<close> to \<^verbatim>\<open>RStr\<close>). A writer is the list of
  bytes written so far with its capacity and sticky error flag; a reader is the packet, the
  position and the sticky error flag. The locale \<open>wire_codec\<close> is the interface between the
  message builders and parsers and these helpers; it is interpreted for the byte, the 32-bit
  integer and the length-prefixed string.
\<close>

subsection \<open>Big-endian 32-bit integers\<close>

definition PutU32 :: "u32 \<Rightarrow> bytes" where
  "PutU32 v = [ucast (drop_bit 24 v), ucast (drop_bit 16 v), ucast (drop_bit 8 v), ucast v]"

definition GetU32 :: "bytes \<Rightarrow> u32" where
  "GetU32 p = push_bit 24 (ucast (p ! 0)) OR push_bit 16 (ucast (p ! 1))
            OR push_bit 8 (ucast (p ! 2)) OR ucast (p ! 3)"

lemma byte_bit_high: "8 \<le> n \<Longrightarrow> bit (b :: byte) n \<longleftrightarrow> False"
  by (auto dest: bit_imp_le_length)

lemma length_PutU32 [simp]: "length (PutU32 v) = 4"
  by (simp add: PutU32_def)

lemma GetU32_PutU32 [simp]: "GetU32 (PutU32 v @ t) = v"
proof (rule bit_word_eqI)
  fix n assume "n < LENGTH(32)"
  then have "n < 32" by simp
  then consider "n < 8" | "8 \<le> n \<and> n < 16" | "16 \<le> n \<and> n < 24" | "24 \<le> n \<and> n < 32" by linarith
  then show "bit (GetU32 (PutU32 v @ t)) n = bit v n"
    by cases (auto simp: GetU32_def PutU32_def bit_simps)
qed

lemma GetU32_PutU32_exact [simp]: "GetU32 (PutU32 v) = v"
  using GetU32_PutU32 [of v "[]"] by simp

lemma GetU32_take: "4 \<le> length p \<Longrightarrow> GetU32 (take 4 p) = GetU32 p"
  by (simp add: GetU32_def)

lemma list_4_decomp: "length p = 4 \<Longrightarrow> p = [p ! 0, p ! 1, p ! 2, p ! 3]"
  by (rule nth_equalityI) (auto simp: less_Suc_eq numeral_eq_Suc)

lemma PutU32_GetU32:
  assumes "length p = 4"
  shows "PutU32 (GetU32 p) = p"
proof -
  have "PutU32 (GetU32 p) = [p ! 0, p ! 1, p ! 2, p ! 3]"
    unfolding PutU32_def GetU32_def by (auto intro!: bit_word_eqI simp: bit_simps byte_bit_high)
  with list_4_decomp [OF assms] show ?thesis by simp
qed

lemma unat_ucast_byte [simp]: "unat (ucast (b :: byte) :: u32) = unat b"
  by (rule bit_eqI) (auto simp: bit_simps dest: bit_imp_le_length)

lemma unat_push_byte:
  assumes "k \<le> 24"
  shows "unat (push_bit k (ucast (b :: byte)) :: u32) = unat b * 2 ^ k"
proof -
  have "unat b * 2 ^ k < 256 * 2 ^ k" by simp
  also have "(256 :: nat) * 2 ^ k \<le> 256 * 2 ^ 24"
    using assms by (intro mult_left_mono power_increasing) simp_all
  finally have *: "unat b * 2 ^ k < 2 ^ 32" by simp
  have "unat (push_bit k (ucast b) :: u32) = take_bit 32 (push_bit k (unat b))"
    by (simp add: unsigned_push_bit_eq)
  also have "\<dots> = unat b * 2 ^ k"
    using * by (simp add: push_bit_eq_mult take_bit_nat_eq_self_iff)
  finally show ?thesis .
qed

lemma GetU32_sum:
  "GetU32 p = push_bit 24 (ucast (p ! 0)) + push_bit 16 (ucast (p ! 1))
            + push_bit 8 (ucast (p ! 2)) + ucast (p ! 3)"
proof -
  have "push_bit 24 (ucast a) + push_bit 16 (ucast b) + push_bit 8 (ucast c) + ucast d
      = push_bit 24 (ucast a) OR push_bit 16 (ucast b) OR push_bit 8 (ucast c) OR (ucast d :: u32)"
    for a b c d :: byte
    apply (subst disjunctive_add_eq_or)
     apply (auto simp: bit_eq_iff bit_simps byte_bit_high)[1]
    apply (subst disjunctive_add_eq_or)
     apply (auto simp: bit_eq_iff bit_simps byte_bit_high)[1]
    apply (subst disjunctive_add_eq_or)
     apply (auto simp: bit_eq_iff bit_simps byte_bit_high)[1]
    apply (simp add: or.assoc)
    done
  then show ?thesis by (simp add: GetU32_def)
qed

lemma unat_GetU32:
  assumes "length p = 4"
  shows "unat (GetU32 p) = be_val p"
proof -
  have v: "be_val p = unat (p ! 0) * 2 ^ 24 + unat (p ! 1) * 2 ^ 16 + unat (p ! 2) * 2 ^ 8 + unat (p ! 3)"
    by (subst list_4_decomp [OF assms]) (simp add: be_val_Cons)
  have "be_val p < 2 ^ 32"
    using be_val_less [of p] assms by simp
  then show ?thesis
    unfolding GetU32_sum v
    by (simp add: unat_word_ariths unat_push_byte [where k = 24, simplified]
        unat_push_byte [where k = 16, simplified] unat_push_byte [where k = 8, simplified])
qed

subsection \<open>Writers\<close>

record wbuf =
  wdata :: bytes
  wcap :: nat
  werr :: bool

definition WInit :: "nat \<Rightarrow> wbuf" where
  "WInit cap = \<lparr>wdata = [], wcap = cap, werr = False\<rparr>"

definition WBytes :: "wbuf \<Rightarrow> bytes \<Rightarrow> wbuf" where
  "WBytes b d = (if werr b \<or> length (wdata b) + length d > wcap b
                 then b\<lparr>werr := True\<rparr>
                 else b\<lparr>wdata := wdata b @ d\<rparr>)"

definition WByte :: "wbuf \<Rightarrow> byte \<Rightarrow> wbuf" where
  "WByte b v = WBytes b [v]"

definition WU32 :: "wbuf \<Rightarrow> u32 \<Rightarrow> wbuf" where
  "WU32 b v = WBytes b (PutU32 v)"

definition WStr :: "wbuf \<Rightarrow> bytes \<Rightarrow> wbuf" where
  "WStr b d = WBytes (WU32 b (of_nat (length d))) d"

definition WCStr :: "wbuf \<Rightarrow> string \<Rightarrow> wbuf" where
  "WCStr b s = WStr b (bytes_of s)"

text \<open>\<open>WMpint\<close> drops leading zero bytes and puts one back when the top bit is set.\<close>

fun strip_zeros :: "bytes \<Rightarrow> bytes" where
  "strip_zeros [] = []"
| "strip_zeros (b # bs) = (if b = 0 then strip_zeros bs else b # bs)"

definition WMpint :: "wbuf \<Rightarrow> bytes \<Rightarrow> wbuf" where
  "WMpint b d = (let d' = strip_zeros d in
     if d' \<noteq> [] \<and> hd d' AND 0x80 \<noteq> 0
     then WBytes (WByte (WU32 b (of_nat (length d') + 1)) 0) d'
     else WStr b d')"

text \<open>
  A writer is well formed when it has not run past its capacity; \<open>room b n\<close> says that
  \<open>n\<close> more bytes fit without an error.
\<close>

definition wbuf_wf :: "wbuf \<Rightarrow> bool" where
  "wbuf_wf b \<longleftrightarrow> length (wdata b) \<le> wcap b"

definition room :: "wbuf \<Rightarrow> nat \<Rightarrow> bool" where
  "room b n \<longleftrightarrow> \<not> werr b \<and> length (wdata b) + n \<le> wcap b"

lemma WInit_simps [wire_simps, simp]:
  "wdata (WInit n) = []" "wcap (WInit n) = n" "werr (WInit n) = False"
  by (simp_all add: WInit_def)

lemma wbuf_wf_WInit [inv_intros]: "wbuf_wf (WInit n)"
  by (simp add: wbuf_wf_def)

lemma WBytes_wf [inv_intros]: "wbuf_wf b \<Longrightarrow> wbuf_wf (WBytes b d)"
  by (auto simp: wbuf_wf_def WBytes_def)

lemma writers_wf [inv_intros]:
  assumes "wbuf_wf b"
  shows "wbuf_wf (WByte b v)" "wbuf_wf (WU32 b w)" "wbuf_wf (WStr b d)"
    "wbuf_wf (WCStr b s)" "wbuf_wf (WMpint b d)"
  using assms by (auto simp: WByte_def WU32_def WStr_def WCStr_def WMpint_def Let_def
      intro!: WBytes_wf)

lemma WBytes_room [wire_simps]:
  "room b (length d) \<Longrightarrow> WBytes b d = b\<lparr>wdata := wdata b @ d\<rparr>"
  by (simp add: room_def WBytes_def)

lemma WBytes_no_room: "\<not> room b (length d) \<Longrightarrow> werr (WBytes b d)"
  by (auto simp: room_def WBytes_def)

text \<open>The bytes each writer emits, and one law for all of them: append or fail for good.\<close>

definition enc_str :: "bytes \<Rightarrow> bytes" where
  "enc_str d = PutU32 (of_nat (length d)) @ d"

definition enc_mpint :: "bytes \<Rightarrow> bytes" where
  "enc_mpint d = (let d' = strip_zeros d in
     if d' \<noteq> [] \<and> hd d' AND 0x80 \<noteq> 0
     then PutU32 (of_nat (length d') + 1) @ 0 # d' else enc_str d')"

definition appends :: "(wbuf \<Rightarrow> wbuf) \<Rightarrow> bytes \<Rightarrow> bool" where
  "appends w e \<longleftrightarrow> (\<forall>b. (room b (length e) \<longrightarrow> w b = b\<lparr>wdata := wdata b @ e\<rparr>)
                     \<and> (\<not> room b (length e) \<longrightarrow> werr (w b)))"

lemma appendsI:
  "(\<And>b. room b (length e) \<Longrightarrow> w b = b\<lparr>wdata := wdata b @ e\<rparr>) \<Longrightarrow>
   (\<And>b. \<not> room b (length e) \<Longrightarrow> werr (w b)) \<Longrightarrow> appends w e"
  by (simp add: appends_def)

lemma appends_roomD: "appends w e \<Longrightarrow> room b (length e) \<Longrightarrow> w b = b\<lparr>wdata := wdata b @ e\<rparr>"
  by (simp add: appends_def)

lemma appends_no_roomD: "appends w e \<Longrightarrow> \<not> room b (length e) \<Longrightarrow> werr (w b)"
  by (simp add: appends_def)

lemma appends_comp:
  assumes v: "appends v d" and w: "appends w e"
  shows "appends (\<lambda>b. w (v b)) (d @ e)"
proof (rule appendsI)
  fix b assume r: "room b (length (d @ e))"
  then have "v b = b\<lparr>wdata := wdata b @ d\<rparr>"
    using v by (auto simp: room_def dest!: appends_roomD [where b = b])
  moreover have "room (b\<lparr>wdata := wdata b @ d\<rparr>) (length e)"
    using r by (simp add: room_def)
  ultimately show "w (v b) = b\<lparr>wdata := wdata b @ (d @ e)\<rparr>"
    using appends_roomD [OF w] by simp
next
  fix b assume r: "\<not> room b (length (d @ e))"
  have "\<not> room (v b) (length e)"
  proof (cases "room b (length d)")
    case True
    then have "v b = b\<lparr>wdata := wdata b @ d\<rparr>" using appends_roomD [OF v] by blast
    with True r show ?thesis by (simp add: room_def)
  next
    case False
    then show ?thesis using appends_no_roomD [OF v] by (auto simp: room_def)
  qed
  then show "werr (w (v b))" using appends_no_roomD [OF w] by blast
qed

lemma appends_WBytes: "appends (\<lambda>b. WBytes b d) d"
  by (rule appendsI) (simp_all add: WBytes_room WBytes_no_room)

lemma appends_WByte: "appends (\<lambda>b. WByte b v) [v]"
  unfolding WByte_def by (rule appends_WBytes)

lemma appends_WU32: "appends (\<lambda>b. WU32 b v) (PutU32 v)"
  unfolding WU32_def by (rule appends_WBytes)

lemma appends_WStr: "appends (\<lambda>b. WStr b d) (enc_str d)"
  unfolding WStr_def enc_str_def by (rule appends_comp [OF appends_WU32 appends_WBytes])

lemma appends_WCStr: "appends (\<lambda>b. WCStr b s) (enc_str (bytes_of s))"
  unfolding WCStr_def by (rule appends_WStr)

lemma appends_WMpint: "appends (\<lambda>b. WMpint b d) (enc_mpint d)"
proof (cases "strip_zeros d \<noteq> [] \<and> hd (strip_zeros d) AND 0x80 \<noteq> 0")
  case True
  have "appends (\<lambda>b. WBytes (WByte (WU32 b (of_nat (length (strip_zeros d)) + 1)) 0) (strip_zeros d))
    (PutU32 (of_nat (length (strip_zeros d)) + 1) @ [0] @ strip_zeros d)"
    by (intro appends_comp [OF appends_comp [OF appends_WU32 appends_WByte] appends_WBytes, simplified append_assoc])
  with True show ?thesis by (simp add: WMpint_def enc_mpint_def Let_def)
next
  case False
  then show ?thesis
    unfolding WMpint_def enc_mpint_def Let_def by (auto simp: appends_WStr)
qed

text \<open>One more writer at the end of a chain.\<close>

lemma appends_steps:
  "appends v d \<Longrightarrow> appends (\<lambda>b. WByte (v b) x) (d @ [x])"
  "appends v d \<Longrightarrow> appends (\<lambda>b. WBytes (v b) y) (d @ y)"
  "appends v d \<Longrightarrow> appends (\<lambda>b. WU32 (v b) w) (d @ PutU32 w)"
  "appends v d \<Longrightarrow> appends (\<lambda>b. WStr (v b) y) (d @ enc_str y)"
  "appends v d \<Longrightarrow> appends (\<lambda>b. WCStr (v b) s) (d @ enc_str (bytes_of s))"
  using appends_comp [OF _ appends_WByte] appends_comp [OF _ appends_WBytes]
    appends_comp [OF _ appends_WU32] appends_comp [OF _ appends_WStr] appends_comp [OF _ appends_WCStr]
  by blast+

text \<open>
  A message is built by running writers on a fresh buffer: when everything fits, the buffer
  holds the concatenation of the encodings.
\<close>

lemma appends_WInit:
  "appends w e \<Longrightarrow> length e \<le> n \<Longrightarrow> w (WInit n) = \<lparr>wdata = e, wcap = n, werr = False\<rparr>"
  by (auto simp: room_def WInit_def dest: appends_roomD [where b = "WInit n"])

lemma length_enc_str [simp]: "length (enc_str d) = 4 + length d"
  by (simp add: enc_str_def)

text \<open>The writers as rewrite rules on a buffer with room, for building messages by \<open>simp\<close>.\<close>

lemma room_simps [simp]:
  "room (b\<lparr>wdata := d\<rparr>) n \<longleftrightarrow> \<not> werr b \<and> length d + n \<le> wcap b"
  "room (WInit c) n \<longleftrightarrow> n \<le> c"
  by (auto simp: room_def)

lemma writer_room [wire_simps]:
  "room b 1 \<Longrightarrow> WByte b v = b\<lparr>wdata := wdata b @ [v]\<rparr>"
  "room b 4 \<Longrightarrow> WU32 b w = b\<lparr>wdata := wdata b @ PutU32 w\<rparr>"
  "room b (4 + length d) \<Longrightarrow> WStr b d = b\<lparr>wdata := wdata b @ enc_str d\<rparr>"
  "room b (4 + length s) \<Longrightarrow> WCStr b s = b\<lparr>wdata := wdata b @ enc_str (bytes_of s)\<rparr>"
  using appends_roomD [OF appends_WByte [of v], of b] appends_roomD [OF appends_WU32 [of w], of b]
    appends_roomD [OF appends_WStr [of d], of b] appends_roomD [OF appends_WCStr [of s], of b]
  by simp_all

subsection \<open>Readers\<close>

record rbuf =
  rdata :: bytes
  rpos :: nat
  rerr :: bool

definition RInit :: "bytes \<Rightarrow> rbuf" where
  "RInit p = \<lparr>rdata = p, rpos = 0, rerr = False\<rparr>"

definition RByte :: "rbuf \<Rightarrow> byte \<times> rbuf" where
  "RByte r = (if rerr r \<or> rpos r + 1 > length (rdata r)
              then (0, r\<lparr>rerr := True\<rparr>)
              else (rdata r ! rpos r, r\<lparr>rpos := rpos r + 1\<rparr>))"

definition RU32 :: "rbuf \<Rightarrow> u32 \<times> rbuf" where
  "RU32 r = (if rerr r \<or> rpos r + 4 > length (rdata r)
             then (0, r\<lparr>rerr := True\<rparr>)
             else (GetU32 (drop (rpos r) (rdata r)), r\<lparr>rpos := rpos r + 4\<rparr>))"

text \<open>
  \<open>RStr\<close> yields the bytes the returned pointer and length denote (none on error); its
  \<^verbatim>\<open>BOOLEAN\<close> result is the negated error flag and no caller uses it.
\<close>

definition RStr :: "rbuf \<Rightarrow> bytes \<times> rbuf" where
  "RStr r = (let (l, r1) = RU32 r in
     if rerr r1 \<or> rpos r1 + unat l > length (rdata r1)
     then ([], r1\<lparr>rerr := True\<rparr>)
     else (bslice (rpos r1) (unat l) (rdata r1), r1\<lparr>rpos := rpos r1 + unat l\<rparr>))"

text \<open>
  What a reader still has to give: nothing at all once the error flag is set, otherwise the
  unread suffix. The abstract readers split that suffix.
\<close>

definition rest :: "rbuf \<Rightarrow> bytes option" where
  "rest r = (if rerr r then None else Some (drop (rpos r) (rdata r)))"

definition rbuf_wf :: "rbuf \<Rightarrow> bool" where
  "rbuf_wf r \<longleftrightarrow> rpos r \<le> length (rdata r)"

definition split_byte :: "bytes \<Rightarrow> (byte \<times> bytes) option" where
  "split_byte xs = (case xs of [] \<Rightarrow> None | x # t \<Rightarrow> Some (x, t))"

definition split_u32 :: "bytes \<Rightarrow> (u32 \<times> bytes) option" where
  "split_u32 xs = (if length xs < 4 then None else Some (GetU32 xs, drop 4 xs))"

definition split_str :: "bytes \<Rightarrow> (bytes \<times> bytes) option" where
  "split_str xs = (case split_u32 xs of None \<Rightarrow> None
     | Some (l, t) \<Rightarrow> if length t < unat l then None else Some (take (unat l) t, drop (unat l) t))"

lemma RInit_simps [simp]:
  "rest (RInit p) = Some p" "rbuf_wf (RInit p)" "rerr (RInit p) = False" "rdata (RInit p) = p"
  by (simp_all add: RInit_def rest_def rbuf_wf_def)

lemma rest_None [simp]: "rest r = None \<longleftrightarrow> rerr r"
  by (simp add: rest_def)

lemma rest_SomeD: "rest r = Some xs \<Longrightarrow> \<not> rerr r"
  by (simp add: rest_def split: if_splits)

text \<open>
  The readers refine the abstract splits: the same value, the same suffix left over, and the
  error flag exactly when the split fails. They never move past the end of the packet.
\<close>

lemma RByte_refines:
  "rbuf_wf r \<Longrightarrow>
   (case Option.bind (rest r) split_byte of
      None \<Rightarrow> fst (RByte r) = 0 \<and> rest (snd (RByte r)) = None
    | Some (v, t) \<Rightarrow> fst (RByte r) = v \<and> rest (snd (RByte r)) = Some t) \<and>
   rbuf_wf (snd (RByte r)) \<and> rdata (snd (RByte r)) = rdata r"
  by (auto simp: RByte_def rest_def rbuf_wf_def split_byte_def Cons_nth_drop_Suc [symmetric]
      split: option.splits list.splits)

lemma RU32_refines:
  "rbuf_wf r \<Longrightarrow>
   (case Option.bind (rest r) split_u32 of
      None \<Rightarrow> fst (RU32 r) = 0 \<and> rest (snd (RU32 r)) = None
    | Some (v, t) \<Rightarrow> fst (RU32 r) = v \<and> rest (snd (RU32 r)) = Some t) \<and>
   rbuf_wf (snd (RU32 r)) \<and> rdata (snd (RU32 r)) = rdata r"
  by (auto simp: RU32_def rest_def rbuf_wf_def split_u32_def add.commute split: option.splits)

lemma RStr_refines:
  assumes wf: "rbuf_wf r"
  shows "(case Option.bind (rest r) split_str of
      None \<Rightarrow> fst (RStr r) = [] \<and> rest (snd (RStr r)) = None
    | Some (v, t) \<Rightarrow> fst (RStr r) = v \<and> rest (snd (RStr r)) = Some t) \<and>
   rbuf_wf (snd (RStr r)) \<and> rdata (snd (RStr r)) = rdata r"
proof -
  obtain l r1 where 1: "RU32 r = (l, r1)" by (cases "RU32 r")
  from RU32_refines [OF wf] 1 show ?thesis
    by (auto simp: RStr_def rest_def rbuf_wf_def split_str_def bslice_def add.commute
        split: option.splits if_splits)
qed

lemma readers_wf [inv_intros]:
  "rbuf_wf r \<Longrightarrow> rbuf_wf (snd (RByte r))"
  "rbuf_wf r \<Longrightarrow> rbuf_wf (snd (RU32 r))"
  "rbuf_wf r \<Longrightarrow> rbuf_wf (snd (RStr r))"
  using RByte_refines [of r] RU32_refines [of r] RStr_refines [of r] by simp_all

lemma readers_sticky:
  "rerr r \<Longrightarrow> rerr (snd (RByte r))" "rerr r \<Longrightarrow> rerr (snd (RU32 r))"
  "rerr r \<Longrightarrow> rerr (snd (RStr r))"
  by (simp_all add: RByte_def RU32_def RStr_def)

lemma split_u32_PutU32 [simp]: "split_u32 (PutU32 v @ t) = Some (v, t)"
  by (simp add: split_u32_def)

lemma split_str_enc [simp]:
  assumes "length d < 2 ^ 32"
  shows "split_str (enc_str d @ t) = Some (d, t)"
proof -
  have "unat (of_nat (length d) :: u32) = length d"
    using assms by (simp add: unat_of_nat take_bit_nat_eq_self_iff)
  then show ?thesis by (simp add: split_str_def enc_str_def)
qed

text \<open>The splits only ever split: what they return is what was there.\<close>

lemma split_byte_inv: "split_byte xs = Some (v, t) \<Longrightarrow> xs = v # t"
  by (simp add: split_byte_def split: list.splits)

lemma split_u32_inv:
  assumes "split_u32 xs = Some (v, t)"
  shows "xs = PutU32 v @ t"
proof -
  from assms have l: "4 \<le> length xs" and v: "v = GetU32 xs" and t: "t = drop 4 xs"
    by (auto simp: split_u32_def split: if_splits)
  have "PutU32 v = take 4 xs"
    using PutU32_GetU32 [of "take 4 xs"] l v by (simp add: GetU32_take)
  with t show ?thesis by simp
qed

lemma split_str_inv:
  assumes "split_str xs = Some (v, t)"
  shows "xs = enc_str v @ t" and "length v < 2 ^ 32"
proof -
  from assms obtain l u where l: "split_u32 xs = Some (l, u)" and len: "unat l \<le> length u"
    and vt: "v = take (unat l) u" "t = drop (unat l) u"
    by (auto simp: split_str_def split: option.splits if_splits)
  have "length v = unat l" using len vt by simp
  then have "of_nat (length v) = l" by simp
  with split_u32_inv [OF l] vt show "xs = enc_str v @ t" by (simp add: enc_str_def)
  show "length v < 2 ^ 32" using \<open>length v = unat l\<close> unsigned_less [of l] by simp
qed

text \<open>A reader that succeeded has consumed an encoding of what it returned.\<close>

lemma RStr_okD:
  assumes "rbuf_wf r" and "\<not> rerr (snd (RStr r))"
  obtains t where "rest r = Some (enc_str (fst (RStr r)) @ t)" "rest (snd (RStr r)) = Some t"
    "rbuf_wf (snd (RStr r))" "length (fst (RStr r)) < 2 ^ 32"
proof -
  from RStr_refines [OF assms(1)] assms(2) obtain xs v t where
    "rest r = Some xs" "split_str xs = Some (v, t)" "fst (RStr r) = v" "rest (snd (RStr r)) = Some t"
    "rbuf_wf (snd (RStr r))"
    by (auto simp: bind_eq_Some_conv split: option.splits)
  with split_str_inv [of xs v t] that show thesis by blast
qed

lemma RByte_okD:
  assumes "rbuf_wf r" and "\<not> rerr (snd (RByte r))"
  obtains t where "rest r = Some (fst (RByte r) # t)" "rest (snd (RByte r)) = Some t"
    "rbuf_wf (snd (RByte r))"
proof -
  from RByte_refines [OF assms(1)] assms(2) obtain xs v t where
    "rest r = Some xs" "split_byte xs = Some (v, t)" "fst (RByte r) = v" "rest (snd (RByte r)) = Some t"
    "rbuf_wf (snd (RByte r))"
    by (auto simp: bind_eq_Some_conv split: option.splits)
  with split_byte_inv [of xs v t] that show thesis by blast
qed

lemma RU32_okD:
  assumes "rbuf_wf r" and "\<not> rerr (snd (RU32 r))"
  obtains t where "rest r = Some (PutU32 (fst (RU32 r)) @ t)" "rest (snd (RU32 r)) = Some t"
    "rbuf_wf (snd (RU32 r))"
proof -
  from RU32_refines [OF assms(1)] assms(2) obtain xs v t where
    "rest r = Some xs" "split_u32 xs = Some (v, t)" "fst (RU32 r) = v" "rest (snd (RU32 r)) = Some t"
    "rbuf_wf (snd (RU32 r))"
    by (auto simp: bind_eq_Some_conv split: option.splits)
  with split_u32_inv [of xs v t] that show thesis by blast
qed

subsection \<open>The codec interface\<close>

text \<open>Reading several values of one kind in a row.\<close>

fun gets :: "(rbuf \<Rightarrow> 'a \<times> rbuf) \<Rightarrow> nat \<Rightarrow> rbuf \<Rightarrow> 'a list \<times> rbuf" where
  "gets get 0 r = ([], r)"
| "gets get (Suc n) r = (let (x, r1) = get r; (xs, r2) = gets get n r1 in (x # xs, r2))"

text \<open>
  What a message format relies on: the writer appends an encoding, the reader splits it off
  again. Anything written by such a writer and followed by any other bytes is read back.
\<close>

locale wire_codec =
  fixes put :: "'a \<Rightarrow> wbuf \<Rightarrow> wbuf"
    and get :: "rbuf \<Rightarrow> 'a \<times> rbuf"
    and enc :: "'a \<Rightarrow> bytes"
    and split :: "bytes \<Rightarrow> ('a \<times> bytes) option"
    and valid :: "'a \<Rightarrow> bool"
  assumes put_appends: "appends (put x) (enc x)"
    and split_enc: "valid x \<Longrightarrow> split (enc x @ t) = Some (x, t)"
    and get_some: "rbuf_wf r \<Longrightarrow> Option.bind (rest r) split = Some (v, t) \<Longrightarrow>
      fst (get r) = v \<and> rest (snd (get r)) = Some t \<and> rbuf_wf (snd (get r))"
    and get_none: "rbuf_wf r \<Longrightarrow> Option.bind (rest r) split = None \<Longrightarrow> rerr (snd (get r))"
begin

lemma get_enc:
  assumes "rbuf_wf r" and "rest r = Some (enc x @ t)" and "valid x"
  shows "fst (get r) = x" and "rest (snd (get r)) = Some t" and "rbuf_wf (snd (get r))"
  using get_some [of r x t] assms by (simp_all add: split_enc)

lemma put_get:
  assumes "valid x" and "length (enc x) \<le> n"
  shows "fst (get (RInit (wdata (put x (WInit n)) @ t))) = x
       \<and> rest (snd (get (RInit (wdata (put x (WInit n)) @ t)))) = Some t"
proof -
  have "wdata (put x (WInit n)) = enc x"
    using appends_WInit [OF put_appends assms(2)] by simp
  with get_enc [of "RInit (enc x @ t)" x t] assms(1) show ?thesis by simp
qed

lemma gets_encs:
  assumes "rbuf_wf r" and "rest r = Some (concat (map enc xs) @ t)" and "\<forall>x\<in>set xs. valid x"
  shows "fst (gets get (length xs) r) = xs \<and> rest (snd (gets get (length xs) r)) = Some t
       \<and> rbuf_wf (snd (gets get (length xs) r))"
  using assms
proof (induction xs arbitrary: r)
  case Nil
  then show ?case by simp
next
  case (Cons x xs)
  have g: "fst (get r) = x" "rest (snd (get r)) = Some (concat (map enc xs) @ t)"
    "rbuf_wf (snd (get r))"
    using get_enc [of r x "concat (map enc xs) @ t"] Cons.prems by simp_all
  with Cons.IH [OF g(3,2)] Cons.prems(3) show ?case by (simp add: split_beta)
qed

lemma get_progress:
  assumes "rbuf_wf r" and "\<not> rerr (snd (get r))"
  obtains v t where "Option.bind (rest r) split = Some (v, t)" and "fst (get r) = v"
  using get_none [OF assms(1)] get_some [OF assms(1)] assms(2)
  by (cases "Option.bind (rest r) split") auto

end

interpretation byte_codec: wire_codec "\<lambda>v b. WByte b v" RByte "\<lambda>v. [v]" split_byte "\<lambda>_. True"
proof unfold_locales
  fix r v t assume "rbuf_wf r" and "Option.bind (rest r) split_byte = Some (v, t)"
  with RByte_refines [of r]
  show "fst (RByte r) = v \<and> rest (snd (RByte r)) = Some t \<and> rbuf_wf (snd (RByte r))" by simp
next
  fix r assume "rbuf_wf r" and "Option.bind (rest r) split_byte = None"
  with RByte_refines [of r] show "rerr (snd (RByte r))" by simp
qed (simp_all add: appends_WByte split_byte_def)

interpretation u32_codec: wire_codec "\<lambda>v b. WU32 b v" RU32 PutU32 split_u32 "\<lambda>_. True"
proof unfold_locales
  fix r v t assume "rbuf_wf r" and "Option.bind (rest r) split_u32 = Some (v, t)"
  with RU32_refines [of r]
  show "fst (RU32 r) = v \<and> rest (snd (RU32 r)) = Some t \<and> rbuf_wf (snd (RU32 r))" by simp
next
  fix r assume "rbuf_wf r" and "Option.bind (rest r) split_u32 = None"
  with RU32_refines [of r] show "rerr (snd (RU32 r))" by simp
qed (simp_all add: appends_WU32)

interpretation str_codec: wire_codec "\<lambda>d b. WStr b d" RStr enc_str split_str "\<lambda>d. length d < 2 ^ 32"
proof unfold_locales
  fix r v t assume "rbuf_wf r" and "Option.bind (rest r) split_str = Some (v, t)"
  with RStr_refines [of r]
  show "fst (RStr r) = v \<and> rest (snd (RStr r)) = Some t \<and> rbuf_wf (snd (RStr r))" by simp
next
  fix r assume "rbuf_wf r" and "Option.bind (rest r) split_str = None"
  with RStr_refines [of r] show "rerr (snd (RStr r))" by simp
qed (simp_all add: appends_WStr)

subsection \<open>Multiple precision integers\<close>

lemma strip_zeros_value: "be_val (strip_zeros d) = be_val d"
  by (induction d) auto

lemma strip_zeros_hd: "strip_zeros d \<noteq> [] \<Longrightarrow> hd (strip_zeros d) \<noteq> 0"
  by (induction d) auto

lemma length_strip_zeros: "length (strip_zeros d) \<le> length d"
  by (induction d) auto

lemma byte_top_bit: "(b :: byte) AND 0x80 = 0 \<longleftrightarrow> unat b < 128"
proof -
  have "b AND 0x80 = 0 \<longleftrightarrow> \<not> bit b 7"
    using and_exp_eq_0_iff_not_bit [of b 7] by simp
  also have "\<dots> \<longleftrightarrow> unat b < 128"
  proof -
    have "bit b 7 \<longleftrightarrow> odd (unat b div 128)"
      using bit_iff_odd [of "unat b" 7] by (simp add: bit_unsigned_iff)
    moreover have "unat b div 128 = 0 \<or> unat b div 128 = 1"
      using unat_byte_less [of b] by linarith
    ultimately show ?thesis by auto
  qed
  finally show ?thesis .
qed

subsection \<open>Properties\<close>

text \<open>A string written by \<open>WStr\<close> into a buffer with room for it is read back by \<open>RStr\<close> exactly,
  whatever follows it in the packet, and the reader is left at what follows.\<close>
theorem string_roundtrip:
  assumes "length d < 2 ^ 32" and "4 + length d \<le> n"
  shows "fst (RStr (RInit (wdata (WStr (WInit n) d) @ t))) = d \<and>
         rest (snd (RStr (RInit (wdata (WStr (WInit n) d) @ t)))) = Some t"
  using assms by (intro str_codec.put_get) simp_all

theorem string_roundtrip_witness:
  "fst (RStr (RInit (wdata (WStr (WInit 8) [1, 2, 3]) @ [9]))) = [1, 2, 3] \<and>
   rest (snd (RStr (RInit (wdata (WStr (WInit 8) [1, 2, 3]) @ [9])))) = Some [9]"
  by (rule string_roundtrip) simp_all

text \<open>No reader can leave the packet: whatever bytes arrive and wherever the reader stands inside
  them, \<open>RByte\<close>, \<open>RU32\<close> and \<open>RStr\<close> keep the position inside the packet, and without an error the
  string they return is a slice of the packet that ends at the new position.\<close>
theorem readers_stay_inside:
  assumes "rbuf_wf r"
  shows "rbuf_wf (snd (RByte r)) \<and> rbuf_wf (snd (RU32 r)) \<and> rbuf_wf (snd (RStr r)) \<and>
    (rerr (snd (RStr r)) \<or>
       (let d = fst (RStr r) in rpos (snd (RStr r)) = rpos r + 4 + length d \<and>
          d = bslice (rpos r + 4) (length d) (rdata r) \<and> rpos r + 4 + length d \<le> length (rdata r)))"
proof -
  have "rerr (snd (RStr r)) \<or> (let d = fst (RStr r) in rpos (snd (RStr r)) = rpos r + 4 + length d \<and>
          d = bslice (rpos r + 4) (length d) (rdata r) \<and> rpos r + 4 + length d \<le> length (rdata r))"
    by (auto simp: RStr_def RU32_def Let_def)
  with readers_wf [OF assms] show ?thesis by blast
qed

theorem readers_stay_inside_witness:
  "rbuf_wf (snd (RStr (RInit [0, 0, 1, 0, 65])))"
  using readers_stay_inside [OF RInit_simps(2) [of "[0, 0, 1, 0, 65]"]] by blast

text \<open>\<open>WMpint\<close> writes the canonical \<open>mpint\<close> of RFC 4251: the length field counts the body, the
  body has the value of the argument, is never negative (its top bit is clear), and carries a
  leading zero byte only when the next byte has its top bit set; zero is the empty string.\<close>
theorem mpint_canonical:
  assumes "length d + 5 \<le> n" and "length d < 2 ^ 31"
  shows "\<exists>body. wdata (WMpint (WInit n) d) = PutU32 (of_nat (length body)) @ body \<and>
    \<not> werr (WMpint (WInit n) d) \<and> be_val body = be_val d \<and>
    (body = [] \<or> unat (hd body) < 128 \<and> (hd body = 0 \<longrightarrow> (\<exists>b bs. body = 0 # b # bs \<and> 128 \<le> unat b)))"
proof -
  let ?s = "strip_zeros d"
  have l: "length ?s \<le> length d" by (rule length_strip_zeros)
  have e: "WMpint (WInit n) d = \<lparr>wdata = enc_mpint d, wcap = n, werr = False\<rparr>"
    using assms l by (intro appends_WInit [OF appends_WMpint]) (simp add: enc_mpint_def Let_def)
  show ?thesis
  proof (cases "?s \<noteq> [] \<and> hd ?s AND 0x80 \<noteq> 0")
    case True
    then obtain b bs where s: "?s = b # bs" "128 \<le> unat b" by (cases ?s) (auto simp: byte_top_bit)
    show ?thesis
      by (rule exI [of _ "0 # ?s"]) (use True s e strip_zeros_value [of d] in \<open>simp add: enc_mpint_def\<close>)
  next
    case False
    show ?thesis
      by (rule exI [of _ ?s])
        (use False e strip_zeros_value [of d] strip_zeros_hd [of d] in
          \<open>auto simp: enc_mpint_def enc_str_def Let_def byte_top_bit\<close>)
  qed
qed

theorem mpint_canonical_witness:
  "\<exists>body. wdata (WMpint (WInit 37) [0, 0, 200, 1]) = PutU32 (of_nat (length body)) @ body \<and>
    \<not> werr (WMpint (WInit 37) [0, 0, 200, 1]) \<and> be_val body = be_val [0, 0, 200, 1] \<and>
    (body = [] \<or> unat (hd body) < 128 \<and> (hd body = 0 \<longrightarrow> (\<exists>b bs. body = 0 # b # bs \<and> 128 \<le> unat b)))"
  by (rule mpint_canonical) simp_all

end
