(* ===== verification/Algs.thy ===== *)
theory Algs
  imports Wire
begin

text \<open>
  Algorithm names and their negotiation primitives (\<^verbatim>\<open>ssh.c\<close>, \<^verbatim>\<open>NameIs\<close> to \<^verbatim>\<open>MacLenOf\<close>
  and the five algorithm lists). A pointer into a name list together with a length is the
  list of bytes it denotes; \<^verbatim>\<open>NULL\<close> is \<open>None\<close>.
\<close>

definition KEX_ALGS :: string where
  "KEX_ALGS = ''curve25519-sha256,curve25519-sha256@libssh.org''"

definition HOSTKEY_ALGS :: string where
  "HOSTKEY_ALGS = ''ssh-ed25519''"

definition ENC_ALGS :: string where
  "ENC_ALGS = ''aes128-ctr,aes256-ctr,aes192-ctr''"

definition MAC_ALGS :: string where
  "MAC_ALGS = ''hmac-sha2-256,hmac-sha2-512''"

definition COMP_ALGS :: string where
  "COMP_ALGS = ''none''"

text \<open>The hash identifiers of wolfCrypt the code uses; a zeroed field is neither.\<close>

datatype mac_type = MAC_ZERO | WC_SHA256 | WC_SHA512

definition comma :: byte where
  "comma = 44"

definition NameIs :: "bytes \<Rightarrow> string \<Rightarrow> bool" where
  "NameIs n s \<longleftrightarrow> length s = length n \<and> n = bytes_of s"

text \<open>One entry of a list, and what follows it from its comma on.\<close>

abbreviation entry :: "bytes \<Rightarrow> bytes" where
  "entry xs \<equiv> takeWhile (\<lambda>b. b \<noteq> comma) xs"

abbreviation after :: "bytes \<Rightarrow> bytes" where
  "after xs \<equiv> dropWhile (\<lambda>b. b \<noteq> comma) xs"

lemma after_ConsD: "after xs = c # ys \<Longrightarrow> c = comma \<and> length ys < length xs"
proof -
  assume a: "after xs = c # ys"
  have "c = comma" using a hd_dropWhile [of "\<lambda>b. b \<noteq> comma" xs] by auto
  moreover have "length (after xs) \<le> length xs" by (rule length_dropWhile_le)
  ultimately show ?thesis using a by simp
qed

text \<open>The outer loop of \<^verbatim>\<open>ListHas\<close>: \<open>list\<close> is what is left of the C string.\<close>

function ListHas :: "bytes \<Rightarrow> bytes \<Rightarrow> bool" where
  "ListHas list name =
     (if list = [] then False
      else if length (entry list) = length name \<and> take (length name) list = name then True
      else case after list of [] \<Rightarrow> False | _ # list' \<Rightarrow> ListHas list' name)"
  by pat_completeness auto
termination
  by (relation "measure (\<lambda>(list, name). length list)") (auto dest: after_ConsD)

declare ListHas.simps [simp del]

text \<open>The loop of \<^verbatim>\<open>PickAlg\<close>: \<open>client\<close> is the list from index \<open>i\<close> on.\<close>

function PickAlg :: "bytes \<Rightarrow> string \<Rightarrow> bytes option" where
  "PickAlg client ours =
     (if client = [] then None
      else if ListHas (bytes_of ours) (entry client) then Some (entry client)
      else case after client of [] \<Rightarrow> None | _ # client' \<Rightarrow> PickAlg client' ours)"
  by pat_completeness auto
termination
  by (relation "measure (\<lambda>(client, ours). length client)") (auto dest: after_ConsD)

declare PickAlg.simps [simp del]

definition FirstEntryLen :: "bytes \<Rightarrow> nat" where
  "FirstEntryLen list = length (entry list)"

definition EncKeyLen :: "bytes \<Rightarrow> nat" where
  "EncKeyLen n = (if NameIs n ''aes128-ctr'' then 16
                  else if NameIs n ''aes192-ctr'' then 24 else 32)"

definition MacType :: "bytes \<Rightarrow> mac_type" where
  "MacType n = (if NameIs n ''hmac-sha2-512'' then WC_SHA512 else WC_SHA256)"

definition MacLenOf :: "mac_type \<Rightarrow> nat" where
  "MacLenOf t = (if t = WC_SHA512 then 64 else 32)"

subsection \<open>Name lists\<close>

text \<open>
  The specification: RFC 4251 name lists are non-empty names without commas, joined by
  commas.
\<close>

definition is_name :: "bytes \<Rightarrow> bool" where
  "is_name n \<longleftrightarrow> n \<noteq> [] \<and> comma \<notin> set n"

fun name_list :: "bytes list \<Rightarrow> bytes" where
  "name_list [] = []"
| "name_list [n] = n"
| "name_list (n # ns) = n @ comma # name_list ns"

lemma entry_name:
  assumes "comma \<notin> set n"
  shows "entry (n @ comma # t) = n" "after (n @ comma # t) = comma # t"
    "entry n = n" "after n = []"
proof -
  have a: "\<forall>b\<in>set n. b \<noteq> comma" using assms by auto
  then show "entry (n @ comma # t) = n" "after (n @ comma # t) = comma # t"
    by (simp_all add: takeWhile_append2 dropWhile_append2)
  from a show "entry n = n" "after n = []" by (auto simp: takeWhile_eq_all_conv)
qed

lemma name_list_Nil_iff [simp]: "\<forall>n\<in>set ns. is_name n \<Longrightarrow> name_list ns = [] \<longleftrightarrow> ns = []"
  by (induction ns rule: name_list.induct) (auto simp: is_name_def)

lemma entry_self: "length (entry xs) = length n \<Longrightarrow> take (length n) xs = n \<longleftrightarrow> entry xs = n"
  by (metis takeWhile_eq_take)

lemma ListHas_name_list:
  assumes "\<forall>n\<in>set ns. is_name n" and "is_name x"
  shows "ListHas (name_list ns) x \<longleftrightarrow> x \<in> set ns"
  using assms
proof (induction ns rule: name_list.induct)
  case 1
  then show ?case by (simp add: ListHas.simps)
next
  case (2 n)
  then show ?case
    by (auto simp: ListHas.simps [of n] is_name_def entry_name)
next
  case (3 n m ns)
  let ?l = "n @ comma # name_list (m # ns)"
  have c: "comma \<notin> set n" using "3.prems" by (simp add: is_name_def)
  have "ListHas ?l x \<longleftrightarrow> n = x \<or> ListHas (name_list (m # ns)) x"
    using ListHas.simps [of ?l x] entry_name(1,2) [OF c, of "name_list (m # ns)"]
      entry_self [of ?l x] by auto
  with 3 show ?case by auto
qed

text \<open>First entry of the client's list that is also ours, as RFC 4253 section 7.1 asks.\<close>

lemma PickAlg_name_list:
  assumes "\<forall>n\<in>set cs. is_name n" and "\<forall>n\<in>set os. is_name n"
    and "bytes_of ours = name_list os"
  shows "PickAlg (name_list cs) ours = find (\<lambda>c. c \<in> set os) cs"
  using assms(1)
proof (induction cs rule: name_list.induct)
  case 1
  then show ?case by (simp add: PickAlg.simps)
next
  case (2 n)
  then show ?case
    using assms(2,3) ListHas_name_list [of os n]
    by (auto simp: PickAlg.simps [of n] is_name_def entry_name)
next
  case (3 n m ns)
  let ?l = "n @ comma # name_list (m # ns)"
  have c: "comma \<notin> set n" and n: "is_name n" using "3.prems" by (simp_all add: is_name_def)
  have "PickAlg ?l ours = (if n \<in> set os then Some n else PickAlg (name_list (m # ns)) ours)"
    using PickAlg.simps [of ?l ours] entry_name(1,2) [OF c, of "name_list (m # ns)"]
      ListHas_name_list [OF assms(2) n] assms(3) by auto
  with 3 show ?case by simp
qed

text \<open>Whatever the client sends, a pick is one of ours and comes from the client's list.\<close>

lemma ListHas_in:
  assumes "\<forall>n\<in>set os. is_name n" and "ListHas (name_list os) x" and "comma \<notin> set x"
  shows "x \<in> set os"
  using assms
proof (induction os rule: name_list.induct)
  case 1
  then show ?case by (simp add: ListHas.simps)
next
  case (2 n)
  then show ?case
    by (auto simp: ListHas.simps [of n] is_name_def entry_name split: if_splits)
next
  case (3 n m ns)
  let ?l = "n @ comma # name_list (m # ns)"
  have c: "comma \<notin> set n" using "3.prems" by (simp add: is_name_def)
  have "ListHas ?l x \<Longrightarrow> n = x \<or> ListHas (name_list (m # ns)) x"
    using ListHas.simps [of ?l x] entry_name(1,2) [OF c, of "name_list (m # ns)"]
      entry_self [of ?l x] by (auto split: if_splits)
  with 3 show ?case by auto
qed


lemma PickAlg_some_ListHas:
  "PickAlg client ours = Some x \<Longrightarrow> ListHas (bytes_of ours) x \<and> comma \<notin> set x"
proof (induction client ours rule: PickAlg.induct)
  case (1 client ours)
  from "1.prems" have e: "client \<noteq> []" by (auto simp: PickAlg.simps)
  show ?case
  proof (cases "ListHas (bytes_of ours) (entry client)")
    case True
    with "1.prems" e have "x = entry client" by (simp add: PickAlg.simps [of client])
    with True show ?thesis by (auto dest: set_takeWhileD)
  next
    case False
    with "1.prems" e obtain c cs where "after client = c # cs" and "PickAlg cs ours = Some x"
      by (auto simp: PickAlg.simps [of client] split: list.splits)
    with "1.IH" [OF e False] show ?thesis by blast
  qed
qed

lemma PickAlg_some:
  "\<forall>n\<in>set os. is_name n \<Longrightarrow> bytes_of ours = name_list os \<Longrightarrow>
   PickAlg client ours = Some x \<Longrightarrow> x \<in> set os"
  using PickAlg_some_ListHas [of client ours x] ListHas_in [of os x] by auto

text \<open>The server's own lists as name lists.\<close>

definition enc_names :: "bytes list" where
  "enc_names = map bytes_of [''aes128-ctr'', ''aes256-ctr'', ''aes192-ctr'']"

definition mac_names :: "bytes list" where
  "mac_names = map bytes_of [''hmac-sha2-256'', ''hmac-sha2-512'']"

definition kex_names :: "bytes list" where
  "kex_names = map bytes_of [''curve25519-sha256'', ''curve25519-sha256@libssh.org'']"

lemma own_lists:
  "bytes_of ENC_ALGS = name_list enc_names" "bytes_of MAC_ALGS = name_list mac_names"
  "bytes_of KEX_ALGS = name_list kex_names"
  "bytes_of HOSTKEY_ALGS = name_list [bytes_of ''ssh-ed25519'']"
  "bytes_of COMP_ALGS = name_list [bytes_of ''none'']"
  by (simp_all add: ENC_ALGS_def MAC_ALGS_def KEX_ALGS_def HOSTKEY_ALGS_def COMP_ALGS_def
      enc_names_def mac_names_def kex_names_def comma_def)

lemma own_names:
  "\<forall>n\<in>set enc_names. is_name n" "\<forall>n\<in>set mac_names. is_name n" "\<forall>n\<in>set kex_names. is_name n"
  "is_name (bytes_of ''ssh-ed25519'')" "is_name (bytes_of ''none'')"
  by (simp_all add: enc_names_def mac_names_def kex_names_def is_name_def comma_def)

lemma EncKeyLen_in: "EncKeyLen x \<in> {16, 24, 32}"
  by (simp add: EncKeyLen_def)

lemma MacType_in: "MacType x \<in> {WC_SHA256, WC_SHA512}"
  by (simp add: MacType_def)

lemma MacLenOf_cases: "MacLenOf t \<in> {32, 64}"
  by (simp add: MacLenOf_def)

subsection \<open>Properties\<close>

text \<open>Algorithm choice follows RFC 4253 section 7.1: for a client name list, \<open>PickAlg\<close> returns the first
  name of the client's list that the server's list contains, and nothing if there is none.\<close>
theorem PickAlg_first_common:
  assumes "\<forall>n\<in>set cs. is_name n" and "\<forall>n\<in>set os. is_name n" and "bytes_of ours = name_list os"
  shows "PickAlg (name_list cs) ours = find (\<lambda>c. c \<in> set os) cs"
  by (rule PickAlg_name_list [OF assms])

theorem PickAlg_first_common_witness:
  "PickAlg (name_list (map bytes_of [''aes128-gcm'', ''aes256-ctr'', ''aes128-ctr''])) ENC_ALGS =
     Some (bytes_of ''aes256-ctr'')"
  using PickAlg_first_common [of "map bytes_of [''aes128-gcm'', ''aes256-ctr'', ''aes128-ctr'']" enc_names ENC_ALGS]
  by (simp add: own_lists own_names) (simp add: is_name_def enc_names_def comma_def)

end
