(* ===== verification/Ring.thy ===== *)
theory Ring
  imports Prelude
begin

text \<open>
  Ring buffers with a head and a tail index, one slot always left free. The program has two:
  the channel input ring of \<^verbatim>\<open>ssh.c\<close> and the key ring of \<^verbatim>\<open>ConsoleShim.c\<close>. This theory
  holds what they share: the list a ring stands for, how writing at the head and advancing
  the tail change it, and the interface \<open>ring_queue\<close>, a bounded queue that drops what does
  not fit, which both rings interpret.
\<close>

definition ring_count :: "nat \<Rightarrow> nat \<Rightarrow> nat \<Rightarrow> nat" where
  "ring_count cap h t = (h + cap - t) mod cap"

definition ring_list :: "nat \<Rightarrow> (nat \<Rightarrow> 'a) \<Rightarrow> nat \<Rightarrow> nat \<Rightarrow> 'a list" where
  "ring_list cap a h t = map (\<lambda>i. a ((t + i) mod cap)) [0..<ring_count cap h t]"

lemma length_ring_list [simp]: "length (ring_list cap a h t) = ring_count cap h t"
  by (simp add: ring_list_def)

lemma ring_count_less: "0 < cap \<Longrightarrow> ring_count cap h t < cap"
  by (simp add: ring_count_def)

lemma ring_count_cases:
  "h < cap \<Longrightarrow> t < cap \<Longrightarrow> ring_count cap h t = (if t \<le> h then h - t else h + cap - t)"
  by (auto simp: ring_count_def mod_if)

lemma ring_next_cases: "h < cap \<Longrightarrow> Suc h mod cap = (if Suc h = cap then 0 else Suc h)"
  for h :: nat
  by auto

lemma ring_add_cases:
  "t < cap \<Longrightarrow> i < cap \<Longrightarrow> (t + i) mod cap = (if t + i < cap then t + i else t + i - cap)"
  for t i :: nat
  by (simp add: mod_if [of "t + i"] mod_if [of "t + i - cap"])

lemma ring_full_iff:
  "h < cap \<Longrightarrow> t < cap \<Longrightarrow> (h + 1) mod cap = t \<longleftrightarrow> ring_count cap h t + 1 = cap"
  by (auto simp: ring_count_cases ring_next_cases)

lemma ring_empty_iff:
  "h < cap \<Longrightarrow> t < cap \<Longrightarrow> h = t \<longleftrightarrow> ring_list cap a h t = []"
  by (auto simp: ring_list_def ring_count_cases)

lemma ring_push_count:
  "h < cap \<Longrightarrow> t < cap \<Longrightarrow> (h + 1) mod cap \<noteq> t \<Longrightarrow>
   ring_count cap ((h + 1) mod cap) t = ring_count cap h t + 1"
  by (auto simp: ring_count_cases ring_next_cases)

lemma ring_index: "h < cap \<Longrightarrow> t < cap \<Longrightarrow> (t + ring_count cap h t) mod cap = h"
  using ring_add_cases [of t cap "ring_count cap h t"] ring_count_less [of cap h t]
  by (auto simp: ring_count_cases split: if_splits)

lemma ring_index_ne:
  "h < cap \<Longrightarrow> t < cap \<Longrightarrow> i < ring_count cap h t \<Longrightarrow> (t + i) mod cap \<noteq> h"
  using ring_add_cases [of t cap i] by (auto simp: ring_count_cases split: if_splits)

lemma ring_list_push:
  assumes "h < cap" and "t < cap" and "(h + 1) mod cap \<noteq> t"
  shows "ring_list cap (a(h := x)) ((h + 1) mod cap) t = ring_list cap a h t @ [x]"
proof -
  have "map (\<lambda>i. (a(h := x)) ((t + i) mod cap)) [0..<ring_count cap h t] = ring_list cap a h t"
    using ring_index_ne [OF assms(1,2)] by (auto simp: ring_list_def)
  then show ?thesis
    using ring_push_count [OF assms] ring_index [OF assms(1,2)] by (simp add: ring_list_def)
qed

lemma ring_list_pop:
  assumes "h < cap" and "t < cap" and "h \<noteq> t"
  shows "ring_list cap a h t = a t # ring_list cap a h ((t + 1) mod cap)"
proof -
  have c: "ring_count cap h t = Suc (ring_count cap h ((t + 1) mod cap))"
    using assms by (auto simp: ring_count_cases ring_next_cases)
  have "(t + Suc i) mod cap = ((t + 1) mod cap + i) mod cap" for i
    by (simp add: mod_add_left_eq)
  then show ?thesis
    using assms(2) by (simp add: ring_list_def c upt_conv_Cons map_Suc_upt [symmetric] comp_def
        del: upt_Suc)
qed

subsection \<open>The bounded queue interface\<close>

locale ring_queue =
  fixes push1 :: "'a \<Rightarrow> 's \<Rightarrow> 's"
    and pop1 :: "'s \<Rightarrow> 's"
    and front :: "'s \<Rightarrow> 'a"
    and is_empty :: "'s \<Rightarrow> bool"
    and contents :: "'s \<Rightarrow> 'a list"
    and cap :: nat
    and inv :: "'s \<Rightarrow> bool"
  assumes contents_push: "inv s \<Longrightarrow>
      contents (push1 x s) = (if length (contents s) + 1 < cap then contents s @ [x] else contents s)"
    and contents_pop: "inv s \<Longrightarrow> \<not> is_empty s \<Longrightarrow> contents s = front s # contents (pop1 s)"
    and empty_iff: "inv s \<Longrightarrow> is_empty s \<longleftrightarrow> contents s = []"
    and bounded: "inv s \<Longrightarrow> length (contents s) < cap"
    and inv_push: "inv s \<Longrightarrow> inv (push1 x s)"
    and inv_pop: "inv s \<Longrightarrow> \<not> is_empty s \<Longrightarrow> inv (pop1 s)"
begin

lemma inv_pushes: "inv s \<Longrightarrow> inv (fold push1 xs s)"
  by (induction xs arbitrary: s) (auto intro: inv_push)

text \<open>Pushing a block keeps the order and drops exactly what does not fit.\<close>

lemma contents_pushes:
  "inv s \<Longrightarrow> contents (fold push1 xs s) = contents s @ take (cap - 1 - length (contents s)) xs"
proof (induction xs arbitrary: s)
  case Nil
  then show ?case by simp
next
  case (Cons x xs)
  show ?case
  proof (cases "length (contents s) + 1 < cap")
    case True
    then have "cap - 1 - length (contents s) = Suc (cap - 1 - length (contents (push1 x s)))"
      using contents_push [OF Cons.prems] by simp
    with True Cons.IH [OF inv_push [OF Cons.prems]] contents_push [OF Cons.prems]
    show ?thesis by simp
  next
    case False
    with Cons.IH [OF inv_push [OF Cons.prems]] contents_push [OF Cons.prems]
    show ?thesis by simp
  qed
qed

lemma contents_pushes_fit:
  "inv s \<Longrightarrow> length (contents s) + length xs < cap \<Longrightarrow> contents (fold push1 xs s) = contents s @ xs"
  using contents_pushes [of s xs] by simp

lemma pop_fifo:
  assumes "inv s" and "contents s = x # xs"
  shows "front s = x \<and> contents (pop1 s) = xs \<and> inv (pop1 s)"
proof -
  have "\<not> is_empty s" using assms empty_iff by simp
  with contents_pop [OF assms(1)] inv_pop [OF assms(1)] assms(2) show ?thesis by simp
qed

end

end
