(* ===== verification/Clock.thy ===== *)
theory Clock
  imports Prelude
begin

text \<open>
  The firmware services the program reaches through \<^verbatim>\<open>gBS\<close> and \<^verbatim>\<open>gRT\<close>, and the runtime glue
  of \<^verbatim>\<open>uefirt.c\<close> that every component uses: the wall clock \<open>RtNow\<close>, the timeout check
  \<open>RtTimedOut\<close>, and the 16-byte aligned allocator \<open>RtAlloc\<close>. The state of the
  machine outside the program is a type variable \<open>'w\<close>; a firmware call may change it.
\<close>

record efi_time =
  Year :: nat
  Month :: nat
  Day :: nat
  Hour :: nat
  Minute :: nat
  Second :: nat
  Nanosecond :: nat

text \<open>
  \<open>GetTime\<close> is \<open>None\<close> when the call fails, \<open>AllocatePool\<close> is the block's address or
  \<open>None\<close> on an error status.
\<close>

record 'w firmware =
  GetTime :: "'w \<Rightarrow> efi_time option \<times> 'w"
  Stall :: "nat \<Rightarrow> 'w \<Rightarrow> 'w"
  AllocatePool :: "nat \<Rightarrow> 'w \<Rightarrow> u64 option \<times> 'w"

record 'w pool_firmware = "'w firmware" +
  FreePool :: "u64 \<Rightarrow> 'w \<Rightarrow> 'w"

subsection \<open>Wall clock\<close>

definition time_secs :: "efi_time \<Rightarrow> nat" where
  "time_secs t = (Year t * 372 + Month t * 31 + Day t) * 86400
               + Hour t * 3600 + Minute t * 60 + Second t"

definition RtNow :: "('w, 'z) firmware_scheme \<Rightarrow> 'w \<Rightarrow> nat \<times> 'w" where
  "RtNow fw w = (case GetTime fw w of
      (None, w') \<Rightarrow> (0, w')
    | (Some t, w') \<Rightarrow> (time_secs t, w'))"

text \<open>
  \<open>(spins & 63) == 0\<close> and \<open>startSec != 0\<close> guard the clock read; the spin count is the
  fallback. The products stay far below \<open>2 ^ 64\<close> for every caller's constants.
\<close>

definition RtTimedOut :: "('w, 'z) firmware_scheme \<Rightarrow> nat \<Rightarrow> nat \<Rightarrow> nat \<Rightarrow> nat \<Rightarrow> 'w \<Rightarrow> bool \<times> 'w" where
  "RtTimedOut fw startSec spins usPerSpin limitMs w =
     (let (byClock, w') =
        (if startSec \<noteq> 0 \<and> spins mod 64 = 0
         then (let (now, w1) = RtNow fw w in
               (now \<noteq> 0 \<and> startSec < now \<and> limitMs + 1000 < (now - startSec) * 1000, w1))
         else (False, w))
      in if byClock then (True, w') else (limitMs * 1000 * 4 < spins * usPerSpin, w'))"

text \<open>The fields of a valid \<^verbatim>\<open>EFI_TIME\<close> and its calendar order.\<close>

definition valid_time :: "efi_time \<Rightarrow> bool" where
  "valid_time t \<longleftrightarrow> 1 \<le> Month t \<and> Month t \<le> 12 \<and> 1 \<le> Day t \<and> Day t \<le> 31
     \<and> Hour t < 24 \<and> Minute t < 60 \<and> Second t < 60"

definition time_before :: "efi_time \<Rightarrow> efi_time \<Rightarrow> bool" where
  "time_before s t \<longleftrightarrow>
     Year s < Year t \<or> Year s = Year t \<and> (Month s < Month t \<or> Month s = Month t \<and>
    (Day s < Day t \<or> Day s = Day t \<and> (Hour s < Hour t \<or> Hour s = Hour t \<and>
    (Minute s < Minute t \<or> Minute s = Minute t \<and> Second s < Second t))))"

definition day_number :: "efi_time \<Rightarrow> nat" where
  "day_number t = Year t * 372 + Month t * 31 + Day t"

definition day_second :: "efi_time \<Rightarrow> nat" where
  "day_second t = Hour t * 3600 + Minute t * 60 + Second t"

lemma time_secs_split: "time_secs t = day_number t * 86400 + day_second t"
  by (simp add: time_secs_def day_number_def day_second_def)

lemma day_second_less: "valid_time t \<Longrightarrow> day_second t < 86400"
  by (simp add: valid_time_def day_second_def)

lemma time_secs_less_iff:
  assumes "valid_time s" and "valid_time t"
  shows "time_secs s < time_secs t \<longleftrightarrow>
    day_number s < day_number t \<or> day_number s = day_number t \<and> day_second s < day_second t"
  using day_second_less [OF assms(1)] day_second_less [OF assms(2)]
  unfolding time_secs_split by linarith

lemma day_number_less_iff:
  assumes "valid_time s" and "valid_time t"
  shows "day_number s < day_number t \<longleftrightarrow>
    Year s < Year t \<or> Year s = Year t \<and> (Month s < Month t \<or> Month s = Month t \<and> Day s < Day t)"
  using assms unfolding day_number_def valid_time_def by (simp, linarith)

lemma day_number_eq_iff:
  assumes "valid_time s" and "valid_time t"
  shows "day_number s = day_number t \<longleftrightarrow> Year s = Year t \<and> Month s = Month t \<and> Day s = Day t"
proof
  assume "day_number s = day_number t"
  with day_number_less_iff [OF assms] day_number_less_iff [OF assms(2,1)]
  show "Year s = Year t \<and> Month s = Month t \<and> Day s = Day t"
    by (metis less_irrefl linorder_neqE_nat)
qed (simp add: day_number_def)

lemma day_second_less_iff:
  assumes "valid_time s" and "valid_time t"
  shows "day_second s < day_second t \<longleftrightarrow>
    Hour s < Hour t \<or> Hour s = Hour t \<and> (Minute s < Minute t \<or> Minute s = Minute t \<and> Second s < Second t)"
  using assms unfolding day_second_def valid_time_def by (simp, linarith)

lemma time_secs_order:
  "valid_time s \<Longrightarrow> valid_time t \<Longrightarrow> time_secs s < time_secs t \<longleftrightarrow> time_before s t"
  unfolding time_secs_less_iff day_number_less_iff day_number_eq_iff day_second_less_iff
    time_before_def by blast

subsection \<open>Timeouts\<close>

text \<open>Four times the limit in spins always ends a wait, whatever the clock says.\<close>

lemma RtTimedOut_spins:
  "limitMs * 4000 < spins * us \<Longrightarrow> fst (RtTimedOut fw start spins us limitMs w)"
  by (simp add: RtTimedOut_def Let_def split: prod.split)

text \<open>With a failing clock, the spin count alone decides.\<close>

lemma RtTimedOut_no_clock:
  "start = 0 \<Longrightarrow> RtTimedOut fw start spins us limitMs w = (limitMs * 4000 < spins * us, w)"
  by (simp add: RtTimedOut_def mult.commute)

subsection \<open>Aligned allocation\<close>

text \<open>The raw pointer is kept in the eight bytes before the block handed out.\<close>

definition align_raw :: "u64 \<Rightarrow> u64" where
  "align_raw raw = (raw + 16 + 15) AND NOT 15"

text \<open>
  A heap block as a program variable that points to it: the pointer handed out, and the pool
  pointer \<^verbatim>\<open>((void **)p)[-1]\<close> saved in front of it. \<^verbatim>\<open>NULL\<close> is \<open>(0, 0)\<close>.
\<close>

type_synonym block = "u64 \<times> u64"

definition RtAlloc_block :: "('w, 'z) firmware_scheme \<Rightarrow> nat \<Rightarrow> 'w \<Rightarrow> block \<times> 'w" where
  "RtAlloc_block fw n w = (let sz = (if n = 0 then 1 else n) in
     case AllocatePool fw (sz + 32) w of
       (None, w') \<Rightarrow> ((0, 0), w')
     | (Some raw, w') \<Rightarrow> if raw = 0 then ((0, 0), w') else ((align_raw raw, raw), w'))"

definition RtFree_block :: "('w, 'z) pool_firmware_scheme \<Rightarrow> block \<Rightarrow> 'w \<Rightarrow> 'w" where
  "RtFree_block fw b w = (if fst b \<noteq> 0 then FreePool fw (snd b) w else w)"

definition RtAlloc :: "('w, 'z) firmware_scheme \<Rightarrow> nat \<Rightarrow> 'w \<Rightarrow> u64 \<times> 'w" where
  "RtAlloc fw n w = (let sz = (if n = 0 then 1 else n) in
     case AllocatePool fw (sz + 32) w of
       (None, w') \<Rightarrow> (0, w')
     | (Some raw, w') \<Rightarrow> if raw = 0 then (0, w') else (align_raw raw, w'))"

lemma RtAlloc_block: "RtAlloc fw n w = (fst (fst (RtAlloc_block fw n w)), snd (RtAlloc_block fw n w))"
  by (simp add: RtAlloc_def RtAlloc_block_def Let_def split: prod.split option.split)

lemma align_raw_bounds:
  assumes "unat raw + 32 \<le> 2 ^ 64"
  shows "align_raw raw AND 15 = 0" and "unat raw + 16 \<le> unat (align_raw raw)"
    and "unat (align_raw raw) \<le> unat raw + 31"
proof -
  let ?x = "raw + 31"
  have x: "unat ?x = unat raw + 31" using assms by (simp add: unat_word_ariths)
  have a: "align_raw raw = ?x AND NOT 15" by (simp add: align_raw_def add.commute)
  show "align_raw raw AND 15 = 0" by (simp add: a and.assoc)
  have split: "?x = (?x AND NOT 15) + (?x AND 15)"
    by (simp add: disjunctive_add_eq_or bit_eq_iff bit_simps) blast
  have lo: "unat (?x AND 15) \<le> 15"
    using word_and_le1 [of ?x 15] by (simp add: word_le_nat_alt)
  have "?x AND NOT 15 \<le> ?x" by (rule word_and_le2)
  then have le: "unat (?x AND NOT 15) \<le> unat ?x" by (simp add: word_le_nat_alt)
  with x show "unat (align_raw raw) \<le> unat raw + 31" by (simp add: a)
  have "?x AND 15 = ?x - (?x AND NOT 15)" using split by (metis add_diff_cancel_left')
  then have "unat (?x AND 15) = unat ?x - unat (?x AND NOT 15)"
    using \<open>?x AND NOT 15 \<le> ?x\<close> by (simp add: unat_sub)
  with lo le x show "unat raw + 16 \<le> unat (align_raw raw)" by (simp add: a)
qed

subsection \<open>Properties\<close>

text \<open>The seconds \<open>RtNow\<close> reports order all valid times as the calendar does, so a timeout never sees
  the clock run backwards across the end of a day, a month or a year.\<close>
theorem RtNow_monotone:
  assumes "GetTime fw v = (Some s, v')" "GetTime fw w = (Some t, w')" "valid_time s" "valid_time t"
  shows "fst (RtNow fw v) < fst (RtNow fw w) \<longleftrightarrow> time_before s t"
  using assms time_secs_order by (simp add: RtNow_def)

definition clock_of :: "efi_time \<Rightarrow> unit firmware" where
  "clock_of t = \<lparr>GetTime = \<lambda>w. (Some t, w), Stall = \<lambda>n w. w, AllocatePool = \<lambda>n w. (None, w)\<rparr>"

abbreviation new_year :: efi_time where
  "new_year \<equiv> \<lparr>Year = 2026, Month = 1, Day = 1, Hour = 0, Minute = 0, Second = 0, Nanosecond = 0\<rparr>"

definition step_clock :: "bool firmware" where
  "step_clock = \<lparr>GetTime = \<lambda>w. (Some (if w then new_year
       else \<lparr>Year = 2025, Month = 12, Day = 31, Hour = 23, Minute = 59, Second = 59, Nanosecond = 0\<rparr>), w),
     Stall = \<lambda>n w. w, AllocatePool = \<lambda>n w. (None, w)\<rparr>"

theorem RtNow_monotone_witness: "fst (RtNow step_clock False) < fst (RtNow step_clock True)"
  using RtNow_monotone [of step_clock False
      "\<lparr>Year = 2025, Month = 12, Day = 31, Hour = 23, Minute = 59, Second = 59, Nanosecond = 0\<rparr>" False True new_year True]
  by (simp add: step_clock_def valid_time_def time_before_def)

text \<open>The seconds are not a count of elapsed seconds: months are taken as 31 days, so one second over
  the end of a 28-day February counts as more than three days. A wait that starts then and has
  spun a multiple of 64 times is reported as timed out for every limit up to three days.\<close>
theorem RtTimedOut_month_end:
  assumes "GetTime fw w = (Some \<lparr>Year = y, Month = 3, Day = 1, Hour = 0, Minute = 0, Second = 0, Nanosecond = 0\<rparr>, w')"
    and "start = time_secs \<lparr>Year = y, Month = 2, Day = 28, Hour = 23, Minute = 59, Second = 59, Nanosecond = 0\<rparr>"
    and "spins mod 64 = 0" and "limitMs \<le> 3 * 86400 * 1000 - 1000"
  shows "RtTimedOut fw start spins us limitMs w = (True, w')"
  using assms by (simp add: RtTimedOut_def RtNow_def time_secs_def)

theorem RtTimedOut_month_end_witness:
  "fst (RtTimedOut (clock_of \<lparr>Year = 2026, Month = 3, Day = 1, Hour = 0, Minute = 0, Second = 0, Nanosecond = 0\<rparr>)
     (time_secs \<lparr>Year = 2026, Month = 2, Day = 28, Hour = 23, Minute = 59, Second = 59, Nanosecond = 0\<rparr>) 64 1000 120000 ())"
  by (subst RtTimedOut_month_end [OF _ refl]) (simp_all add: clock_of_def)

text \<open>A block handed out by \<open>RtAlloc\<close> is 16-byte aligned, lies inside the pool block, and leaves eight
  bytes in front of it for the saved pool pointer and the requested size behind it.\<close>
theorem RtAlloc_aligned:
  assumes "AllocatePool fw ((if n = 0 then 1 else n) + 32) w = (Some raw, w')" and "raw \<noteq> 0"
    and "unat raw + n + 33 \<le> 2 ^ 64"
  shows "let a = fst (RtAlloc fw n w) in a AND 15 = 0 \<and> unat raw + 8 \<le> unat a - 8 \<and>
     unat a + n \<le> unat raw + (n + 32)"
  using align_raw_bounds [of raw] assms by (simp add: RtAlloc_def)

definition pool_at :: "u64 \<Rightarrow> unit firmware" where
  "pool_at a = \<lparr>GetTime = \<lambda>w. (None, w), Stall = \<lambda>n w. w, AllocatePool = \<lambda>n w. (Some a, w)\<rparr>"

theorem RtAlloc_aligned_witness:
  "let a = fst (RtAlloc (pool_at 4099) 100 ()) in a AND 15 = 0 \<and> unat (4099 :: u64) + 8 \<le> unat a - 8 \<and>
     unat a + 100 \<le> unat (4099 :: u64) + (100 + 32)"
  by (rule RtAlloc_aligned [of _ _ _ _ "()"]) (simp_all add: pool_at_def)

end
