(* ===== verification/Ssh_State.thy ===== *)
theory Ssh_State
  imports Algs Ring Clock
begin

text \<open>
  The state of one connection (\<^verbatim>\<open>struct SSH_CONN\<close> and \<^verbatim>\<open>SSH_DIR\<close> of \<^verbatim>\<open>ssh.c\<close>), the protocol
  constants, and the outside world the code calls: wolfCrypt, the transport callbacks, the
  password callback, the allocator and the clock.

  Scratch buffers (\<^verbatim>\<open>tx\<close>, \<^verbatim>\<open>pl\<close>) are filled from the start on every use and are local values
  of the operations; an array with a separate length field is the list of its valid bytes.
\<close>

definition MSG_DISCONNECT :: byte where "MSG_DISCONNECT = 1"
definition MSG_IGNORE :: byte where "MSG_IGNORE = 2"
definition MSG_UNIMPLEMENTED :: byte where "MSG_UNIMPLEMENTED = 3"
definition MSG_DEBUG :: byte where "MSG_DEBUG = 4"
definition MSG_SERVICE_REQUEST :: byte where "MSG_SERVICE_REQUEST = 5"
definition MSG_SERVICE_ACCEPT :: byte where "MSG_SERVICE_ACCEPT = 6"
definition MSG_EXT_INFO :: byte where "MSG_EXT_INFO = 7"
definition MSG_KEXINIT :: byte where "MSG_KEXINIT = 20"
definition MSG_NEWKEYS :: byte where "MSG_NEWKEYS = 21"
definition MSG_KEXDH_INIT :: byte where "MSG_KEXDH_INIT = 30"
definition MSG_KEXDH_REPLY :: byte where "MSG_KEXDH_REPLY = 31"
definition MSG_USERAUTH_REQUEST :: byte where "MSG_USERAUTH_REQUEST = 50"
definition MSG_USERAUTH_FAILURE :: byte where "MSG_USERAUTH_FAILURE = 51"
definition MSG_USERAUTH_SUCCESS :: byte where "MSG_USERAUTH_SUCCESS = 52"
definition MSG_GLOBAL_REQUEST :: byte where "MSG_GLOBAL_REQUEST = 80"
definition MSG_REQUEST_FAILURE :: byte where "MSG_REQUEST_FAILURE = 82"
definition MSG_CHANNEL_OPEN :: byte where "MSG_CHANNEL_OPEN = 90"
definition MSG_CHANNEL_OPEN_CONFIRM :: byte where "MSG_CHANNEL_OPEN_CONFIRM = 91"
definition MSG_CHANNEL_OPEN_FAILURE :: byte where "MSG_CHANNEL_OPEN_FAILURE = 92"
definition MSG_CHANNEL_WINDOW_ADJUST :: byte where "MSG_CHANNEL_WINDOW_ADJUST = 93"
definition MSG_CHANNEL_DATA :: byte where "MSG_CHANNEL_DATA = 94"
definition MSG_CHANNEL_EXTENDED_DATA :: byte where "MSG_CHANNEL_EXTENDED_DATA = 95"
definition MSG_CHANNEL_EOF :: byte where "MSG_CHANNEL_EOF = 96"
definition MSG_CHANNEL_CLOSE :: byte where "MSG_CHANNEL_CLOSE = 97"
definition MSG_CHANNEL_REQUEST :: byte where "MSG_CHANNEL_REQUEST = 98"
definition MSG_CHANNEL_SUCCESS :: byte where "MSG_CHANNEL_SUCCESS = 99"
definition MSG_CHANNEL_FAILURE :: byte where "MSG_CHANNEL_FAILURE = 100"

lemmas msg_defs =
  MSG_DISCONNECT_def MSG_IGNORE_def MSG_UNIMPLEMENTED_def MSG_DEBUG_def MSG_SERVICE_REQUEST_def
  MSG_SERVICE_ACCEPT_def MSG_EXT_INFO_def MSG_KEXINIT_def MSG_NEWKEYS_def MSG_KEXDH_INIT_def
  MSG_KEXDH_REPLY_def MSG_USERAUTH_REQUEST_def MSG_USERAUTH_FAILURE_def MSG_USERAUTH_SUCCESS_def
  MSG_GLOBAL_REQUEST_def MSG_REQUEST_FAILURE_def MSG_CHANNEL_OPEN_def MSG_CHANNEL_OPEN_CONFIRM_def
  MSG_CHANNEL_OPEN_FAILURE_def MSG_CHANNEL_WINDOW_ADJUST_def MSG_CHANNEL_DATA_def
  MSG_CHANNEL_EXTENDED_DATA_def MSG_CHANNEL_EOF_def MSG_CHANNEL_CLOSE_def MSG_CHANNEL_REQUEST_def
  MSG_CHANNEL_SUCCESS_def MSG_CHANNEL_FAILURE_def

definition DISC_PROTOCOL_ERROR :: u32 where "DISC_PROTOCOL_ERROR = 2"
definition DISC_KEY_EXCHANGE_FAILED :: u32 where "DISC_KEY_EXCHANGE_FAILED = 3"
definition DISC_MAC_ERROR :: u32 where "DISC_MAC_ERROR = 5"
definition DISC_BY_APPLICATION :: u32 where "DISC_BY_APPLICATION = 11"
definition DISC_NO_MORE_AUTH_METHODS :: u32 where "DISC_NO_MORE_AUTH_METHODS = 14"

definition SSH_MAX_PACKET :: nat where "SSH_MAX_PACKET = 35000"
definition SSH_RX_BUF :: nat where "SSH_RX_BUF = SSH_MAX_PACKET + 256"
definition SSH_TX_BUF :: nat where "SSH_TX_BUF = SSH_MAX_PACKET + 256"
definition SSH_PL_BUF :: nat where "SSH_PL_BUF = SSH_MAX_PACKET"
definition SSH_IN_RING :: nat where "SSH_IN_RING = 65536"
definition SSH_LOCAL_WINDOW :: u32 where "SSH_LOCAL_WINDOW = 32768"
definition SSH_LOCAL_MAXPKT :: u32 where "SSH_LOCAL_MAXPKT = 32768"
definition SSH_DATA_CHUNK :: nat where "SSH_DATA_CHUNK = 16384"
definition SSH_ACCEPT_TIMEOUT_MS :: nat where "SSH_ACCEPT_TIMEOUT_MS = 120000"
definition SSH_WRITE_TIMEOUT_MS :: nat where "SSH_WRITE_TIMEOUT_MS = 30000"
definition SSH_CLOSE_TIMEOUT_MS :: nat where "SSH_CLOSE_TIMEOUT_MS = 2000"
definition SSH_MAX_AUTH_TRIES :: nat where "SSH_MAX_AUTH_TRIES = 5"
definition SSH_SERVER_VERSION :: string where "SSH_SERVER_VERSION = ''SSH-2.0-UefiSshShell_0.1''"

lemmas size_defs = SSH_MAX_PACKET_def SSH_RX_BUF_def SSH_TX_BUF_def SSH_PL_BUF_def
  SSH_IN_RING_def SSH_DATA_CHUNK_def

text \<open>The sizes of the arrays inside \<^verbatim>\<open>SSH_CONN\<close>.\<close>

definition CLIENT_VERSION_CAP :: nat where "CLIENT_VERSION_CAP = 256"
definition USER_CAP :: nat where "USER_CAP = 64"

subsection \<open>Connection and key exchange states\<close>

datatype ssh_state = ST_VERSION | ST_KEX | ST_AUTH | ST_CONN | ST_CLOSED

datatype kex_state = KX_IDLE | KX_WAIT_KEXINIT | KX_WAIT_DH | KX_WAIT_NEWKEYS

text \<open>The code compares states with \<^verbatim>\<open><\<close>: the order of the C enumeration.\<close>

fun state_rank :: "ssh_state \<Rightarrow> nat" where
  "state_rank ST_VERSION = 0"
| "state_rank ST_KEX = 1"
| "state_rank ST_AUTH = 2"
| "state_rank ST_CONN = 3"
| "state_rank ST_CLOSED = 4"

lemma state_rank_inj: "state_rank s = state_rank t \<longleftrightarrow> s = t"
  by (cases s; cases t) simp_all

instantiation ssh_state :: linorder
begin

definition less_eq_ssh_state :: "ssh_state \<Rightarrow> ssh_state \<Rightarrow> bool" where
  "less_eq_ssh_state s t \<longleftrightarrow> state_rank s \<le> state_rank t"

definition less_ssh_state :: "ssh_state \<Rightarrow> ssh_state \<Rightarrow> bool" where
  "less_ssh_state s t \<longleftrightarrow> state_rank s < state_rank t"

instance
  by standard (auto simp: less_eq_ssh_state_def less_ssh_state_def state_rank_inj)

end

lemma before_auth: "s < ST_AUTH \<longleftrightarrow> s = ST_VERSION \<or> s = ST_KEX"
  by (cases s) (simp_all add: less_ssh_state_def)

subsection \<open>The outside world\<close>

text \<open>
  wolfCrypt, the transport and the password check are parameters. A wolfCrypt context (the
  random generator, a key, a hash in progress) is the memory of its C structure, a list of
  bytes; a call maps the old contents to the new ones, and \<open>None\<close> is a nonzero return code.
  \<open>rd\<close> and \<open>wr\<close> are the callbacks \<^verbatim>\<open>SSH_IO_READ\<close> and \<^verbatim>\<open>SSH_IO_WRITE\<close>: \<open>RdErr\<close> is a
  negative count, \<open>RdData\<close> carries the bytes stored in the buffer, and \<open>wr\<close> says whether it
  returned 0.
\<close>

datatype rd_result = RdErr | RdData bytes

record 'w host = "'w pool_firmware" +
  wc_InitRng :: "'w \<Rightarrow> bytes option \<times> 'w"
  wc_FreeRng :: "bytes \<Rightarrow> 'w \<Rightarrow> 'w"
  wc_RNG_GenerateBlock :: "bytes \<Rightarrow> nat \<Rightarrow> bytes option \<times> bytes"
  wc_HmacInit :: "bytes option"
  wc_HmacSetKey :: "bytes \<Rightarrow> mac_type \<Rightarrow> bytes \<Rightarrow> bytes option"
  wc_HmacUpdate :: "bytes \<Rightarrow> bytes \<Rightarrow> bytes option"
  wc_HmacFinal :: "bytes \<Rightarrow> bytes option"
  wc_AesInit :: "bytes option"
  wc_AesFree :: "bytes \<Rightarrow> 'w \<Rightarrow> 'w"
  wc_AesSetKeyDirect :: "bytes \<Rightarrow> bytes \<Rightarrow> bytes \<Rightarrow> bytes option"
  wc_AesCtrEncrypt :: "bytes \<Rightarrow> bytes \<Rightarrow> bytes option \<times> bytes"
  wc_InitSha256 :: bytes
  wc_Sha256Update :: "bytes \<Rightarrow> bytes \<Rightarrow> bytes"
  wc_Sha256Final :: "bytes \<Rightarrow> bytes"
  wc_curve25519_make_key :: "bytes \<Rightarrow> bytes option \<times> bytes"
  wc_curve25519_export_public :: "bytes \<Rightarrow> bytes option"
  wc_curve25519_import_public :: "bytes \<Rightarrow> bytes option"
  wc_curve25519_shared_secret :: "bytes \<Rightarrow> bytes \<Rightarrow> bytes option"
  wc_ed25519_init :: "bytes option"
  wc_ed25519_import_private_only :: "bytes \<Rightarrow> bytes \<Rightarrow> bytes option"
  wc_ed25519_make_public :: "bytes \<Rightarrow> bytes option"
  wc_ed25519_import_private_key :: "bytes \<Rightarrow> bytes \<Rightarrow> bytes \<Rightarrow> bytes option"
  wc_ed25519_sign_msg :: "bytes \<Rightarrow> bytes \<Rightarrow> bytes option"
  wc_ed25519_free :: "bytes \<Rightarrow> 'w \<Rightarrow> 'w"
  rd :: "'w \<Rightarrow> nat \<Rightarrow> rd_result \<times> 'w"
  wr :: "'w \<Rightarrow> bytes \<Rightarrow> bool \<times> 'w"
  auth_fn :: "bytes \<Rightarrow> bytes \<Rightarrow> bool"

subsection \<open>The connection\<close>

text \<open>The heap blocks of a connection: the structure itself and what its pointers point to.\<close>

record conn_blocks =
  blk_self :: block
  blk_clientKexInit :: block
  blk_serverKexInit :: block
  blk_rx :: block
  blk_tx :: block
  blk_pl :: block
  blk_inRing :: block

definition no_blocks :: conn_blocks where
  "no_blocks = \<lparr>blk_self = (0, 0), blk_clientKexInit = (0, 0), blk_serverKexInit = (0, 0), blk_rx = (0, 0),
     blk_tx = (0, 0), blk_pl = (0, 0), blk_inRing = (0, 0)\<rparr>"

text \<open>One direction of the encrypted transport (\<^verbatim>\<open>SSH_DIR\<close>).\<close>

record ssh_dir =
  aes :: bytes
  macKey :: bytes
  macKeyLen :: nat
  macLen :: nat
  macType :: mac_type
  active :: bool
  seq :: u32

definition dir_zero :: ssh_dir where
  "dir_zero = \<lparr>aes = [], macKey = replicate 64 0, macKeyLen = 0, macLen = 0,
    macType = MAC_ZERO, active = False, seq = 0\<rparr>"

text \<open>
  \<open>rx\<close> holds the \<open>rxLen\<close> valid bytes of the receive buffer, \<open>inRing\<close> the slots of the
  channel input ring. A pointer to a copied KEXINIT payload is the payload, empty for
  \<^verbatim>\<open>NULL\<close>; the blocks themselves are in \<open>blocks\<close>. \<open>ioCtx\<close> is the world behind the callbacks. \<open>overrun\<close> is a ghost field: it is
  set when the code copies past the end of \<open>clientVersion\<close>; from then on the behaviour of
  the C program is undefined.
\<close>

record 'w conn =
  ioCtx :: 'w
  blocks :: conn_blocks
  rng :: bytes
  rngInit :: bool
  hostKey :: bytes
  hostKeyInit :: bool
  hostPub :: bytes
  state :: ssh_state
  kex :: kex_state
  versionSent :: bool
  clientVersion :: bytes
  clientKexInit :: bytes
  serverKexInit :: bytes
  kexInitSent :: bool
  ignoreNextKexPacket :: bool
  nextEncKeyLenIn :: nat
  nextEncKeyLenOut :: nat
  nextMacTypeIn :: mac_type
  nextMacTypeOut :: mac_type
  sessionId :: bytes
  haveSessionId :: bool
  dir_in :: ssh_dir
  dir_out :: ssh_dir
  pendKey :: bytes
  pendIv :: bytes
  pendMac :: bytes
  pendKeyLen :: nat
  pendMacType :: mac_type
  rx :: bytes
  rxHaveLen :: bool
  rxPktLen :: u32
  inRing :: "nat \<Rightarrow> byte"
  inHead :: nat
  inTail :: nat
  consumed :: u32
  chanOpen :: bool
  remoteChan :: u32
  remoteWindow :: u32
  remoteMaxPkt :: u32
  shellReady :: bool
  remoteEof :: bool
  closeSent :: bool
  closeRecv :: bool
  cols :: u32
  rows :: u32
  authenticated :: bool
  authTries :: nat
  user :: bytes
  overrun :: bool

text \<open>
  The zeroed structure with the initial values of \<^verbatim>\<open>SshNew\<close> and freshly allocated buffers,
  whose contents are arbitrary: the ring's slots are a parameter.
\<close>

definition conn_zero :: "'w \<Rightarrow> (nat \<Rightarrow> byte) \<Rightarrow> 'w conn" where
  "conn_zero w ring = \<lparr>ioCtx = w, blocks = no_blocks, rng = [], rngInit = False, hostKey = [], hostKeyInit = False,
     hostPub = replicate 32 0, state = ST_VERSION, kex = KX_IDLE, versionSent = False,
     clientVersion = [], clientKexInit = [], serverKexInit = [], kexInitSent = False,
     ignoreNextKexPacket = False, nextEncKeyLenIn = 0, nextEncKeyLenOut = 0,
     nextMacTypeIn = MAC_ZERO, nextMacTypeOut = MAC_ZERO, sessionId = replicate 32 0,
     haveSessionId = False, dir_in = dir_zero, dir_out = dir_zero, pendKey = replicate 32 0,
     pendIv = replicate 16 0, pendMac = replicate 64 0, pendKeyLen = 0, pendMacType = MAC_ZERO,
     rx = [], rxHaveLen = False, rxPktLen = 0, inRing = ring, inHead = 0, inTail = 0,
     consumed = 0, chanOpen = False, remoteChan = 0, remoteWindow = 0, remoteMaxPkt = 0,
     shellReady = False, remoteEof = False, closeSent = False, closeRecv = False, cols = 80,
     rows = 25, authenticated = False, authTries = 0, user = [], overrun = False\<rparr>"

subsection \<open>Laws of wolfCrypt\<close>

text \<open>
  Documented behaviour of the library that some properties need, each a named predicate. The
  generator fills the block it was asked for; a digest has the length of its hash; counter
  mode keeps lengths; two contexts set up with the same key and counter produce the same key
  stream, which is exclusive-or'ed onto the data, and the stream continues from call to call.
\<close>

definition rng_fills :: "('w, 'z) host_scheme \<Rightarrow> bool" where
  "rng_fills h \<longleftrightarrow> (\<forall>g n bs g'. wc_RNG_GenerateBlock h g n = (Some bs, g') \<longrightarrow> length bs = n)"

definition ctr_stream :: "('w, 'z) host_scheme \<Rightarrow> bool" where
  "ctr_stream h \<longleftrightarrow> (\<forall>a d e a'. wc_AesCtrEncrypt h a d = (Some e, a') \<longrightarrow>
       length e = length d \<and> wc_AesCtrEncrypt h a e = (Some d, a') \<and>
       (\<forall>k \<le> length d. \<exists>a1. wc_AesCtrEncrypt h a (take k d) = (Some (take k e), a1) \<and>
                    wc_AesCtrEncrypt h a1 (drop k d) = (Some (drop k e), a')))"

definition hmac_len :: "('w, 'z) host_scheme \<Rightarrow> bool" where
  "hmac_len h \<longleftrightarrow> (\<forall>t key xs c0 c1 c2 m. wc_HmacInit h = Some c0 \<longrightarrow>
     wc_HmacSetKey h c0 t key = Some c1 \<longrightarrow>
     foldl (\<lambda>c x. Option.bind c (\<lambda>c. wc_HmacUpdate h c x)) (Some c1) xs = Some c2 \<longrightarrow>
     wc_HmacFinal h c2 = Some m \<longrightarrow> length m = MacLenOf t)"

end
