(* ===== verification/Sample.thy ===== *)
theory Sample
  imports Ssh_State
begin

text \<open>
  A concrete host on which the hypotheses about wolfCrypt, the transport and the firmware all
  hold: the witnesses of the properties evaluate the model on it. Its world is the list of
  chunks still to be read and the bytes written so far; its cipher is a constant key stream,
  its MAC the key and the data themselves.
\<close>

type_synonym sample_world = "bytes list \<times> bytes"

definition sample_time :: efi_time where
  "sample_time = \<lparr>Year = 2026, Month = 1, Day = 2, Hour = 3, Minute = 4, Second = 5, Nanosecond = 0\<rparr>"

definition sample_xor :: "bytes \<Rightarrow> bytes \<Rightarrow> bytes" where
  "sample_xor a d = map (\<lambda>b. b XOR (case a of [] \<Rightarrow> 0x5A | k # _ \<Rightarrow> k)) d"

definition sample_final :: "bytes \<Rightarrow> bytes option" where
  "sample_final c = (case c of [] \<Rightarrow> None | n # d \<Rightarrow> Some (take (unat n) (d @ replicate 64 0)))"

definition sample_read :: "sample_world \<Rightarrow> nat \<Rightarrow> rd_result \<times> sample_world" where
  "sample_read w n = (case fst w of
     [] \<Rightarrow> (RdData [], w)
   | x # xs \<Rightarrow> (RdData (take n x), (xs, snd w)))"

definition sample_host :: "sample_world host" where
  "sample_host = \<lparr>GetTime = \<lambda>w. (Some sample_time, w), Stall = \<lambda>n w. w,
     AllocatePool = \<lambda>n w. (Some 4096, w), FreePool = \<lambda>a w. w,
     wc_InitRng = \<lambda>w. (Some [1], w), wc_FreeRng = \<lambda>g w. w,
     wc_RNG_GenerateBlock = \<lambda>g n. (Some (replicate n 7), g),
     wc_HmacInit = Some [],
     wc_HmacSetKey = \<lambda>c t key. Some (of_nat (MacLenOf t) # key),
     wc_HmacUpdate = \<lambda>c d. Some (c @ d),
     wc_HmacFinal = sample_final,
     wc_AesInit = Some [], wc_AesFree = \<lambda>a w. w,
     wc_AesSetKeyDirect = \<lambda>a key iv. Some key,
     wc_AesCtrEncrypt = \<lambda>a d. (Some (sample_xor a d), a),
     wc_InitSha256 = [],
     wc_Sha256Update = (\<lambda>s d. s @ d),
     wc_Sha256Final = (\<lambda>s. take 32 (s @ replicate 32 0)),
     wc_curve25519_make_key = \<lambda>g. (Some (replicate 32 2), g),
     wc_curve25519_export_public = \<lambda>k. Some (replicate 32 3),
     wc_curve25519_import_public = Some,
     wc_curve25519_shared_secret = \<lambda>k p. Some (replicate 32 5),
     wc_ed25519_init = Some [],
     wc_ed25519_import_private_only = \<lambda>k s. Some s,
     wc_ed25519_make_public = \<lambda>k. Some (replicate 32 9),
     wc_ed25519_import_private_key = \<lambda>k s p. Some (s @ p),
     wc_ed25519_sign_msg = \<lambda>m k. Some (replicate 64 6), wc_ed25519_free = \<lambda>k w. w,
     rd = sample_read,
     wr = (\<lambda>w bs. (True, (fst w, snd w @ bs))),
     auth_fn = (\<lambda>u p. u = bytes_of ''admin'' \<and> p = bytes_of ''pw'')\<rparr>"

lemma sample_rng_fills: "rng_fills sample_host"
  by (simp add: rng_fills_def sample_host_def)

lemma sample_xor_xor: "sample_xor a (sample_xor a d) = d"
  by (simp add: sample_xor_def comp_def xor.assoc)

lemma sample_ctr_stream: "ctr_stream sample_host"
  by (simp add: ctr_stream_def sample_host_def sample_xor_xor)
    (simp add: sample_xor_def take_map drop_map)

lemma sample_updates:
  "foldl (\<lambda>c x. Option.bind c (\<lambda>c. Some (c @ x))) (Some c) xs = Some (c @ concat xs)"
  by (induction xs arbitrary: c) simp_all

lemma sample_hmac_len: "hmac_len sample_host"
  by (auto simp: hmac_len_def sample_host_def sample_updates sample_final_def MacLenOf_def)

end
