(* ===== verification/Packet.thy ===== *)
theory Packet
  imports Sample
begin

text \<open>
  The sending side of the binary packet protocol (\<^verbatim>\<open>SendPacket\<close>, \<^verbatim>\<open>Disconnect\<close> and
  \<^verbatim>\<open>CanSendNow\<close> of \<^verbatim>\<open>ssh.c\<close>). A C return code 0 or -1 is the integer itself. The relation
  \<open>send_rel\<close> says what sending may change; every handler's frame facts rest on it.
\<close>

subsection \<open>Sending one packet\<close>

text \<open>The padding length, and the plain packet without its random padding.\<close>

definition pad_len :: "nat \<Rightarrow> nat \<Rightarrow> nat" where
  "pad_len blk len = (let p = blk - ((5 + len) mod blk) in if p < 4 then p + blk else p)"

definition packet_head :: "nat \<Rightarrow> bytes \<Rightarrow> bytes" where
  "packet_head padLen payload =
     PutU32 (of_nat (1 + length payload + padLen)) @ of_nat padLen # payload"

text \<open>The HMAC over the sequence number and the plain packet, \<open>None\<close> if any call fails.\<close>

definition packet_mac :: "'w host \<Rightarrow> ssh_dir \<Rightarrow> bytes \<Rightarrow> bytes option" where
  "packet_mac h d tx =
     Option.bind (wc_HmacInit h) (\<lambda>c0.
     Option.bind (wc_HmacSetKey h c0 (macType d) (take (macKeyLen d) (macKey d))) (\<lambda>c1.
     Option.bind (wc_HmacUpdate h c1 (PutU32 (seq d))) (\<lambda>c2.
     Option.bind (wc_HmacUpdate h c2 tx) (\<lambda>c3.
     wc_HmacFinal h c3))))"

text \<open>The end of \<^verbatim>\<open>SendPacket\<close>: count the packet, hand the bytes to the transport.\<close>

definition send_wire :: "'w host \<Rightarrow> bytes \<Rightarrow> 'w conn \<Rightarrow> int \<times> 'w conn" where
  "send_wire h bs c =
     (let c1 = c\<lparr>dir_out := (dir_out c)\<lparr>seq := seq (dir_out c) + 1\<rparr>\<rparr>;
          (ok, w) = wr h (ioCtx c1) bs;
          c2 = c1\<lparr>ioCtx := w\<rparr>
      in if ok then (0, c2) else (- 1, c2\<lparr>state := ST_CLOSED\<rparr>))"

text \<open>The part after the padding is drawn: \<open>tx\<close> is the plain packet in the transmit buffer.\<close>

definition seal_and_send :: "'w host \<Rightarrow> bytes \<Rightarrow> 'w conn \<Rightarrow> int \<times> 'w conn" where
  "seal_and_send h tx c =
     (if active (dir_out c)
      then (case packet_mac h (dir_out c) tx of
              None \<Rightarrow> (- 1, c)
            | Some mac \<Rightarrow>
                (case wc_AesCtrEncrypt h (aes (dir_out c)) tx of
                   (None, a) \<Rightarrow> (- 1, c\<lparr>dir_out := (dir_out c)\<lparr>aes := a\<rparr>\<rparr>)
                 | (Some ct, a) \<Rightarrow>
                     send_wire h (ct @ take (macLen (dir_out c)) mac)
                       (c\<lparr>dir_out := (dir_out c)\<lparr>aes := a\<rparr>\<rparr>)))
      else send_wire h tx c)"

definition SendPacket :: "'w host \<Rightarrow> bytes \<Rightarrow> 'w conn \<Rightarrow> int \<times> 'w conn" where
  "SendPacket h payload c =
     (let blk = (if active (dir_out c) then 16 else 8); len = length payload in
      if state c = ST_CLOSED \<or> len + 64 > SSH_MAX_PACKET then (- 1, c)
      else
        (let padLen = pad_len blk len; head = packet_head padLen payload in
         case wc_RNG_GenerateBlock h (rng c) padLen of
           (None, g) \<Rightarrow> (- 1, c\<lparr>rng := g\<rparr>)
         | (Some pad, g) \<Rightarrow> seal_and_send h (head @ pad) (c\<lparr>rng := g\<rparr>)))"

definition disconnect_payload :: "u32 \<Rightarrow> string \<Rightarrow> bytes" where
  "disconnect_payload reason msg =
     wdata (WCStr (WCStr (WU32 (WByte (WInit SSH_PL_BUF) MSG_DISCONNECT) reason) msg) [])"

definition Disconnect :: "'w host \<Rightarrow> u32 \<Rightarrow> string \<Rightarrow> 'w conn \<Rightarrow> 'w conn" where
  "Disconnect h reason msg c =
     (if state c = ST_CLOSED then c
      else (snd (SendPacket h (disconnect_payload reason msg) c))\<lparr>state := ST_CLOSED\<rparr>)"

definition CanSendNow :: "'w conn \<Rightarrow> bool" where
  "CanSendNow c \<longleftrightarrow> state c = ST_CONN \<and> chanOpen c \<and> \<not> closeSent c
     \<and> (kex c = KX_IDLE \<or> kex c = KX_WAIT_NEWKEYS)"

subsection \<open>What sending changes\<close>

text \<open>
  Only the world, the random generator, the outgoing cipher and counter change, and the
  state may become closed.
\<close>

definition send_rel :: "'w conn \<Rightarrow> 'w conn \<Rightarrow> bool" where
  "send_rel c c' \<longleftrightarrow> (\<exists>w g a q s.
     c' = c\<lparr>ioCtx := w, rng := g, dir_out := (dir_out c)\<lparr>aes := a, seq := q\<rparr>, state := s\<rparr>
     \<and> (s = state c \<or> s = ST_CLOSED))"

lemma send_relI:
  "c' = c\<lparr>ioCtx := w, rng := g, dir_out := (dir_out c)\<lparr>aes := a, seq := q\<rparr>, state := s\<rparr> \<Longrightarrow>
   s = state c \<or> s = ST_CLOSED \<Longrightarrow> send_rel c c'"
  unfolding send_rel_def by blast

lemma send_relE:
  assumes "send_rel c c'"
  obtains w g a q s where
    "c' = c\<lparr>ioCtx := w, rng := g, dir_out := (dir_out c)\<lparr>aes := a, seq := q\<rparr>, state := s\<rparr>"
    "s = state c \<or> s = ST_CLOSED"
  using assms unfolding send_rel_def by blast

lemma send_rel_refl [inv_intros]: "send_rel c c"
  by (rule send_relI [where w = "ioCtx c" and g = "rng c" and a = "aes (dir_out c)"
      and q = "seq (dir_out c)" and s = "state c"]) simp_all

lemma send_rel_trans: "send_rel a b \<Longrightarrow> send_rel b c \<Longrightarrow> send_rel a c"
  unfolding send_rel_def by (elim exE conjE) (auto intro!: exI)

lemma send_rel_closed: "send_rel c c' \<Longrightarrow> send_rel c (c'\<lparr>state := ST_CLOSED\<rparr>)"
  unfolding send_rel_def by (elim exE conjE) (auto intro!: exI)

lemma send_rel_rng: "send_rel c (c\<lparr>rng := g\<rparr>)"
  by (rule send_relI [where w = "ioCtx c" and g = g and a = "aes (dir_out c)"
      and q = "seq (dir_out c)" and s = "state c"]) simp_all

lemma send_rel_aes: "send_rel c (c\<lparr>dir_out := (dir_out c)\<lparr>aes := a\<rparr>\<rparr>)"
  by (rule send_relI [where w = "ioCtx c" and g = "rng c" and a = a
      and q = "seq (dir_out c)" and s = "state c"]) simp_all

lemma send_wire_rel: "send_rel c (snd (send_wire h bs c))"
proof -
  obtain ok w where w: "wr h (ioCtx c) bs = (ok, w)" by (cases "wr h (ioCtx c) bs")
  show ?thesis
    by (rule send_relI [where w = w and g = "rng c" and a = "aes (dir_out c)"
          and q = "seq (dir_out c) + 1" and s = "if ok then state c else ST_CLOSED"])
      (auto simp: send_wire_def w Let_def)
qed

lemma seal_and_send_rel: "send_rel c (snd (seal_and_send h tx c))"
proof -
  have "send_rel c (snd (send_wire h bs (c\<lparr>dir_out := (dir_out c)\<lparr>aes := a\<rparr>\<rparr>)))" for bs a
    by (rule send_rel_trans [OF send_rel_aes send_wire_rel])
  then show ?thesis
    by (simp add: seal_and_send_def send_rel_refl send_wire_rel send_rel_aes
        split: prod.split option.split)
qed

lemma SendPacket_rel [inv_intros]: "send_rel c (snd (SendPacket h p c))"
  by (simp add: SendPacket_def Let_def send_rel_refl send_rel_rng
      send_rel_trans [OF send_rel_rng seal_and_send_rel] split: prod.split option.split)

lemma Disconnect_rel [inv_intros]: "send_rel c (Disconnect h reason msg c)"
  by (simp add: Disconnect_def send_rel_refl send_rel_closed [OF SendPacket_rel])

lemma Disconnect_closed [simp]: "state (Disconnect h reason msg c) = ST_CLOSED"
  by (simp add: Disconnect_def)

lemma send_rel_frame:
  assumes "send_rel c c'"
  shows "kex c' = kex c" "versionSent c' = versionSent c" "clientVersion c' = clientVersion c"
    "clientKexInit c' = clientKexInit c" "serverKexInit c' = serverKexInit c"
    "kexInitSent c' = kexInitSent c" "ignoreNextKexPacket c' = ignoreNextKexPacket c"
    "sessionId c' = sessionId c" "haveSessionId c' = haveSessionId c" "dir_in c' = dir_in c"
    "active (dir_out c') = active (dir_out c)" "macLen (dir_out c') = macLen (dir_out c)"
    "rx c' = rx c" "rxHaveLen c' = rxHaveLen c" "rxPktLen c' = rxPktLen c"
    "inRing c' = inRing c" "inHead c' = inHead c" "inTail c' = inTail c"
    "consumed c' = consumed c" "chanOpen c' = chanOpen c" "remoteChan c' = remoteChan c"
    "remoteWindow c' = remoteWindow c" "remoteMaxPkt c' = remoteMaxPkt c"
    "shellReady c' = shellReady c" "remoteEof c' = remoteEof c" "closeSent c' = closeSent c"
    "closeRecv c' = closeRecv c" "cols c' = cols c" "rows c' = rows c"
    "authenticated c' = authenticated c" "authTries c' = authTries c" "user c' = user c"
    "overrun c' = overrun c" "pendKeyLen c' = pendKeyLen c" "pendMacType c' = pendMacType c"
    "nextEncKeyLenIn c' = nextEncKeyLenIn c" "nextEncKeyLenOut c' = nextEncKeyLenOut c"
    "nextMacTypeIn c' = nextMacTypeIn c" "nextMacTypeOut c' = nextMacTypeOut c"
    "hostKey c' = hostKey c" "hostPub c' = hostPub c" "pendKey c' = pendKey c" "pendMac c' = pendMac c"
    "pendIv c' = pendIv c" "macType (dir_out c') = macType (dir_out c)"
    "macKey (dir_out c') = macKey (dir_out c)" "macKeyLen (dir_out c') = macKeyLen (dir_out c)"
    "state c' = state c \<or> state c' = ST_CLOSED" "blocks c' = blocks c"
  using assms by (auto elim!: send_relE)

lemmas SendPacket_frame [simp, frame] = send_rel_frame(1-47) [OF SendPacket_rel]
lemmas Disconnect_frame [simp, frame] = send_rel_frame(1-47) [OF Disconnect_rel]

lemma SendPacket_state: "state (snd (SendPacket h p c)) \<in> {state c, ST_CLOSED}"
  using send_rel_frame(48) [OF SendPacket_rel] by blast

lemma SendPacket_not_closed:
  "state (snd (SendPacket h p c)) \<noteq> ST_CLOSED \<Longrightarrow> state (snd (SendPacket h p c)) = state c"
  using SendPacket_state [of h p c] by simp

lemma SendPacket_closed: "state c = ST_CLOSED \<Longrightarrow> SendPacket h p c = (- 1, c)"
  by (simp add: SendPacket_def Let_def)

text \<open>A successful send leaves the state as it was.\<close>

lemma send_wire_ok: "fst (send_wire h bs c) = 0 \<Longrightarrow> state (snd (send_wire h bs c)) = state c"
  by (auto simp: send_wire_def Let_def split: prod.splits if_splits)

lemma seal_and_send_ok:
  "fst (seal_and_send h tx c) = 0 \<Longrightarrow> state (snd (seal_and_send h tx c)) = state c"
  by (auto simp: seal_and_send_def send_wire_ok split: prod.splits option.splits if_splits)

lemma SendPacket_ok_state:
  "fst (SendPacket h p c) = 0 \<Longrightarrow> state (snd (SendPacket h p c)) = state c"
  by (auto simp: SendPacket_def Let_def seal_and_send_ok split: prod.splits option.splits if_splits)

lemma send_wire_rc: "fst (send_wire h bs c) \<in> {0, - 1}"
  by (simp add: send_wire_def Let_def split: prod.split)

lemma seal_and_send_rc: "fst (seal_and_send h tx c) \<in> {0, - 1}"
  using send_wire_rc by (auto simp: seal_and_send_def split: prod.split option.split)

lemma SendPacket_rc: "fst (SendPacket h p c) \<in> {0, - 1}"
  using seal_and_send_rc by (auto simp: SendPacket_def Let_def split: prod.split option.split)

subsection \<open>The wire image of a packet\<close>

text \<open>What one direction puts on the wire for a payload and its padding, and its next state.\<close>

definition plain_packet :: "bytes \<Rightarrow> bytes \<Rightarrow> bytes" where
  "plain_packet payload pad = packet_head (length pad) payload @ pad"

definition wire_image :: "'w host \<Rightarrow> ssh_dir \<Rightarrow> bytes \<Rightarrow> bytes \<Rightarrow> (bytes \<times> ssh_dir) option" where
  "wire_image h d payload pad = (let tx = plain_packet payload pad in
     if active d
     then (case packet_mac h d tx of None \<Rightarrow> None
       | Some mac \<Rightarrow> (case wc_AesCtrEncrypt h (aes d) tx of
           (None, a) \<Rightarrow> None
         | (Some ct, a) \<Rightarrow> Some (ct @ take (macLen d) mac, d\<lparr>aes := a, seq := seq d + 1\<rparr>)))
     else Some (tx, d\<lparr>seq := seq d + 1\<rparr>))"

definition block_size :: "ssh_dir \<Rightarrow> nat" where
  "block_size d = (if active d then 16 else 8)"

lemma pad_len_bounds:
  assumes "blk = 8 \<or> blk = 16"
  shows "4 \<le> pad_len blk len" and "pad_len blk len \<le> blk + 3"
    and "(5 + len + pad_len blk len) mod blk = 0"
proof -
  let ?m = "(5 + len) mod blk"
  have m: "?m < blk" using assms by auto
  then show "4 \<le> pad_len blk len" "pad_len blk len \<le> blk + 3"
    using assms by (auto simp: pad_len_def Let_def)
  have "(5 + len + (blk - ?m)) mod blk = (?m + (blk - ?m)) mod blk" by (simp add: mod_add_left_eq)
  also have "\<dots> = 0" using m by simp
  finally show "(5 + len + pad_len blk len) mod blk = 0"
    by (auto simp: pad_len_def Let_def mod_add_right_eq simp flip: add.assoc)
qed

lemma send_wire_okD:
  assumes "fst (send_wire h bs c) = 0"
  obtains w where "wr h (ioCtx c) bs = (True, w)"
    and "snd (send_wire h bs c) = c\<lparr>dir_out := (dir_out c)\<lparr>seq := seq (dir_out c) + 1\<rparr>, ioCtx := w\<rparr>"
  using assms by (auto simp: send_wire_def Let_def split: prod.splits if_splits)

lemma seal_and_send_okE:
  assumes ok: "fst (seal_and_send h (plain_packet p pad) c) = 0"
  obtains wire d w where "wire_image h (dir_out c) p pad = Some (wire, d)"
    "wr h (ioCtx c) wire = (True, w)"
    "snd (seal_and_send h (plain_packet p pad) c) = c\<lparr>dir_out := d, ioCtx := w\<rparr>"
proof (cases "active (dir_out c)")
  case False
  then have eq: "seal_and_send h (plain_packet p pad) c = send_wire h (plain_packet p pad) c"
    by (simp add: seal_and_send_def)
  from send_wire_okD [OF ok [unfolded eq]] False that show thesis
    unfolding eq by (auto simp: wire_image_def Let_def)
next
  case True
  with ok obtain mac ct a where m: "packet_mac h (dir_out c) (plain_packet p pad) = Some mac"
    "wc_AesCtrEncrypt h (aes (dir_out c)) (plain_packet p pad) = (Some ct, a)"
    by (auto simp: seal_and_send_def split: option.splits prod.splits)
  with True have eq: "seal_and_send h (plain_packet p pad) c =
    send_wire h (ct @ take (macLen (dir_out c)) mac) (c\<lparr>dir_out := (dir_out c)\<lparr>aes := a\<rparr>\<rparr>)"
    by (simp add: seal_and_send_def)
  from send_wire_okD [OF ok [unfolded eq]] True m that show thesis
    unfolding eq by (auto simp: wire_image_def Let_def)
qed

text \<open>
  A send that returns 0 drew exactly the padding it needed and wrote exactly one wire image;
  nothing else of the connection changed.
\<close>

lemma SendPacket_okE:
  assumes ok: "fst (SendPacket h p c) = 0" and fills: "rng_fills h"
  obtains pad g wire d w where
    "state c \<noteq> ST_CLOSED" "length p + 64 \<le> SSH_MAX_PACKET"
    "length pad = pad_len (block_size (dir_out c)) (length p)"
    "wc_RNG_GenerateBlock h (rng c) (length pad) = (Some pad, g)"
    "wire_image h (dir_out c) p pad = Some (wire, d)"
    "wr h (ioCtx c) wire = (True, w)"
    "snd (SendPacket h p c) = c\<lparr>rng := g, dir_out := d, ioCtx := w\<rparr>"
proof -
  let ?n = "pad_len (block_size (dir_out c)) (length p)"
  have g: "state c \<noteq> ST_CLOSED" "length p + 64 \<le> SSH_MAX_PACKET"
    using ok by (auto simp: SendPacket_def Let_def split: if_splits)
  then obtain pad g' where r: "wc_RNG_GenerateBlock h (rng c) ?n = (Some pad, g')"
    using ok by (auto simp: SendPacket_def block_size_def Let_def split: prod.splits option.splits if_splits)
  have len: "length pad = ?n" using fills r by (auto simp: rng_fills_def)
  have eq: "SendPacket h p c = seal_and_send h (plain_packet p pad) (c\<lparr>rng := g'\<rparr>)"
    using g r len by (simp add: SendPacket_def Let_def block_size_def plain_packet_def)
  from seal_and_send_okE [OF ok [unfolded eq]] obtain wire d w where
    x: "wire_image h (dir_out (c\<lparr>rng := g'\<rparr>)) p pad = Some (wire, d)"
      "wr h (ioCtx (c\<lparr>rng := g'\<rparr>)) wire = (True, w)"
      "snd (SendPacket h p c) = c\<lparr>rng := g'\<rparr>\<lparr>dir_out := d, ioCtx := w\<rparr>"
    unfolding eq by metis
  from r len have r': "wc_RNG_GenerateBlock h (rng c) (length pad) = (Some pad, g')" by simp
  show thesis by (rule that [OF g len r']) (use x in simp_all)
qed

lemma length_packet_head [simp]: "length (packet_head n p) = 5 + length p"
  by (simp add: packet_head_def)

lemma length_plain_packet [simp]: "length (plain_packet p pad) = 5 + length p + length pad"
  by (simp add: plain_packet_def)

lemma ctr_streamD:
  assumes "ctr_stream h" and "wc_AesCtrEncrypt h a d = (Some e, a')"
  shows "length e = length d" and "wc_AesCtrEncrypt h a e = (Some d, a')"
  using assms unfolding ctr_stream_def by blast+

lemma ctr_stream_split:
  assumes "ctr_stream h" and "wc_AesCtrEncrypt h a d = (Some e, a')" and "k \<le> length d"
  obtains a1 where "wc_AesCtrEncrypt h a (take k d) = (Some (take k e), a1)"
    and "wc_AesCtrEncrypt h a1 (drop k d) = (Some (drop k e), a')"
  using assms unfolding ctr_stream_def by blast

lemma wire_imageE:
  assumes "wire_image h d p pad = Some (wire, d')"
  obtains (plain) "\<not> active d" "wire = plain_packet p pad" "d' = d\<lparr>seq := seq d + 1\<rparr>"
    | (sealed) mac ct a where "active d" "packet_mac h d (plain_packet p pad) = Some mac"
      "wc_AesCtrEncrypt h (aes d) (plain_packet p pad) = (Some ct, a)"
      "wire = ct @ take (macLen d) mac" "d' = d\<lparr>aes := a, seq := seq d + 1\<rparr>"
  using assms by (auto simp: wire_image_def Let_def split: if_splits option.splits prod.splits)

lemma wire_image_length:
  assumes "ctr_stream h" and "wire_image h d p pad = Some (wire, d')"
  shows "length wire \<le> 5 + length p + length pad + (if active d then macLen d else 0)"
  using assms(2) by (cases rule: wire_imageE) (auto dest: ctr_streamD(1) [OF assms(1)])

text \<open>Fields of the packet a receiver reads first.\<close>

lemma plain_packet_len_field:
  "length p + length pad < 2 ^ 32 - 1 \<Longrightarrow>
   unat (GetU32 (plain_packet p pad)) = 1 + length p + length pad"
  by (simp add: plain_packet_def packet_head_def unat_of_nat take_bit_nat_eq_self_iff
      del: of_nat_add of_nat_Suc)

lemma plain_packet_pad_field:
  "length pad < 256 \<Longrightarrow> unat (plain_packet p pad ! 4) = length pad"
  by (simp add: plain_packet_def packet_head_def nth_append unat_of_nat take_bit_nat_eq_self_iff)

lemma plain_packet_payload:
  "bslice 5 (length p) (plain_packet p pad) = p"
  by (simp add: plain_packet_def packet_head_def bslice_def)

end
