(* ===== verification/Conn_Inv.thy ===== *)
theory Conn_Inv
  imports Packet
begin

text \<open>
  The invariant of a connection, in groups of fields that are written together: the protocol
  phase, authentication and the channel, the terminal size, the two packet directions, and
  the buffers. Sending keeps it; each handler's theory shows that the handler does.
\<close>

definition phase_inv :: "'w conn \<Rightarrow> bool" where
  "phase_inv c \<longleftrightarrow>
     (state c = ST_VERSION \<longrightarrow> kex c = KX_IDLE \<and> \<not> active (dir_out c))
   \<and> (state c = ST_KEX \<longrightarrow> kex c \<noteq> KX_IDLE)
   \<and> (state c = ST_AUTH \<or> state c = ST_CONN \<longrightarrow> active (dir_in c))
   \<and> (active (dir_in c) \<longrightarrow> active (dir_out c))
   \<and> (active (dir_out c) \<longrightarrow> haveSessionId c)
   \<and> (kex c = KX_WAIT_NEWKEYS \<longrightarrow> active (dir_out c))"

definition auth_inv :: "'w conn \<Rightarrow> bool" where
  "auth_inv c \<longleftrightarrow>
     (state c = ST_CONN \<longrightarrow> authenticated c)
   \<and> (authenticated c \<longrightarrow> state c = ST_CONN \<or> state c = ST_CLOSED)
   \<and> (chanOpen c \<longrightarrow> authenticated c)
   \<and> (shellReady c \<longrightarrow> chanOpen c)
   \<and> (inHead c \<noteq> inTail c \<longrightarrow> chanOpen c)
   \<and> authTries c \<le> SSH_MAX_AUTH_TRIES
   \<and> (authTries c = SSH_MAX_AUTH_TRIES \<longrightarrow> state c = ST_CLOSED)
   \<and> length (user c) < USER_CAP"

definition dims_inv :: "'w conn \<Rightarrow> bool" where
  "dims_inv c \<longleftrightarrow> 0 < cols c \<and> cols c < 1000 \<and> 0 < rows c \<and> rows c < 1000"

definition dir_inv :: "ssh_dir \<Rightarrow> bool" where
  "dir_inv d \<longleftrightarrow> (active d \<longrightarrow> macLen d = MacLenOf (macType d) \<and> macKeyLen d = macLen d)"

definition buf_inv :: "'w conn \<Rightarrow> bool" where
  "buf_inv c \<longleftrightarrow> length (rx c) \<le> SSH_RX_BUF
   \<and> inHead c < SSH_IN_RING \<and> inTail c < SSH_IN_RING
   \<and> (rxHaveLen c \<longrightarrow> 5 \<le> unat (rxPktLen c) \<and> unat (rxPktLen c) \<le> SSH_MAX_PACKET - 4)"

definition conn_inv :: "'w conn \<Rightarrow> bool" where
  "conn_inv c \<longleftrightarrow> phase_inv c \<and> auth_inv c \<and> dims_inv c \<and> dir_inv (dir_in c)
     \<and> dir_inv (dir_out c) \<and> buf_inv c"

lemmas inv_defs = phase_inv_def auth_inv_def dims_inv_def dir_inv_def buf_inv_def

lemma conn_invI:
  "phase_inv c \<Longrightarrow> auth_inv c \<Longrightarrow> dims_inv c \<Longrightarrow> dir_inv (dir_in c) \<Longrightarrow> dir_inv (dir_out c) \<Longrightarrow>
   buf_inv c \<Longrightarrow> conn_inv c"
  by (simp add: conn_inv_def)

lemma conn_invD:
  assumes "conn_inv c"
  shows "phase_inv c" "auth_inv c" "dims_inv c" "dir_inv (dir_in c)" "dir_inv (dir_out c)" "buf_inv c"
  using assms by (simp_all add: conn_inv_def)

lemma conn_inv_zero: "conn_inv (conn_zero w ring)"
  by (simp add: conn_inv_def inv_defs conn_zero_def dir_zero_def size_defs
      SSH_MAX_AUTH_TRIES_def USER_CAP_def)

subsection \<open>Sending keeps the invariant\<close>

lemma conn_inv_send_rel:
  assumes "conn_inv c" and "send_rel c c'"
  shows "conn_inv c'"
  using assms(2)
proof (cases rule: send_relE)
  case (1 w g a q s)
  with assms(1) show ?thesis by (auto simp: conn_inv_def inv_defs)
qed

lemma conn_inv_SendPacket [inv_intros]: "conn_inv c \<Longrightarrow> conn_inv (snd (SendPacket h p c))"
  by (rule conn_inv_send_rel [OF _ SendPacket_rel])

lemma conn_inv_Disconnect [inv_intros]: "conn_inv c \<Longrightarrow> conn_inv (Disconnect h reason msg c)"
  by (rule conn_inv_send_rel [OF _ Disconnect_rel])

text \<open>Updates of fields the invariant does not mention.\<close>

lemma conn_inv_updates [simp]:
  "conn_inv (c\<lparr>ioCtx := w\<rparr>) = conn_inv c" "conn_inv (c\<lparr>blocks := bb\<rparr>) = conn_inv c"
  "conn_inv (c\<lparr>rng := g\<rparr>) = conn_inv c"
  "conn_inv (c\<lparr>serverKexInit := bs\<rparr>) = conn_inv c" "conn_inv (c\<lparr>clientKexInit := bs\<rparr>) = conn_inv c"
  "conn_inv (c\<lparr>kexInitSent := b\<rparr>) = conn_inv c"
  "conn_inv (c\<lparr>ignoreNextKexPacket := b\<rparr>) = conn_inv c"
  "conn_inv (c\<lparr>nextEncKeyLenIn := n\<rparr>) = conn_inv c" "conn_inv (c\<lparr>nextEncKeyLenOut := n\<rparr>) = conn_inv c"
  "conn_inv (c\<lparr>nextMacTypeIn := t\<rparr>) = conn_inv c" "conn_inv (c\<lparr>nextMacTypeOut := t\<rparr>) = conn_inv c"
  "conn_inv (c\<lparr>sessionId := bs\<rparr>) = conn_inv c" "conn_inv (c\<lparr>versionSent := b\<rparr>) = conn_inv c"
  "conn_inv (c\<lparr>clientVersion := bs\<rparr>) = conn_inv c" "conn_inv (c\<lparr>overrun := b\<rparr>) = conn_inv c"
  "conn_inv (c\<lparr>consumed := v\<rparr>) = conn_inv c" "conn_inv (c\<lparr>remoteChan := v\<rparr>) = conn_inv c"
  "conn_inv (c\<lparr>remoteWindow := v\<rparr>) = conn_inv c" "conn_inv (c\<lparr>remoteMaxPkt := v\<rparr>) = conn_inv c"
  "conn_inv (c\<lparr>remoteEof := b\<rparr>) = conn_inv c" "conn_inv (c\<lparr>closeSent := b\<rparr>) = conn_inv c"
  "conn_inv (c\<lparr>closeRecv := b\<rparr>) = conn_inv c" "conn_inv (c\<lparr>hostKey := bs\<rparr>) = conn_inv c"
  "conn_inv (c\<lparr>hostPub := bs\<rparr>) = conn_inv c" "conn_inv (c\<lparr>rngInit := b\<rparr>) = conn_inv c"
  "conn_inv (c\<lparr>hostKeyInit := b\<rparr>) = conn_inv c" "conn_inv (c\<lparr>inRing := a\<rparr>) = conn_inv c"
  "conn_inv (c\<lparr>pendKey := bs\<rparr>) = conn_inv c" "conn_inv (c\<lparr>pendMac := bs\<rparr>) = conn_inv c"
  "conn_inv (c\<lparr>pendIv := bs\<rparr>) = conn_inv c" "conn_inv (c\<lparr>pendKeyLen := n\<rparr>) = conn_inv c"
  "conn_inv (c\<lparr>pendMacType := t\<rparr>) = conn_inv c"
  by (simp_all add: conn_inv_def inv_defs)

lemma conn_inv_closed [inv_intros]: "conn_inv c \<Longrightarrow> conn_inv (c\<lparr>state := ST_CLOSED\<rparr>)"
  by (auto simp: conn_inv_def inv_defs)

subsection \<open>Views\<close>

text \<open>
  Groups of fields that a family of handlers leaves alone, as one value each: the session
  (authentication, channel, terminal), the input assembly, and the key exchange.
\<close>

definition sess_view :: "'w conn \<Rightarrow> _" where
  "sess_view c = (authenticated c, authTries c, user c, chanOpen c, remoteChan c, remoteWindow c,
     remoteMaxPkt c, shellReady c, remoteEof c, closeSent c, closeRecv c, cols c, rows c,
     inRing c, inHead c, inTail c, consumed c)"

definition rx_view :: "'w conn \<Rightarrow> _" where
  "rx_view c = (rx c, rxHaveLen c, rxPktLen c, clientVersion c, overrun c, versionSent c)"

definition kex_view :: "'w conn \<Rightarrow> _" where
  "kex_view c = (kex c, dir_in c, active (dir_out c), haveSessionId c, sessionId c,
     kexInitSent c, ignoreNextKexPacket c, pendKey c, pendIv c, pendMac c, pendKeyLen c, pendMacType c)"

lemmas view_defs = sess_view_def rx_view_def kex_view_def

lemma send_rel_views:
  assumes "send_rel c c'"
  shows "sess_view c' = sess_view c" "rx_view c' = rx_view c" "kex_view c' = kex_view c"
  using assms by (auto simp: view_defs elim!: send_relE)

lemma send_views [simp]:
  "sess_view (snd (SendPacket h p c)) = sess_view c" "rx_view (snd (SendPacket h p c)) = rx_view c"
  "kex_view (snd (SendPacket h p c)) = kex_view c" "sess_view (Disconnect h e m c) = sess_view c"
  "rx_view (Disconnect h e m c) = rx_view c" "kex_view (Disconnect h e m c) = kex_view c"
  by (simp_all add: send_rel_views [OF SendPacket_rel] send_rel_views [OF Disconnect_rel])

lemma sess_view_updates [simp]:
  "sess_view (c\<lparr>ioCtx := w\<rparr>) = sess_view c" "sess_view (c\<lparr>blocks := bb\<rparr>) = sess_view c"
  "sess_view (c\<lparr>rng := g\<rparr>) = sess_view c"
  "sess_view (c\<lparr>serverKexInit := bs\<rparr>) = sess_view c" "sess_view (c\<lparr>clientKexInit := bs\<rparr>) = sess_view c"
  "sess_view (c\<lparr>kexInitSent := b\<rparr>) = sess_view c" "sess_view (c\<lparr>state := s\<rparr>) = sess_view c"
  "sess_view (c\<lparr>ignoreNextKexPacket := b\<rparr>) = sess_view c" "sess_view (c\<lparr>kex := k\<rparr>) = sess_view c"
  "sess_view (c\<lparr>nextEncKeyLenIn := n\<rparr>) = sess_view c" "sess_view (c\<lparr>nextEncKeyLenOut := n\<rparr>) = sess_view c"
  "sess_view (c\<lparr>nextMacTypeIn := t\<rparr>) = sess_view c" "sess_view (c\<lparr>nextMacTypeOut := t\<rparr>) = sess_view c"
  "sess_view (c\<lparr>sessionId := bs\<rparr>) = sess_view c" "sess_view (c\<lparr>haveSessionId := b\<rparr>) = sess_view c"
  "sess_view (c\<lparr>dir_in := d\<rparr>) = sess_view c" "sess_view (c\<lparr>dir_out := d\<rparr>) = sess_view c"
  "sess_view (c\<lparr>pendKey := bs\<rparr>) = sess_view c" "sess_view (c\<lparr>pendIv := bs\<rparr>) = sess_view c"
  "sess_view (c\<lparr>pendMac := bs\<rparr>) = sess_view c" "sess_view (c\<lparr>pendKeyLen := n\<rparr>) = sess_view c"
  "sess_view (c\<lparr>pendMacType := t\<rparr>) = sess_view c" "sess_view (c\<lparr>rx := bs\<rparr>) = sess_view c"
  "sess_view (c\<lparr>rxHaveLen := b\<rparr>) = sess_view c" "sess_view (c\<lparr>rxPktLen := v\<rparr>) = sess_view c"
  "sess_view (c\<lparr>clientVersion := bs\<rparr>) = sess_view c" "sess_view (c\<lparr>overrun := b\<rparr>) = sess_view c"
  "sess_view (c\<lparr>versionSent := b\<rparr>) = sess_view c"
  by (simp_all add: sess_view_def)

lemma rx_view_updates [simp]:
  "rx_view (c\<lparr>ioCtx := w\<rparr>) = rx_view c" "rx_view (c\<lparr>blocks := bb\<rparr>) = rx_view c"
  "rx_view (c\<lparr>rng := g\<rparr>) = rx_view c"
  "rx_view (c\<lparr>serverKexInit := bs\<rparr>) = rx_view c" "rx_view (c\<lparr>clientKexInit := bs\<rparr>) = rx_view c"
  "rx_view (c\<lparr>kexInitSent := b\<rparr>) = rx_view c" "rx_view (c\<lparr>state := s\<rparr>) = rx_view c"
  "rx_view (c\<lparr>ignoreNextKexPacket := b\<rparr>) = rx_view c" "rx_view (c\<lparr>kex := k\<rparr>) = rx_view c"
  "rx_view (c\<lparr>nextEncKeyLenIn := n\<rparr>) = rx_view c" "rx_view (c\<lparr>nextEncKeyLenOut := n\<rparr>) = rx_view c"
  "rx_view (c\<lparr>nextMacTypeIn := t\<rparr>) = rx_view c" "rx_view (c\<lparr>nextMacTypeOut := t\<rparr>) = rx_view c"
  "rx_view (c\<lparr>sessionId := bs\<rparr>) = rx_view c" "rx_view (c\<lparr>haveSessionId := b\<rparr>) = rx_view c"
  "rx_view (c\<lparr>dir_in := d\<rparr>) = rx_view c" "rx_view (c\<lparr>dir_out := d\<rparr>) = rx_view c"
  "rx_view (c\<lparr>pendKey := bs\<rparr>) = rx_view c" "rx_view (c\<lparr>pendIv := bs\<rparr>) = rx_view c"
  "rx_view (c\<lparr>pendMac := bs\<rparr>) = rx_view c" "rx_view (c\<lparr>pendKeyLen := n\<rparr>) = rx_view c"
  "rx_view (c\<lparr>pendMacType := t\<rparr>) = rx_view c" "rx_view (c\<lparr>user := bs\<rparr>) = rx_view c"
  "rx_view (c\<lparr>authenticated := b\<rparr>) = rx_view c" "rx_view (c\<lparr>authTries := n\<rparr>) = rx_view c"
  "rx_view (c\<lparr>chanOpen := b\<rparr>) = rx_view c" "rx_view (c\<lparr>remoteChan := v\<rparr>) = rx_view c"
  "rx_view (c\<lparr>remoteWindow := v\<rparr>) = rx_view c" "rx_view (c\<lparr>remoteMaxPkt := v\<rparr>) = rx_view c"
  "rx_view (c\<lparr>shellReady := b\<rparr>) = rx_view c" "rx_view (c\<lparr>remoteEof := b\<rparr>) = rx_view c"
  "rx_view (c\<lparr>closeSent := b\<rparr>) = rx_view c" "rx_view (c\<lparr>closeRecv := b\<rparr>) = rx_view c"
  "rx_view (c\<lparr>cols := v\<rparr>) = rx_view c" "rx_view (c\<lparr>rows := v\<rparr>) = rx_view c"
  "rx_view (c\<lparr>inRing := a\<rparr>) = rx_view c" "rx_view (c\<lparr>inHead := n\<rparr>) = rx_view c"
  "rx_view (c\<lparr>inTail := n\<rparr>) = rx_view c" "rx_view (c\<lparr>consumed := v\<rparr>) = rx_view c"
  by (simp_all add: rx_view_def)

lemma kex_view_updates [simp]:
  "kex_view (c\<lparr>ioCtx := w\<rparr>) = kex_view c" "kex_view (c\<lparr>blocks := bb\<rparr>) = kex_view c"
  "kex_view (c\<lparr>rng := g\<rparr>) = kex_view c"
  "kex_view (c\<lparr>state := s\<rparr>) = kex_view c" "kex_view (c\<lparr>user := bs\<rparr>) = kex_view c"
  "kex_view (c\<lparr>authenticated := b\<rparr>) = kex_view c" "kex_view (c\<lparr>authTries := n\<rparr>) = kex_view c"
  "kex_view (c\<lparr>chanOpen := b\<rparr>) = kex_view c" "kex_view (c\<lparr>remoteChan := v\<rparr>) = kex_view c"
  "kex_view (c\<lparr>remoteWindow := v\<rparr>) = kex_view c" "kex_view (c\<lparr>remoteMaxPkt := v\<rparr>) = kex_view c"
  "kex_view (c\<lparr>shellReady := b\<rparr>) = kex_view c" "kex_view (c\<lparr>remoteEof := b\<rparr>) = kex_view c"
  "kex_view (c\<lparr>closeSent := b\<rparr>) = kex_view c" "kex_view (c\<lparr>closeRecv := b\<rparr>) = kex_view c"
  "kex_view (c\<lparr>cols := v\<rparr>) = kex_view c" "kex_view (c\<lparr>rows := v\<rparr>) = kex_view c"
  "kex_view (c\<lparr>inRing := a\<rparr>) = kex_view c" "kex_view (c\<lparr>inHead := n\<rparr>) = kex_view c"
  "kex_view (c\<lparr>inTail := n\<rparr>) = kex_view c" "kex_view (c\<lparr>consumed := v\<rparr>) = kex_view c"
  "kex_view (c\<lparr>rx := bs\<rparr>) = kex_view c" "kex_view (c\<lparr>rxHaveLen := b\<rparr>) = kex_view c"
  "kex_view (c\<lparr>rxPktLen := v\<rparr>) = kex_view c"
  by (simp_all add: kex_view_def)

end
