(* ===== verification/Kex.thy ===== *)
theory Kex
  imports Conn_Inv
begin

text \<open>
  Key exchange (\<^verbatim>\<open>SendKexInit\<close> to \<^verbatim>\<open>ApplyNewKeys\<close> of \<^verbatim>\<open>ssh.c\<close>): the KEXINIT message, the
  negotiation, the exchange hash, key derivation and the switch to new keys in each direction.
\<close>

subsection \<open>KEXINIT\<close>

definition kexinit_buf :: "bytes \<Rightarrow> wbuf" where
  "kexinit_buf cookie =
     (let b = WInit SSH_PL_BUF;
          b = WByte b MSG_KEXINIT;
          b = WBytes b cookie;
          b = WCStr b KEX_ALGS;
          b = WCStr b HOSTKEY_ALGS;
          b = WCStr b ENC_ALGS;
          b = WCStr b ENC_ALGS;
          b = WCStr b MAC_ALGS;
          b = WCStr b MAC_ALGS;
          b = WCStr b COMP_ALGS;
          b = WCStr b COMP_ALGS;
          b = WCStr b [];
          b = WCStr b [];
          b = WByte b 0
      in WU32 b 0)"

definition SendKexInit :: "'w host \<Rightarrow> 'w conn \<Rightarrow> int \<times> 'w conn" where
  "SendKexInit h c =
     (case wc_RNG_GenerateBlock h (rng c) 16 of
        (None, g) \<Rightarrow> (- 1, c\<lparr>rng := g\<rparr>)
      | (Some cookie, g) \<Rightarrow>
          (let c = c\<lparr>rng := g\<rparr>; b = kexinit_buf cookie in
           if werr b then (- 1, c)
           else (let (p, w) = RtAlloc_block h (length (wdata b)) (RtFree_block h (blk_serverKexInit (blocks c)) (ioCtx c));
                     c = c\<lparr>ioCtx := w, blocks := (blocks c)\<lparr>blk_serverKexInit := p\<rparr>, serverKexInit := []\<rparr>
                 in if fst p = 0 then (- 1, c)
                    else SendPacket h (wdata b)
                           (c\<lparr>serverKexInit := wdata b, kexInitSent := True\<rparr>))))"

subsection \<open>Negotiation\<close>

record kexinit_lists =
  kl_kex :: bytes
  kl_hk :: bytes
  kl_encCs :: bytes
  kl_encSc :: bytes
  kl_macCs :: bytes
  kl_macSc :: bytes
  kl_compCs :: bytes
  kl_compSc :: bytes
  kl_follows :: byte

text \<open>The reads of \<^verbatim>\<open>Negotiate\<close>, in order; the two language lists are read and dropped.\<close>

definition parse_kexinit :: "bytes \<Rightarrow> kexinit_lists \<times> rbuf" where
  "parse_kexinit body =
     (let r = RInit body;
          (kexl, r) = RStr r;
          (hk, r) = RStr r;
          (encCs, r) = RStr r;
          (encSc, r) = RStr r;
          (macCs, r) = RStr r;
          (macSc, r) = RStr r;
          (compCs, r) = RStr r;
          (compSc, r) = RStr r;
          (lang, r) = RStr r;
          (lang, r) = RStr r;
          (firstFollows, r) = RByte r;
          (reserved, r) = RU32 r
      in (\<lparr>kl_kex = kexl, kl_hk = hk, kl_encCs = encCs, kl_encSc = encSc, kl_macCs = macCs,
            kl_macSc = macSc, kl_compCs = compCs, kl_compSc = compSc, kl_follows = firstFollows\<rparr>, r))"

text \<open>Whether the client's guessed key exchange packet has to be skipped.\<close>

definition wrong_guess :: "bytes \<Rightarrow> bytes \<Rightarrow> bytes \<Rightarrow> bool" where
  "wrong_guess kexl pick hk \<longleftrightarrow> FirstEntryLen kexl \<noteq> length pick
     \<or> take (length pick) kexl \<noteq> pick \<or> \<not> NameIs (take (FirstEntryLen hk) hk) ''ssh-ed25519''"

definition kex_fail :: "'w host \<Rightarrow> string \<Rightarrow> 'w conn \<Rightarrow> int \<times> 'w conn" where
  "kex_fail h msg c = (- 1, Disconnect h DISC_KEY_EXCHANGE_FAILED msg c)"

definition Negotiate :: "'w host \<Rightarrow> 'w conn \<Rightarrow> int \<times> 'w conn" where
  "Negotiate h c =
     (if length (clientKexInit c) < 17
      then (- 1, Disconnect h DISC_PROTOCOL_ERROR ''short KEXINIT'' c)
      else (let (k, r) = parse_kexinit (drop 17 (clientKexInit c)) in
        if rerr r then (- 1, Disconnect h DISC_PROTOCOL_ERROR ''bad KEXINIT'' c)
        else case PickAlg (kl_kex k) KEX_ALGS of
          None \<Rightarrow> kex_fail h ''no common kex algorithm (need curve25519-sha256)'' c
        | Some pick \<Rightarrow>
          let c = c\<lparr>ignoreNextKexPacket :=
                     (kl_follows k \<noteq> 0 \<and> wrong_guess (kl_kex k) pick (kl_hk k))\<rparr> in
          case PickAlg (kl_hk k) HOSTKEY_ALGS of
            None \<Rightarrow> kex_fail h ''no common host key algorithm (need ssh-ed25519)'' c
          | Some _ \<Rightarrow>
          case PickAlg (kl_encCs k) ENC_ALGS of
            None \<Rightarrow> kex_fail h ''no common cipher (need aes-ctr)'' c
          | Some pick \<Rightarrow>
          let c = c\<lparr>nextEncKeyLenIn := EncKeyLen pick\<rparr> in
          case PickAlg (kl_encSc k) ENC_ALGS of
            None \<Rightarrow> kex_fail h ''no common cipher (need aes-ctr)'' c
          | Some pick \<Rightarrow>
          let c = c\<lparr>nextEncKeyLenOut := EncKeyLen pick\<rparr> in
          case PickAlg (kl_macCs k) MAC_ALGS of
            None \<Rightarrow> kex_fail h ''no common MAC (need hmac-sha2-256)'' c
          | Some pick \<Rightarrow>
          let c = c\<lparr>nextMacTypeIn := MacType pick\<rparr> in
          case PickAlg (kl_macSc k) MAC_ALGS of
            None \<Rightarrow> kex_fail h ''no common MAC (need hmac-sha2-256)'' c
          | Some pick \<Rightarrow>
          let c = c\<lparr>nextMacTypeOut := MacType pick\<rparr> in
          if PickAlg (kl_compCs k) COMP_ALGS = None \<or> PickAlg (kl_compSc k) COMP_ALGS = None
          then kex_fail h ''compression not supported'' c
          else (0, c)))"

subsection \<open>Hashing and key derivation\<close>

definition sha256 :: "'w host \<Rightarrow> bytes list \<Rightarrow> bytes" where
  "sha256 h parts = wc_Sha256Final h (foldl (wc_Sha256Update h) (wc_InitSha256 h) parts)"

text \<open>The two updates \<^verbatim>\<open>HashStr\<close> makes.\<close>

definition HashStr :: "bytes \<Rightarrow> bytes list" where
  "HashStr d = [PutU32 (of_nat (length d)), d]"

text \<open>The \<^verbatim>\<open>while (have < need)\<close> loop over the \<open>tmp\<close> buffer.\<close>

function derive_loop :: "'w host \<Rightarrow> bytes \<Rightarrow> bytes \<Rightarrow> nat \<Rightarrow> nat \<Rightarrow> bytes \<Rightarrow> bytes" where
  "derive_loop h kMp hh need have_n tmp =
     (if have_n < need
      then derive_loop h kMp hh need (have_n + 32) (tmp @ sha256 h [kMp, hh, take have_n tmp])
      else tmp)"
  by pat_completeness auto
termination
  by (relation "measure (\<lambda>(h, kMp, hh, need, have_n, tmp). need - have_n)") auto

declare derive_loop.simps [simp del]

definition DeriveKey :: "'w host \<Rightarrow> 'w conn \<Rightarrow> bytes \<Rightarrow> bytes \<Rightarrow> byte \<Rightarrow> nat \<Rightarrow> bytes" where
  "DeriveKey h c kMp hh letter need =
     take need (derive_loop h kMp hh need 32 (sha256 h [kMp, hh, [letter], sessionId c]))"

subsection \<open>The Diffie-Hellman exchange\<close>

text \<open>
  The four curve25519 calls, each made only if the ones before it returned 0: the server's
  public value and the shared secret. The generator's state changes even on failure.
\<close>

definition kex_secret :: "'w host \<Rightarrow> bytes \<Rightarrow> bytes \<Rightarrow> (bytes \<times> bytes) option \<times> bytes" where
  "kex_secret h qc g =
     (let (m, g') = wc_curve25519_make_key h g in
      (Option.bind m (\<lambda>mine.
       Option.bind (wc_curve25519_export_public h mine) (\<lambda>qs.
       Option.bind (wc_curve25519_import_public h qc) (\<lambda>theirs.
       Option.bind (wc_curve25519_shared_secret h mine theirs) (\<lambda>k.
       if length k = 32 then Some (qs, k) else None)))), g'))"

definition host_key_blob :: "bytes \<Rightarrow> bytes" where
  "host_key_blob pub = wdata (WStr (WCStr (WInit (4 + 11 + 4 + 32)) ''ssh-ed25519'') pub)"

definition exchange_hash :: "'w host \<Rightarrow> 'w conn \<Rightarrow> bytes \<Rightarrow> bytes \<Rightarrow> bytes \<Rightarrow> bytes" where
  "exchange_hash h c qc qs kMp = sha256 h
     (HashStr (clientVersion c) @ HashStr (bytes_of SSH_SERVER_VERSION)
      @ HashStr (clientKexInit c) @ HashStr (serverKexInit c)
      @ HashStr (host_key_blob (hostPub c)) @ HashStr qc @ HashStr qs @ [kMp])"

definition kexdh_reply :: "bytes \<Rightarrow> bytes \<Rightarrow> bytes \<Rightarrow> wbuf" where
  "kexdh_reply ks qs sig =
     (let b = WInit SSH_PL_BUF;
          b = WByte b MSG_KEXDH_REPLY;
          b = WStr b ks;
          b = WStr b qs;
          b = WU32 b (4 + 11 + 4 + 64);
          b = WCStr b ''ssh-ed25519''
      in WStr b sig)"

definition newkeys_payload :: bytes where
  "newkeys_payload = wdata (WByte (WInit SSH_PL_BUF) MSG_NEWKEYS)"

text \<open>The letters of RFC 4253 section 7.2.\<close>

definition letter :: "char \<Rightarrow> byte" where
  "letter ch = of_nat (of_char ch)"

record session_keys =
  ivCs :: bytes
  ivSc :: bytes
  keyCs :: bytes
  keySc :: bytes
  macCs :: bytes
  macSc :: bytes

definition derive_keys :: "'w host \<Rightarrow> 'w conn \<Rightarrow> bytes \<Rightarrow> bytes \<Rightarrow> session_keys" where
  "derive_keys h c kMp hh =
     \<lparr>ivCs = DeriveKey h c kMp hh (letter CHR ''A'') 16,
      ivSc = DeriveKey h c kMp hh (letter CHR ''B'') 16,
      keyCs = DeriveKey h c kMp hh (letter CHR ''C'') 32,
      keySc = DeriveKey h c kMp hh (letter CHR ''D'') 32,
      macCs = DeriveKey h c kMp hh (letter CHR ''E'') 64,
      macSc = DeriveKey h c kMp hh (letter CHR ''F'') 64\<rparr>"

text \<open>
  The end of \<^verbatim>\<open>DoKexDh\<close>: both replies go out under the old keys, then the outgoing
  direction switches; the incoming keys stay pending until the client's NEWKEYS.
\<close>

definition switch_out :: "'w host \<Rightarrow> session_keys \<Rightarrow> 'w conn \<Rightarrow> int \<times> 'w conn" where
  "switch_out h ks c =
     (case wc_AesSetKeyDirect h (aes (dir_out c)) (take (nextEncKeyLenOut c) (keySc ks)) (ivSc ks) of
        None \<Rightarrow> kex_fail h ''aes key'' c
      | Some a \<Rightarrow>
          (0, c\<lparr>dir_out := (dir_out c)\<lparr>aes := a, macKey := macSc ks,
                 macType := nextMacTypeOut c, macLen := MacLenOf (nextMacTypeOut c),
                 macKeyLen := MacLenOf (nextMacTypeOut c), active := True\<rparr>,
               pendKey := keyCs ks, pendIv := ivCs ks, pendMac := macCs ks,
               pendKeyLen := nextEncKeyLenIn c, pendMacType := nextMacTypeIn c,
               kex := KX_WAIT_NEWKEYS\<rparr>))"

text \<open>From the signature on: the reply, NEWKEYS, and the switch.\<close>

definition answer_kexdh :: "'w host \<Rightarrow> bytes \<Rightarrow> bytes \<Rightarrow> bytes \<Rightarrow> 'w conn \<Rightarrow> int \<times> 'w conn" where
  "answer_kexdh h qs kMp hh c =
     (case wc_ed25519_sign_msg h hh (hostKey c) of
        None \<Rightarrow> kex_fail h ''signature failure'' c
      | Some sig \<Rightarrow>
          if length sig \<noteq> 64 then kex_fail h ''signature failure'' c
          else (let ks = derive_keys h c kMp hh;
                    rb = kexdh_reply (host_key_blob (hostPub c)) qs sig in
            if werr rb then (- 1, c)
            else (let (e, c) = SendPacket h (wdata rb) c in
              if e \<noteq> 0 then (- 1, c)
              else (let (e, c) = SendPacket h newkeys_payload c in
                if e \<noteq> 0 then (- 1, c)
                else switch_out h ks c))))"

definition DoKexDh :: "'w host \<Rightarrow> bytes \<Rightarrow> 'w conn \<Rightarrow> int \<times> 'w conn" where
  "DoKexDh h payload c =
     (let (qc, r) = RStr (RInit (drop 1 payload)) in
      if rerr r \<or> length qc \<noteq> 32 then kex_fail h ''bad KEXDH_INIT'' c
      else
       (let (secret, g) = kex_secret h qc (rng c); c = c\<lparr>rng := g\<rparr> in
        case secret of None \<Rightarrow> kex_fail h ''curve25519 failure'' c
        | Some (qs, k) \<Rightarrow>
         (let b = WMpint (WInit (4 + 33)) k in
          if werr b then kex_fail h ''mpint'' c
          else
           (let kMp = wdata b;
                hh = exchange_hash h c qc qs kMp;
                c = (if haveSessionId c then c
                     else c\<lparr>sessionId := take 32 hh, haveSessionId := True\<rparr>)
            in answer_kexdh h qs kMp hh c))))"

definition ApplyNewKeys :: "'w host \<Rightarrow> 'w conn \<Rightarrow> int \<times> 'w conn" where
  "ApplyNewKeys h c =
     (case wc_AesSetKeyDirect h (aes (dir_in c)) (take (pendKeyLen c) (pendKey c)) (pendIv c) of
        None \<Rightarrow> kex_fail h ''aes key'' c
      | Some a \<Rightarrow>
          (0, c\<lparr>dir_in := (dir_in c)\<lparr>aes := a, macKey := pendMac c, macType := pendMacType c,
                 macLen := MacLenOf (pendMacType c), macKeyLen := MacLenOf (pendMacType c),
                 active := True\<rparr>,
               pendKey := replicate 32 0, pendMac := replicate 64 0, kex := KX_IDLE,
               state := (if state c = ST_KEX then ST_AUTH else state c)\<rparr>))"

subsection \<open>What the key exchange handlers keep\<close>

lemma kex_fail_simps [simp]:
  "fst (kex_fail h m c) = - 1" "state (snd (kex_fail h m c)) = ST_CLOSED"
  "sess_view (snd (kex_fail h m c)) = sess_view c" "rx_view (snd (kex_fail h m c)) = rx_view c"
  "kex_view (snd (kex_fail h m c)) = kex_view c" "kex (snd (kex_fail h m c)) = kex c"
  by (simp_all add: kex_fail_def)

lemma conn_inv_kex_fail [inv_intros]: "conn_inv c \<Longrightarrow> conn_inv (snd (kex_fail h m c))"
  by (simp add: kex_fail_def conn_inv_Disconnect)

lemma SendKexInit_views [simp]:
  "sess_view (snd (SendKexInit h c)) = sess_view c" "rx_view (snd (SendKexInit h c)) = rx_view c"
  "kex (snd (SendKexInit h c)) = kex c" "dir_in (snd (SendKexInit h c)) = dir_in c"
  "active (dir_out (snd (SendKexInit h c))) = active (dir_out c)"
  "haveSessionId (snd (SendKexInit h c)) = haveSessionId c"
  "sessionId (snd (SendKexInit h c)) = sessionId c"
  by (simp_all add: SendKexInit_def Let_def split: prod.split option.split)

lemma SendKexInit_state: "state (snd (SendKexInit h c)) \<in> {state c, ST_CLOSED}"
  by (auto simp: SendKexInit_def Let_def split: prod.split option.split dest: SendPacket_not_closed)

lemma SendKexInit_ok_state: "fst (SendKexInit h c) = 0 \<Longrightarrow> state (snd (SendKexInit h c)) = state c"
  by (auto simp: SendKexInit_def Let_def SendPacket_ok_state split: prod.splits option.splits if_splits)

lemma conn_inv_SendKexInit [inv_intros]: "conn_inv c \<Longrightarrow> conn_inv (snd (SendKexInit h c))"
  by (auto simp: SendKexInit_def Let_def split: prod.split option.split intro!: conn_inv_SendPacket)

lemma Negotiate_views [simp]:
  "sess_view (snd (Negotiate h c)) = sess_view c" "rx_view (snd (Negotiate h c)) = rx_view c"
  "kex (snd (Negotiate h c)) = kex c" "dir_in (snd (Negotiate h c)) = dir_in c"
  "active (dir_out (snd (Negotiate h c))) = active (dir_out c)"
  "haveSessionId (snd (Negotiate h c)) = haveSessionId c"
  "sessionId (snd (Negotiate h c)) = sessionId c"
  by (simp_all add: Negotiate_def Let_def kex_fail_def split: prod.split option.split)

lemma conn_inv_Negotiate [inv_intros]: "conn_inv c \<Longrightarrow> conn_inv (snd (Negotiate h c))"
  by (simp add: Negotiate_def Let_def conn_inv_kex_fail conn_inv_Disconnect split: prod.split option.split)

text \<open>
  A negotiation either fails and closes the connection, or leaves the state alone and has
  chosen a key length and a hash for each direction.
\<close>

lemma Negotiate_cases:
  "fst (Negotiate h c) = - 1 \<and> state (snd (Negotiate h c)) = ST_CLOSED \<or>
   fst (Negotiate h c) = 0 \<and> state (snd (Negotiate h c)) = state c \<and>
   nextEncKeyLenIn (snd (Negotiate h c)) \<in> {16, 24, 32} \<and>
   nextEncKeyLenOut (snd (Negotiate h c)) \<in> {16, 24, 32} \<and>
   nextMacTypeIn (snd (Negotiate h c)) \<in> {WC_SHA256, WC_SHA512} \<and>
   nextMacTypeOut (snd (Negotiate h c)) \<in> {WC_SHA256, WC_SHA512}"
  using EncKeyLen_in MacType_in
  by (simp add: Negotiate_def Let_def kex_fail_def split: prod.split option.split)

lemma switch_out_views [simp]:
  "sess_view (snd (switch_out h ks c)) = sess_view c" "rx_view (snd (switch_out h ks c)) = rx_view c"
  "dir_in (snd (switch_out h ks c)) = dir_in c" "sessionId (snd (switch_out h ks c)) = sessionId c"
  "haveSessionId (snd (switch_out h ks c)) = haveSessionId c"
  by (simp_all add: switch_out_def kex_fail_def split: option.split)

lemma switch_out_state: "state (snd (switch_out h ks c)) \<in> {state c, ST_CLOSED}"
  by (simp add: switch_out_def split: option.split)

lemma switch_out_not_closed:
  "state (snd (switch_out h ks c)) \<noteq> ST_CLOSED \<Longrightarrow> state (snd (switch_out h ks c)) = state c"
  using switch_out_state [of h ks c] by simp

lemma conn_inv_switch_out:
  assumes "conn_inv c" and "haveSessionId c" and "state c \<noteq> ST_VERSION"
  shows "conn_inv (snd (switch_out h ks c))"
proof (cases "wc_AesSetKeyDirect h (aes (dir_out c)) (take (nextEncKeyLenOut c) (keySc ks)) (ivSc ks)")
  case None
  with assms show ?thesis by (simp add: switch_out_def conn_inv_kex_fail)
next
  case (Some a)
  with assms show ?thesis by (auto simp: switch_out_def conn_inv_def inv_defs)
qed

lemma conn_inv_session:
  "conn_inv c \<Longrightarrow> conn_inv (c\<lparr>sessionId := s, haveSessionId := True\<rparr>)"
  by (auto simp: conn_inv_def inv_defs)

lemma answer_kexdh_views [simp]:
  "sess_view (snd (answer_kexdh h qs kMp hh c)) = sess_view c"
  "rx_view (snd (answer_kexdh h qs kMp hh c)) = rx_view c"
  "dir_in (snd (answer_kexdh h qs kMp hh c)) = dir_in c"
  "sessionId (snd (answer_kexdh h qs kMp hh c)) = sessionId c"
  "haveSessionId (snd (answer_kexdh h qs kMp hh c)) = haveSessionId c"
  by (simp_all add: answer_kexdh_def Let_def split_beta kex_fail_def split: option.split)

lemma answer_kexdh_state:
  "state (snd (answer_kexdh h qs kMp hh c)) = state c \<or> state (snd (answer_kexdh h qs kMp hh c)) = ST_CLOSED"
  by (auto simp: answer_kexdh_def Let_def SendPacket_ok_state split_beta split: option.split
      dest: SendPacket_not_closed switch_out_not_closed)

lemma conn_inv_answer_kexdh:
  assumes "conn_inv c" and "haveSessionId c" and "state c \<noteq> ST_VERSION"
  shows "conn_inv (snd (answer_kexdh h qs kMp hh c))"
  using assms
  by (auto simp: answer_kexdh_def Let_def SendPacket_ok_state split_beta split: option.split
      intro!: conn_inv_switch_out conn_inv_SendPacket conn_inv_kex_fail)

lemma DoKexDh_views [simp]:
  "sess_view (snd (DoKexDh h p c)) = sess_view c" "rx_view (snd (DoKexDh h p c)) = rx_view c"
  "dir_in (snd (DoKexDh h p c)) = dir_in c"
  by (simp_all add: DoKexDh_def Let_def split_beta kex_fail_def split: option.split)

text \<open>The session identifier is the first exchange hash: no later exchange replaces it.\<close>

lemma DoKexDh_sessionId:
  "haveSessionId c \<Longrightarrow> sessionId (snd (DoKexDh h p c)) = sessionId c \<and> haveSessionId (snd (DoKexDh h p c))"
  by (simp add: DoKexDh_def Let_def split_beta kex_fail_def split: option.split)

lemma DoKexDh_state:
  "state (snd (DoKexDh h p c)) = state c \<or> state (snd (DoKexDh h p c)) = ST_CLOSED"
proof -
  have a: "state (snd (answer_kexdh h qs kMp hh d)) \<noteq> ST_CLOSED \<Longrightarrow>
    state (snd (answer_kexdh h qs kMp hh d)) = state d" for qs kMp hh d
    using answer_kexdh_state [of h qs kMp hh d] by blast
  show ?thesis
    by (auto simp: DoKexDh_def Let_def split_beta split: option.split dest: a)
qed

lemma conn_inv_DoKexDh [inv_intros]:
  assumes inv: "conn_inv c" and "state c \<noteq> ST_VERSION"
  shows "conn_inv (snd (DoKexDh h p c))"
  using assms
  by (simp add: DoKexDh_def Let_def split_beta conn_inv_answer_kexdh conn_inv_kex_fail
      conn_inv_session split: option.split)

lemma ApplyNewKeys_views [simp]:
  "sess_view (snd (ApplyNewKeys h c)) = sess_view c" "rx_view (snd (ApplyNewKeys h c)) = rx_view c"
  "dir_out (snd (ApplyNewKeys h c)) = (if fst (ApplyNewKeys h c) = 0 then dir_out c
     else dir_out (Disconnect h DISC_KEY_EXCHANGE_FAILED ''aes key'' c))"
  "haveSessionId (snd (ApplyNewKeys h c)) = haveSessionId c"
  "sessionId (snd (ApplyNewKeys h c)) = sessionId c"
  by (simp_all add: ApplyNewKeys_def kex_fail_def split: option.split)

lemma ApplyNewKeys_state:
  "fst (ApplyNewKeys h c) = 0 \<and> kex (snd (ApplyNewKeys h c)) = KX_IDLE \<and>
     state (snd (ApplyNewKeys h c)) = (if state c = ST_KEX then ST_AUTH else state c) \<or>
   fst (ApplyNewKeys h c) = - 1 \<and> state (snd (ApplyNewKeys h c)) = ST_CLOSED"
  by (simp add: ApplyNewKeys_def split: option.split)

lemma conn_inv_ApplyNewKeys [inv_intros]:
  assumes inv: "conn_inv c" and k: "kex c = KX_WAIT_NEWKEYS"
  shows "conn_inv (snd (ApplyNewKeys h c))"
proof (cases "wc_AesSetKeyDirect h (aes (dir_in c)) (take (pendKeyLen c) (pendKey c)) (pendIv c)")
  case None
  with inv show ?thesis by (simp add: ApplyNewKeys_def conn_inv_kex_fail)
next
  case (Some a)
  let ?c = "snd (ApplyNewKeys h c)"
  note inv' = conn_invD [OF inv]
  show ?thesis
  proof (rule conn_invI)
    show "phase_inv ?c" using inv'(1) k Some by (simp add: ApplyNewKeys_def phase_inv_def)
    show "auth_inv ?c" using inv'(2) Some by (auto simp: ApplyNewKeys_def auth_inv_def)
  qed (use inv' Some in \<open>simp_all add: ApplyNewKeys_def dims_inv_def dir_inv_def buf_inv_def\<close>)
qed

subsection \<open>Key derivation\<close>

text \<open>
  RFC 4253 section 7.2: \<open>K1 = HASH(K || H || X || session_id)\<close>,
  \<open>K(n+1) = HASH(K || H || K1 || ... || Kn)\<close>; a key is the beginning of \<open>K1 || K2 || ...\<close>.
\<close>

fun rfc_keys :: "'w host \<Rightarrow> bytes \<Rightarrow> bytes \<Rightarrow> byte \<Rightarrow> bytes \<Rightarrow> nat \<Rightarrow> bytes" where
  "rfc_keys h K H X sid 0 = sha256 h [K, H, [X], sid]"
| "rfc_keys h K H X sid (Suc n) =
     rfc_keys h K H X sid n @ sha256 h [K, H, rfc_keys h K H X sid n]"

definition sha_len :: "'w host \<Rightarrow> bool" where
  "sha_len h \<longleftrightarrow> (\<forall>s. length (wc_Sha256Final h s) = 32)"

lemma length_sha256: "sha_len h \<Longrightarrow> length (sha256 h parts) = 32"
  by (simp add: sha_len_def sha256_def)

lemma length_rfc_keys: "sha_len h \<Longrightarrow> length (rfc_keys h K H X sid n) = 32 * Suc n"
  by (induction n) (simp_all add: length_sha256)

lemma derive_loop_rfc:
  assumes "sha_len h"
  shows "derive_loop h K H need (32 * Suc n) (rfc_keys h K H X sid n)
       = rfc_keys h K H X sid (max n ((need + 31) div 32 - 1))"
proof (induction "need - 32 * Suc n" arbitrary: n rule: less_induct)
  case less
  let ?k = "rfc_keys h K H X sid n"
  show ?case
  proof (cases "32 * Suc n < need")
    case True
    have "derive_loop h K H need (32 * Suc n) ?k
        = derive_loop h K H need (32 * Suc (Suc n)) (rfc_keys h K H X sid (Suc n))"
      using True by (subst derive_loop.simps) (simp add: length_rfc_keys [OF assms])
    also have "\<dots> = rfc_keys h K H X sid (max (Suc n) ((need + 31) div 32 - 1))"
      by (rule less) (use True in simp)
    also have "max (Suc n) ((need + 31) div 32 - 1) = max n ((need + 31) div 32 - 1)"
    proof -
      have "Suc (Suc n) \<le> (need + 31) div 32"
        using True by (simp add: less_eq_div_iff_mult_less_eq)
      then have "Suc n \<le> (need + 31) div 32 - 1"
        using diff_le_mono [of "Suc (Suc n)" "(need + 31) div 32" 1] by simp
      then show ?thesis by (simp add: max_absorb2)
    qed
    finally show ?thesis .
  next
    case False
    then have "(need + 31) div 32 - 1 \<le> n" by auto
    with False show ?thesis by (subst derive_loop.simps) (simp add: max_absorb1)
  qed
qed

lemma DeriveKey_rfc:
  assumes "sha_len h"
  shows "DeriveKey h c K H X need = take need (rfc_keys h K H X (sessionId c) ((need + 31) div 32 - 1))"
  using derive_loop_rfc [OF assms, where n = 0 and need = need]
  by (simp add: DeriveKey_def)

lemma length_DeriveKey: "sha_len h \<Longrightarrow> 0 < need \<Longrightarrow> length (DeriveKey h c K H X need) = need"
  by (simp add: DeriveKey_rfc length_rfc_keys)

subsection \<open>Negotiating what a client offers\<close>

text \<open>A KEXINIT payload as RFC 4253 section 7.1 lays it out.\<close>

definition kexinit_msg :: "bytes \<Rightarrow> bytes list \<Rightarrow> byte \<Rightarrow> u32 \<Rightarrow> bytes" where
  "kexinit_msg cookie xs follows reserved =
     MSG_KEXINIT # cookie @ concat (map enc_str xs) @ [follows] @ PutU32 reserved"

definition own_kex_lists :: "bytes list" where
  "own_kex_lists = map bytes_of [KEX_ALGS, HOSTKEY_ALGS, ENC_ALGS, ENC_ALGS, MAC_ALGS, MAC_ALGS,
     COMP_ALGS, COMP_ALGS, [], []]"

lemma alg_lengths [simp]:
  "length KEX_ALGS = 46" "length HOSTKEY_ALGS = 11" "length ENC_ALGS = 32" "length MAC_ALGS = 27"
  "length COMP_ALGS = 4"
  by (simp_all add: KEX_ALGS_def HOSTKEY_ALGS_def ENC_ALGS_def MAC_ALGS_def COMP_ALGS_def)

lemma kexinit_buf_msg:
  assumes "length cookie = 16"
  shows "\<not> werr (kexinit_buf cookie)" and "wdata (kexinit_buf cookie) = kexinit_msg cookie own_kex_lists 0 0"
proof -
  let ?w = "\<lambda>b. WU32 (WByte (WCStr (WCStr (WCStr (WCStr (WCStr (WCStr (WCStr (WCStr (WCStr (WCStr
    (WBytes (WByte b MSG_KEXINIT) cookie) KEX_ALGS) HOSTKEY_ALGS) ENC_ALGS) ENC_ALGS) MAC_ALGS)
    MAC_ALGS) COMP_ALGS) COMP_ALGS) []) []) 0) 0"
  have "appends ?w ([MSG_KEXINIT] @ cookie @ concat (map enc_str own_kex_lists) @ [0] @ PutU32 0)"
    unfolding own_kex_lists_def list.map concat.simps append_Nil2 append_assoc [symmetric]
    by (intro appends_steps appends_WByte)
  from appends_WInit [OF this, of SSH_PL_BUF] assms
  have "kexinit_buf cookie = \<lparr>wdata = kexinit_msg cookie own_kex_lists 0 0, wcap = SSH_PL_BUF, werr = False\<rparr>"
    by (simp add: kexinit_buf_def kexinit_msg_def own_kex_lists_def Let_def SSH_PL_BUF_def SSH_MAX_PACKET_def)
  then show "\<not> werr (kexinit_buf cookie)" "wdata (kexinit_buf cookie) = kexinit_msg cookie own_kex_lists 0 0"
    by simp_all
qed

lemma parse_kexinit_gets:
  "parse_kexinit body =
     (let (xs, r) = gets RStr 10 (RInit body);
          (f, r) = RByte r;
          (v, r) = RU32 r
      in (\<lparr>kl_kex = xs ! 0, kl_hk = xs ! 1, kl_encCs = xs ! 2, kl_encSc = xs ! 3, kl_macCs = xs ! 4,
            kl_macSc = xs ! 5, kl_compCs = xs ! 6, kl_compSc = xs ! 7, kl_follows = f\<rparr>, r))"
  by (simp add: parse_kexinit_def split_beta Let_def numeral_eq_Suc)

lemma parse_kexinit_msg:
  assumes "length cookie = 16" and "length xs = 10" and "\<forall>x\<in>set xs. length x < 2 ^ 32"
  shows "fst (parse_kexinit (drop 17 (kexinit_msg cookie xs f v))) =
      \<lparr>kl_kex = xs ! 0, kl_hk = xs ! 1, kl_encCs = xs ! 2, kl_encSc = xs ! 3, kl_macCs = xs ! 4,
        kl_macSc = xs ! 5, kl_compCs = xs ! 6, kl_compSc = xs ! 7, kl_follows = f\<rparr>"
    and "\<not> rerr (snd (parse_kexinit (drop 17 (kexinit_msg cookie xs f v))))"
proof -
  have d: "drop 17 (kexinit_msg cookie xs f v) = concat (map enc_str xs) @ [f] @ PutU32 v"
    using assms(1) by (simp add: kexinit_msg_def)
  let ?r = "RInit (concat (map enc_str xs) @ [f] @ PutU32 v)"
  have g: "fst (gets RStr 10 ?r) = xs" "rest (snd (gets RStr 10 ?r)) = Some ([f] @ PutU32 v)"
    "rbuf_wf (snd (gets RStr 10 ?r))"
    using str_codec.gets_encs [of ?r xs "[f] @ PutU32 v"] assms(2,3) by simp_all
  note b = byte_codec.get_enc [OF g(3,2), simplified]
  have u: "rest (snd (RU32 (snd (RByte (snd (gets RStr 10 ?r)))))) = Some []"
    using u32_codec.get_enc(2) [OF b(3), of v "[]"] b(2) by simp
  show "fst (parse_kexinit (drop 17 (kexinit_msg cookie xs f v))) =
      \<lparr>kl_kex = xs ! 0, kl_hk = xs ! 1, kl_encCs = xs ! 2, kl_encSc = xs ! 3, kl_macCs = xs ! 4,
        kl_macSc = xs ! 5, kl_compCs = xs ! 6, kl_compSc = xs ! 7, kl_follows = f\<rparr>"
    unfolding d parse_kexinit_gets using g(1) b(1) by (simp add: split_beta Let_def)
  show "\<not> rerr (snd (parse_kexinit (drop 17 (kexinit_msg cookie xs f v))))"
    unfolding d parse_kexinit_gets using rest_SomeD [OF u] by (simp add: split_beta Let_def)
qed

text \<open>
  The first name of a client's list that the server supports, for each of the eight lists
  that matter; compression and host key only need to have one.
\<close>

definition first_common :: "bytes list \<Rightarrow> bytes list \<Rightarrow> bytes option" where
  "first_common cs os = find (\<lambda>c. c \<in> set os) cs"

lemma picks:
  assumes "\<forall>n\<in>set cs. is_name n"
  shows "PickAlg (name_list cs) KEX_ALGS = first_common cs kex_names"
    "PickAlg (name_list cs) HOSTKEY_ALGS = first_common cs [bytes_of ''ssh-ed25519'']"
    "PickAlg (name_list cs) ENC_ALGS = first_common cs enc_names"
    "PickAlg (name_list cs) MAC_ALGS = first_common cs mac_names"
    "PickAlg (name_list cs) COMP_ALGS = first_common cs [bytes_of ''none'']"
  unfolding first_common_def
  using PickAlg_name_list [OF assms own_names(3) own_lists(3)]
    PickAlg_name_list [OF assms _ own_lists(4)] PickAlg_name_list [OF assms own_names(1) own_lists(1)]
    PickAlg_name_list [OF assms own_names(2) own_lists(2)] PickAlg_name_list [OF assms _ own_lists(5)]
    own_names(4,5) by simp_all

definition own_names_of :: "nat \<Rightarrow> bytes list" where
  "own_names_of i = [kex_names, [bytes_of ''ssh-ed25519''], enc_names, enc_names, mac_names,
     mac_names, [bytes_of ''none''], [bytes_of ''none'']] ! i"

text \<open>What the client puts into its KEXINIT, as name lists.\<close>

definition offer :: "bytes \<Rightarrow> bytes list list \<Rightarrow> byte \<Rightarrow> u32 \<Rightarrow> bytes" where
  "offer cookie css follows reserved = kexinit_msg cookie (map name_list css) follows reserved"

definition good_offer :: "bytes \<Rightarrow> bytes list list \<Rightarrow> bool" where
  "good_offer cookie css \<longleftrightarrow> length cookie = 16 \<and> length css = 10 \<and>
     (\<forall>cs\<in>set css. length (name_list cs) < 2 ^ 32 \<and> (\<forall>n\<in>set cs. is_name n))"

lemma all8:
  "(\<forall>i<8. P i) \<longleftrightarrow> P 0 \<and> P 1 \<and> P 2 \<and> P 3 \<and> P 4 \<and> P 5 \<and> P 6 \<and> P (7 :: nat)"
  by (auto simp: All_less_Suc eval_nat_numeral)

lemma Negotiate_offer_lemma:
  assumes off: "clientKexInit c = offer cookie css f v" and good: "good_offer cookie css"
  shows "fst (Negotiate h c) = 0 \<longleftrightarrow> (\<forall>i<8. first_common (css ! i) (own_names_of i) \<noteq> None)"
    and "fst (Negotiate h c) = 0 \<Longrightarrow>
      Some (nextEncKeyLenIn (snd (Negotiate h c))) = map_option EncKeyLen (first_common (css ! 2) enc_names) \<and>
      Some (nextEncKeyLenOut (snd (Negotiate h c))) = map_option EncKeyLen (first_common (css ! 3) enc_names) \<and>
      Some (nextMacTypeIn (snd (Negotiate h c))) = map_option MacType (first_common (css ! 4) mac_names) \<and>
      Some (nextMacTypeOut (snd (Negotiate h c))) = map_option MacType (first_common (css ! 5) mac_names)"
proof -
  have g: "length cookie = 16" "length css = 10" "\<forall>x\<in>set (map name_list css). length x < 2 ^ 32"
    using good by (auto simp: good_offer_def)
  have n: "\<forall>n\<in>set (css ! i). is_name n" if "i < 10" for i
    using good g(2) that by (auto simp: good_offer_def)
  have p: "fst (parse_kexinit (drop 17 (clientKexInit c))) =
      \<lparr>kl_kex = name_list (css ! 0), kl_hk = name_list (css ! 1), kl_encCs = name_list (css ! 2),
        kl_encSc = name_list (css ! 3), kl_macCs = name_list (css ! 4), kl_macSc = name_list (css ! 5),
        kl_compCs = name_list (css ! 6), kl_compSc = name_list (css ! 7), kl_follows = f\<rparr>"
    "\<not> rerr (snd (parse_kexinit (drop 17 (clientKexInit c))))"
    using parse_kexinit_msg [OF g(1) _ g(3), of f v] g(2) off by (simp_all add: offer_def)
  have l: "\<not> length (clientKexInit c) < 17"
    using off g(1) by (simp add: offer_def kexinit_msg_def)
  note pk = picks [OF n]
  show "fst (Negotiate h c) = 0 \<longleftrightarrow> (\<forall>i<8. first_common (css ! i) (own_names_of i) \<noteq> None)"
    unfolding Negotiate_def all8 using p l
    by (simp add: split_beta Let_def pk own_names_of_def split: option.split)
  have "fst (Negotiate h c) = 0 \<longrightarrow>
      Some (nextEncKeyLenIn (snd (Negotiate h c))) = map_option EncKeyLen (first_common (css ! 2) enc_names) \<and>
      Some (nextEncKeyLenOut (snd (Negotiate h c))) = map_option EncKeyLen (first_common (css ! 3) enc_names) \<and>
      Some (nextMacTypeIn (snd (Negotiate h c))) = map_option MacType (first_common (css ! 4) mac_names) \<and>
      Some (nextMacTypeOut (snd (Negotiate h c))) = map_option MacType (first_common (css ! 5) mac_names)"
    unfolding Negotiate_def using p l
    by (simp add: split_beta Let_def pk split: option.split)
  then show "fst (Negotiate h c) = 0 \<Longrightarrow>
      Some (nextEncKeyLenIn (snd (Negotiate h c))) = map_option EncKeyLen (first_common (css ! 2) enc_names) \<and>
      Some (nextEncKeyLenOut (snd (Negotiate h c))) = map_option EncKeyLen (first_common (css ! 3) enc_names) \<and>
      Some (nextMacTypeIn (snd (Negotiate h c))) = map_option MacType (first_common (css ! 4) mac_names) \<and>
      Some (nextMacTypeOut (snd (Negotiate h c))) = map_option MacType (first_common (css ! 5) mac_names)"
    by blast
qed

subsection \<open>What is hashed and signed\<close>

text \<open>Hashing in pieces is hashing the concatenation: documented behaviour of the hash functions.\<close>

definition sha_stream :: "'w host \<Rightarrow> bool" where
  "sha_stream h \<longleftrightarrow> (\<forall>s a b. wc_Sha256Update h (wc_Sha256Update h s a) b = wc_Sha256Update h s (a @ b))"

lemma sample_sha_stream: "sha_stream sample_host"
  by (simp add: sha_stream_def sample_host_def)

lemma sample_sha_len: "sha_len sample_host"
  by (auto simp: sha_len_def sample_host_def min_def)

lemma sha_stream_foldl:
  "sha_stream h \<Longrightarrow> foldl (wc_Sha256Update h) (wc_Sha256Update h s a) xs = wc_Sha256Update h s (a @ concat xs)"
  by (induction xs arbitrary: a) (simp_all add: sha_stream_def)

lemma sha256_concat: "sha_stream h \<Longrightarrow> sha256 h (x # xs) = sha256 h [x @ concat xs]"
  by (simp add: sha256_def sha_stream_foldl)

lemma concat_HashStr: "concat (HashStr d) = enc_str d"
  by (simp add: HashStr_def enc_str_def)

definition key_blob :: "bytes \<Rightarrow> bytes" where
  "key_blob pub = enc_str (bytes_of ''ssh-ed25519'') @ enc_str pub"

lemma host_key_blob_enc:
  assumes "length pub = 32"
  shows "host_key_blob pub = key_blob pub"
proof -
  have "appends (\<lambda>b. WStr (WCStr b ''ssh-ed25519'') pub) (enc_str (bytes_of ''ssh-ed25519'') @ enc_str pub)"
    by (rule appends_steps(4) [OF appends_WCStr])
  from appends_WInit [OF this, of 51] assms show ?thesis
    by (simp add: host_key_blob_def key_blob_def)
qed

lemma kexdh_reply_msg:
  assumes "length ks \<le> 1000" and "length qs \<le> 1000" and "length sig = 64"
  shows "kexdh_reply ks qs sig = \<lparr>wdata = MSG_KEXDH_REPLY # enc_str ks @ enc_str qs @
    enc_str (enc_str (bytes_of ''ssh-ed25519'') @ enc_str sig), wcap = SSH_PL_BUF, werr = False\<rparr>"
proof -
  have "appends (\<lambda>b. WStr (WCStr (WU32 (WStr (WStr (WByte b MSG_KEXDH_REPLY) ks) qs) 83) ''ssh-ed25519'') sig)
    (((((([MSG_KEXDH_REPLY] @ enc_str ks) @ enc_str qs) @ PutU32 83) @ enc_str (bytes_of ''ssh-ed25519'')) @ enc_str sig))"
    by (intro appends_steps appends_WByte)
  moreover have "enc_str x = PutU32 83 @ x" if "length x = 83" for x
    using that by (simp add: enc_str_def)
  from this [of "enc_str (bytes_of ''ssh-ed25519'') @ enc_str sig"]
  have "enc_str (enc_str (bytes_of ''ssh-ed25519'') @ enc_str sig) =
      PutU32 83 @ enc_str (bytes_of ''ssh-ed25519'') @ enc_str sig"
    using assms(3) by simp
  ultimately show ?thesis
    using appends_WInit [of _ _ SSH_PL_BUF] assms
    by (fastforce simp: kexdh_reply_def Let_def SSH_PL_BUF_def SSH_MAX_PACKET_def)
qed

subsection \<open>Properties\<close>

text \<open>C14: For a KEXINIT whose ten name lists are well formed, negotiation succeeds exactly when each of the
  eight algorithm lists has a name the server supports; it then picks for each direction the
  key length and hash of the first such name of the client's list.\<close>
theorem Negotiate_offer:
  assumes "clientKexInit c = offer cookie css f v" and "good_offer cookie css"
  shows "(fst (Negotiate h c) = 0 \<longleftrightarrow> (\<forall>i<8. first_common (css ! i) (own_names_of i) \<noteq> None)) \<and>
    (fst (Negotiate h c) = 0 \<longrightarrow>
      Some (nextEncKeyLenIn (snd (Negotiate h c))) = map_option EncKeyLen (first_common (css ! 2) enc_names) \<and>
      Some (nextEncKeyLenOut (snd (Negotiate h c))) = map_option EncKeyLen (first_common (css ! 3) enc_names) \<and>
      Some (nextMacTypeIn (snd (Negotiate h c))) = map_option MacType (first_common (css ! 4) mac_names) \<and>
      Some (nextMacTypeOut (snd (Negotiate h c))) = map_option MacType (first_common (css ! 5) mac_names))"
  using Negotiate_offer_lemma [OF assms, of h] by blast

definition sample_css :: "bytes list list" where
  "sample_css = [[bytes_of ''curve25519-sha256''], [bytes_of ''ssh-ed25519''], enc_names, enc_names,
     mac_names, mac_names, [bytes_of ''none''], [bytes_of ''none''], [], []]"

lemma sample_css_good: "good_offer (replicate 16 0) sample_css"
  by (simp add: good_offer_def sample_css_def own_names) (simp add: is_name_def comma_def enc_names_def mac_names_def)

theorem Negotiate_offer_witness:
  "fst (Negotiate sample_host ((conn_zero ([], []) (\<lambda>_. 0))\<lparr>clientKexInit := offer (replicate 16 0) sample_css 0 0\<rparr>)) = 0"
  using Negotiate_offer [OF _ sample_css_good, of "(conn_zero ([], []) (\<lambda>_. 0))\<lparr>clientKexInit := offer (replicate 16 0) sample_css 0 0\<rparr>" 0 0 sample_host]
  by (simp add: all8) (simp add: first_common_def own_names_of_def sample_css_def kex_names_def enc_names_def mac_names_def)





end
