(* ===== verification/Auth.thy ===== *)
theory Auth
  imports Kex
begin

text \<open>
  User authentication: \<^verbatim>\<open>SendAuthFailure\<close> and \<^verbatim>\<open>HandleUserauth\<close> of \<^verbatim>\<open>ssh.c\<close>, and the password
  check the server passes in (\<^verbatim>\<open>ConstantTimeEq\<close> and \<^verbatim>\<open>CheckPassword\<close> of
  \<^verbatim>\<open>SshShellServer.c\<close>). The locale \<open>password_auth\<close> is the contract of the callback.
\<close>

subsection \<open>The handler\<close>

definition SendAuthFailure :: "'w host \<Rightarrow> 'w conn \<Rightarrow> int \<times> 'w conn" where
  "SendAuthFailure h c =
     (let b = WInit SSH_PL_BUF;
          b = WByte b MSG_USERAUTH_FAILURE;
          b = WCStr b ''password'';
          b = WByte b 0
      in SendPacket h (wdata b) c)"

text \<open>The capacity of the local password buffer.\<close>

definition PW_CAP :: nat where
  "PW_CAP = 256"

text \<open>What follows once the password is in the local buffer.\<close>

definition check_login :: "'w host \<Rightarrow> bytes \<Rightarrow> 'w conn \<Rightarrow> int \<times> 'w conn" where
  "check_login h pw c =
     (if auth_fn h (c_str (user c)) (c_str pw)
      then SendPacket h (wdata (WByte (WInit SSH_PL_BUF) MSG_USERAUTH_SUCCESS))
             (c\<lparr>authenticated := True, state := ST_CONN\<rparr>)
      else (let c = c\<lparr>authTries := authTries c + 1\<rparr> in
        if authTries c \<ge> SSH_MAX_AUTH_TRIES
        then (- 1, Disconnect h DISC_NO_MORE_AUTH_METHODS ''too many failed attempts'' c)
        else SendAuthFailure h c))"

definition HandleUserauth :: "'w host \<Rightarrow> bytes \<Rightarrow> 'w conn \<Rightarrow> int \<times> 'w conn" where
  "HandleUserauth h p c =
     (let r = RInit (drop 1 p);
          (usr, r) = RStr r;
          (service, r) = RStr r;
          (method, r) = RStr r
      in if rerr r then (- 1, Disconnect h DISC_PROTOCOL_ERROR ''bad USERAUTH_REQUEST'' c)
      else if \<not> NameIs service ''ssh-connection''
      then (- 1, Disconnect h DISC_PROTOCOL_ERROR ''unknown service'' c)
      else
       (let userL = (if length usr \<ge> USER_CAP then USER_CAP - 1 else length usr);
            c = c\<lparr>user := take userL usr\<rparr> in
        if \<not> NameIs method ''password'' then SendAuthFailure h c
        else
         (let (change, r) = RByte r in
          if change \<noteq> 0 then SendAuthFailure h c
          else
           (let (pass, r) = RStr r in
            if rerr r \<or> length pass \<ge> PW_CAP then SendAuthFailure h c
            else check_login h pass c))))"

subsection \<open>Invariant and frame\<close>

lemma SendAuthFailure_rel: "send_rel c (snd (SendAuthFailure h c))"
  by (simp add: SendAuthFailure_def Let_def SendPacket_rel)

lemma conn_inv_SendAuthFailure [inv_intros]: "conn_inv c \<Longrightarrow> conn_inv (snd (SendAuthFailure h c))"
  by (rule conn_inv_send_rel [OF _ SendAuthFailure_rel])

lemma SendAuthFailure_views [simp]:
  "sess_view (snd (SendAuthFailure h c)) = sess_view c" "rx_view (snd (SendAuthFailure h c)) = rx_view c"
  "kex_view (snd (SendAuthFailure h c)) = kex_view c"
  "authenticated (snd (SendAuthFailure h c)) = authenticated c"
  "authTries (snd (SendAuthFailure h c)) = authTries c"
  using send_rel_views [OF SendAuthFailure_rel] send_rel_frame(30,31) [OF SendAuthFailure_rel]
  by blast+

lemma conn_inv_login:
  assumes "conn_inv c" and "state c = ST_AUTH"
  shows "conn_inv (c\<lparr>authenticated := True, state := ST_CONN\<rparr>)"
  using assms by (auto simp: conn_inv_def inv_defs)

lemma conn_inv_user: "conn_inv c \<Longrightarrow> length u < USER_CAP \<Longrightarrow> conn_inv (c\<lparr>user := u\<rparr>)"
  by (auto simp: conn_inv_def inv_defs)

lemma conn_inv_tries:
  assumes "conn_inv c" and "state c = ST_AUTH"
  shows "authTries c + 1 < SSH_MAX_AUTH_TRIES \<Longrightarrow> conn_inv (c\<lparr>authTries := authTries c + 1\<rparr>)"
    and "\<not> authTries c + 1 < SSH_MAX_AUTH_TRIES \<Longrightarrow>
      conn_inv (Disconnect h e m (c\<lparr>authTries := authTries c + 1\<rparr>))"
proof -
  have t: "authTries c < SSH_MAX_AUTH_TRIES"
    using assms by (auto simp: conn_inv_def auth_inv_def)
  show "authTries c + 1 < SSH_MAX_AUTH_TRIES \<Longrightarrow> conn_inv (c\<lparr>authTries := authTries c + 1\<rparr>)"
    using assms by (auto simp: conn_inv_def inv_defs)
  show "conn_inv (Disconnect h e m (c\<lparr>authTries := authTries c + 1\<rparr>))"
  proof -
    let ?d = "Disconnect h e m (c\<lparr>authTries := authTries c + 1\<rparr>)"
    have "conn_inv (c\<lparr>authTries := authTries c + 1, state := ST_CLOSED\<rparr>)"
      using assms(1) t by (auto simp: conn_inv_def inv_defs)
    moreover have "send_rel (c\<lparr>authTries := authTries c + 1, state := ST_CLOSED\<rparr>) (?d\<lparr>state := ST_CLOSED\<rparr>)"
      using Disconnect_rel [of "c\<lparr>authTries := authTries c + 1\<rparr>" h e m]
      unfolding send_rel_def by (elim exE conjE) (auto intro!: exI)
    moreover have "?d\<lparr>state := ST_CLOSED\<rparr> = ?d" by simp
    ultimately show ?thesis using conn_inv_send_rel by metis
  qed
qed

lemma conn_inv_check_login:
  assumes "conn_inv c" and "state c = ST_AUTH"
  shows "conn_inv (snd (check_login h pw c))"
  using conn_inv_login [OF assms] conn_inv_tries [OF assms]
  by (auto simp: check_login_def Let_def not_le intro: conn_inv_SendPacket conn_inv_SendAuthFailure)

lemma conn_inv_HandleUserauth [inv_intros]:
  assumes "conn_inv c" and "state c = ST_AUTH"
  shows "conn_inv (snd (HandleUserauth h p c))"
proof -
  have u: "conn_inv (c\<lparr>user := take (if length usr \<ge> USER_CAP then USER_CAP - 1 else length usr) usr\<rparr>)" for usr
    using assms(1) by (auto intro!: conn_inv_user simp: USER_CAP_def)
  show ?thesis
    using assms u
    by (simp add: HandleUserauth_def Let_def split_beta conn_inv_Disconnect conn_inv_SendAuthFailure
        conn_inv_check_login del: if_split)
qed

lemma SendAuthFailure_state: "state (snd (SendAuthFailure h c)) \<in> {state c, ST_CLOSED}"
  by (auto simp: SendAuthFailure_def Let_def dest: SendPacket_not_closed)

lemma check_login_views [simp]:
  "rx_view (snd (check_login h pw c)) = rx_view c" "kex_view (snd (check_login h pw c)) = kex_view c"
  by (simp_all add: check_login_def Let_def)

lemma HandleUserauth_views [simp]:
  "rx_view (snd (HandleUserauth h p c)) = rx_view c" "kex_view (snd (HandleUserauth h p c)) = kex_view c"
  by (simp_all add: HandleUserauth_def Let_def split_beta)

subsection \<open>Who gets in\<close>

text \<open>A password request as RFC 4252 section 8 lays it out, with whatever follows it.\<close>

definition password_request :: "bytes \<Rightarrow> bytes \<Rightarrow> bytes \<Rightarrow> bytes" where
  "password_request usr pw t = MSG_USERAUTH_REQUEST # enc_str usr @ enc_str (bytes_of ''ssh-connection'')
     @ enc_str (bytes_of ''password'') @ 0 # enc_str pw @ t"

text \<open>What the callback is asked for these credentials.\<close>

definition accepts :: "'w host \<Rightarrow> bytes \<Rightarrow> bytes \<Rightarrow> bool" where
  "accepts h usr pw \<longleftrightarrow> auth_fn h (c_str (take (USER_CAP - 1) usr)) (c_str pw)"

lemma check_login_authenticated:
  "\<not> authenticated c \<Longrightarrow>
   authenticated (snd (check_login h pw c)) \<longleftrightarrow> auth_fn h (c_str (user c)) (c_str pw)"
  by (simp add: check_login_def Let_def)

lemma NameIs_eq: "NameIs n s \<longleftrightarrow> n = bytes_of s"
  by (auto simp: NameIs_def)

lemma take_user: "take (if USER_CAP \<le> length usr then USER_CAP - 1 else length usr) usr = take (USER_CAP - 1) usr"
  by (simp add: USER_CAP_def)

text \<open>The request as the handler reads it, without the message number.\<close>

lemma HandleUserauth_split:
  assumes "\<not> authenticated c" and "authenticated (snd (HandleUserauth h p c))"
  obtains usr pw t where "drop 1 p = enc_str usr @ enc_str (bytes_of ''ssh-connection'')
      @ enc_str (bytes_of ''password'') @ 0 # enc_str pw @ t"
    and "length pw < PW_CAP" and "accepts h usr pw"
proof -
  define r1 where "r1 = RStr (RInit (drop 1 p))"
  define r2 where "r2 = RStr (snd r1)"
  define r3 where "r3 = RStr (snd r2)"
  define r4 where "r4 = RByte (snd r3)"
  define r5 where "r5 = RStr (snd r4)"
  note d = r1_def r2_def r3_def r4_def r5_def
  let ?c = "c\<lparr>user := take (USER_CAP - 1) (fst r1)\<rparr>"
  have *: "\<not> rerr (snd r3)" "fst r2 = bytes_of ''ssh-connection''" "fst r3 = bytes_of ''password''"
    "fst r4 = 0" "\<not> rerr (snd r5)" "length (fst r5) < PW_CAP"
    "authenticated (snd (check_login h (fst r5) ?c))"
    using assms
    unfolding HandleUserauth_def Let_def split_beta d [symmetric] NameIs_eq take_user
    by (simp_all split: if_splits)
  have e: "\<not> rerr (snd r4)" "\<not> rerr (snd r2)" "\<not> rerr (snd r1)"
    using *(5,1) readers_sticky(3) [of "snd r4"] readers_sticky(3) [of "snd r2"]
      readers_sticky(3) [of "snd r1"] by (auto simp: r5_def r3_def r2_def)
  obtain t1 where 1: "drop 1 p = enc_str (fst r1) @ t1" "rest (snd r1) = Some t1" "rbuf_wf (snd r1)"
    using RStr_okD [of "RInit (drop 1 p)"] e(3) unfolding r1_def by auto
  obtain t2 where 2: "t1 = enc_str (fst r2) @ t2" "rest (snd r2) = Some t2" "rbuf_wf (snd r2)"
    using RStr_okD [OF 1(3)] e(2) 1(2) unfolding r2_def by auto
  obtain t3 where 3: "t2 = enc_str (fst r3) @ t3" "rest (snd r3) = Some t3" "rbuf_wf (snd r3)"
    using RStr_okD [OF 2(3)] *(1) 2(2) unfolding r3_def by auto
  obtain t4 where 4: "t3 = fst r4 # t4" "rest (snd r4) = Some t4" "rbuf_wf (snd r4)"
    using RByte_okD [OF 3(3)] e(1) 3(2) unfolding r4_def by auto
  obtain t5 where 5: "t4 = enc_str (fst r5) @ t5"
    using RStr_okD [OF 4(3)] *(5) 4(2) unfolding r5_def by auto
  have "accepts h (fst r1) (fst r5)"
    using *(7) check_login_authenticated [of ?c h "fst r5"] assms(1) by (simp add: accepts_def)
  with 1(1) 2(1) 3(1) 4(1) 5 *(2-4,6) that show thesis by metis
qed

lemma HandleUserauth_only_accepted_lemma:
  assumes "\<not> authenticated c" and "authenticated (snd (HandleUserauth h (MSG_USERAUTH_REQUEST # p) c))"
  shows "\<exists>usr pw t. MSG_USERAUTH_REQUEST # p = password_request usr pw t
    \<and> length pw < PW_CAP \<and> accepts h usr pw"
  using HandleUserauth_split [OF assms] unfolding password_request_def by (metis drop0 drop_Suc_Cons One_nat_def)

text \<open>A well-formed password request is answered by the callback's verdict.\<close>

lemma HandleUserauth_password_request:
  assumes "length usr < 2 ^ 32" and "length pw < PW_CAP"
  shows "HandleUserauth h (password_request usr pw t) c =
    check_login h pw (c\<lparr>user := take (USER_CAP - 1) usr\<rparr>)"
proof -
  have pl: "length pw < 2 ^ 32" using assms(2) by (simp add: PW_CAP_def)
  let ?r = "RInit (drop 1 (password_request usr pw t))"
  have 0: "rbuf_wf ?r" "rest ?r = Some (enc_str usr @ enc_str (bytes_of ''ssh-connection'')
     @ enc_str (bytes_of ''password'') @ 0 # enc_str pw @ t)"
    by (simp_all add: password_request_def)
  note 1 = str_codec.get_enc [OF 0 assms(1)]
  note 2 = str_codec.get_enc [OF 1(3,2)]
  note 3 = str_codec.get_enc [OF 2(3,2)]
  have 4: "rest (snd (RStr (snd (RStr (snd (RStr ?r)))))) = Some ([0] @ enc_str pw @ t)"
    using 3(2) by simp
  note 4 = byte_codec.get_enc [OF 3(3) 4 TrueI]
  note 5 = str_codec.get_enc [OF 4(3,2) pl]
  have "\<not> rerr (snd (RStr (snd (RStr (snd (RStr ?r))))))" using 3(2) by (auto dest: rest_SomeD)
  moreover have "\<not> rerr (snd (RStr (snd (RByte (snd (RStr (snd (RStr (snd (RStr ?r)))))))))) "
    using 5(2) by (auto dest: rest_SomeD)
  ultimately show ?thesis
    using 1(1) 2(1) 3(1) 4(1) 5(1) assms(2)
    by (simp add: HandleUserauth_def Let_def split_beta NameIs_eq take_user)
qed

text \<open>
  Wrong passwords count: after \<open>SSH_MAX_AUTH_TRIES\<close> of them the connection is closed, and
  no request changes the count any other way.
\<close>

lemma check_login_tries:
  "authTries (snd (check_login h pw c)) =
     (if auth_fn h (c_str (user c)) (c_str pw) then authTries c else authTries c + 1)"
  by (simp add: check_login_def Let_def)

lemma HandleUserauth_tries:
  "authTries c \<le> authTries (snd (HandleUserauth h p c)) \<and> authTries (snd (HandleUserauth h p c)) \<le> authTries c + 1"
  by (simp add: HandleUserauth_def Let_def split_beta check_login_tries)

subsection \<open>The password check\<close>

text \<open>
  A C string is the list of its bytes before the NUL; \<open>b ! i\<close> past the end of a string is
  its NUL byte.
\<close>

definition ConstantTimeEq :: "bytes \<Rightarrow> bytes \<Rightarrow> bool" where
  "ConstantTimeEq a b =
     (let la = length a; lb = length b;
          diff = (if la \<noteq> lb then 1 else 0) :: byte
      in foldl (\<lambda>diff i. diff OR (a ! i XOR (b @ [0]) ! (i mod (if lb \<noteq> 0 then lb else 1)))) diff [0..<la] = 0)"

record server_creds =
  cfg_User :: bytes
  cfg_Pass :: bytes

definition CheckPassword :: "server_creds \<Rightarrow> bytes \<Rightarrow> bytes \<Rightarrow> bool" where
  "CheckPassword cfg usr pass \<longleftrightarrow> ConstantTimeEq usr (cfg_User cfg) \<and> ConstantTimeEq pass (cfg_Pass cfg)"

lemma foldl_or_zero:
  "foldl (\<lambda>d i. d OR f i) (d :: byte) xs = 0 \<longleftrightarrow> d = 0 \<and> (\<forall>i\<in>set xs. f i = 0)"
  by (induction xs arbitrary: d) (auto simp: or_eq_0_iff)

lemma xor_byte_eq_0: "(x :: byte) XOR y = 0 \<longleftrightarrow> x = y"
  by (auto simp: bit_eq_iff bit_xor_iff)

lemma ConstantTimeEq_eq: "ConstantTimeEq a b \<longleftrightarrow> a = b"
proof (cases "length a = length b")
  case True
  then have "ConstantTimeEq a b \<longleftrightarrow> (\<forall>i<length a. a ! i = b ! i)"
    by (auto simp: ConstantTimeEq_def Let_def foldl_or_zero xor_byte_eq_0 nth_append)
  with True show ?thesis using nth_equalityI [of a b] by auto
next
  case False
  then show ?thesis by (auto simp: ConstantTimeEq_def Let_def foldl_or_zero)
qed

text \<open>The contract between the connection and the password callback.\<close>

locale password_auth =
  fixes check :: "bytes \<Rightarrow> bytes \<Rightarrow> bool"
    and good_user :: bytes
    and good_pass :: bytes
  assumes check_iff: "check u p \<longleftrightarrow> u = good_user \<and> p = good_pass"
begin

lemma accepts_iff:
  "auth_fn h = check \<Longrightarrow>
   accepts h usr pw \<longleftrightarrow> c_str (take (USER_CAP - 1) usr) = good_user \<and> c_str pw = good_pass"
  by (simp add: accepts_def check_iff)

lemma login_needs_credentials:
  assumes "auth_fn h = check" and "\<not> authenticated c"
    and "authenticated (snd (HandleUserauth h (MSG_USERAUTH_REQUEST # p) c))"
  shows "\<exists>usr pw t. MSG_USERAUTH_REQUEST # p = password_request usr pw t
    \<and> c_str (take (USER_CAP - 1) usr) = good_user \<and> c_str pw = good_pass"
  using HandleUserauth_only_accepted_lemma [OF assms(2,3)] accepts_iff [OF assms(1)] by blast

lemma login_with_credentials:
  assumes "auth_fn h = check" and "0 \<notin> set good_user" and "0 \<notin> set good_pass"
    and "length good_user < USER_CAP" and "length good_pass < PW_CAP"
  shows "authenticated (snd (HandleUserauth h (password_request good_user good_pass t) c))"
  using assms
  by (simp add: HandleUserauth_password_request USER_CAP_def check_login_def check_iff c_str_id)

end

interpretation server_auth: password_auth "CheckPassword cfg" "cfg_User cfg" "cfg_Pass cfg" for cfg
  by unfold_locales (simp add: CheckPassword_def ConstantTimeEq_eq)

subsection \<open>Properties\<close>

text \<open>C11: A USERAUTH_REQUEST authenticates a connection only if it is a password request for the connection
  service whose user name (cut to the size of the user field) and password the callback accepts,
  and a well-formed request of that kind authenticates exactly when the callback accepts it.\<close>
theorem userauth_only_accepted:
  assumes "\<not> authenticated c"
  shows "(authenticated (snd (HandleUserauth h (MSG_USERAUTH_REQUEST # p) c)) \<longrightarrow>
      (\<exists>usr pw t. MSG_USERAUTH_REQUEST # p = password_request usr pw t \<and> length pw < PW_CAP \<and> accepts h usr pw)) \<and>
    (length usr < 2 ^ 32 \<and> length pw < PW_CAP \<longrightarrow>
      authenticated (snd (HandleUserauth h (password_request usr pw t) c)) = accepts h usr pw)"
  using HandleUserauth_only_accepted_lemma [OF assms, of h p] HandleUserauth_password_request [of usr pw h t c]
    check_login_authenticated [of "c\<lparr>user := take (USER_CAP - 1) usr\<rparr>" h pw] assms
  by (auto simp: accepts_def)

theorem userauth_only_accepted_witness:
  "authenticated (snd (HandleUserauth sample_host (password_request (bytes_of ''admin'') (bytes_of ''pw'') [])
     (conn_zero ([], []) (\<lambda>_. 0)))) \<and>
   \<not> authenticated (snd (HandleUserauth sample_host (password_request (bytes_of ''admin'') (bytes_of ''no'') [])
     (conn_zero ([], []) (\<lambda>_. 0))))"
proof -
  have "\<not> authenticated (conn_zero ([], []) (\<lambda>_. 0) :: sample_world conn)" by (simp add: conn_zero_def)
  note w = userauth_only_accepted [OF this, of sample_host "[]" "bytes_of ''admin''" _ "[]", THEN conjunct2]
  have "accepts sample_host (bytes_of ''admin'') (bytes_of ''pw'')"
    "\<not> accepts sample_host (bytes_of ''admin'') (bytes_of ''no'')"
    by (simp_all add: accepts_def sample_host_def USER_CAP_def c_str_def)
  with w [of "bytes_of ''pw''"] w [of "bytes_of ''no''"] show ?thesis by (simp add: PW_CAP_def)
qed

text \<open>With the server's own callback, the user and password of its configuration and nothing else open the
  connection; a name or password cut short by an embedded NUL counts as its prefix.\<close>
theorem CheckPassword_login:
  assumes "auth_fn h = CheckPassword cfg" and "\<not> authenticated c" and "length usr < 2 ^ 32" and "length pw < PW_CAP"
  shows "authenticated (snd (HandleUserauth h (password_request usr pw t) c)) \<longleftrightarrow>
    c_str (take (USER_CAP - 1) usr) = cfg_User cfg \<and> c_str pw = cfg_Pass cfg"
  using server_auth.accepts_iff [OF assms(1), of usr pw] HandleUserauth_password_request [OF assms(3,4), of h t c]
    check_login_authenticated [of "c\<lparr>user := take (USER_CAP - 1) usr\<rparr>" h pw] assms(2)
  by (simp add: accepts_def)

definition sample_creds :: server_creds where
  "sample_creds = \<lparr>cfg_User = bytes_of ''admin'', cfg_Pass = bytes_of ''admin''\<rparr>"

theorem CheckPassword_login_witness:
  "authenticated (snd (HandleUserauth (sample_host\<lparr>auth_fn := CheckPassword sample_creds\<rparr>)
     (password_request (bytes_of ''admin'') (bytes_of ''admin'' @ [0, 1]) []) (conn_zero ([], []) (\<lambda>_. 0))))"
  by (subst CheckPassword_login [where cfg = sample_creds])
    (simp_all add: sample_creds_def conn_zero_def PW_CAP_def USER_CAP_def c_str_def)

text \<open>A rejected password costs one of the five attempts and leaves the connection unauthenticated; the
  fifth closes it, and until then the client is told with a USERAUTH_FAILURE.\<close>
theorem userauth_attempts:
  assumes "length usr < 2 ^ 32" and "length pw < PW_CAP" and "\<not> accepts h usr pw"
  shows "authTries (snd (HandleUserauth h (password_request usr pw t) c)) = authTries c + 1 \<and>
    authenticated (snd (HandleUserauth h (password_request usr pw t) c)) = authenticated c \<and>
    (if authTries c + 1 < SSH_MAX_AUTH_TRIES
     then HandleUserauth h (password_request usr pw t) c =
       SendAuthFailure h (c\<lparr>user := take (USER_CAP - 1) usr, authTries := authTries c + 1\<rparr>)
     else fst (HandleUserauth h (password_request usr pw t) c) = - 1 \<and>
       state (snd (HandleUserauth h (password_request usr pw t) c)) = ST_CLOSED)"
  using assms(3) unfolding HandleUserauth_password_request [OF assms(1,2)]
  by (simp add: check_login_def accepts_def Let_def)

theorem userauth_attempts_witness:
  "state (snd (HandleUserauth sample_host (password_request (bytes_of ''root'') (bytes_of ''x'') [])
     ((conn_zero ([], []) (\<lambda>_. 0))\<lparr>authTries := 4\<rparr>))) = ST_CLOSED"
proof -
  have "\<not> accepts sample_host (bytes_of ''root'') (bytes_of ''x'')"
    by (simp add: accepts_def sample_host_def USER_CAP_def c_str_def)
  from userauth_attempts [OF _ _ this, of "[]" "(conn_zero ([], []) (\<lambda>_. 0))\<lparr>authTries := 4\<rparr>"]
  show ?thesis by (simp add: PW_CAP_def SSH_MAX_AUTH_TRIES_def)
qed

end
