(* ===== verification/Channel.thy ===== *)
theory Channel
  imports Auth
begin

text \<open>
  The connection layer of \<^verbatim>\<open>ssh.c\<close>: the input ring (\<^verbatim>\<open>RingPush\<close>, \<^verbatim>\<open>RingEmpty\<close> and the pop of
  \<^verbatim>\<open>SshRead\<close>), the short replies, and the handlers of CHANNEL_OPEN, CHANNEL_REQUEST,
  CHANNEL_DATA, CHANNEL_WINDOW_ADJUST and CHANNEL_CLOSE. The ring is an instance of
  \<open>ring_queue\<close>: it refines a bounded first-in first-out queue.
\<close>

subsection \<open>The input ring\<close>

fun RingPush :: "bytes \<Rightarrow> 'w conn \<Rightarrow> 'w conn" where
  "RingPush [] c = c"
| "RingPush (d # ds) c =
     (let next = (inHead c + 1) mod SSH_IN_RING in
      if next = inTail c then c
      else RingPush ds (c\<lparr>inRing := (inRing c)(inHead c := d), inHead := next\<rparr>))"

definition RingEmpty :: "'w conn \<Rightarrow> bool" where
  "RingEmpty c \<longleftrightarrow> inHead c = inTail c"

text \<open>One turn of the copy loop of \<^verbatim>\<open>SshRead\<close>: the byte it takes, and the new tail.\<close>

definition ring_front :: "'w conn \<Rightarrow> byte" where
  "ring_front c = inRing c (inTail c)"

definition ring_pop :: "'w conn \<Rightarrow> 'w conn" where
  "ring_pop c = c\<lparr>inTail := (inTail c + 1) mod SSH_IN_RING\<rparr>"

definition ring_push :: "byte \<Rightarrow> 'w conn \<Rightarrow> 'w conn" where
  "ring_push d c = RingPush [d] c"

text \<open>The abstract value of the ring: the bytes waiting, oldest first.\<close>

definition pending :: "'w conn \<Rightarrow> bytes" where
  "pending c = ring_list SSH_IN_RING (inRing c) (inHead c) (inTail c)"

definition ring_ok :: "'w conn \<Rightarrow> bool" where
  "ring_ok c \<longleftrightarrow> inHead c < SSH_IN_RING \<and> inTail c < SSH_IN_RING"

lemma ring_cap_pos [simp]: "0 < SSH_IN_RING"
  by (simp add: SSH_IN_RING_def)

interpretation in_ring: ring_queue ring_push ring_pop ring_front RingEmpty pending SSH_IN_RING ring_ok
proof unfold_locales
  fix c :: "'w conn" and d
  assume "ring_ok c"
  then have r: "inHead c < SSH_IN_RING" "inTail c < SSH_IN_RING" by (simp_all add: ring_ok_def)
  show "pending (ring_push d c) =
      (if length (pending c) + 1 < SSH_IN_RING then pending c @ [d] else pending c)"
    using ring_full_iff [OF r] ring_list_push [OF r, of "inRing c" d] ring_count_less [OF ring_cap_pos, of "inHead c" "inTail c"]
    by (auto simp: ring_push_def pending_def Let_def simp del: One_nat_def)
  show "\<not> RingEmpty c \<Longrightarrow> pending c = ring_front c # pending (ring_pop c)"
    using ring_list_pop [OF r, of "inRing c"] by (simp add: RingEmpty_def pending_def ring_front_def ring_pop_def)
  show "RingEmpty c = (pending c = [])"
    using ring_empty_iff [OF r, of "inRing c"] by (simp add: RingEmpty_def pending_def)
  show "length (pending c) < SSH_IN_RING"
    by (simp add: pending_def ring_count_less)
  show "ring_ok (ring_push d c)" using r by (simp add: ring_push_def ring_ok_def Let_def)
  show "\<not> RingEmpty c \<Longrightarrow> ring_ok (ring_pop c)" using r by (simp add: ring_ok_def ring_pop_def)
qed

lemma ring_push_full: "(inHead c + 1) mod SSH_IN_RING = inTail c \<Longrightarrow> ring_push d c = c"
  by (simp add: ring_push_def)

lemma ring_pushes_full: "(inHead c + 1) mod SSH_IN_RING = inTail c \<Longrightarrow> fold ring_push ds c = c"
  by (induction ds) (simp_all add: ring_push_full)

lemma RingPush_fold: "RingPush ds c = fold ring_push ds c"
proof (induction ds c rule: RingPush.induct)
  case (2 d ds c)
  show ?case
  proof (cases "(inHead c + 1) mod SSH_IN_RING = inTail c")
    case True
    then show ?thesis
      using ring_push_full [OF True, of d] ring_pushes_full [OF True, of ds] by (simp add: Let_def)
  next
    case False
    have "ring_push d c = c\<lparr>inRing := (inRing c)(inHead c := d), inHead := (inHead c + 1) mod SSH_IN_RING\<rparr>"
      using False by (simp add: ring_push_def Let_def)
    with 2 [OF refl False] False show ?thesis by (simp add: Let_def)
  qed
qed simp

lemma pending_RingPush:
  "ring_ok c \<Longrightarrow> pending (RingPush ds c) = pending c @ take (SSH_IN_RING - 1 - length (pending c)) ds"
  unfolding RingPush_fold by (rule in_ring.contents_pushes)

lemma ring_ok_RingPush: "ring_ok c \<Longrightarrow> ring_ok (RingPush ds c)"
  unfolding RingPush_fold by (rule in_ring.inv_pushes)

lemma RingPush_only: "\<exists>a h. RingPush ds c = c\<lparr>inRing := a, inHead := h\<rparr>"
proof (induction ds c rule: RingPush.induct)
  case (1 c)
  show ?case by (intro exI [of _ "inRing c"] exI [of _ "inHead c"]) simp
next
  case (2 d ds c)
  show ?case
  proof (cases "(inHead c + 1) mod SSH_IN_RING = inTail c")
    case True
    then show ?thesis by (intro exI [of _ "inRing c"] exI [of _ "inHead c"]) (simp add: Let_def)
  next
    case False
    with 2 [OF refl False] show ?thesis by (auto simp: Let_def)
  qed
qed

lemma RingPush_frame [simp, frame]:
  "state (RingPush ds c) = state c" "rx_view (RingPush ds c) = rx_view c"
  "kex_view (RingPush ds c) = kex_view c" "inTail (RingPush ds c) = inTail c"
  "chanOpen (RingPush ds c) = chanOpen c" "authenticated (RingPush ds c) = authenticated c"
  "shellReady (RingPush ds c) = shellReady c" "consumed (RingPush ds c) = consumed c"
  "remoteWindow (RingPush ds c) = remoteWindow c" "user (RingPush ds c) = user c"
  using RingPush_only [of ds c] by auto

lemma conn_inv_RingPush [inv_intros]:
  assumes "conn_inv c" and "chanOpen c"
  shows "conn_inv (RingPush ds c)"
proof -
  obtain a hd' where e: "RingPush ds c = c\<lparr>inRing := a, inHead := hd'\<rparr>" using RingPush_only by blast
  have "ring_ok c" using assms(1) by (simp add: conn_inv_def buf_inv_def ring_ok_def)
  then have "hd' < SSH_IN_RING" using ring_ok_RingPush [of c ds] e by (simp add: ring_ok_def)
  with assms show ?thesis unfolding e by (auto simp: conn_inv_def inv_defs)
qed

subsection \<open>Replies and handlers\<close>

definition SendChannelReply :: "'w host \<Rightarrow> byte \<Rightarrow> 'w conn \<Rightarrow> int \<times> 'w conn" where
  "SendChannelReply h msg c = SendPacket h (wdata (WU32 (WByte (WInit SSH_PL_BUF) msg) (remoteChan c))) c"

definition HandleChannelOpen :: "'w host \<Rightarrow> bytes \<Rightarrow> 'w conn \<Rightarrow> int \<times> 'w conn" where
  "HandleChannelOpen h p c =
     (let r = RInit (drop 1 p);
          (type, r) = RStr r;
          (sender, r) = RU32 r;
          (window, r) = RU32 r;
          (maxPkt, r) = RU32 r
      in if rerr r then (- 1, Disconnect h DISC_PROTOCOL_ERROR ''bad CHANNEL_OPEN'' c)
      else if NameIs type ''session'' \<and> \<not> chanOpen c
      then (let b = WInit SSH_PL_BUF;
                c = c\<lparr>chanOpen := True, remoteChan := sender, remoteWindow := window,
                      remoteMaxPkt := maxPkt, closeSent := False, closeRecv := False,
                      remoteEof := False\<rparr>;
                b = WByte b MSG_CHANNEL_OPEN_CONFIRM;
                b = WU32 b sender;
                b = WU32 b 0;
                b = WU32 b SSH_LOCAL_WINDOW;
                b = WU32 b SSH_LOCAL_MAXPKT
            in SendPacket h (wdata b) c)
      else (let b = WInit SSH_PL_BUF;
                b = WByte b MSG_CHANNEL_OPEN_FAILURE;
                b = WU32 b sender;
                b = WU32 b (if chanOpen c then 4 else 3);
                b = WCStr b (if chanOpen c then ''only one session per connection''
                             else ''unsupported channel type'');
                b = WCStr b []
            in SendPacket h (wdata b) c))"

text \<open>The two size updates of a pty-req or window-change.\<close>

definition set_dims :: "u32 \<Rightarrow> u32 \<Rightarrow> 'w conn \<Rightarrow> 'w conn" where
  "set_dims co ro c =
     (let c = (if co > 0 \<and> co < 1000 then c\<lparr>cols := co\<rparr> else c)
      in if ro > 0 \<and> ro < 1000 then c\<lparr>rows := ro\<rparr> else c)"

text \<open>The chain of request types: whether the request is granted, and the changed state.\<close>

definition channel_request :: "bytes \<Rightarrow> rbuf \<Rightarrow> 'w conn \<Rightarrow> bool \<times> 'w conn" where
  "channel_request type r c =
     (if NameIs type ''pty-req'' then
        (let (term, r) = RStr r; (co, r) = RU32 r; (ro, r) = RU32 r in
         if \<not> rerr r then (True, set_dims co ro c) else (False, c))
      else if NameIs type ''shell'' then (True, c\<lparr>shellReady := True\<rparr>)
      else if NameIs type ''window-change'' then
        (let (co, r) = RU32 r; (ro, r) = RU32 r in
         (True, if \<not> rerr r then set_dims co ro c else c))
      else if NameIs type ''env'' then (True, c)
      else (False, c))"

definition HandleChannelRequest :: "'w host \<Rightarrow> bytes \<Rightarrow> 'w conn \<Rightarrow> int \<times> 'w conn" where
  "HandleChannelRequest h p c =
     (let r = RInit (drop 1 p);
          (recipient, r) = RU32 r;
          (type, r) = RStr r;
          (wantReply, r) = RByte r
      in if rerr r \<or> recipient \<noteq> 0 \<or> \<not> chanOpen c
         then (- 1, Disconnect h DISC_PROTOCOL_ERROR ''bad CHANNEL_REQUEST'' c)
         else (let (ok, c) = channel_request type r c in
           if wantReply \<noteq> 0
           then SendChannelReply h (if ok then MSG_CHANNEL_SUCCESS else MSG_CHANNEL_FAILURE) c
           else (0, c)))"

definition handle_channel_data :: "'w host \<Rightarrow> bytes \<Rightarrow> 'w conn \<Rightarrow> int \<times> 'w conn" where
  "handle_channel_data h p c =
     (let (recipient, r) = RU32 (RInit (drop 1 p)) in
      if recipient \<noteq> 0 \<or> \<not> chanOpen c
      then (- 1, Disconnect h DISC_PROTOCOL_ERROR ''bad channel'' c)
      else (let (d, r) = RStr r in
        if rerr r then (- 1, Disconnect h DISC_PROTOCOL_ERROR ''bad CHANNEL_DATA'' c)
        else (0, RingPush d c)))"

definition handle_window_adjust :: "bytes \<Rightarrow> 'w conn \<Rightarrow> int \<times> 'w conn" where
  "handle_window_adjust p c =
     (let (recipient, r) = RU32 (RInit (drop 1 p)); (add, r) = RU32 r in
      if \<not> rerr r then (0, c\<lparr>remoteWindow := remoteWindow c + add\<rparr>) else (0, c))"

definition handle_channel_close :: "'w host \<Rightarrow> 'w conn \<Rightarrow> int \<times> 'w conn" where
  "handle_channel_close h c =
     (let c = c\<lparr>closeRecv := True\<rparr> in
      if chanOpen c \<and> \<not> closeSent c
      then (0, snd (SendChannelReply h MSG_CHANNEL_CLOSE (c\<lparr>closeSent := True\<rparr>)))
      else (0, c))"

subsection \<open>Invariant and frame\<close>

lemma SendChannelReply_rel: "send_rel c (snd (SendChannelReply h m c))"
  by (simp add: SendChannelReply_def SendPacket_rel)

lemma conn_inv_SendChannelReply [inv_intros]:
  "conn_inv c \<Longrightarrow> conn_inv (snd (SendChannelReply h m c))"
  by (rule conn_inv_send_rel [OF _ SendChannelReply_rel])

lemma SendChannelReply_views [simp]:
  "rx_view (snd (SendChannelReply h m c)) = rx_view c" "kex_view (snd (SendChannelReply h m c)) = kex_view c"
  "sess_view (snd (SendChannelReply h m c)) = sess_view c"
  "authenticated (snd (SendChannelReply h m c)) = authenticated c"
  using send_rel_views [OF SendChannelReply_rel] send_rel_frame(30) [OF SendChannelReply_rel] by blast+

lemma conn_inv_open:
  "conn_inv c \<Longrightarrow> state c = ST_CONN \<Longrightarrow>
   conn_inv (c\<lparr>chanOpen := True, remoteChan := s, remoteWindow := w, remoteMaxPkt := m,
     closeSent := False, closeRecv := False, remoteEof := False\<rparr>)"
  by (auto simp: conn_inv_def inv_defs)

lemma conn_inv_HandleChannelOpen [inv_intros]:
  assumes "conn_inv c" and "state c = ST_CONN"
  shows "conn_inv (snd (HandleChannelOpen h p c))"
  unfolding HandleChannelOpen_def Let_def split_beta
  using assms by (auto intro!: conn_inv_Disconnect conn_inv_SendPacket conn_inv_open)

lemma conn_inv_set_dims: "conn_inv c \<Longrightarrow> conn_inv (set_dims co ro c)"
  by (auto simp: set_dims_def Let_def conn_inv_def inv_defs)

lemma conn_inv_shell: "conn_inv c \<Longrightarrow> chanOpen c \<Longrightarrow> conn_inv (c\<lparr>shellReady := True\<rparr>)"
  by (auto simp: conn_inv_def inv_defs)

lemma conn_inv_channel_request:
  "conn_inv c \<Longrightarrow> chanOpen c \<Longrightarrow> conn_inv (snd (channel_request t r c))"
  by (simp add: channel_request_def Let_def split_beta conn_inv_set_dims conn_inv_shell)

lemma conn_inv_HandleChannelRequest [inv_intros]:
  "conn_inv c \<Longrightarrow> conn_inv (snd (HandleChannelRequest h p c))"
  by (simp add: HandleChannelRequest_def Let_def split_beta conn_inv_Disconnect
      conn_inv_SendChannelReply conn_inv_channel_request)

lemma conn_inv_channel_handlers [inv_intros]:
  assumes "conn_inv c"
  shows "conn_inv (snd (handle_channel_data h p c))" "conn_inv (snd (handle_window_adjust p c))"
    "conn_inv (snd (handle_channel_close h c))"
  using assms
  by (simp_all add: handle_channel_data_def handle_window_adjust_def handle_channel_close_def
      Let_def split_beta conn_inv_Disconnect conn_inv_SendChannelReply conn_inv_RingPush)

lemma set_dims_views [simp]:
  "rx_view (set_dims co ro c) = rx_view c" "kex_view (set_dims co ro c) = kex_view c"
  "authenticated (set_dims co ro c) = authenticated c" "state (set_dims co ro c) = state c"
  by (simp_all add: set_dims_def Let_def)

lemma channel_request_views [simp]:
  "rx_view (snd (channel_request t r c)) = rx_view c" "kex_view (snd (channel_request t r c)) = kex_view c"
  "authenticated (snd (channel_request t r c)) = authenticated c"
  "state (snd (channel_request t r c)) = state c"
  by (simp_all add: channel_request_def Let_def split_beta)

lemma channel_rx_view [simp]:
  "rx_view (snd (HandleChannelOpen h p c)) = rx_view c"
  "rx_view (snd (HandleChannelRequest h p c)) = rx_view c"
  "rx_view (snd (handle_channel_data h p c)) = rx_view c"
  "rx_view (snd (handle_window_adjust p c)) = rx_view c"
  "rx_view (snd (handle_channel_close h c)) = rx_view c"
  by (simp_all add: HandleChannelOpen_def HandleChannelRequest_def handle_channel_data_def
      handle_window_adjust_def handle_channel_close_def Let_def split_beta)

lemma channel_kex_view [simp]:
  "kex_view (snd (HandleChannelOpen h p c)) = kex_view c"
  "kex_view (snd (HandleChannelRequest h p c)) = kex_view c"
  "kex_view (snd (handle_channel_data h p c)) = kex_view c"
  "kex_view (snd (handle_window_adjust p c)) = kex_view c"
  "kex_view (snd (handle_channel_close h c)) = kex_view c"
  by (simp_all add: HandleChannelOpen_def HandleChannelRequest_def handle_channel_data_def
      handle_window_adjust_def handle_channel_close_def Let_def split_beta)

lemma channel_authenticated [simp]:
  "authenticated (snd (HandleChannelOpen h p c)) = authenticated c"
  "authenticated (snd (HandleChannelRequest h p c)) = authenticated c"
  "authenticated (snd (handle_channel_data h p c)) = authenticated c"
  "authenticated (snd (handle_window_adjust p c)) = authenticated c"
  "authenticated (snd (handle_channel_close h c)) = authenticated c"
  by (simp_all add: HandleChannelOpen_def HandleChannelRequest_def handle_channel_data_def
      handle_window_adjust_def handle_channel_close_def Let_def split_beta)

subsection \<open>Flow control\<close>

text \<open>
  \<open>credit c w\<close>: the client may still send \<open>w\<close> bytes. What waits in the ring, what has been read
  but not yet given back, and the client's window never exceed the window announced when the
  channel was opened.
\<close>

definition credit :: "'w conn \<Rightarrow> nat \<Rightarrow> bool" where
  "credit c w \<longleftrightarrow> ring_ok c \<and> length (pending c) + unat (consumed c) + w \<le> unat SSH_LOCAL_WINDOW"

definition data_message :: "bytes \<Rightarrow> bytes \<Rightarrow> bytes" where
  "data_message d t = MSG_CHANNEL_DATA # PutU32 0 @ enc_str d @ t"

lemma handle_channel_data_message:
  assumes "length d < 2 ^ 32" and "chanOpen c"
  shows "handle_channel_data h (data_message d t) c = (0, RingPush d c)"
proof -
  let ?r = "RInit (PutU32 0 @ enc_str d @ t)"
  note 1 = u32_codec.get_enc [of ?r 0 "enc_str d @ t", simplified]
  note 2 = str_codec.get_enc [OF 1(3,2) assms(1)]
  show ?thesis
    using 1(1) 2 assms(2) rest_SomeD [OF 2(2)]
    by (simp add: handle_channel_data_def data_message_def Let_def split_beta)
qed

lemma credit_data:
  assumes "credit c w" and "length d \<le> w"
  shows "pending (RingPush d c) = pending c @ d" and "credit (RingPush d c) (w - length d)"
proof -
  have ok: "ring_ok c" and l: "length (pending c) + unat (consumed c) + w \<le> 32768"
    using assms(1) by (simp_all add: credit_def SSH_LOCAL_WINDOW_def)
  show p: "pending (RingPush d c) = pending c @ d"
    using l assms(2) by (simp add: pending_RingPush [OF ok] SSH_IN_RING_def)
  show "credit (RingPush d c) (w - length d)"
    using l assms(2) ok p by (simp add: credit_def SSH_LOCAL_WINDOW_def ring_ok_RingPush)
qed

subsection \<open>Properties\<close>

text \<open>C20: Terminal input is never lost to a client that keeps to its window: a CHANNEL_DATA message within the
  credit appends exactly its bytes to what waits in the ring, and uses up that much credit.\<close>
theorem channel_data_lossless:
  assumes "credit c w" and "length d \<le> w" and "chanOpen c"
  shows "let r = handle_channel_data h (data_message d t) c in
    fst r = 0 \<and> pending (snd r) = pending c @ d \<and> credit (snd r) (w - length d)"
proof -
  have "length d < 2 ^ 32" using assms(1,2) by (simp add: credit_def SSH_LOCAL_WINDOW_def)
  with handle_channel_data_message [OF this assms(3), of h t] credit_data [OF assms(1,2)] show ?thesis
    by simp
qed

theorem channel_data_lossless_witness:
  "pending (snd (handle_channel_data sample_host (data_message [104, 105] [])
     ((conn_zero ([], []) (\<lambda>_. 0))\<lparr>chanOpen := True\<rparr>))) = [104, 105]"
proof -
  let ?c = "(conn_zero ([], []) (\<lambda>_. 0))\<lparr>chanOpen := True\<rparr> :: sample_world conn"
  have p: "pending ?c = []" by (simp add: pending_def ring_list_def ring_count_def conn_zero_def)
  have "credit ?c 32768"
    using p by (simp add: credit_def ring_ok_def conn_zero_def SSH_LOCAL_WINDOW_def)
  from channel_data_lossless [OF this, of "[104, 105]" sample_host "[]"] p show ?thesis
    by (simp add: Let_def)
qed

text \<open>C21: The input ring implements a bounded first-in first-out queue of 65535 bytes: pushing a block appends
  as much of it as fits and drops the rest, and popping takes the oldest byte.\<close>
theorem ring_refines_queue:
  assumes "ring_ok c"
  shows "pending (RingPush ds c) = pending c @ take (65535 - length (pending c)) ds \<and> ring_ok (RingPush ds c) \<and>
    RingEmpty c = (pending c = []) \<and> (pending c \<noteq> [] \<longrightarrow> pending c = ring_front c # pending (ring_pop c))"
  using assms pending_RingPush [OF assms, of ds] ring_ok_RingPush [OF assms] in_ring.empty_iff [OF assms]
    in_ring.contents_pop [OF assms]
  by (simp add: SSH_IN_RING_def)

theorem ring_refines_queue_witness:
  "pending (RingPush [1, 2, 3] ((conn_zero () (\<lambda>_. 0))\<lparr>inHead := 65535, inTail := 65535\<rparr>)) = [1, 2, 3]"
proof -
  have "ring_ok ((conn_zero () (\<lambda>_. 0))\<lparr>inHead := 65535, inTail := 65535\<rparr>)"
    by (simp add: ring_ok_def SSH_IN_RING_def)
  from ring_refines_queue [OF this, of "[1, 2, 3]"] show ?thesis
    by (simp add: pending_def ring_list_def ring_count_def SSH_IN_RING_def)
qed

text \<open>A pty-req or window-change changes the terminal size only to values between 1 and 999, and no channel
  request changes anything of the key exchange, the input buffer or the authentication.\<close>
theorem terminal_size_bounds:
  assumes "dims_inv c"
  shows "dims_inv (snd (HandleChannelRequest h p c)) \<and> kex_view (snd (HandleChannelRequest h p c)) = kex_view c \<and>
    rx_view (snd (HandleChannelRequest h p c)) = rx_view c \<and>
    authenticated (snd (HandleChannelRequest h p c)) = authenticated c"
proof -
  have "dims_inv (snd (SendPacket h q d)) = dims_inv d" "dims_inv (Disconnect h e m d) = dims_inv d" for q e m d
    by (simp_all add: dims_inv_def)
  moreover have "dims_inv (snd (channel_request ty r c))" for ty r
    using assms by (simp add: channel_request_def set_dims_def dims_inv_def Let_def split_beta)
  ultimately show ?thesis
    using assms by (simp add: HandleChannelRequest_def SendChannelReply_def Let_def split_beta)
qed

theorem terminal_size_bounds_witness:
  "dims_inv (snd (HandleChannelRequest sample_host [MSG_CHANNEL_REQUEST] (conn_zero ([], []) (\<lambda>_. 0))))"
  by (rule conjunct1 [OF terminal_size_bounds]) (simp add: dims_inv_def conn_zero_def)

end
