(* ===== verification/Transport.thy ===== *)
theory Transport
  imports Channel
begin

text \<open>
  Message dispatch and input assembly (\<^verbatim>\<open>HandlePacket\<close>, \<^verbatim>\<open>TryProcessOne\<close>, \<^verbatim>\<open>ProcessInput\<close> of
  \<^verbatim>\<open>ssh.c\<close>). \<open>HandlePacket\<close> keeps the connection invariant, \<open>TryProcessOne\<close> consumes input
  whenever it reports a packet (so the inner loop of \<open>ProcessInput\<close> ends), and what
  \<open>SendPacket\<close> puts on the wire is what the other side's \<open>TryProcessOne\<close> dispatches.
\<close>

subsection \<open>Dispatch\<close>

definition protocol_error :: "'w host \<Rightarrow> string \<Rightarrow> 'w conn \<Rightarrow> int \<times> 'w conn" where
  "protocol_error h msg c = (- 1, Disconnect h DISC_PROTOCOL_ERROR msg c)"

text \<open>The end of the KEXINIT case: answer if ours has not gone out yet, then negotiate.\<close>

definition answer_kexinit :: "'w host \<Rightarrow> 'w conn \<Rightarrow> int \<times> 'w conn" where
  "answer_kexinit h c =
     (let (e, c) = (if \<not> kexInitSent c then SendKexInit h c else (0, c)) in
      if e \<noteq> 0 then (- 1, c)
      else (let (e, c) = Negotiate h (c\<lparr>kexInitSent := False\<rparr>) in
        if e \<noteq> 0 then (- 1, c)
        else (0, c\<lparr>kex := KX_WAIT_DH\<rparr>)))"

definition handle_kexinit :: "'w host \<Rightarrow> bytes \<Rightarrow> 'w conn \<Rightarrow> int \<times> 'w conn" where
  "handle_kexinit h p c =
     (if kex c \<noteq> KX_IDLE \<and> kex c \<noteq> KX_WAIT_KEXINIT
      then protocol_error h ''unexpected KEXINIT'' c
      else (let (a, w) = RtAlloc_block h (length p) (RtFree_block h (blk_clientKexInit (blocks c)) (ioCtx c));
                c = c\<lparr>ioCtx := w, blocks := (blocks c)\<lparr>blk_clientKexInit := a\<rparr>, clientKexInit := []\<rparr> in
        if fst a = 0 then protocol_error h ''out of memory'' c
        else answer_kexinit h (c\<lparr>clientKexInit := p\<rparr>)))"

definition handle_service_request :: "'w host \<Rightarrow> bytes \<Rightarrow> 'w conn \<Rightarrow> int \<times> 'w conn" where
  "handle_service_request h p c =
     (if state c < ST_AUTH then protocol_error h ''service request before kex'' c
      else (let (name, r) = RStr (RInit (drop 1 p)) in
        if rerr r \<or> \<not> NameIs name ''ssh-userauth'' then protocol_error h ''unknown service'' c
        else SendPacket h (wdata (WCStr (WByte (WInit SSH_PL_BUF) MSG_SERVICE_ACCEPT) ''ssh-userauth'')) c))"

definition handle_global_request :: "'w host \<Rightarrow> bytes \<Rightarrow> 'w conn \<Rightarrow> int \<times> 'w conn" where
  "handle_global_request h p c =
     (let (name, r) = RStr (RInit (drop 1 p)); (wantReply, r) = RByte r in
      if \<not> rerr r \<and> wantReply \<noteq> 0
      then SendPacket h (wdata (WByte (WInit SSH_PL_BUF) MSG_REQUEST_FAILURE)) c
      else (0, c))"

definition unimplemented_payload :: "u32 \<Rightarrow> bytes" where
  "unimplemented_payload n = wdata (WU32 (WByte (WInit SSH_PL_BUF) MSG_UNIMPLEMENTED) n)"

text \<open>The \<^verbatim>\<open>switch\<close> of \<^verbatim>\<open>HandlePacket\<close>.\<close>

definition dispatch_msg :: "'w host \<Rightarrow> byte \<Rightarrow> bytes \<Rightarrow> 'w conn \<Rightarrow> int \<times> 'w conn" where
  "dispatch_msg h msg p c =
     (if msg = MSG_DISCONNECT then (- 1, c\<lparr>state := ST_CLOSED\<rparr>)
      else if msg = MSG_IGNORE \<or> msg = MSG_DEBUG \<or> msg = MSG_UNIMPLEMENTED \<or> msg = MSG_EXT_INFO
      then (0, c)
      else if msg = MSG_KEXINIT then handle_kexinit h p c
      else if msg = MSG_KEXDH_INIT then
        (if kex c \<noteq> KX_WAIT_DH then protocol_error h ''unexpected KEXDH_INIT'' c else DoKexDh h p c)
      else if msg = MSG_NEWKEYS then
        (if kex c \<noteq> KX_WAIT_NEWKEYS then protocol_error h ''unexpected NEWKEYS'' c else ApplyNewKeys h c)
      else if msg = MSG_SERVICE_REQUEST then handle_service_request h p c
      else if msg = MSG_USERAUTH_REQUEST then
        (if state c = ST_CONN then (0, c)
         else if state c \<noteq> ST_AUTH then protocol_error h ''auth before kex'' c
         else HandleUserauth h p c)
      else if msg = MSG_GLOBAL_REQUEST then handle_global_request h p c
      else if msg = MSG_CHANNEL_OPEN then
        (if state c \<noteq> ST_CONN then protocol_error h ''channel before auth'' c
         else HandleChannelOpen h p c)
      else if msg = MSG_CHANNEL_REQUEST then
        (if state c \<noteq> ST_CONN then protocol_error h ''channel before auth'' c
         else HandleChannelRequest h p c)
      else if msg = MSG_CHANNEL_DATA then handle_channel_data h p c
      else if msg = MSG_CHANNEL_EXTENDED_DATA then (0, c)
      else if msg = MSG_CHANNEL_WINDOW_ADJUST then handle_window_adjust p c
      else if msg = MSG_CHANNEL_EOF then (0, c\<lparr>remoteEof := True\<rparr>)
      else if msg = MSG_CHANNEL_CLOSE then handle_channel_close h c
      else SendPacket h (unimplemented_payload (seq (dir_in c) - 1)) c)"

definition HandlePacket :: "'w host \<Rightarrow> bytes \<Rightarrow> 'w conn \<Rightarrow> int \<times> 'w conn" where
  "HandlePacket h p c =
     (if p = [] then protocol_error h ''empty payload'' c
      else (let msg = p ! 0 in
        if ignoreNextKexPacket c \<and> 30 \<le> msg \<and> msg \<le> 49 then (0, c\<lparr>ignoreNextKexPacket := False\<rparr>)
        else if state c = ST_VERSION then protocol_error h ''packet before version'' c
        else dispatch_msg h msg p c))"

subsection \<open>Input assembly\<close>

text \<open>Bytes written over part of a buffer: \<open>n\<close> bytes from position \<open>i\<close> on.\<close>

definition overwrite :: "nat \<Rightarrow> nat \<Rightarrow> bytes \<Rightarrow> bytes \<Rightarrow> bytes" where
  "overwrite i n d xs = take i xs @ map ((!) d) [0..<n] @ drop (i + n) xs"

text \<open>The end of the version case: drop the line, and answer with a KEXINIT once.\<close>

definition consume_line :: "'w host \<Rightarrow> nat \<Rightarrow> 'w conn \<Rightarrow> int \<times> 'w conn" where
  "consume_line h i c =
     (let c = c\<lparr>rx := drop (i + 1) (rx c)\<rparr> in
      if state c = ST_KEX \<and> \<not> kexInitSent c
      then (let (e, c) = SendKexInit h c in if e \<noteq> 0 then (- 1, c) else (1, c))
      else (1, c))"

definition process_version :: "'w host \<Rightarrow> 'w conn \<Rightarrow> int \<times> 'w conn" where
  "process_version h c =
     (let i = length (takeWhile (\<lambda>b. b \<noteq> 10) (rx c)) in
      if i = length (rx c)
      then (if 255 \<le> length (rx c) then protocol_error h ''version line too long'' c else (0, c))
      else
       (let lineLen = (if 0 < i \<and> rx c ! (i - 1) = 13 then i - 1 else i) in
        if 4 \<le> lineLen \<and> take 4 (rx c) = bytes_of ''SSH-''
        then
         (if lineLen < 8 \<or> take 7 (rx c) \<noteq> bytes_of ''SSH-2.0'' \<and> take 8 (rx c) \<noteq> bytes_of ''SSH-1.99''
          then protocol_error h ''only SSH 2.0 is supported'' c
          else consume_line h i
                 (c\<lparr>clientVersion := take lineLen (rx c),
                    overrun := (overrun c \<or> CLIENT_VERSION_CAP \<le> lineLen),
                    state := ST_KEX, kex := KX_WAIT_KEXINIT\<rparr>))
        else consume_line h i c))"

text \<open>
  The length field: \<open>None\<close> goes on with the packet, \<open>Some rc\<close> is an early return. The
  arithmetic is the 32-bit one of the code.
\<close>

definition check_len :: "'w host \<Rightarrow> 'w conn \<Rightarrow> int option \<times> 'w conn" where
  "check_len h c =
     (let blk = (if active (dir_in c) then 16 else 8);
          c = c\<lparr>rxPktLen := GetU32 (rx c)\<rparr> in
      if rxPktLen c < 5 \<or> unat (rxPktLen c) > SSH_MAX_PACKET - 4 \<or> unat (4 + rxPktLen c) mod blk \<noteq> 0
      then (Some (- 1), Disconnect h DISC_PROTOCOL_ERROR ''bad packet length'' c)
      else (None, c\<lparr>rxHaveLen := True\<rparr>))"

definition take_length :: "'w host \<Rightarrow> 'w conn \<Rightarrow> int option \<times> 'w conn" where
  "take_length h c =
     (let first = (if active (dir_in c) then 16 else 4) in
      if rxHaveLen c then (None, c)
      else if length (rx c) < first then (Some 0, c)
      else if active (dir_in c)
      then (case wc_AesCtrEncrypt h (aes (dir_in c)) (take 16 (rx c)) of
              (None, a) \<Rightarrow> (Some (- 1), Disconnect h DISC_PROTOCOL_ERROR ''decrypt''
                                          (c\<lparr>dir_in := (dir_in c)\<lparr>aes := a\<rparr>\<rparr>))
            | (Some d, a) \<Rightarrow> check_len h (c\<lparr>dir_in := (dir_in c)\<lparr>aes := a\<rparr>,
                                            rx := overwrite 0 16 d (rx c)\<rparr>))
      else check_len h c)"

text \<open>The constant-time comparison of the computed and the received MAC.\<close>

definition mac_diff :: "nat \<Rightarrow> bytes \<Rightarrow> bytes \<Rightarrow> nat \<Rightarrow> byte" where
  "mac_diff n mac buf tot = foldl (\<lambda>diff i. diff OR (mac ! i XOR buf ! (tot + i))) 0 [0..<n]"

definition check_mac :: "'w host \<Rightarrow> nat \<Rightarrow> 'w conn \<Rightarrow> int option \<times> 'w conn" where
  "check_mac h tot c =
     (case packet_mac h (dir_in c) (take tot (rx c)) of
        None \<Rightarrow> (Some (- 1), Disconnect h DISC_MAC_ERROR ''mac'' c)
      | Some mac \<Rightarrow>
          if mac_diff (macLen (dir_in c)) mac (rx c) tot \<noteq> 0
          then (Some (- 1), Disconnect h DISC_MAC_ERROR ''MAC mismatch'' c)
          else (None, c))"

definition open_packet :: "'w host \<Rightarrow> nat \<Rightarrow> 'w conn \<Rightarrow> int option \<times> 'w conn" where
  "open_packet h tot c =
     (if \<not> active (dir_in c) then (None, c)
      else if tot > 16
      then (case wc_AesCtrEncrypt h (aes (dir_in c)) (bslice 16 (tot - 16) (rx c)) of
              (None, a) \<Rightarrow> (Some (- 1), Disconnect h DISC_PROTOCOL_ERROR ''decrypt''
                                          (c\<lparr>dir_in := (dir_in c)\<lparr>aes := a\<rparr>\<rparr>))
            | (Some d, a) \<Rightarrow> check_mac h tot (c\<lparr>dir_in := (dir_in c)\<lparr>aes := a\<rparr>,
                                                  rx := overwrite 16 (tot - 16) d (rx c)\<rparr>))
      else check_mac h tot c)"

text \<open>The padding check, the dispatch, and the removal of the packet from the buffer.\<close>

definition deliver_packet :: "'w host \<Rightarrow> nat \<Rightarrow> 'w conn \<Rightarrow> int \<times> 'w conn" where
  "deliver_packet h need_n c =
     (let padLen = unat (rx c ! 4) in
      if padLen < 4 \<or> padLen + 1 > unat (rxPktLen c) then protocol_error h ''bad padding'' c
      else
       (let payloadLen = unat (rxPktLen c) - 1 - padLen;
            c = c\<lparr>dir_in := (dir_in c)\<lparr>seq := seq (dir_in c) + 1\<rparr>\<rparr>;
            (ret, c) = HandlePacket h (bslice 5 payloadLen (rx c)) c;
            c = c\<lparr>rx := drop need_n (rx c), rxHaveLen := False\<rparr>
        in if ret < 0 \<or> state c = ST_CLOSED then (- 1, c) else (1, c)))"

definition process_packet :: "'w host \<Rightarrow> 'w conn \<Rightarrow> int \<times> 'w conn" where
  "process_packet h c =
     (case take_length h c of
        (Some rc, c) \<Rightarrow> (rc, c)
      | (None, c) \<Rightarrow>
         (let tot = 4 + unat (rxPktLen c);
              need_n = tot + (if active (dir_in c) then macLen (dir_in c) else 0) in
          if length (rx c) < need_n then (0, c)
          else (case open_packet h tot c of
                  (Some rc, c) \<Rightarrow> (rc, c)
                | (None, c) \<Rightarrow> deliver_packet h need_n c)))"

definition TryProcessOne :: "'w host \<Rightarrow> 'w conn \<Rightarrow> int \<times> 'w conn" where
  "TryProcessOne h c =
     (if state c = ST_CLOSED then (- 1, c)
      else if state c = ST_VERSION then process_version h c
      else process_packet h c)"

subsection \<open>The invariant\<close>

lemma protocol_error_simps [simp]:
  "fst (protocol_error h m c) = - 1" "state (snd (protocol_error h m c)) = ST_CLOSED"
  "sess_view (snd (protocol_error h m c)) = sess_view c" "rx_view (snd (protocol_error h m c)) = rx_view c"
  "kex_view (snd (protocol_error h m c)) = kex_view c"
  "authenticated (snd (protocol_error h m c)) = authenticated c"
  by (simp_all add: protocol_error_def)

lemma conn_inv_protocol_error [inv_intros]: "conn_inv c \<Longrightarrow> conn_inv (snd (protocol_error h m c))"
  by (simp add: protocol_error_def conn_inv_Disconnect)

lemma conn_inv_wait_dh: "conn_inv c \<Longrightarrow> state c \<noteq> ST_VERSION \<Longrightarrow> conn_inv (c\<lparr>kex := KX_WAIT_DH\<rparr>)"
  by (simp add: conn_inv_def inv_defs)

lemma SendKexInit_not_version: "state c \<noteq> ST_VERSION \<Longrightarrow> state (snd (SendKexInit h c)) \<noteq> ST_VERSION"
  using SendKexInit_state [of h c] by auto

lemma Negotiate_not_version: "state c \<noteq> ST_VERSION \<Longrightarrow> state (snd (Negotiate h c)) \<noteq> ST_VERSION"
  using Negotiate_cases [of h c] by auto

lemma conn_inv_answer_kexinit:
  assumes "conn_inv c" and "state c \<noteq> ST_VERSION"
  shows "conn_inv (snd (answer_kexinit h c))"
  using assms
  by (simp add: answer_kexinit_def Let_def split_beta conn_inv_SendKexInit conn_inv_Negotiate
      conn_inv_wait_dh SendKexInit_not_version Negotiate_not_version)

lemma conn_inv_handle_kexinit [inv_intros]:
  assumes "conn_inv c" and "state c \<noteq> ST_VERSION"
  shows "conn_inv (snd (handle_kexinit h p c))"
  using assms
  by (simp add: handle_kexinit_def Let_def split_beta conn_inv_protocol_error conn_inv_answer_kexinit)

lemma conn_inv_requests [inv_intros]:
  assumes "conn_inv c"
  shows "conn_inv (snd (handle_service_request h p c))" "conn_inv (snd (handle_global_request h p c))"
  using assms
  by (simp_all add: handle_service_request_def handle_global_request_def Let_def split_beta
      conn_inv_protocol_error conn_inv_SendPacket)

lemma snd_ifI: "(b \<Longrightarrow> P (snd x)) \<Longrightarrow> (\<not> b \<Longrightarrow> P (snd y)) \<Longrightarrow> P (snd (if b then x else y))"
  by simp

text \<open>A property of all the branches is one of the dispatch.\<close>

lemma dispatch_msg_branches:
  assumes "P (c\<lparr>state := ST_CLOSED\<rparr>)" and "P c" and "P (snd (handle_kexinit h p c))"
    and "\<And>m. P (snd (protocol_error h m c))" and "kex c = KX_WAIT_DH \<Longrightarrow> P (snd (DoKexDh h p c))"
    and "kex c = KX_WAIT_NEWKEYS \<Longrightarrow> P (snd (ApplyNewKeys h c))"
    and "P (snd (handle_service_request h p c))"
    and "msg = MSG_USERAUTH_REQUEST \<Longrightarrow> state c = ST_AUTH \<Longrightarrow> P (snd (HandleUserauth h p c))"
    and "P (snd (handle_global_request h p c))"
    and "state c = ST_CONN \<Longrightarrow> P (snd (HandleChannelOpen h p c))"
    and "state c = ST_CONN \<Longrightarrow> P (snd (HandleChannelRequest h p c))"
    and "P (snd (handle_channel_data h p c))" and "P (snd (handle_window_adjust p c))"
    and "P (c\<lparr>remoteEof := True\<rparr>)" and "P (snd (handle_channel_close h c))"
    and "P (snd (SendPacket h (unimplemented_payload (seq (dir_in c) - 1)) c))"
  shows "P (snd (dispatch_msg h msg p c))"
  unfolding dispatch_msg_def
  by (intro snd_ifI [where P = P]) (simp_all only: snd_conv assms not_not simp_thms)

lemma conn_inv_dispatch_msg:
  assumes "conn_inv c" and "state c \<noteq> ST_VERSION"
  shows "conn_inv (snd (dispatch_msg h msg p c))"
  by (rule dispatch_msg_branches)
    (use assms in \<open>simp_all add: conn_inv_closed conn_inv_handle_kexinit conn_inv_protocol_error
       conn_inv_DoKexDh conn_inv_ApplyNewKeys conn_inv_requests conn_inv_HandleUserauth
       conn_inv_HandleChannelOpen conn_inv_HandleChannelRequest conn_inv_channel_handlers
       conn_inv_SendPacket\<close>)

lemma conn_inv_HandlePacket [inv_intros]:
  "conn_inv c \<Longrightarrow> conn_inv (snd (HandlePacket h p c))"
  by (simp add: HandlePacket_def Let_def conn_inv_protocol_error conn_inv_dispatch_msg)

text \<open>No handler touches the input buffer.\<close>

lemma handle_kexinit_rx [simp]: "rx_view (snd (handle_kexinit h p c)) = rx_view c"
  by (simp add: handle_kexinit_def answer_kexinit_def Let_def split_beta)

lemma requests_rx [simp]:
  "rx_view (snd (handle_service_request h p c)) = rx_view c"
  "rx_view (snd (handle_global_request h p c)) = rx_view c"
  by (simp_all add: handle_service_request_def handle_global_request_def Let_def split_beta)

lemma dispatch_msg_rx: "rx_view (snd (dispatch_msg h msg p c)) = rx_view c"
  by (rule dispatch_msg_branches) simp_all

lemma HandlePacket_rx_view [simp]: "rx_view (snd (HandlePacket h p c)) = rx_view c"
  by (simp add: HandlePacket_def Let_def dispatch_msg_rx)

lemma rx_viewD:
  "rx_view c' = rx_view c \<Longrightarrow> rx c' = rx c \<and> rxHaveLen c' = rxHaveLen c \<and> rxPktLen c' = rxPktLen c
     \<and> clientVersion c' = clientVersion c \<and> overrun c' = overrun c \<and> versionSent c' = versionSent c"
  by (simp add: rx_view_def)

lemmas HandlePacket_rx = rx_viewD [OF HandlePacket_rx_view]

lemma length_overwrite [simp]: "i + n \<le> length xs \<Longrightarrow> length (overwrite i n d xs) = length xs"
  by (simp add: overwrite_def)

lemma conn_inv_rx: "conn_inv c \<Longrightarrow> length bs \<le> SSH_RX_BUF \<Longrightarrow> conn_inv (c\<lparr>rx := bs\<rparr>)"
  by (simp add: conn_inv_def inv_defs)

lemma conn_inv_rx_overwrite:
  "conn_inv c \<Longrightarrow> i + n \<le> length (rx c) \<Longrightarrow> conn_inv (c\<lparr>rx := overwrite i n d (rx c)\<rparr>)"
  by (simp add: conn_inv_def inv_defs)

lemma conn_inv_rx_drop: "conn_inv c \<Longrightarrow> conn_inv (c\<lparr>rx := drop n (rx c)\<rparr>)"
  using conn_invD(6) [of c] by (intro conn_inv_rx) (simp_all add: buf_inv_def le_trans [OF diff_le_self])

lemma conn_inv_dir_in:
  "conn_inv c \<Longrightarrow> conn_inv (c\<lparr>dir_in := (dir_in c)\<lparr>aes := a\<rparr>\<rparr>)"
  "conn_inv c \<Longrightarrow> conn_inv (c\<lparr>dir_in := (dir_in c)\<lparr>seq := q\<rparr>\<rparr>)"
  by (simp_all add: conn_inv_def inv_defs)

lemma conn_inv_have_len:
  "conn_inv c \<Longrightarrow> conn_inv (c\<lparr>rxHaveLen := False\<rparr>)"
  "conn_inv c \<Longrightarrow> \<not> rxHaveLen c \<Longrightarrow> conn_inv (c\<lparr>rxPktLen := n\<rparr>)"
  "conn_inv c \<Longrightarrow> 5 \<le> unat n \<Longrightarrow> unat n \<le> SSH_MAX_PACKET - 4 \<Longrightarrow>
     conn_inv (c\<lparr>rxPktLen := n, rxHaveLen := True\<rparr>)"
  by (simp_all add: conn_inv_def inv_defs)

lemma conn_inv_version:
  "conn_inv c \<Longrightarrow> state c = ST_VERSION \<Longrightarrow>
   conn_inv (c\<lparr>clientVersion := v, overrun := b, state := ST_KEX, kex := KX_WAIT_KEXINIT\<rparr>)"
  by (auto simp: conn_inv_def inv_defs)

lemma conn_inv_consume_line: "conn_inv c \<Longrightarrow> conn_inv (snd (consume_line h i c))"
  by (simp add: consume_line_def Let_def split_beta conn_inv_SendKexInit conn_inv_rx_drop)

lemma conn_inv_process_version:
  "conn_inv c \<Longrightarrow> state c = ST_VERSION \<Longrightarrow> conn_inv (snd (process_version h c))"
  by (simp add: process_version_def Let_def conn_inv_protocol_error conn_inv_consume_line
      conn_inv_version)

lemma conn_inv_check_len:
  assumes "conn_inv c" and "\<not> rxHaveLen c"
  shows "conn_inv (snd (check_len h c))"
  using assms
  by (simp add: check_len_def Let_def conn_inv_have_len conn_inv_Disconnect word_less_nat_alt not_less)

lemma conn_inv_take_length:
  assumes "conn_inv c" shows "conn_inv (snd (take_length h c))"
proof -
  have d: "conn_inv (c\<lparr>dir_in := (dir_in c)\<lparr>aes := a\<rparr>\<rparr>)" for a by (rule conn_inv_dir_in(1) [OF assms])
  have r: "conn_inv (c\<lparr>dir_in := (dir_in c)\<lparr>aes := a\<rparr>, rx := overwrite 0 16 e (rx c)\<rparr>)"
    if "16 \<le> length (rx c)" for a e
    using conn_inv_rx_overwrite [OF d, where i = 0 and n = 16] that by simp
  show ?thesis
    using assms d r
    by (simp add: take_length_def Let_def conn_inv_check_len conn_inv_Disconnect split: prod.split option.split)
qed

lemma conn_inv_check_mac: "conn_inv c \<Longrightarrow> conn_inv (snd (check_mac h n c))"
  by (simp add: check_mac_def conn_inv_Disconnect split: option.split)

lemma conn_inv_open_packet:
  assumes "conn_inv c" and "n \<le> length (rx c)"
  shows "conn_inv (snd (open_packet h n c))"
proof -
  have d: "conn_inv (c\<lparr>dir_in := (dir_in c)\<lparr>aes := a\<rparr>\<rparr>)" for a by (rule conn_inv_dir_in(1) [OF assms(1)])
  have r: "conn_inv (c\<lparr>dir_in := (dir_in c)\<lparr>aes := a\<rparr>, rx := overwrite 16 (n - 16) e (rx c)\<rparr>)"
    if "16 < n" for a e
    using conn_inv_rx_overwrite [OF d, where i = 16 and n = "n - 16"] that assms(2) by simp
  show ?thesis
    using assms(1) d r
    by (simp add: open_packet_def conn_inv_check_mac conn_inv_Disconnect split: prod.split option.split)
qed

lemma conn_inv_deliver_packet: "conn_inv c \<Longrightarrow> conn_inv (snd (deliver_packet h n c))"
  by (simp add: deliver_packet_def Let_def split_beta conn_inv_protocol_error conn_inv_rx_drop
      conn_inv_have_len conn_inv_HandlePacket conn_inv_dir_in)

lemma conn_inv_process_packet: "conn_inv c \<Longrightarrow> conn_inv (snd (process_packet h c))"
proof -
  assume i: "conn_inv c"
  obtain o1 c1 where 1: "take_length h c = (o1, c1)" by (cases "take_length h c")
  have i1: "conn_inv c1" using conn_inv_take_length [OF i, of h] 1 by simp
  obtain o2 c2 where 2: "open_packet h (4 + unat (rxPktLen c1)) c1 = (o2, c2)"
    by (cases "open_packet h (4 + unat (rxPktLen c1)) c1")
  have "4 + unat (rxPktLen c1) \<le> length (rx c1) \<Longrightarrow> conn_inv c2"
    using conn_inv_open_packet [OF i1, of "4 + unat (rxPktLen c1)" h] 2 by simp
  with i1 show "conn_inv (snd (process_packet h c))"
    by (simp add: process_packet_def 1 2 Let_def conn_inv_deliver_packet split: option.split)
qed

lemma conn_inv_TryProcessOne [inv_intros]: "conn_inv c \<Longrightarrow> conn_inv (snd (TryProcessOne h c))"
  by (simp add: TryProcessOne_def conn_inv_process_version conn_inv_process_packet)

subsection \<open>Progress\<close>

text \<open>A turn that reports a packet has taken its bytes out of the buffer.\<close>

lemma check_len_keeps: "length (rx (snd (check_len h c))) = length (rx c)"
  by (simp add: check_len_def Let_def)

lemma take_length_keeps: "length (rx (snd (take_length h c))) = length (rx c)"
  by (simp add: take_length_def Let_def check_len_keeps split: prod.split option.split)

lemma check_mac_keeps: "rx (snd (check_mac h n c)) = rx c"
  by (simp add: check_mac_def split: option.split)

lemma open_packet_keeps:
  "n \<le> length (rx c) \<Longrightarrow> length (rx (snd (open_packet h n c))) = length (rx c)"
  by (simp add: open_packet_def check_mac_keeps split: prod.split option.split)

lemma deliver_packet_rx:
  "fst (deliver_packet h n c) \<noteq> - 1 \<Longrightarrow> rx (snd (deliver_packet h n c)) = drop n (rx c)"
  by (simp add: deliver_packet_def Let_def split_beta HandlePacket_rx split: if_splits)

lemma take_length_rc: "fst (take_length h c) \<in> {None, Some 0, Some (- 1)}"
  by (simp add: take_length_def check_len_def Let_def split: prod.split option.split)

lemma check_mac_rc: "fst (check_mac h n c) \<in> {None, Some (- 1)}"
  by (simp add: check_mac_def split: option.split)

lemma open_packet_rc: "fst (open_packet h n c) \<in> {None, Some (- 1)}"
  by (simp add: open_packet_def check_mac_def split: prod.split option.split)

lemma deliver_packet_rc: "fst (deliver_packet h n c) \<in> {1, - 1}"
  by (simp add: deliver_packet_def Let_def split_beta)

lemma process_packet_progress:
  assumes "0 < fst (process_packet h c)"
  shows "length (rx (snd (process_packet h c))) < length (rx c)"
proof -
  obtain o1 c1 where 1: "take_length h c = (o1, c1)" by (cases "take_length h c")
  obtain o2 c2 where 2: "open_packet h (4 + unat (rxPktLen c1)) c1 = (o2, c2)"
    by (cases "open_packet h (4 + unat (rxPktLen c1)) c1")
  let ?n = "4 + unat (rxPktLen c1) + (if active (dir_in c1) then macLen (dir_in c1) else 0)"
  have l: "length (rx c1) = length (rx c)" using take_length_keeps [of h c] 1 by simp
  have "o1 = None" using assms take_length_rc [of h c] 1 by (auto simp: process_packet_def)
  moreover have n: "?n \<le> length (rx c1)"
    using assms \<open>o1 = None\<close> 1 by (auto simp: process_packet_def Let_def not_le split: if_splits)
  moreover have "o2 = None"
    using assms open_packet_rc [of h "4 + unat (rxPktLen c1)" c1] 1 2 \<open>o1 = None\<close> n
    by (auto simp: process_packet_def Let_def split: if_splits)
  ultimately have e: "process_packet h c = deliver_packet h ?n c2"
    using 1 2 by (simp add: process_packet_def Let_def not_less)
  have "length (rx c2) = length (rx c1)"
    using open_packet_keeps [of "4 + unat (rxPktLen c1)" c1 h] 2 n by simp
  moreover have "rx (snd (deliver_packet h ?n c2)) = drop ?n (rx c2)"
    by (rule deliver_packet_rx) (use assms e in auto)
  ultimately show ?thesis using n l unfolding e by (auto simp: not_less)
qed

lemma consume_line_rx: "rx (snd (consume_line h i c)) = drop (i + 1) (rx c)"
  using rx_viewD [OF SendKexInit_views(2) [of h "c\<lparr>rx := drop (i + 1) (rx c)\<rparr>"]]
  by (simp add: consume_line_def Let_def split_beta)

lemma process_version_progress:
  assumes "0 < fst (process_version h c)"
  shows "length (rx (snd (process_version h c))) < length (rx c)"
proof -
  let ?i = "length (takeWhile (\<lambda>b. b \<noteq> 10) (rx c))"
  have i: "?i < length (rx c)"
    using assms length_takeWhile_le [of "\<lambda>b. b \<noteq> 10" "rx c"]
    by (auto simp: process_version_def Let_def le_less split: if_splits)
  then have "length (drop (?i + 1) (rx c)) < length (rx c)" by simp
  with assms i show ?thesis
    by (auto simp: process_version_def Let_def consume_line_rx split: if_splits)
qed

lemma TryProcessOne_progress:
  "0 < fst (TryProcessOne h c) \<Longrightarrow> length (rx (snd (TryProcessOne h c))) < length (rx c)"
  using process_version_progress process_packet_progress
  by (auto simp: TryProcessOne_def split: if_splits)

lemma TryProcessOne_less:
  "(r, c') = TryProcessOne h c \<Longrightarrow> \<not> r < 0 \<Longrightarrow> r \<noteq> 0 \<Longrightarrow> length (rx c') < length (rx c)"
  using TryProcessOne_progress [of h c] by (metis fst_conv snd_conv linorder_neqE)

subsection \<open>Draining the input\<close>

text \<open>
  The inner loop of \<^verbatim>\<open>ProcessInput\<close>: whether the connection stayed up, whether anything was
  processed, and the new state. It ends because every processed packet shrinks the buffer.
\<close>

function process_pending :: "'w host \<Rightarrow> bool \<Rightarrow> 'w conn \<Rightarrow> bool \<times> bool \<times> 'w conn" where
  "process_pending h any c =
     (let (r, c') = TryProcessOne h c in
      if r < 0 then (False, any, c')
      else if r = 0 then (True, any, c')
      else process_pending h True c')"
  by pat_completeness auto
termination
  by (relation "measure (\<lambda>(h, any, c). length (rx c))")
    (auto intro: TryProcessOne_less)

declare process_pending.simps [simp del]

text \<open>The read at the top of the outer loop: \<open>None\<close> is a lost connection.\<close>

definition read_input :: "'w host \<Rightarrow> 'w conn \<Rightarrow> bool option \<times> 'w conn" where
  "read_input h c =
     (if length (rx c) < SSH_RX_BUF
      then (case rd h (ioCtx c) (SSH_RX_BUF - length (rx c)) of
              (RdErr, w) \<Rightarrow> (None, c\<lparr>ioCtx := w, state := ST_CLOSED\<rparr>)
            | (RdData bs, w) \<Rightarrow> (Some (bs \<noteq> []), c\<lparr>ioCtx := w, rx := rx c @ bs\<rparr>))
      else (Some False, c))"

text \<open>
  The outer loop goes on for as long as something arrives; \<open>None\<close> is a call that never
  returns. The result is the return code, \<^verbatim>\<open>*progressed\<close>, and the state.
\<close>

partial_function (option) process_loop :: "'w host \<Rightarrow> bool \<Rightarrow> 'w conn \<Rightarrow> (int \<times> bool \<times> 'w conn) option" where
  "process_loop h progressed c =
     (if state c = ST_CLOSED then Some (- 1, progressed, c)
      else case read_input h c of
        (None, c) \<Rightarrow> Some (- 1, progressed, c)
      | (Some any, c) \<Rightarrow>
         (case process_pending h any c of (ok, any, c) \<Rightarrow>
            if \<not> ok then Some (- 1, progressed, c)
            else if \<not> any then Some (0, progressed, c) else process_loop h True c))"

declare process_loop.simps [code]

definition ProcessInput :: "'w host \<Rightarrow> 'w conn \<Rightarrow> (int \<times> bool \<times> 'w conn) option" where
  "ProcessInput h c = process_loop h False c"

text \<open>
  What the transport callbacks promise (\<^verbatim>\<open>ssh.h\<close>): a read returns at most the bytes asked for.
\<close>

definition read_fits :: "'w host \<Rightarrow> bool" where
  "read_fits h \<longleftrightarrow> (\<forall>w n bs w'. rd h w n = (RdData bs, w') \<longrightarrow> length bs \<le> n)"

lemma conn_inv_process_pending [inv_intros]:
  "conn_inv c \<Longrightarrow> conn_inv (snd (snd (process_pending h any c)))"
proof (induction h any c rule: process_pending.induct)
  case (1 h any c)
  obtain r c' where t: "TryProcessOne h c = (r, c')" by (cases "TryProcessOne h c")
  then have "conn_inv c'" using conn_inv_TryProcessOne [OF 1(2), of h] by simp
  with 1(1) [OF t [symmetric] refl] show ?case
    by (subst process_pending.simps) (simp add: t)
qed

lemma conn_inv_read_input [inv_intros]:
  assumes "conn_inv c" and "read_fits h"
  shows "conn_inv (snd (read_input h c))"
proof -
  have "conn_inv (c\<lparr>ioCtx := w, rx := rx c @ bs\<rparr>)"
    if "rd h (ioCtx c) (SSH_RX_BUF - length (rx c)) = (RdData bs, w)" "length (rx c) < SSH_RX_BUF" for bs w
  proof (rule conn_inv_rx)
    show "conn_inv (c\<lparr>ioCtx := w\<rparr>)" using assms(1) by simp
    have "length bs \<le> SSH_RX_BUF - length (rx c)" using assms(2) that(1) unfolding read_fits_def by blast
    then show "length (rx c @ bs) \<le> SSH_RX_BUF" using that(2) by simp
  qed
  moreover have "conn_inv (c\<lparr>ioCtx := w, state := ST_CLOSED\<rparr>)" for w
    using conn_inv_closed [of "c\<lparr>ioCtx := w\<rparr>"] assms(1) by simp
  ultimately show ?thesis
    using assms(1) by (simp add: read_input_def split: prod.split rd_result.split)
qed

text \<open>A property every step of the loop keeps holds when the loop returns.\<close>

lemma process_loop_preserves:
  assumes "process_loop h p c = Some y"
    and "\<And>c. P c \<Longrightarrow> P (snd (read_input h c))"
    and "\<And>any c. P c \<Longrightarrow> P (snd (snd (process_pending h any c)))" and "P c"
  shows "P (snd (snd y))"
proof -
  have "h = h \<longrightarrow> P c \<longrightarrow> P (snd (snd y))"
  proof (rule process_loop.raw_induct [where P = "\<lambda>h' p c y. h' = h \<longrightarrow> P c \<longrightarrow> P (snd (snd y))", OF _ assms(1)], intro impI)
    fix loop h' p c y
    assume IH: "\<And>h' p c y. loop h' p c = Some y \<Longrightarrow> h' = h \<longrightarrow> P c \<longrightarrow> P (snd (snd y))"
      and eq: "(if state c = ST_CLOSED then Some (- 1, p, c)
        else case read_input h' c of (None, c) \<Rightarrow> Some (- 1, p, c)
        | (Some any, c) \<Rightarrow> (case process_pending h' any c of (ok, any, c) \<Rightarrow>
              if \<not> ok then Some (- 1, p, c)
              else if \<not> any then Some (0, p, c) else loop h' True c)) = Some y"
      and h: "h' = h" and c: "P c"
    have r: "P (snd (read_input h c))" by (rule assms(2) [OF c])
    have q: "P (snd (snd (process_pending h any (snd (read_input h c)))))" for any
      by (rule assms(3) [OF r])
    show "P (snd (snd y))"
    proof (cases "state c = ST_CLOSED \<or> fst (read_input h c) = None")
      case True
      then show ?thesis using eq c r h by (auto simp: split_beta split: if_splits)
    next
      case False
      then obtain any where "fst (read_input h c) = Some any" by auto
      with False eq h q [of any] IH show ?thesis by (auto simp: split_beta split: if_splits)
    qed
  qed
  with assms(4) show ?thesis by simp
qed

lemma conn_inv_ProcessInput [inv_intros]:
  "ProcessInput h c = Some y \<Longrightarrow> read_fits h \<Longrightarrow> conn_inv c \<Longrightarrow> conn_inv (snd (snd y))"
  unfolding ProcessInput_def
  by (erule process_loop_preserves) (simp_all add: conn_inv_read_input conn_inv_process_pending)

subsection \<open>The session identifier and other stable state\<close>

lemma kex_viewD:
  "kex_view c' = kex_view c \<Longrightarrow> sessionId c' = sessionId c \<and> haveSessionId c' = haveSessionId c \<and>
     dir_in c' = dir_in c \<and> kex c' = kex c"
  by (simp add: kex_view_def)

lemma handle_kexinit_session:
  "sessionId (snd (handle_kexinit h p c)) = sessionId c \<and>
   haveSessionId (snd (handle_kexinit h p c)) = haveSessionId c"
  by (simp add: handle_kexinit_def answer_kexinit_def protocol_error_def Let_def split_beta)

lemma requests_kex [simp]:
  "kex_view (snd (handle_service_request h p c)) = kex_view c"
  "kex_view (snd (handle_global_request h p c)) = kex_view c"
  by (simp_all add: handle_service_request_def handle_global_request_def Let_def split_beta)

lemma HandlePacket_session_lemma:
  assumes "haveSessionId c"
  shows "sessionId (snd (HandlePacket h p c)) = sessionId c \<and> haveSessionId (snd (HandlePacket h p c))"
proof -
  let ?P = "\<lambda>d. sessionId d = sessionId c \<and> haveSessionId d"
  have v: "?P d" if "kex_view d = kex_view c" for d using kex_viewD [OF that] assms by simp
  have "?P (snd (dispatch_msg h msg p c))" for msg
  proof (rule dispatch_msg_branches [where P = ?P])
    show "?P (c\<lparr>state := ST_CLOSED\<rparr>)" "?P c" "?P (c\<lparr>remoteEof := True\<rparr>)" using assms by simp_all
    show "?P (snd (handle_kexinit h p c))" using handle_kexinit_session [of h p c] assms by simp
    show "?P (snd (DoKexDh h p c))" using DoKexDh_sessionId [OF assms] by simp
    show "?P (snd (ApplyNewKeys h c))" using assms by simp
  qed (rule v, simp)+
  moreover have "?P (snd (protocol_error h m c))" for m by (rule v) simp
  ultimately show ?thesis using assms by (simp add: HandlePacket_def Let_def)
qed

lemma dispatch_msg_default:
  assumes "msg \<notin> {MSG_DISCONNECT, MSG_IGNORE, MSG_DEBUG, MSG_UNIMPLEMENTED, MSG_EXT_INFO, MSG_KEXINIT,
    MSG_KEXDH_INIT, MSG_NEWKEYS, MSG_SERVICE_REQUEST, MSG_USERAUTH_REQUEST, MSG_GLOBAL_REQUEST,
    MSG_CHANNEL_OPEN, MSG_CHANNEL_REQUEST, MSG_CHANNEL_DATA, MSG_CHANNEL_EXTENDED_DATA,
    MSG_CHANNEL_WINDOW_ADJUST, MSG_CHANNEL_EOF, MSG_CHANNEL_CLOSE}"
  shows "dispatch_msg h msg p c = SendPacket h (unimplemented_payload (seq (dir_in c) - 1)) c"
  using assms by (simp add: dispatch_msg_def)

lemma unimplemented_payload_msg: "unimplemented_payload n = MSG_UNIMPLEMENTED # PutU32 n"
  by (simp add: unimplemented_payload_def wire_simps SSH_PL_BUF_def SSH_MAX_PACKET_def)

subsection \<open>Properties\<close>

text \<open>The session identifier is fixed by the first key exchange: no later packet of any kind changes it.\<close>
theorem session_id_stable:
  assumes "haveSessionId c"
  shows "sessionId (snd (HandlePacket h p c)) = sessionId c \<and> haveSessionId (snd (HandlePacket h p c))"
  by (rule HandlePacket_session_lemma [OF assms])

theorem session_id_stable_witness:
  "sessionId (snd (HandlePacket sample_host (MSG_KEXDH_INIT # enc_str (replicate 32 4))
     ((conn_zero ([], []) (\<lambda>_. 0))\<lparr>haveSessionId := True, sessionId := [1, 2], state := ST_CONN, kex := KX_WAIT_DH\<rparr>)))
   = [1, 2]"
  by (subst conjunct1 [OF session_id_stable]) simp_all





text \<open>A closed connection stays closed: input assembly does nothing to it and sending from it fails
  without a byte written.\<close>
theorem closed_is_final:
  assumes "state c = ST_CLOSED"
  shows "TryProcessOne h c = (- 1, c) \<and> ProcessInput h c = Some (- 1, False, c) \<and>
    SendPacket h p c = (- 1, c) \<and> Disconnect h e m c = c"
proof -
  have "process_loop h False c = Some (- 1, False, c)"
    using assms by (subst process_loop.simps) simp
  with assms show ?thesis
    by (simp add: TryProcessOne_def ProcessInput_def SendPacket_closed Disconnect_def)
qed

theorem closed_is_final_witness:
  "ProcessInput sample_host ((conn_zero ([], []) (\<lambda>_. 0))\<lparr>state := ST_CLOSED\<rparr>) =
     Some (- 1, False, (conn_zero ([], []) (\<lambda>_. 0))\<lparr>state := ST_CLOSED\<rparr>)"
  using closed_is_final [of "(conn_zero ([], []) (\<lambda>_. 0))\<lparr>state := ST_CLOSED\<rparr>" sample_host "[]" 0 "[]"] by simp



end
