(* ===== verification/Delivery.thy ===== *)
theory Delivery
  imports Transport
begin

text \<open>
  End-to-end facts about the packet layer: what \<open>SendPacket\<close> writes is accepted by a
  receiver in the same direction state and dispatched with the same payload, and nothing is
  dispatched from an encrypted direction whose MAC does not match.
\<close>

subsection \<open>The MAC comparison\<close>

lemma mac_diff_zero:
  "mac_diff n mac buf tot = 0 \<longleftrightarrow> (\<forall>i<n. mac ! i = buf ! (tot + i))"
  by (auto simp: mac_diff_def foldl_or_zero xor_byte_eq_0)

lemma mac_diff_slice:
  assumes "n \<le> length mac" and "tot + n \<le> length buf"
  shows "mac_diff n mac buf tot = 0 \<longleftrightarrow> bslice tot n buf = take n mac"
proof -
  have "bslice tot n buf = take n mac \<longleftrightarrow> (\<forall>i<n. buf ! (tot + i) = mac ! i)"
    using assms by (auto simp: list_eq_iff_nth_eq bslice_def)
  then show ?thesis by (auto simp: mac_diff_zero)
qed

lemma packet_mac_length:
  assumes "hmac_len h" and "packet_mac h d tx = Some mac"
  shows "length mac = MacLenOf (macType d)"
proof -
  obtain c0 c1 c2 c3 where c: "wc_HmacInit h = Some c0"
    "wc_HmacSetKey h c0 (macType d) (take (macKeyLen d) (macKey d)) = Some c1"
    "wc_HmacUpdate h c1 (PutU32 (seq d)) = Some c2" "wc_HmacUpdate h c2 tx = Some c3"
    "wc_HmacFinal h c3 = Some mac"
    using assms(2) by (auto simp: packet_mac_def bind_eq_Some_conv)
  then have "foldl (\<lambda>c x. Option.bind c (\<lambda>c. wc_HmacUpdate h c x)) (Some c1) [PutU32 (seq d), tx] = Some c3"
    by simp
  with assms(1) c show ?thesis unfolding hmac_len_def by blast
qed

lemma packet_mac_aes [simp]: "packet_mac h (d\<lparr>aes := a\<rparr>) tx = packet_mac h d tx"
  by (simp add: packet_mac_def)

subsection \<open>Opening what was sealed\<close>

text \<open>The bytes and the state a receiver has when it hands the payload to the dispatcher.\<close>

definition received :: "ssh_dir \<Rightarrow> bytes \<Rightarrow> bytes \<Rightarrow> 'w conn \<Rightarrow> 'w conn" where
  "received d p buf c =
     c\<lparr>dir_in := d, rxPktLen := GetU32 buf, rxHaveLen := True, rx := buf\<rparr>"

text \<open>The end of \<open>TryProcessOne\<close>: \<open>t\<close> is what is left in the buffer.\<close>

definition finish :: "bytes \<Rightarrow> int \<times> 'w conn \<Rightarrow> int \<times> 'w conn" where
  "finish t rc = (if fst rc < 0 \<or> state (snd rc) = ST_CLOSED then - 1 else 1,
     (snd rc)\<lparr>rx := t, rxHaveLen := False\<rparr>)"

definition good_pad :: "ssh_dir \<Rightarrow> bytes \<Rightarrow> bytes \<Rightarrow> bool" where
  "good_pad d p pad \<longleftrightarrow> length p + 64 \<le> SSH_MAX_PACKET
     \<and> length pad = pad_len (block_size d) (length p)"

lemma good_padD:
  assumes "good_pad d p pad"
  shows "4 \<le> length pad" "length pad \<le> 19" "length p \<le> 34936"
    "(5 + length p + length pad) mod (if active d then 16 else 8) = 0"
    "unat (GetU32 (plain_packet p pad @ t)) = 1 + length p + length pad"
    "unat ((plain_packet p pad @ t) ! 4) = length pad"
proof -
  have b: "block_size d = 8 \<or> block_size d = 16" by (simp add: block_size_def)
  show l: "4 \<le> length pad" "length pad \<le> 19" "length p \<le> 34936"
    using assms pad_len_bounds(1,2) [OF b, of "length p"] b
    by (auto simp: good_pad_def SSH_MAX_PACKET_def block_size_def)
  show "(5 + length p + length pad) mod (if active d then 16 else 8) = 0"
    using assms pad_len_bounds(3) [OF b, of "length p"] by (simp add: good_pad_def block_size_def)
  have "GetU32 (plain_packet p pad @ t) = GetU32 (plain_packet p pad)"
    by (simp add: plain_packet_def packet_head_def)
  then show "unat (GetU32 (plain_packet p pad @ t)) = 1 + length p + length pad"
    using plain_packet_len_field [of p pad] l by simp
  show "unat ((plain_packet p pad @ t) ! 4) = length pad"
    using plain_packet_pad_field [of pad p] l by (simp add: nth_append)
qed

lemma bslice_app: "i + n \<le> length xs \<Longrightarrow> bslice i n (xs @ ys) = bslice i n xs"
  by (simp add: bslice_def)

lemma GetU32_plain: "GetU32 (plain_packet p pad @ t) = GetU32 (plain_packet p pad)"
  by (simp add: plain_packet_def packet_head_def)

lemma check_len_good:
  assumes "good_pad (dir_in c) p pad" and "GetU32 (rx c) = GetU32 (plain_packet p pad)"
  shows "check_len h c = (None, c\<lparr>rxPktLen := GetU32 (rx c), rxHaveLen := True\<rparr>)"
proof -
  note g = good_padD [OF assms(1)]
  let ?n = "GetU32 (rx c)"
  have n: "unat ?n = 1 + length p + length pad" using g(5) [of "[]"] assms(2) by simp
  then have "unat (4 + ?n) = 5 + length p + length pad"
    using g(1-3) by (simp add: unat_word_ariths)
  with n g(1-4) show ?thesis
    by (simp add: check_len_def Let_def word_less_nat_alt SSH_MAX_PACKET_def split: if_splits)
qed

lemma deliver_good:
  assumes "good_pad (dir_in c) p pad" and "rx c = plain_packet p pad @ m @ t"
    and "rxPktLen c = GetU32 (rx c)"
  shows "deliver_packet h (5 + length p + length pad + length m) c =
    finish t (HandlePacket h p (c\<lparr>dir_in := (dir_in c)\<lparr>seq := seq (dir_in c) + 1\<rparr>\<rparr>))"
proof -
  note g = good_padD(1,2) [OF assms(1)] good_padD(5,6) [OF assms(1), of "m @ t"]
  have "bslice 5 (length p) (rx c) = p"
    using plain_packet_payload [of p pad] assms(2) by (simp add: bslice_app)
  moreover have "drop (5 + length p + length pad + length m) (rx c) = t"
    using assms(2) by simp
  ultimately show ?thesis
    using g assms(2,3)
    by (simp add: deliver_packet_def finish_def Let_def split_beta HandlePacket_rx)
qed

lemma overwrite_prefix:
  "length d = n \<Longrightarrow> length a = i \<Longrightarrow> length x = n \<Longrightarrow> overwrite i n d (a @ x @ t) = a @ d @ t"
  using map_nth [of d] by (simp add: overwrite_def)

text \<open>
  The receiver's direction is the sender's: it decrypts the image in two steps, finds the
  MAC in place and dispatches the payload; its direction moves on exactly as the sender's.
\<close>

lemma process_plain:
  assumes "good_pad (dir_in c) p pad" and "\<not> active (dir_in c)" and "\<not> rxHaveLen c"
    and "rx c = plain_packet p pad @ t"
  shows "process_packet h c = finish t (HandlePacket h p
    (received ((dir_in c)\<lparr>seq := seq (dir_in c) + 1\<rparr>) p (plain_packet p pad @ t) c))"
proof -
  let ?c = "c\<lparr>rxPktLen := GetU32 (rx c), rxHaveLen := True\<rparr>"
  have l: "length (rx c) = 5 + length p + length pad + length t" using assms(4) by simp
  have 1: "take_length h c = (None, ?c)"
    using check_len_good [OF assms(1), of h] assms(2-4) l by (simp add: take_length_def GetU32_plain)
  have n: "unat (GetU32 (rx c)) = 1 + length p + length pad"
    using good_padD(5) [OF assms(1)] assms(4) by simp
  have "deliver_packet h (5 + length p + length pad + length ([] :: bytes)) ?c =
    finish t (HandlePacket h p (?c\<lparr>dir_in := (dir_in ?c)\<lparr>seq := seq (dir_in ?c) + 1\<rparr>\<rparr>))"
    by (rule deliver_good) (use assms in simp_all)
  moreover have "?c\<lparr>dir_in := (dir_in ?c)\<lparr>seq := seq (dir_in ?c) + 1\<rparr>\<rparr> =
    received ((dir_in c)\<lparr>seq := seq (dir_in c) + 1\<rparr>) p (plain_packet p pad @ t) c"
    using assms(4) by (simp add: received_def)
  ultimately show ?thesis
    using 1 n l assms(2) by (simp add: process_packet_def open_packet_def Let_def add.assoc)
qed

lemma process_packet_steps:
  assumes "take_length h c = (None, c2)" and "n = 4 + unat (rxPktLen c2)"
    and "k = n + (if active (dir_in c2) then macLen (dir_in c2) else 0)" and "k \<le> length (rx c2)"
    and "open_packet h n c2 = (None, c3)"
  shows "process_packet h c = deliver_packet h k c3"
  using assms by (simp add: process_packet_def Let_def)

lemma process_sealed:
  assumes g: "good_pad (dir_in c) p pad" and act: "active (dir_in c)" and len: "\<not> rxHaveLen c"
    and laws: "ctr_stream h" "hmac_len h" "dir_inv (dir_in c)"
    and mac: "packet_mac h (dir_in c) (plain_packet p pad) = Some mac"
    and enc: "wc_AesCtrEncrypt h (aes (dir_in c)) (plain_packet p pad) = (Some ct, a)"
    and rx: "rx c = ct @ take (macLen (dir_in c)) mac @ t"
  shows "process_packet h c = finish t (HandlePacket h p
    (received ((dir_in c)\<lparr>aes := a, seq := seq (dir_in c) + 1\<rparr>) p
       (plain_packet p pad @ take (macLen (dir_in c)) mac @ t) c))"
proof -
  let ?d = "dir_in c" and ?tx = "plain_packet p pad" and ?m = "take (macLen (dir_in c)) mac"
  let ?n = "5 + length p + length pad"
  note gd = good_padD [OF g]
  have lm: "length mac = macLen ?d" "length ?m = macLen ?d"
    using packet_mac_length [OF laws(2) mac] laws(3) act by (simp_all add: dir_inv_def)
  have lct: "length ct = ?n" using ctr_streamD(1) [OF laws(1) enc] by simp
  have n16: "16 \<le> ?n" using gd(4) act by (cases "?n < 16") simp_all
  obtain a1 where d1: "wc_AesCtrEncrypt h (aes ?d) (take 16 ct) = (Some (take 16 ?tx), a1)"
    and d2: "wc_AesCtrEncrypt h a1 (drop 16 ct) = (Some (drop 16 ?tx), a)"
    using ctr_stream_split [OF laws(1) ctr_streamD(2) [OF laws(1) enc], of 16] lct n16 by auto
  let ?b1 = "take 16 ?tx @ drop 16 ct @ ?m @ t"
  let ?c1 = "c\<lparr>dir_in := ?d\<lparr>aes := a1\<rparr>, rx := ?b1\<rparr>"
  let ?c2 = "?c1\<lparr>rxPktLen := GetU32 ?b1, rxHaveLen := True\<rparr>"
  have "overwrite 0 16 (take 16 ?tx) ([] @ take 16 ct @ (drop 16 ct @ ?m @ t)) = [] @ take 16 ?tx @ (drop 16 ct @ ?m @ t)"
    by (rule overwrite_prefix) (use n16 lct in simp_all)
  moreover have rx': "rx c = [] @ take 16 ct @ (drop 16 ct @ ?m @ t)"
    using rx by (simp flip: append_assoc)
  ultimately have o1: "overwrite 0 16 (take 16 ?tx) (rx c) = ?b1" by simp
  have u: "GetU32 ?b1 = GetU32 ?tx" using n16 by (simp add: GetU32_def nth_append)
  have "check_len h ?c1 = (None, ?c2)"
    using check_len_good [of ?c1 p pad h] g u by (simp add: good_pad_def block_size_def)
  then have 1: "take_length h c = (None, ?c2)"
    using act len rx lct n16 d1 o1 by (simp add: take_length_def)
  have un: "4 + unat (GetU32 ?b1) = ?n" using gd(5) [of "[]"] u by simp
  let ?c3 = "c\<lparr>rxPktLen := GetU32 ?b1, rxHaveLen := True, dir_in := ?d\<lparr>aes := a\<rparr>, rx := ?tx @ ?m @ t\<rparr>"
  have mc: "check_mac h ?n ?c3 = (None, ?c3)"
    using mac mac_diff_slice [of "macLen ?d" mac ?n "?tx @ ?m @ t"] lm
    by (simp add: check_mac_def bslice_append_mid)
  have 2: "open_packet h ?n ?c2 = (None, ?c3)"
  proof (cases "16 < ?n")
    case True
    have s: "bslice 16 (?n - 16) ?b1 = drop 16 ct" using lct n16 by (simp add: bslice_def)
    have "overwrite 16 (?n - 16) (drop 16 ?tx) (take 16 ?tx @ drop 16 ct @ (?m @ t)) =
      take 16 ?tx @ drop 16 ?tx @ (?m @ t)"
      by (rule overwrite_prefix) (use n16 lct in simp_all)
    then have o: "overwrite 16 (?n - 16) (drop 16 ?tx) ?b1 = ?tx @ ?m @ t"
      unfolding append_assoc [symmetric] append_take_drop_id .
    show ?thesis using True act s o d2 mc by (simp add: open_packet_def)
  next
    case False
    then have e: "?n = 16" using n16 by simp
    then have "take 16 ct = ct" "take 16 ?tx = ?tx" "drop 16 ct = []" using lct by simp_all
    moreover have "a1 = a" using d1 \<open>take 16 ct = ct\<close> ctr_streamD(2) [OF laws(1) enc] by simp
    ultimately have "?c2 = ?c3" by simp
    then show ?thesis using e act mc by (simp add: open_packet_def)
  qed
  have 3: "deliver_packet h (?n + length ?m) ?c3 =
    finish t (HandlePacket h p (?c3\<lparr>dir_in := (dir_in ?c3)\<lparr>seq := seq (dir_in ?c3) + 1\<rparr>\<rparr>))"
    by (rule deliver_good) (use g u in \<open>simp_all add: good_pad_def block_size_def GetU32_plain\<close>)
  have 4: "?c3\<lparr>dir_in := (dir_in ?c3)\<lparr>seq := seq (dir_in ?c3) + 1\<rparr>\<rparr> =
    received (?d\<lparr>aes := a, seq := seq ?d + 1\<rparr>) p (?tx @ ?m @ t) c"
    using u by (simp add: received_def GetU32_plain)
  have "process_packet h c = deliver_packet h (?n + length ?m) ?c3"
    by (rule process_packet_steps [OF 1 _ _ _ 2]) (use lct lm n16 un act in simp_all)
  with 3 4 show ?thesis by simp
qed

lemma process_wire_image:
  assumes "wire_image h (dir_in c) p pad = Some (wire, d')" and "good_pad (dir_in c) p pad"
    and "ctr_stream h" "hmac_len h" "dir_inv (dir_in c)" and "\<not> rxHaveLen c" and "rx c = wire @ t"
  shows "\<exists>buf. process_packet h c = finish t (HandlePacket h p (received d' p buf c))"
  using assms(1)
proof (cases rule: wire_imageE)
  case plain
  then show ?thesis using process_plain [OF assms(2) _ assms(6), of t h] assms(7) by auto
next
  case (sealed mac ct a)
  then show ?thesis using process_sealed [OF assms(2) _ assms(6,3-5)] assms(7) by auto
qed

text \<open>
  A packet that \<open>SendPacket\<close> reports as sent is one wire image; a receiver in the direction
  state the sender was in takes exactly that image off its buffer, hands the very payload to
  \<open>HandlePacket\<close>, and ends in the sender's new direction state.
\<close>

lemma delivery_lemma:
  assumes "fst (SendPacket h p s) = 0" and laws: "rng_fills h" "ctr_stream h" "hmac_len h" "dir_inv (dir_out s)"
    and c: "dir_in c = dir_out s" "state c \<noteq> ST_VERSION" "state c \<noteq> ST_CLOSED" "\<not> rxHaveLen c"
  shows "\<exists>wire. wr h (ioCtx s) wire = (True, ioCtx (snd (SendPacket h p s))) \<and>
    (\<forall>t. rx c = wire @ t \<longrightarrow> (\<exists>buf. TryProcessOne h c =
       finish t (HandlePacket h p (received (dir_out (snd (SendPacket h p s))) p buf c))))"
proof -
  from SendPacket_okE [OF assms(1) laws(1)] obtain pad g wire d w where
    x: "length p + 64 \<le> SSH_MAX_PACKET" "length pad = pad_len (block_size (dir_out s)) (length p)"
      "wire_image h (dir_out s) p pad = Some (wire, d)" "wr h (ioCtx s) wire = (True, w)"
      "snd (SendPacket h p s) = s\<lparr>rng := g, dir_out := d, ioCtx := w\<rparr>" by metis
  have "good_pad (dir_in c) p pad" using x(1,2) c(1) by (simp add: good_pad_def)
  moreover have "wire_image h (dir_in c) p pad = Some (wire, d)" using x(3) c(1) by simp
  moreover have "dir_inv (dir_in c)" using laws(4) c(1) by simp
  ultimately have "\<exists>buf. process_packet h c = finish t (HandlePacket h p (received d p buf c))"
    if "rx c = wire @ t" for t
    using process_wire_image [of h c p pad wire d t] laws(2,3) c(4) that by blast
  with x(4,5) c(2,3) show ?thesis by (intro exI [of _ wire]) (auto simp: TryProcessOne_def)
qed

subsection \<open>Integrity\<close>

text \<open>
  Whenever an encrypted direction hands a payload on, the MAC of what was decrypted has been
  found behind it; with a wrong MAC the connection closes and no handler has run.
\<close>

lemma check_mac_accepts:
  assumes "fst (check_mac h n c) = None"
  shows "snd (check_mac h n c) = c" and "\<exists>mac. packet_mac h (dir_in c) (take n (rx c)) = Some mac \<and>
    (\<forall>i<macLen (dir_in c). mac ! i = rx c ! (n + i))"
  using assms by (auto simp: check_mac_def mac_diff_zero split: option.splits if_splits)

lemma check_mac_rejects:
  "fst (check_mac h n c) \<noteq> None \<Longrightarrow> fst (check_mac h n c) = Some (- 1) \<and>
     state (snd (check_mac h n c)) = ST_CLOSED \<and> sess_view (snd (check_mac h n c)) = sess_view c
     \<and> kex_view (snd (check_mac h n c)) = kex_view c"
  by (auto simp: check_mac_def split: option.splits if_splits)


lemma overwrite_nth:
  "i + n \<le> k \<Longrightarrow> k < length xs \<Longrightarrow> overwrite i n d xs ! k = xs ! k"
  by (auto simp: overwrite_def nth_append)

lemma check_len_None:
  "check_len h c = (None, c1) \<Longrightarrow> c1 = c\<lparr>rxPktLen := GetU32 (rx c), rxHaveLen := True\<rparr>
     \<and> 5 \<le> unat (GetU32 (rx c)) \<and> unat (4 + GetU32 (rx c)) mod (if active (dir_in c) then 16 else 8) = 0
     \<and> unat (GetU32 (rx c)) \<le> SSH_MAX_PACKET - 4"
  by (auto simp: check_len_def Let_def word_less_nat_alt split: if_splits)

lemma check_len_bound:
  assumes "check_len h c = (None, c1)" and "active (dir_in c)"
  shows "16 \<le> 4 + unat (rxPktLen c1)"
proof -
  note n = check_len_None [OF assms(1)]
  have "unat (GetU32 (rx c)) \<le> 34996" using n by (simp add: SSH_MAX_PACKET_def)
  then have u: "unat (4 + GetU32 (rx c)) = 4 + unat (GetU32 (rx c))" by (simp add: unat_word_ariths)
  have "(4 + unat (GetU32 (rx c))) mod 16 = 0" using n assms(2) unfolding u by simp
  then have "16 \<le> 4 + unat (GetU32 (rx c))"
    using n by (cases "4 + unat (GetU32 (rx c)) < 16") simp_all
  with n show ?thesis by simp
qed

lemma take_length_None:
  assumes "take_length h c = (None, c1)" and act: "active (dir_in c)"
  shows "sess_view c1 = sess_view c \<and> (\<exists>a. dir_in c1 = (dir_in c)\<lparr>aes := a\<rparr>) \<and>
    length (rx c1) = length (rx c) \<and>
    (\<forall>k. 4 + unat (rxPktLen c1) \<le> k \<longrightarrow> k < length (rx c) \<longrightarrow> rx c1 ! k = rx c ! k)"
proof (cases "rxHaveLen c")
  case True
  then have "c1 = c" using assms(1) by (simp add: take_length_def)
  moreover have "dir_in c = (dir_in c)\<lparr>aes := aes (dir_in c)\<rparr>" by simp
  ultimately show ?thesis by blast
next
  case False
  with assms obtain d a where 1: "16 \<le> length (rx c)"
    "check_len h (c\<lparr>dir_in := (dir_in c)\<lparr>aes := a\<rparr>, rx := overwrite 0 16 d (rx c)\<rparr>) = (None, c1)"
    by (auto simp: take_length_def Let_def not_less split: if_splits prod.splits option.splits)
  from check_len_None [OF 1(2)] check_len_bound [OF 1(2)] act 1(1) show ?thesis
    by (auto intro!: overwrite_nth exI [of _ a])
qed

lemma take_length_rejects:
  "fst (take_length h c) \<noteq> None \<Longrightarrow> sess_view (snd (take_length h c)) = sess_view c
     \<and> fst (take_length h c) \<noteq> Some 1"
  using take_length_rc [of h c]
  by (auto simp: take_length_def check_len_def Let_def split: prod.splits option.splits)

lemma open_packet_None:
  assumes "open_packet h n c = (None, c1)" and act: "active (dir_in c)" and n: "n \<le> length (rx c)"
  shows "sess_view c1 = sess_view c" "length (rx c1) = length (rx c)" "rxPktLen c1 = rxPktLen c"
    "\<exists>mac. packet_mac h (dir_in c) (take n (rx c1)) = Some mac \<and>
       (\<forall>i<macLen (dir_in c). mac ! i = rx c1 ! (n + i))"
    "\<forall>k. n \<le> k \<longrightarrow> k < length (rx c) \<longrightarrow> rx c1 ! k = rx c ! k"
proof -
  obtain a d c' where c': "c' = c \<or> 16 < n \<and> c' = c\<lparr>dir_in := (dir_in c)\<lparr>aes := a\<rparr>, rx := overwrite 16 (n - 16) d (rx c)\<rparr>"
    and m: "check_mac h n c' = (None, c1)"
    using assms(1) act by (auto simp: open_packet_def split: if_splits prod.splits option.splits)
  have c1: "c1 = c'" using check_mac_accepts(1) [of h n c'] m by simp
  show "sess_view c1 = sess_view c" "rxPktLen c1 = rxPktLen c" "length (rx c1) = length (rx c)"
    using c' c1 n by auto
  show "\<forall>k. n \<le> k \<longrightarrow> k < length (rx c) \<longrightarrow> rx c1 ! k = rx c ! k"
    using c' c1 n by (auto simp: overwrite_nth)
  have "packet_mac h (dir_in c') tx = packet_mac h (dir_in c) tx" "macLen (dir_in c') = macLen (dir_in c)" for tx
    using c' by auto
  with check_mac_accepts(2) [of h n c'] m c1
  show "\<exists>mac. packet_mac h (dir_in c) (take n (rx c1)) = Some mac \<and>
       (\<forall>i<macLen (dir_in c). mac ! i = rx c1 ! (n + i))" by simp
qed

lemma open_packet_rejects:
  "fst (open_packet h n c) \<noteq> None \<Longrightarrow> sess_view (snd (open_packet h n c)) = sess_view c
     \<and> fst (open_packet h n c) \<noteq> Some 1"
  using open_packet_rc [of h n c] check_mac_rejects
  by (auto simp: open_packet_def split: prod.splits option.splits if_splits)

text \<open>What was dispatched: \<open>tx\<close> is the decrypted packet, and its MAC was in the buffer.\<close>

lemma integrity_lemma:
  assumes act: "active (dir_in c)" and st: "state c \<noteq> ST_VERSION"
    and ch: "fst (TryProcessOne h c) = 1 \<or> sess_view (snd (TryProcessOne h c)) \<noteq> sess_view c"
  shows "\<exists>tx mac. packet_mac h (dir_in c) tx = Some mac \<and>
    length tx + macLen (dir_in c) \<le> length (rx c) \<and>
    (\<forall>i<macLen (dir_in c). mac ! i = rx c ! (length tx + i)) \<and>
    (\<exists>c' n t. TryProcessOne h c = finish t (HandlePacket h (bslice 5 n tx) c'))"
proof -
  have eq: "TryProcessOne h c = process_packet h c" using ch st by (auto simp: TryProcessOne_def split: if_splits)
  obtain o1 c1 where 1: "take_length h c = (o1, c1)" by (cases "take_length h c")
  have "o1 = None"
    using ch eq take_length_rejects [of h c] 1 by (auto simp: process_packet_def split: option.splits)
  note 1 = 1 [unfolded this]
  from take_length_None [OF 1 act] obtain a where c1: "sess_view c1 = sess_view c"
    "dir_in c1 = (dir_in c)\<lparr>aes := a\<rparr>" "length (rx c1) = length (rx c)"
    "\<And>k. 4 + unat (rxPktLen c1) \<le> k \<Longrightarrow> k < length (rx c) \<Longrightarrow> rx c1 ! k = rx c ! k" by blast
  let ?n = "4 + unat (rxPktLen c1)" and ?m = "macLen (dir_in c)"
  have len: "?n + ?m \<le> length (rx c)"
    using ch eq 1 c1(1-3) act by (auto simp: process_packet_def Let_def not_less split: if_splits)
  obtain o2 c2 where 2: "open_packet h ?n c1 = (o2, c2)" by (cases "open_packet h ?n c1")
  have "o2 = None"
    using ch eq open_packet_rejects [of h ?n c1] 1 2 c1(1-3) len act
    by (auto simp: process_packet_def Let_def split: option.splits)
  note 2 = 2 [unfolded this]
  have "active (dir_in c1)" "?n \<le> length (rx c1)" using c1 act len by simp_all
  note o = open_packet_None [OF 2 this]
  have e: "process_packet h c = deliver_packet h (?n + ?m) c2"
    by (rule process_packet_steps [OF 1 refl _ _ 2]) (use c1 act len in simp_all)
  let ?tx = "take ?n (rx c2)"
  have ltx: "length ?tx = ?n" using o(2) c1(3) len by simp
  obtain mac where m: "packet_mac h (dir_in c) ?tx = Some mac" "\<forall>i<?m. mac ! i = rx c2 ! (?n + i)"
    using o(4) c1(2) by auto
  have "\<forall>i<?m. mac ! i = rx c ! (length ?tx + i)"
    using m(2) o(5) c1(3,4) len unfolding ltx by simp
  moreover have "\<exists>c' n t. deliver_packet h (?n + ?m) c2 = finish t (HandlePacket h (bslice 5 n ?tx) c')"
  proof -
    have p: "\<not> (unat (rx c2 ! 4) < 4 \<or> unat (rx c2 ! 4) + 1 > unat (rxPktLen c2))"
      using ch unfolding eq e by (auto simp: deliver_packet_def Let_def o(1) c1(1) split: if_splits)
    let ?k = "unat (rxPktLen c2) - 1 - unat (rx c2 ! 4)"
    have "bslice 5 ?k (rx c2) = bslice 5 ?k ?tx"
      using p o(3) by (simp add: bslice_def take_drop min_def)
    with p show ?thesis
      by (intro exI [of _ "c2\<lparr>dir_in := (dir_in c2)\<lparr>seq := seq (dir_in c2) + 1\<rparr>\<rparr>"] exI [of _ ?k]
          exI [of _ "drop (?n + ?m) (rx c2)"])
        (simp add: deliver_packet_def finish_def Let_def split_beta HandlePacket_rx)
  qed
  ultimately show ?thesis using m(1) len eq e ltx by metis
qed

subsection \<open>Properties\<close>

text \<open>C7: End-to-end delivery: a packet that \<open>SendPacket\<close> reports as sent is one piece of wire data; a
  receiver in the sender's direction state takes exactly that piece off its buffer, hands the very
  payload to \<open>HandlePacket\<close>, and moves to the sender's new direction state (same cipher position,
  same next sequence number), whatever follows in the buffer.\<close>
theorem packet_delivery:
  assumes "fst (SendPacket h p s) = 0" and "rng_fills h" "ctr_stream h" "hmac_len h" "dir_inv (dir_out s)"
    and "dir_in c = dir_out s" "state c \<noteq> ST_VERSION" "state c \<noteq> ST_CLOSED" "\<not> rxHaveLen c"
  shows "\<exists>wire. wr h (ioCtx s) wire = (True, ioCtx (snd (SendPacket h p s))) \<and>
    (\<forall>t. rx c = wire @ t \<longrightarrow> (\<exists>buf. TryProcessOne h c =
       finish t (HandlePacket h p (received (dir_out (snd (SendPacket h p s))) p buf c))))"
  by (rule delivery_lemma [OF assms])

definition sample_dir :: ssh_dir where
  "sample_dir = \<lparr>aes = [0x33], macKey = replicate 64 1, macKeyLen = 32, macLen = 32,
     macType = WC_SHA256, active = True, seq = 9\<rparr>"

definition sample_conn :: "sample_world conn" where
  "sample_conn = (conn_zero ([], []) (\<lambda>_. 0))\<lparr>state := ST_AUTH, dir_in := sample_dir, dir_out := sample_dir\<rparr>"

lemma sample_conn_simps [simp]:
  "state sample_conn = ST_AUTH" "dir_in sample_conn = sample_dir" "dir_out sample_conn = sample_dir"
  "rxHaveLen sample_conn = False" "ioCtx sample_conn = ([], [])" "rng sample_conn = []"
  by (simp_all add: sample_conn_def conn_zero_def)

lemma sample_send_ok: "fst (SendPacket sample_host [MSG_IGNORE] sample_conn) = 0"
  by (simp add: SendPacket_def seal_and_send_def send_wire_def packet_mac_def sample_host_def sample_dir_def
      sample_final_def MacLenOf_def SSH_MAX_PACKET_def Let_def)

theorem packet_delivery_witness:
  "\<exists>wire. wr sample_host ([], []) wire = (True, ioCtx (snd (SendPacket sample_host [MSG_IGNORE] sample_conn))) \<and>
    (\<forall>t. rx sample_conn = wire @ t \<longrightarrow> (\<exists>buf. TryProcessOne sample_host sample_conn =
       finish t (HandlePacket sample_host [MSG_IGNORE]
         (received (dir_out (snd (SendPacket sample_host [MSG_IGNORE] sample_conn))) [MSG_IGNORE] buf sample_conn))))"
  using packet_delivery [OF sample_send_ok sample_rng_fills sample_ctr_stream sample_hmac_len, of sample_conn]
  by (simp add: dir_inv_def sample_dir_def MacLenOf_def)

text \<open>C6: Integrity: once a direction is encrypted, a packet is reported as processed, or anything of the
  session changes, only if the MAC over the sequence number and the decrypted packet was found
  behind it in the buffer; what is dispatched is the payload of that packet.\<close>
theorem only_authentic_packets:
  assumes "active (dir_in c)" and "state c \<noteq> ST_VERSION"
    and "fst (TryProcessOne h c) = 1 \<or> sess_view (snd (TryProcessOne h c)) \<noteq> sess_view c"
  shows "\<exists>tx mac. packet_mac h (dir_in c) tx = Some mac \<and>
    length tx + macLen (dir_in c) \<le> length (rx c) \<and>
    (\<forall>i<macLen (dir_in c). mac ! i = rx c ! (length tx + i)) \<and>
    (\<exists>c' n t. TryProcessOne h c = finish t (HandlePacket h (bslice 5 n tx) c'))"
  by (rule integrity_lemma [OF assms])

lemma sample_received:
  "fst (TryProcessOne sample_host (sample_conn\<lparr>rx := snd (ioCtx (snd (SendPacket sample_host [MSG_IGNORE] sample_conn)))\<rparr>)) = 1"
proof -
  let ?r = "SendPacket sample_host [MSG_IGNORE] sample_conn"
  let ?c = "sample_conn\<lparr>rx := snd (ioCtx (snd ?r))\<rparr>"
  have i: "dir_inv (dir_out sample_conn)" by (simp add: dir_inv_def sample_dir_def MacLenOf_def)
  have c: "dir_in ?c = dir_out sample_conn" "state ?c \<noteq> ST_VERSION" "state ?c \<noteq> ST_CLOSED" "\<not> rxHaveLen ?c"
    by simp_all
  from delivery_lemma [OF sample_send_ok sample_rng_fills sample_ctr_stream sample_hmac_len i c]
  obtain wire where w: "wr sample_host ([], []) wire = (True, ioCtx (snd ?r))"
    and d: "rx ?c = wire @ [] \<Longrightarrow> \<exists>buf. TryProcessOne sample_host ?c =
       finish [] (HandlePacket sample_host [MSG_IGNORE] (received (dir_out (snd ?r)) [MSG_IGNORE] buf ?c))"
    unfolding sample_conn_simps by blast
  have "snd (ioCtx (snd ?r)) = wire"
    using arg_cong [OF w, of "\<lambda>x. snd (snd x)"] by (simp add: sample_host_def)
  then have "rx ?c = wire @ []" by simp
  from d [OF this] show ?thesis
    by (auto simp: finish_def HandlePacket_def dispatch_msg_def received_def msg_defs)
qed

theorem only_authentic_packets_witness:
  "\<exists>tx mac. packet_mac sample_host sample_dir tx = Some mac"
  using only_authentic_packets [OF _ _ disjI1 [OF sample_received]]
  by (simp add: sample_dir_def) blast

end
