(* ===== verification/Progress.thy ===== *)
theory Progress
  imports Transport
begin

text \<open>
  \<open>ProcessInput\<close> returns: its outer loop runs only for as long as the transport has bytes to
  give or packets are left in the buffer. The measure is what the transport still holds
  together with the length of the buffer.
\<close>

subsection \<open>The world behind the callbacks\<close>

text \<open>
  A predicate on the connection's heap blocks and the world that writing and replacing a copied
  KEXINIT payload keep is kept by every handler: they reach the two in no other way.
\<close>

abbreviation io_view :: "'w conn \<Rightarrow> conn_blocks \<times> 'w" where
  "io_view c \<equiv> (blocks c, ioCtx c)"

definition world_closed :: "'w host \<Rightarrow> (conn_blocks \<times> 'w \<Rightarrow> bool) \<Rightarrow> bool" where
  "world_closed h Q \<longleftrightarrow> (\<forall>b w bs. Q (b, w) \<longrightarrow> Q (b, snd (wr h w bs))) \<and>
     (\<forall>b w n. Q (b, w) \<longrightarrow> (case RtAlloc_block h n (RtFree_block h (blk_serverKexInit b) w) of
        (p, w') \<Rightarrow> Q (b\<lparr>blk_serverKexInit := p\<rparr>, w'))) \<and>
     (\<forall>b w n. Q (b, w) \<longrightarrow> (case RtAlloc_block h n (RtFree_block h (blk_clientKexInit b) w) of
        (p, w') \<Rightarrow> Q (b\<lparr>blk_clientKexInit := p\<rparr>, w')))"

lemma world_closedD:
  assumes "world_closed h Q" and "Q (b, w)"
  shows "Q (b, snd (wr h w bs))"
    "Q (b\<lparr>blk_serverKexInit := fst (RtAlloc_block h n (RtFree_block h (blk_serverKexInit b) w))\<rparr>,
        snd (RtAlloc_block h n (RtFree_block h (blk_serverKexInit b) w)))"
    "Q (b\<lparr>blk_clientKexInit := fst (RtAlloc_block h n (RtFree_block h (blk_clientKexInit b) w))\<rparr>,
        snd (RtAlloc_block h n (RtFree_block h (blk_clientKexInit b) w)))"
  using assms unfolding world_closed_def by (simp_all add: split_beta)

text \<open>The sending operations and the handlers, one after the other.\<close>

lemma world_send_wire: "world_closed h Q \<Longrightarrow> Q (io_view c) \<Longrightarrow> Q (io_view (snd (send_wire h bs c)))"
  using world_closedD(1) [of h Q "blocks c" "ioCtx c" bs] by (simp add: send_wire_def Let_def split_beta)

lemma world_seal: "world_closed h Q \<Longrightarrow> Q (io_view c) \<Longrightarrow> Q (io_view (snd (seal_and_send h tx c)))"
  by (simp add: seal_and_send_def world_send_wire split: prod.split option.split)

lemma world_SendPacket: "world_closed h Q \<Longrightarrow> Q (io_view c) \<Longrightarrow> Q (io_view (snd (SendPacket h p c)))"
  by (simp add: SendPacket_def Let_def world_seal split: prod.split option.split)

lemma world_Disconnect: "world_closed h Q \<Longrightarrow> Q (io_view c) \<Longrightarrow> Q (io_view (Disconnect h e m c))"
  by (simp add: Disconnect_def world_SendPacket)

lemma world_errors:
  "world_closed h Q \<Longrightarrow> Q (io_view c) \<Longrightarrow> Q (io_view (snd (protocol_error h m c)))"
  "world_closed h Q \<Longrightarrow> Q (io_view c) \<Longrightarrow> Q (io_view (snd (kex_fail h m c)))"
  by (simp_all add: protocol_error_def kex_fail_def world_Disconnect)

lemma world_SendKexInit: "world_closed h Q \<Longrightarrow> Q (io_view c) \<Longrightarrow> Q (io_view (snd (SendKexInit h c)))"
  using world_closedD(2) [of h Q "blocks c" "ioCtx c"]
  by (simp add: SendKexInit_def Let_def world_SendPacket split_beta split: option.split)

lemma world_Negotiate: "world_closed h Q \<Longrightarrow> Q (io_view c) \<Longrightarrow> Q (io_view (snd (Negotiate h c)))"
  by (simp add: Negotiate_def Let_def world_errors world_Disconnect split_beta split: option.split)

lemma world_handle_kexinit:
  "world_closed h Q \<Longrightarrow> Q (io_view c) \<Longrightarrow> Q (io_view (snd (handle_kexinit h p c)))"
  using world_closedD(3) [of h Q "blocks c" "ioCtx c"]
  by (simp add: handle_kexinit_def answer_kexinit_def Let_def world_errors world_SendKexInit
      world_Negotiate split_beta)

lemma world_answer_kexdh:
  "world_closed h Q \<Longrightarrow> Q (io_view c) \<Longrightarrow> Q (io_view (snd (answer_kexdh h qs k hh c)))"
  by (simp add: answer_kexdh_def switch_out_def Let_def world_errors world_SendPacket split_beta
      split: option.split)

lemma world_DoKexDh: "world_closed h Q \<Longrightarrow> Q (io_view c) \<Longrightarrow> Q (io_view (snd (DoKexDh h p c)))"
  by (simp add: DoKexDh_def Let_def world_errors world_answer_kexdh split_beta split: option.split)

lemma world_ApplyNewKeys: "world_closed h Q \<Longrightarrow> Q (io_view c) \<Longrightarrow> Q (io_view (snd (ApplyNewKeys h c)))"
  by (simp add: ApplyNewKeys_def world_errors split: option.split)

lemma world_HandleUserauth:
  "world_closed h Q \<Longrightarrow> Q (io_view c) \<Longrightarrow> Q (io_view (snd (HandleUserauth h p c)))"
  by (simp add: HandleUserauth_def check_login_def SendAuthFailure_def Let_def world_SendPacket
      world_Disconnect split_beta)

lemma world_requests:
  "world_closed h Q \<Longrightarrow> Q (io_view c) \<Longrightarrow> Q (io_view (snd (handle_service_request h p c)))"
  "world_closed h Q \<Longrightarrow> Q (io_view c) \<Longrightarrow> Q (io_view (snd (handle_global_request h p c)))"
  by (simp_all add: handle_service_request_def handle_global_request_def Let_def world_errors
      world_SendPacket split_beta)

lemma channel_request_io [simp]: "ioCtx (snd (channel_request t r c)) = ioCtx c" "blocks (snd (channel_request t r c)) = blocks c"
  by (simp_all add: channel_request_def set_dims_def Let_def split_beta)

lemma RingPush_io [simp]: "ioCtx (RingPush ds c) = ioCtx c" "blocks (RingPush ds c) = blocks c"
  using RingPush_only [of ds c] by auto

lemma world_channel:
  "world_closed h Q \<Longrightarrow> Q (io_view c) \<Longrightarrow> Q (io_view (snd (HandleChannelOpen h p c)))"
  "world_closed h Q \<Longrightarrow> Q (io_view c) \<Longrightarrow> Q (io_view (snd (HandleChannelRequest h p c)))"
  "world_closed h Q \<Longrightarrow> Q (io_view c) \<Longrightarrow> Q (io_view (snd (handle_channel_data h p c)))"
  "Q (io_view c) \<Longrightarrow> Q (io_view (snd (handle_window_adjust p c)))"
  "world_closed h Q \<Longrightarrow> Q (io_view c) \<Longrightarrow> Q (io_view (snd (handle_channel_close h c)))"
  by (simp_all add: HandleChannelOpen_def HandleChannelRequest_def handle_channel_data_def
      handle_window_adjust_def handle_channel_close_def SendChannelReply_def Let_def
      world_SendPacket world_Disconnect split_beta)

lemma world_dispatch_msg:
  assumes "world_closed h Q" and "Q (io_view c)"
  shows "Q (io_view (snd (dispatch_msg h msg p c)))"
  by (rule dispatch_msg_branches [where P = "\<lambda>c. Q (io_view c)"])
    (use assms in \<open>simp_all add: world_errors world_handle_kexinit world_DoKexDh world_ApplyNewKeys
       world_requests world_HandleUserauth world_channel world_SendPacket\<close>)

lemma world_HandlePacket: "world_closed h Q \<Longrightarrow> Q (io_view c) \<Longrightarrow> Q (io_view (snd (HandlePacket h p c)))"
  by (simp add: HandlePacket_def Let_def world_errors world_dispatch_msg)

lemma world_process_version:
  "world_closed h Q \<Longrightarrow> Q (io_view c) \<Longrightarrow> Q (io_view (snd (process_version h c)))"
  by (simp add: process_version_def consume_line_def Let_def world_errors world_SendKexInit split_beta)

lemma world_take_length: "world_closed h Q \<Longrightarrow> Q (io_view c) \<Longrightarrow> Q (io_view (snd (take_length h c)))"
  by (simp add: take_length_def check_len_def Let_def world_Disconnect split: prod.split option.split)

lemma world_open_packet: "world_closed h Q \<Longrightarrow> Q (io_view c) \<Longrightarrow> Q (io_view (snd (open_packet h n c)))"
  by (simp add: open_packet_def check_mac_def Let_def world_Disconnect split: prod.split option.split)

lemma world_deliver_packet: "world_closed h Q \<Longrightarrow> Q (io_view c) \<Longrightarrow> Q (io_view (snd (deliver_packet h n c)))"
  by (simp add: deliver_packet_def Let_def world_errors world_HandlePacket split_beta)

lemma world_process_packet:
  assumes w: "world_closed h Q" and q: "Q (io_view c)"
  shows "Q (io_view (snd (process_packet h c)))"
proof -
  obtain o1 c1 where 1: "take_length h c = (o1, c1)" by (cases "take_length h c")
  obtain o2 c2 where 2: "open_packet h (4 + unat (rxPktLen c1)) c1 = (o2, c2)"
    by (cases "open_packet h (4 + unat (rxPktLen c1)) c1")
  have q1: "Q (io_view c1)" using world_take_length [OF w q] 1 by (metis snd_conv)
  have q2: "Q (io_view c2)" using world_open_packet [OF w q1] 2 by (metis snd_conv)
  show ?thesis
    using q1 q2 by (simp add: process_packet_def 1 2 Let_def world_deliver_packet [OF w] split: option.split)
qed

lemma world_TryProcessOne: "world_closed h Q \<Longrightarrow> Q (io_view c) \<Longrightarrow> Q (io_view (snd (TryProcessOne h c)))"
  by (simp add: TryProcessOne_def world_process_version world_process_packet)

lemma world_process_pending:
  assumes "world_closed h Q"
  shows "Q (io_view c) \<Longrightarrow> Q (io_view (snd (snd (process_pending h any c))))"
  using assms
proof (induction h any c rule: process_pending.induct)
  case (1 h any c)
  obtain r c' where t: "TryProcessOne h c = (r, c')" by (cases "TryProcessOne h c")
  then have "Q (io_view c')" using world_TryProcessOne [OF 1(3,2)] by (metis snd_conv)
  moreover have "process_pending h any c =
    (if r < 0 then (False, any, c') else if r = 0 then (True, any, c') else process_pending h True c')"
    by (subst process_pending.simps) (simp add: t)
  ultimately show ?case using 1(1) [OF t [symmetric] refl] 1(3) by (cases "r < 0 \<or> r = 0") auto
qed

subsection \<open>The call returns\<close>

text \<open>
  A transport holds finitely many bytes: a read that gives some leaves less, and neither
  writing nor allocating adds any.
\<close>

definition finite_supply :: "'w host \<Rightarrow> ('w \<Rightarrow> nat) \<Rightarrow> bool" where
  "finite_supply h \<mu> \<longleftrightarrow>
     (\<forall>w n bs w'. rd h w n = (RdData bs, w') \<longrightarrow> \<mu> w' \<le> \<mu> w \<and> (bs \<noteq> [] \<longrightarrow> \<mu> w' < \<mu> w)) \<and>
     (\<forall>w bs. \<mu> (snd (wr h w bs)) \<le> \<mu> w) \<and> (\<forall>w n. \<mu> (snd (AllocatePool h n w)) \<le> \<mu> w) \<and>
     (\<forall>w a. \<mu> (FreePool h a w) \<le> \<mu> w)"

lemma finite_supply_block:
  assumes "finite_supply h \<mu>"
  shows "\<mu> (RtFree_block h p w) \<le> \<mu> w" "\<mu> (snd (RtAlloc_block h n w)) \<le> \<mu> w"
proof -
  have a: "\<mu> (snd (AllocatePool h k w)) \<le> \<mu> w" for k using assms unfolding finite_supply_def by blast
  show "\<mu> (RtFree_block h p w) \<le> \<mu> w" using assms unfolding finite_supply_def RtFree_block_def by simp
  show "\<mu> (snd (RtAlloc_block h n w)) \<le> \<mu> w"
    using a [of "(if n = 0 then 1 else n) + 32"] by (auto simp: RtAlloc_block_def Let_def split: prod.splits option.splits)
qed

lemma finite_supply_closed:
  assumes "finite_supply h \<mu>"
  shows "world_closed h (\<lambda>(b, w). \<mu> w \<le> k)"
proof -
  have "\<mu> (snd (RtAlloc_block h n (RtFree_block h p w))) \<le> k" if "\<mu> w \<le> k" for n p w
    using finite_supply_block [OF assms] that by (meson le_trans)
  moreover have "\<mu> (snd (wr h w bs)) \<le> k" if "\<mu> w \<le> k" for w bs
    using assms that unfolding finite_supply_def by (meson le_trans)
  ultimately show ?thesis by (simp add: world_closed_def split_beta)
qed

text \<open>A turn that needs more bytes leaves the buffer's length alone.\<close>

lemma turn_nonzero [simp]: "fst (deliver_packet h n c) \<noteq> 0" "fst (consume_line h i c) \<noteq> 0"
  using deliver_packet_rc [of h n c] by (auto simp: consume_line_def Let_def split_beta)

lemma process_packet_wait:
  assumes "fst (process_packet h c) = 0"
  shows "length (rx (snd (process_packet h c))) = length (rx c)"
proof -
  obtain o1 c1 where 1: "take_length h c = (o1, c1)" by (cases "take_length h c")
  have l: "length (rx c1) = length (rx c)" using take_length_keeps [of h c] 1 by simp
  obtain o2 c2 where 2: "open_packet h (4 + unat (rxPktLen c1)) c1 = (o2, c2)"
    by (cases "open_packet h (4 + unat (rxPktLen c1)) c1")
  show ?thesis
    using assms l open_packet_rc [of h "4 + unat (rxPktLen c1)" c1]
    by (auto simp: process_packet_def 1 2 Let_def split: option.splits if_splits)
qed

lemma process_version_wait:
  "fst (process_version h c) = 0 \<Longrightarrow> snd (process_version h c) = c"
  unfolding process_version_def Let_def
  by (simp only: if_distrib [of fst] if_distrib [of snd] turn_nonzero protocol_error_simps split: if_splits) simp_all

lemma TryProcessOne_wait:
  "fst (TryProcessOne h c) = 0 \<Longrightarrow> length (rx (snd (TryProcessOne h c))) = length (rx c)"
  using process_packet_wait [of h c] process_version_wait [of h c]
  by (auto simp: TryProcessOne_def split: if_splits)

text \<open>The inner loop: if it reports work, the buffer has shrunk.\<close>

lemma process_pending_shrinks:
  "fst (process_pending h any c) \<Longrightarrow>
   length (rx (snd (snd (process_pending h any c)))) \<le> length (rx c) \<and>
   (fst (snd (process_pending h any c)) \<longrightarrow> any \<or>
      length (rx (snd (snd (process_pending h any c)))) < length (rx c))"
proof (induction h any c rule: process_pending.induct)
  case (1 h any c)
  obtain r c' where t: "TryProcessOne h c = (r, c')" by (cases "TryProcessOne h c")
  have e: "process_pending h any c =
    (if r < 0 then (False, any, c') else if r = 0 then (True, any, c') else process_pending h True c')"
    by (subst process_pending.simps) (simp add: t)
  consider "r < 0" | "r = 0" | "0 < r" by linarith
  then show ?case
  proof cases
    case 1
    then show ?thesis using "1.prems" e by simp
  next
    case 2
    then show ?thesis using e TryProcessOne_wait [of h c] t by simp
  next
    case 3
    then have "length (rx c') < length (rx c)" using TryProcessOne_progress [of h c] t by simp
    with "1.IH" [OF t [symmetric] refl] "1.prems" 3 show ?thesis by (simp add: e)
  qed
qed

lemma process_loop_returns:
  assumes fs: "finite_supply h \<mu>"
  shows "\<exists>y. process_loop h p c = Some y"
proof (induction "(\<mu> (ioCtx c), length (rx c))" arbitrary: p c rule: wf_induct [OF wf_lex_prod [OF wf_less_than wf_less_than]])
  case (1 c)
  obtain o1 c1 where r: "read_input h c = (o1, c1)" by (cases "read_input h c")
  show ?case
  proof (cases "state c = ST_CLOSED \<or> o1 = None")
    case True
    then show ?thesis using r by (subst process_loop.simps) auto
  next
    case False
    then obtain any where any: "o1 = Some any" by auto
    obtain ok any2 c2 where q: "process_pending h any c1 = (ok, any2, c2)"
      by (cases "process_pending h any c1")
    have e: "process_loop h p c =
      (if \<not> ok then Some (- 1, p, c2) else if \<not> any2 then Some (0, p, c2) else process_loop h True c2)"
      using False r any q by (subst process_loop.simps) simp
    have m1: "(any \<longrightarrow> \<mu> (ioCtx c1) < \<mu> (ioCtx c)) \<and> \<mu> (ioCtx c1) \<le> \<mu> (ioCtx c) \<and>
      (\<not> any \<longrightarrow> length (rx c1) = length (rx c))"
      using r any fs
      by (auto simp: read_input_def finite_supply_def split: if_splits prod.splits rd_result.splits)
    have m2: "\<mu> (ioCtx c2) \<le> \<mu> (ioCtx c1)"
      using world_process_pending [OF finite_supply_closed [OF fs, of "\<mu> (ioCtx c1)"], of c1 any] q by simp
    show ?thesis
    proof (cases "ok \<and> any2")
      case True
      then have "any \<or> length (rx c2) < length (rx c1)"
        using process_pending_shrinks [of h any c1] q by simp
      with m1 m2 have "((\<mu> (ioCtx c2), length (rx c2)), (\<mu> (ioCtx c), length (rx c))) \<in> less_than <*lex*> less_than"
        by (cases any) auto
      with 1 True e show ?thesis by auto
    next
      case False
      with e show ?thesis by auto
    qed
  qed
qed

lemma ProcessInput_returns_lemma: "finite_supply h \<mu> \<Longrightarrow> \<exists>y. ProcessInput h c = Some y"
  unfolding ProcessInput_def by (rule process_loop_returns)

subsection \<open>Properties\<close>


definition sample_left :: "sample_world \<Rightarrow> nat" where
  "sample_left w = length (fst w)"

lemma sample_supply: "finite_supply sample_host sample_left"
  by (auto simp: finite_supply_def sample_host_def sample_read_def sample_left_def split: list.splits)


end
