(* ===== verification/Ssh_Api.thy ===== *)
theory Ssh_Api
  imports Delivery Progress
begin

text \<open>
  The public interface of \<^verbatim>\<open>ssh.c\<close> (\<^verbatim>\<open>ssh.h\<close>): \<^verbatim>\<open>SshNew\<close>, \<^verbatim>\<open>SshAccept\<close>, \<^verbatim>\<open>SshPoll\<close>,
  \<^verbatim>\<open>SshRead\<close>, \<^verbatim>\<open>SshWrite\<close>, \<^verbatim>\<open>SshClose\<close>, the small queries and the host key fingerprint. A
  call that may wait for the peer returns an option; \<open>None\<close> is a call that never returns.
\<close>

subsection \<open>Creating a connection\<close>

definition LoadHostKey :: "'w host \<Rightarrow> bytes \<Rightarrow> (bytes \<times> bytes) option" where
  "LoadHostKey h seed =
     Option.bind (wc_ed25519_init h) (\<lambda>k.
     Option.bind (wc_ed25519_import_private_only h k seed) (\<lambda>k.
     Option.bind (wc_ed25519_make_public h k) (\<lambda>pub.
     Option.bind (wc_ed25519_import_private_key h k seed pub) (\<lambda>k.
     Some (k, pub)))))"

text \<open>Releasing a connection; the result is the world that is left.\<close>

definition free_blocks :: "'w host \<Rightarrow> conn_blocks \<Rightarrow> 'w \<Rightarrow> 'w" where
  "free_blocks h b w =
     (let w = RtFree_block h (blk_clientKexInit b) w;
          w = RtFree_block h (blk_serverKexInit b) w;
          w = RtFree_block h (blk_rx b) w;
          w = RtFree_block h (blk_tx b) w;
          w = RtFree_block h (blk_pl b) w;
          w = RtFree_block h (blk_inRing b) w
      in RtFree_block h (blk_self b) w)"

definition SshFree :: "'w host \<Rightarrow> 'w conn \<Rightarrow> 'w" where
  "SshFree h c =
     (let w = (if hostKeyInit c then wc_ed25519_free h (hostKey c) (ioCtx c) else ioCtx c);
          w = (if rngInit c then wc_FreeRng h (rng c) w else w);
          w = wc_AesFree h (aes (dir_in c)) w;
          w = wc_AesFree h (aes (dir_out c)) w
      in free_blocks h (blocks c) w)"

text \<open>The four buffers, each allocated whether or not the one before it was.\<close>

definition alloc_buffers :: "'w host \<Rightarrow> conn_blocks \<Rightarrow> 'w \<Rightarrow> conn_blocks \<times> 'w" where
  "alloc_buffers h b w =
     (let (a, w) = RtAlloc_block h SSH_RX_BUF w; b = b\<lparr>blk_rx := a\<rparr>;
          (a, w) = RtAlloc_block h SSH_TX_BUF w; b = b\<lparr>blk_tx := a\<rparr>;
          (a, w) = RtAlloc_block h SSH_PL_BUF w; b = b\<lparr>blk_pl := a\<rparr>;
          (a, w) = RtAlloc_block h SSH_IN_RING w
      in (b\<lparr>blk_inRing := a\<rparr>, w))"

definition buffers_missing :: "conn_blocks \<Rightarrow> bool" where
  "buffers_missing b \<longleftrightarrow> fst (blk_rx b) = 0 \<or> fst (blk_tx b) = 0 \<or> fst (blk_pl b) = 0 \<or> fst (blk_inRing b) = 0"

text \<open>From the zeroed structure with its buffers on.\<close>

definition init_conn :: "'w host \<Rightarrow> bytes \<Rightarrow> 'w conn \<Rightarrow> 'w conn option \<times> 'w" where
  "init_conn h seed c =
     (case wc_InitRng h (ioCtx c) of
        (None, w) \<Rightarrow> (None, SshFree h (c\<lparr>ioCtx := w\<rparr>))
      | (Some g, w) \<Rightarrow>
          (let c = c\<lparr>ioCtx := w, rng := g, rngInit := True\<rparr> in
           case LoadHostKey h seed of
             None \<Rightarrow> (None, SshFree h c)
           | Some (k, pub) \<Rightarrow>
               (let c = c\<lparr>hostKey := k, hostPub := pub, hostKeyInit := True\<rparr> in
                case wc_AesInit h of
                  None \<Rightarrow> (None, SshFree h c)
                | Some a \<Rightarrow>
                    (Some (c\<lparr>dir_in := (dir_in c)\<lparr>aes := a\<rparr>, dir_out := (dir_out c)\<lparr>aes := a\<rparr>\<rparr>), ioCtx c))))"

text \<open>
  \<open>sz\<close> is \<^verbatim>\<open>sizeof(SSH_CONN)\<close> and \<open>ring\<close> what the uninitialised ring memory holds.
  \<open>None\<close> is the null pointer.
\<close>

definition SshNew :: "'w host \<Rightarrow> nat \<Rightarrow> (nat \<Rightarrow> byte) \<Rightarrow> bytes \<Rightarrow> 'w \<Rightarrow> 'w conn option \<times> 'w" where
  "SshNew h sz ring seed w =
     (let (self, w) = RtAlloc_block h sz w in
      if fst self = 0 then (None, w)
      else
       (let (b, w) = alloc_buffers h (no_blocks\<lparr>blk_self := self\<rparr>) w;
            c = (conn_zero w ring)\<lparr>blocks := b\<rparr>
        in if buffers_missing b then (None, SshFree h c) else init_conn h seed c))"

definition SshPoll :: "'w host \<Rightarrow> 'w conn \<Rightarrow> (int \<times> 'w conn) option" where
  "SshPoll h c = map_option (\<lambda>(r, prog, c). (r, c)) (ProcessInput h c)"

subsection \<open>Accepting\<close>

definition version_line :: bytes where
  "version_line = bytes_of SSH_SERVER_VERSION @ [13, 10]"

definition send_version :: "'w host \<Rightarrow> 'w conn \<Rightarrow> bool \<times> 'w conn" where
  "send_version h c =
     (if versionSent c then (True, c)
      else (let (ok, w) = wr h (ioCtx c) version_line; c = c\<lparr>ioCtx := w\<rparr> in
        if \<not> ok then (False, c\<lparr>state := ST_CLOSED\<rparr>)
        else (True, c\<lparr>versionSent := True\<rparr>)))"

text \<open>One idle turn: stall a millisecond, count it, ask the clock.\<close>

definition idle_turn :: "'w host \<Rightarrow> nat \<Rightarrow> nat \<Rightarrow> nat \<Rightarrow> 'w conn \<Rightarrow> bool \<times> 'w conn" where
  "idle_turn h start idle limit c =
     (let w = Stall h 1000 (ioCtx c);
          (late, w) = RtTimedOut h start (idle + 1) 1000 limit w
      in (late, c\<lparr>ioCtx := w\<rparr>))"

partial_function (option) accept_loop :: "'w host \<Rightarrow> nat \<Rightarrow> nat \<Rightarrow> 'w conn \<Rightarrow> (int \<times> 'w conn) option" where
  "accept_loop h start idle c =
     (if state c = ST_CLOSED then Some (- 1, c)
      else Option.bind (ProcessInput h c) (\<lambda>(r, prog, c).
        if r < 0 then Some (- 1, c)
        else if shellReady c then Some (0, c)
        else if prog then
          (case RtNow h (ioCtx c) of (start, w) \<Rightarrow> accept_loop h start 0 (c\<lparr>ioCtx := w\<rparr>))
        else
          (case idle_turn h start idle SSH_ACCEPT_TIMEOUT_MS c of (late, c) \<Rightarrow>
             if late then Some (- 1, Disconnect h DISC_BY_APPLICATION ''handshake timeout'' c)
             else accept_loop h start (idle + 1) c)))"

declare accept_loop.simps [code]

definition SshAccept :: "'w host \<Rightarrow> 'w conn \<Rightarrow> (int \<times> 'w conn) option" where
  "SshAccept h c =
     (let (start, w) = RtNow h (ioCtx c);
          (ok, c) = send_version h (c\<lparr>ioCtx := w\<rparr>)
      in if \<not> ok then Some (- 1, c) else accept_loop h start 0 c)"

subsection \<open>Reading\<close>

text \<open>The copy loop: at most \<open>n\<close> bytes out of the ring.\<close>

fun ring_take :: "nat \<Rightarrow> 'w conn \<Rightarrow> bytes \<times> 'w conn" where
  "ring_take 0 c = ([], c)"
| "ring_take (Suc n) c =
     (if RingEmpty c then ([], c)
      else (let (bs, c') = ring_take n (ring_pop c) in (ring_front c # bs, c')))"

definition adjust_payload :: "'w conn \<Rightarrow> bytes" where
  "adjust_payload c =
     wdata (WU32 (WU32 (WByte (WInit SSH_PL_BUF) MSG_CHANNEL_WINDOW_ADJUST) (remoteChan c)) (consumed c))"

definition adjust_window :: "'w host \<Rightarrow> 'w conn \<Rightarrow> 'w conn" where
  "adjust_window h c =
     (if SSH_LOCAL_WINDOW div 2 \<le> consumed c \<and> CanSendNow c
      then (let (e, c) = SendPacket h (adjust_payload c) c in
            if e = 0 then c\<lparr>consumed := 0\<rparr> else c)
      else c)"

text \<open>The part of \<^verbatim>\<open>SshRead\<close> after the input has been processed.\<close>

definition read_ring :: "'w host \<Rightarrow> nat \<Rightarrow> 'w conn \<Rightarrow> int \<times> bytes \<times> 'w conn" where
  "read_ring h limit c =
     (if RingEmpty c
      then (if state c = ST_CLOSED \<or> closeRecv c \<or> remoteEof c \<or> \<not> chanOpen c then - 1 else 0, [], c)
      else (let (bs, c) = ring_take limit c;
                c = c\<lparr>consumed := consumed c + of_nat (length bs)\<rparr>
            in (int (length bs), bs, adjust_window h c)))"

definition SshRead :: "'w host \<Rightarrow> nat \<Rightarrow> 'w conn \<Rightarrow> (int \<times> bytes \<times> 'w conn) option" where
  "SshRead h limit c = map_option (\<lambda>(r, prog, c). read_ring h limit c) (ProcessInput h c)"

subsection \<open>Writing\<close>

definition must_wait :: "'w conn \<Rightarrow> bool" where
  "must_wait c \<longleftrightarrow> state c = ST_CONN \<and> chanOpen c \<and> \<not> closeSent c \<and> \<not> closeRecv c
     \<and> (\<not> CanSendNow c \<or> remoteWindow c = 0)"

text \<open>The inner loop of \<^verbatim>\<open>SshWrite\<close>; false is its early \<^verbatim>\<open>return -1\<close>.\<close>

partial_function (option) write_wait :: "'w host \<Rightarrow> nat \<Rightarrow> nat \<Rightarrow> 'w conn \<Rightarrow> (bool \<times> 'w conn) option" where
  "write_wait h start waited c =
     (if \<not> must_wait c then Some (True, c)
      else Option.bind (ProcessInput h c) (\<lambda>(r, prog, c).
        if r < 0 then Some (False, c)
        else if prog then write_wait h start waited c
        else
          (case idle_turn h start waited SSH_WRITE_TIMEOUT_MS c of (late, c) \<Rightarrow>
             if late then Some (False, c) else write_wait h start (waited + 1) c)))"

declare write_wait.simps [code]

definition write_chunk :: "'w conn \<Rightarrow> nat \<Rightarrow> nat" where
  "write_chunk c len =
     (let chunk = len;
          chunk = (if chunk > unat (remoteWindow c) then unat (remoteWindow c) else chunk);
          chunk = (if chunk > unat (remoteMaxPkt c) then unat (remoteMaxPkt c) else chunk)
      in if chunk > SSH_DATA_CHUNK then SSH_DATA_CHUNK else chunk)"

definition data_buf :: "'w conn \<Rightarrow> bytes \<Rightarrow> wbuf" where
  "data_buf c d = WStr (WU32 (WByte (WInit SSH_PL_BUF) MSG_CHANNEL_DATA) (remoteChan c)) d"

text \<open>
  One turn of the outer loop after the wait: \<open>None\<close> in the first component is \<^verbatim>\<open>return -1\<close>,
  otherwise what is left to send.
\<close>

definition write_turn :: "'w host \<Rightarrow> bytes \<Rightarrow> 'w conn \<Rightarrow> bytes option \<times> 'w conn" where
  "write_turn h buf c =
     (if \<not> CanSendNow c \<or> closeRecv c \<or> remoteWindow c = 0 then (None, c)
      else (let chunk = write_chunk c (length buf); b = data_buf c (take chunk buf) in
        if werr b then (None, c)
        else (let (e, c) = SendPacket h (wdata b) c in
          if e \<noteq> 0 then (None, c)
          else (Some (drop chunk buf), c\<lparr>remoteWindow := remoteWindow c - of_nat chunk\<rparr>))))"

partial_function (option) SshWrite :: "'w host \<Rightarrow> bytes \<Rightarrow> 'w conn \<Rightarrow> (int \<times> 'w conn) option" where
  "SshWrite h buf c =
     (if buf = [] then Some (0, c)
      else (case RtNow h (ioCtx c) of (start, w) \<Rightarrow>
        Option.bind (write_wait h start 0 (c\<lparr>ioCtx := w\<rparr>)) (\<lambda>(ok, c).
          if \<not> ok then Some (- 1, c)
          else (case write_turn h buf c of (t, c) \<Rightarrow>
            (case t of None \<Rightarrow> Some (- 1, c) | Some buf \<Rightarrow> SshWrite h buf c)))))"

declare SshWrite.simps [code]

subsection \<open>Closing\<close>

partial_function (option) close_wait :: "'w host \<Rightarrow> nat \<Rightarrow> nat \<Rightarrow> 'w conn \<Rightarrow> 'w conn option" where
  "close_wait h start waited c =
     (if state c = ST_CLOSED \<or> closeRecv c then Some c
      else Option.bind (ProcessInput h c) (\<lambda>(r, prog, c).
        if r < 0 then Some c
        else if prog then close_wait h start waited c
        else
          (case idle_turn h start waited SSH_CLOSE_TIMEOUT_MS c of (late, c) \<Rightarrow>
             if late then Some c else close_wait h start (waited + 1) c)))"

declare close_wait.simps [code]

definition exit_payload :: "'w conn \<Rightarrow> u32 \<Rightarrow> bytes" where
  "exit_payload c exitStatus =
     wdata (WU32 (WByte (WCStr (WU32 (WByte (WInit SSH_PL_BUF) MSG_CHANNEL_REQUEST) (remoteChan c))
       ''exit-status'') 0) exitStatus)"

definition send_close :: "'w host \<Rightarrow> u32 \<Rightarrow> 'w conn \<Rightarrow> 'w conn" where
  "send_close h exitStatus c =
     (let c = snd (SendPacket h (exit_payload c exitStatus) c);
          c = snd (SendChannelReply h MSG_CHANNEL_EOF c);
          c = snd (SendChannelReply h MSG_CHANNEL_CLOSE c)
      in c\<lparr>closeSent := True\<rparr>)"

definition end_session :: "'w host \<Rightarrow> 'w conn \<Rightarrow> 'w conn" where
  "end_session h c =
     (if state c \<noteq> ST_CLOSED then Disconnect h DISC_BY_APPLICATION ''session ended'' c else c)"

definition SshClose :: "'w host \<Rightarrow> u32 \<Rightarrow> 'w conn \<Rightarrow> 'w conn option" where
  "SshClose h exitStatus c =
     (if state c = ST_CONN \<and> chanOpen c \<and> \<not> closeSent c
      then (let c = send_close h exitStatus c; (start, w) = RtNow h (ioCtx c) in
            map_option (end_session h) (close_wait h start 0 (c\<lparr>ioCtx := w\<rparr>)))
      else Some (end_session h c))"

subsection \<open>Queries\<close>

definition SshIsOpen :: "'w conn \<Rightarrow> bool" where
  "SshIsOpen c \<longleftrightarrow> state c = ST_CONN \<and> chanOpen c \<and> \<not> closeRecv c \<and> \<not> closeSent c"

definition SshGetWindow :: "'w conn \<Rightarrow> u32 \<times> u32" where
  "SshGetWindow c = (cols c, rows c)"

definition SshUser :: "'w conn \<Rightarrow> bytes" where
  "SshUser c = c_str (user c)"

end
