(* ===== verification/Reach.thy ===== *)
theory Reach
  imports Ssh_Api
begin

text \<open>
  Every way a caller can drive a connection through \<^verbatim>\<open>ssh.h\<close>, as a step relation, and what
  holds in every reachable state: the connection invariant, hence no channel and no shell
  without a successful password check, bounded buffers and terminal sizes.
\<close>

subsection \<open>The interface operations keep the invariant\<close>

lemma conn_inv_fresh:
  "conn_inv c \<Longrightarrow> \<not> active (dir_in c) \<Longrightarrow> \<not> active (dir_out c) \<Longrightarrow>
   conn_inv (c\<lparr>dir_in := (dir_in c)\<lparr>aes := a\<rparr>, dir_out := (dir_out c)\<lparr>aes := b\<rparr>\<rparr>)"
  by (auto simp: conn_inv_def inv_defs)

lemma SshNew_some:
  assumes "SshNew h sz ring seed w = (Some c, w')"
  shows "\<exists>w0 b. init_conn h seed ((conn_zero w0 ring)\<lparr>blocks := b\<rparr>) = (Some c, w')"
proof -
  obtain self w1 where a: "RtAlloc_block h sz w = (self, w1)" by (cases "RtAlloc_block h sz w")
  obtain b w0 where b: "alloc_buffers h (no_blocks\<lparr>blk_self := self\<rparr>) w1 = (b, w0)"
    by (cases "alloc_buffers h (no_blocks\<lparr>blk_self := self\<rparr>) w1")
  have "init_conn h seed ((conn_zero w0 ring)\<lparr>blocks := b\<rparr>) = (Some c, w')"
    using assms by (simp add: SshNew_def a b Let_def split: if_splits)
  then show ?thesis by blast
qed

definition started :: "'w conn \<Rightarrow> 'w \<Rightarrow> bytes \<Rightarrow> bytes \<Rightarrow> bytes \<Rightarrow> bytes \<Rightarrow> 'w conn" where
  "started c w g k pub a = c\<lparr>ioCtx := w, rng := g, rngInit := True, hostKey := k, hostPub := pub, hostKeyInit := True,
     dir_in := (dir_in c)\<lparr>aes := a\<rparr>, dir_out := (dir_out c)\<lparr>aes := a\<rparr>\<rparr>"

lemma init_conn_some:
  assumes "init_conn h seed c0 = (Some c, w')"
  shows "\<exists>g k pub a. c = started c0 w' g k pub a \<and> wc_InitRng h (ioCtx c0) = (Some g, w')"
proof -
  obtain r w where r: "wc_InitRng h (ioCtx c0) = (r, w)" by (cases "wc_InitRng h (ioCtx c0)")
  obtain g where g: "r = Some g" using assms r by (cases r) (simp_all add: init_conn_def)
  obtain k pub where k: "LoadHostKey h seed = Some (k, pub)"
    using assms r g by (cases "LoadHostKey h seed") (auto simp: init_conn_def Let_def)
  obtain a where a: "wc_AesInit h = Some a"
    using assms r g k by (cases "wc_AesInit h") (simp_all add: init_conn_def Let_def)
  from assms have "c = started c0 w g k pub a \<and> w' = w"
    by (simp add: init_conn_def Let_def r g k a started_def) blast
  with r g show ?thesis by blast
qed

lemma conn_inv_SshNew [inv_intros]:
  assumes "SshNew h sz ring seed w = (Some c, w')"
  shows "conn_inv c"
proof -
  obtain w0 b where 1: "init_conn h seed ((conn_zero w0 ring)\<lparr>blocks := b\<rparr>) = (Some c, w')" using SshNew_some [OF assms] by blast
  let ?c = "(conn_zero w0 ring)\<lparr>blocks := b\<rparr>"
  obtain g k pub a where c: "c = started ?c w' g k pub a" using init_conn_some [OF 1] by blast
  let ?d = "?c\<lparr>ioCtx := w', rng := g, rngInit := True, hostKey := k, hostPub := pub, hostKeyInit := True\<rparr>"
  have "conn_inv ?d" by (simp add: conn_inv_zero)
  then have "conn_inv (?d\<lparr>dir_in := (dir_in ?d)\<lparr>aes := a\<rparr>, dir_out := (dir_out ?d)\<lparr>aes := a\<rparr>\<rparr>)"
    by (rule conn_inv_fresh) (simp_all add: conn_zero_def dir_zero_def)
  then show ?thesis by (simp add: c started_def)
qed

lemma conn_inv_send_version [inv_intros]: "conn_inv c \<Longrightarrow> conn_inv (snd (send_version h c))"
  using conn_inv_closed [of "c\<lparr>ioCtx := w\<rparr>" for w]
  by (simp add: send_version_def Let_def split_beta)

lemma conn_inv_idle_turn [inv_intros]: "conn_inv c \<Longrightarrow> conn_inv (snd (idle_turn h s i l c))"
  by (simp add: idle_turn_def Let_def split_beta)

text \<open>
  A property of the connection is kept while a call waits if processing input keeps it, and so
  do a stall and a look at the clock.
\<close>

definition waits_keep :: "'w host \<Rightarrow> ('w conn \<Rightarrow> bool) \<Rightarrow> bool" where
  "waits_keep h P \<longleftrightarrow> (\<forall>c y. ProcessInput h c = Some y \<longrightarrow> P c \<longrightarrow> P (snd (snd y))) \<and>
     (\<forall>c n. P c \<longrightarrow> P (c\<lparr>ioCtx := Stall h n (ioCtx c)\<rparr>)) \<and>
     (\<forall>c. P c \<longrightarrow> P (c\<lparr>ioCtx := snd (GetTime h (ioCtx c))\<rparr>))"

lemma waits_keepD:
  assumes "waits_keep h P" and "P c"
  shows "ProcessInput h c = Some y \<Longrightarrow> P (snd (snd y))" "P (c\<lparr>ioCtx := snd (RtNow h (ioCtx c))\<rparr>)"
    "P (snd (idle_turn h s i l c))"
proof -
  show "P (snd (snd y))" if "ProcessInput h c = Some y" using assms that unfolding waits_keep_def by blast
  have now: "P (d\<lparr>ioCtx := snd (RtNow h (ioCtx d))\<rparr>)" if "P d" for d
  proof -
    have "P (d\<lparr>ioCtx := snd (GetTime h (ioCtx d))\<rparr>)" using assms(1) that unfolding waits_keep_def by blast
    then show ?thesis by (auto simp: RtNow_def split: prod.splits option.splits)
  qed
  show "P (c\<lparr>ioCtx := snd (RtNow h (ioCtx c))\<rparr>)" by (rule now [OF assms(2)])
  have st: "P (c\<lparr>ioCtx := Stall h 1000 (ioCtx c)\<rparr>)" using assms unfolding waits_keep_def by blast
  then show "P (snd (idle_turn h s i l c))"
    using now [OF st] by (simp add: idle_turn_def RtTimedOut_def Let_def split_beta)
qed

lemma conn_inv_waits: "read_fits h \<Longrightarrow> waits_keep h conn_inv"
  using conn_inv_ProcessInput by (auto simp: waits_keep_def)

text \<open>Properties the steps of the accept loop keep.\<close>

lemma accept_loop_preserves:
  assumes "accept_loop h start idle c = Some y" and "P c"
    and wk: "waits_keep h P"
    and disc: "\<And>c m. P c \<Longrightarrow> P (Disconnect h DISC_BY_APPLICATION m c)"
  shows "P (snd y)"
proof -
  have "h = h \<longrightarrow> P c \<longrightarrow> P (snd y)"
  proof (rule accept_loop.raw_induct [where P = "\<lambda>h' s i c y. h' = h \<longrightarrow> P c \<longrightarrow> P (snd y)", OF _ assms(1)], intro impI)
    fix loop h' s i c y
    assume IH: "\<And>h' s i c y. loop h' s i c = Some y \<Longrightarrow> h' = h \<longrightarrow> P c \<longrightarrow> P (snd y)"
      and eq: "(if state c = ST_CLOSED then Some (- 1, c)
       else Option.bind (ProcessInput h' c) (\<lambda>(r, prog, c).
        if r < 0 then Some (- 1, c)
        else if shellReady c then Some (0, c)
        else if prog then
          (case RtNow h' (ioCtx c) of (start, w) \<Rightarrow> loop h' start 0 (c\<lparr>ioCtx := w\<rparr>))
        else
          (case idle_turn h' s i SSH_ACCEPT_TIMEOUT_MS c of (late, c) \<Rightarrow>
             if late then Some (- 1, Disconnect h' DISC_BY_APPLICATION ''handshake timeout'' c)
             else loop h' s (i + 1) c))) = Some y"
      and h: "h' = h" and c: "P c"
    show "P (snd y)"
    proof (cases "state c = ST_CLOSED")
      case True
      then show ?thesis using eq c by auto
    next
      case False
      then obtain r prog c1 where 1: "ProcessInput h c = Some (r, prog, c1)"
        using eq h by (auto simp: bind_eq_Some_conv)
      have c1: "P c1" using waits_keepD(1) [OF wk c 1] by simp
      note c2 = waits_keepD(3) [OF wk c1, of s i]
      show ?thesis
        using False eq h 1 c1 c2 [of SSH_ACCEPT_TIMEOUT_MS] waits_keepD(2) [OF wk c1] IH disc
        by (auto simp: split_beta split: if_splits)
    qed
  qed
  with assms(2) show ?thesis by simp
qed

lemma conn_inv_SshAccept [inv_intros]:
  assumes "SshAccept h c = Some y" and "read_fits h" and "conn_inv c"
  shows "conn_inv (snd y)"
proof -
  obtain s w where 1: "RtNow h (ioCtx c) = (s, w)" by (cases "RtNow h (ioCtx c)")
  obtain ok c1 where 2: "send_version h (c\<lparr>ioCtx := w\<rparr>) = (ok, c1)"
    by (cases "send_version h (c\<lparr>ioCtx := w\<rparr>)")
  have i: "conn_inv c1" using conn_inv_send_version [of "c\<lparr>ioCtx := w\<rparr>" h] 2 assms(3) by simp
  show ?thesis
  proof (cases ok)
    case True
    then have "accept_loop h s 0 c1 = Some y" using assms(1) 1 2 by (simp add: SshAccept_def)
    then show ?thesis
      by (rule accept_loop_preserves [where P = conn_inv])
        (use i conn_inv_waits [OF assms(2)] conn_inv_Disconnect in auto)
  next
    case False
    then have "y = (- 1, c1)" using assms(1) 1 2 by (simp add: SshAccept_def)
    then show ?thesis using i by simp
  qed
qed

lemma write_wait_preserves:
  assumes "write_wait h start waited c = Some y" and "P c"
    and wk: "waits_keep h P"
  shows "P (snd y)"
proof -
  have "h = h \<longrightarrow> P c \<longrightarrow> P (snd y)"
  proof (rule write_wait.raw_induct [where P = "\<lambda>h' s i c y. h' = h \<longrightarrow> P c \<longrightarrow> P (snd y)", OF _ assms(1)], intro impI)
    fix loop h' s i c y
    assume IH: "\<And>h' s i c y. loop h' s i c = Some y \<Longrightarrow> h' = h \<longrightarrow> P c \<longrightarrow> P (snd y)"
      and eq: "(if \<not> must_wait c then Some (True, c)
       else Option.bind (ProcessInput h' c) (\<lambda>(r, prog, c).
        if r < 0 then Some (False, c)
        else if prog then loop h' s i c
        else (case idle_turn h' s i SSH_WRITE_TIMEOUT_MS c of (late, c) \<Rightarrow>
             if late then Some (False, c) else loop h' s (i + 1) c))) = Some y"
      and h: "h' = h" and c: "P c"
    show "P (snd y)"
    proof (cases "must_wait c")
      case False
      then show ?thesis using eq c by auto
    next
      case True
      then obtain r prog c1 where 1: "ProcessInput h c = Some (r, prog, c1)"
        using eq h by (auto simp: bind_eq_Some_conv)
      have c1: "P c1" using waits_keepD(1) [OF wk c 1] by simp
      note c2 = waits_keepD(3) [OF wk c1, of s i]
      show ?thesis
        using True eq h 1 c1 c2 [of SSH_WRITE_TIMEOUT_MS] IH
        by (auto simp: split_beta split: if_splits)
    qed
  qed
  with assms(2) show ?thesis by simp
qed

lemma close_wait_preserves:
  assumes "close_wait h start waited c = Some y" and "P c"
    and wk: "waits_keep h P"
  shows "P y"
proof -
  have "h = h \<longrightarrow> P c \<longrightarrow> P y"
  proof (rule close_wait.raw_induct [where P = "\<lambda>h' s i c y. h' = h \<longrightarrow> P c \<longrightarrow> P y", OF _ assms(1)], intro impI)
    fix loop h' s i c y
    assume IH: "\<And>h' s i c y. loop h' s i c = Some y \<Longrightarrow> h' = h \<longrightarrow> P c \<longrightarrow> P y"
      and eq: "(if state c = ST_CLOSED \<or> closeRecv c then Some c
       else Option.bind (ProcessInput h' c) (\<lambda>(r, prog, c).
        if r < 0 then Some c
        else if prog then loop h' s i c
        else (case idle_turn h' s i SSH_CLOSE_TIMEOUT_MS c of (late, c) \<Rightarrow>
             if late then Some c else loop h' s (i + 1) c))) = Some y"
      and h: "h' = h" and c: "P c"
    show "P y"
    proof (cases "state c = ST_CLOSED \<or> closeRecv c")
      case True
      then show ?thesis using eq c by auto
    next
      case False
      then obtain r prog c1 where 1: "ProcessInput h c = Some (r, prog, c1)"
        using eq h by (auto simp: bind_eq_Some_conv)
      have c1: "P c1" using waits_keepD(1) [OF wk c 1] by simp
      note c2 = waits_keepD(3) [OF wk c1, of s i]
      show ?thesis
        using False eq h 1 c1 c2 [of SSH_CLOSE_TIMEOUT_MS] IH
        by (auto simp: split_beta split: if_splits)
    qed
  qed
  with assms(2) show ?thesis by simp
qed


text \<open>The ring as the reader sees it.\<close>

lemma ring_take_pending:
  "ring_ok c \<Longrightarrow> fst (ring_take n c) = take n (pending c) \<and>
   pending (snd (ring_take n c)) = drop n (pending c) \<and> ring_ok (snd (ring_take n c))"
proof (induction n c rule: ring_take.induct)
  case (1 c)
  then show ?case by simp
next
  case (2 n c)
  show ?case
  proof (cases "RingEmpty c")
    case True
    then show ?thesis using 2(2) in_ring.empty_iff [OF 2(2)] by simp
  next
    case False
    have p: "pending c = ring_front c # pending (ring_pop c)"
      by (rule in_ring.contents_pop [OF 2(2) False])
    from 2(1) [OF False in_ring.inv_pop [OF 2(2) False]] False show ?thesis
      by (simp add: split_beta p)
  qed
qed

lemma ring_take_only: "\<exists>t. snd (ring_take n c) = c\<lparr>inTail := t\<rparr>"
proof (induction n c rule: ring_take.induct)
  case (1 c)
  show ?case by (intro exI [of _ "inTail c"]) simp
next
  case (2 n c)
  show ?case
  proof (cases "RingEmpty c")
    case True
    then show ?thesis by (intro exI [of _ "inTail c"]) simp
  next
    case False
    with 2 show ?thesis by (auto simp: split_beta ring_pop_def)
  qed
qed

lemma conn_inv_ring_take: "conn_inv c \<Longrightarrow> conn_inv (snd (ring_take n c))"
proof -
  assume i: "conn_inv c"
  have ok: "ring_ok c" using conn_invD(6) [OF i] by (simp add: buf_inv_def ring_ok_def)
  obtain t where t: "snd (ring_take n c) = c\<lparr>inTail := t\<rparr>" using ring_take_only by blast
  have rt: "ring_ok (c\<lparr>inTail := t\<rparr>)" "pending (c\<lparr>inTail := t\<rparr>) = drop n (pending c)"
    using ring_take_pending [OF ok, of n] unfolding t by simp_all
  have "inHead c \<noteq> t \<Longrightarrow> pending c \<noteq> []"
    using rt in_ring.empty_iff [OF rt(1)] by (auto simp: RingEmpty_def)
  then have "inHead c \<noteq> t \<Longrightarrow> chanOpen c"
    using in_ring.empty_iff [OF ok] conn_invD(2) [OF i] by (auto simp: RingEmpty_def auth_inv_def)
  with i rt(1) show ?thesis
    unfolding t by (auto simp: conn_inv_def inv_defs ring_ok_def)
qed

lemma conn_inv_read_ring [inv_intros]:
  assumes "conn_inv c" shows "conn_inv (snd (snd (read_ring h n c)))"
proof -
  have "conn_inv (snd (SendPacket h p (d\<lparr>consumed := k\<rparr>)))" if "conn_inv d" for p k and d :: "'a conn"
    using that by (simp add: conn_inv_SendPacket)
  then show ?thesis
    using assms conn_inv_ring_take [OF assms, of n]
    by (simp add: read_ring_def adjust_window_def Let_def split_beta)
qed

lemma conn_inv_SshRead [inv_intros]:
  "SshRead h n c = Some y \<Longrightarrow> read_fits h \<Longrightarrow> conn_inv c \<Longrightarrow> conn_inv (snd (snd y))"
  using conn_inv_ProcessInput [of h c] conn_inv_read_ring
  by (auto simp: SshRead_def)

lemma conn_inv_SshPoll [inv_intros]:
  "SshPoll h c = Some y \<Longrightarrow> read_fits h \<Longrightarrow> conn_inv c \<Longrightarrow> conn_inv (snd y)"
  using conn_inv_ProcessInput [of h c] by (auto simp: SshPoll_def)

lemma conn_inv_write_turn [inv_intros]: "conn_inv c \<Longrightarrow> conn_inv (snd (write_turn h buf c))"
  by (simp add: write_turn_def Let_def split_beta conn_inv_SendPacket)

lemma SshWrite_preserves:
  assumes "SshWrite h buf c = Some y" and "P c"
    and wk: "waits_keep h P"
    and turn: "\<And>buf c. P c \<Longrightarrow> P (snd (write_turn h buf c))"
  shows "P (snd y)"
proof -
  have "h = h \<longrightarrow> P c \<longrightarrow> P (snd y)"
  proof (rule SshWrite.raw_induct [where P = "\<lambda>h' b c y. h' = h \<longrightarrow> P c \<longrightarrow> P (snd y)", OF _ assms(1)], intro impI)
    fix loop h' b c y
    assume IH: "\<And>h' b c y. loop h' b c = Some y \<Longrightarrow> h' = h \<longrightarrow> P c \<longrightarrow> P (snd y)"
      and eq: "(if b = [] then Some (0, c)
       else (case RtNow h' (ioCtx c) of (start, w) \<Rightarrow>
        Option.bind (write_wait h' start 0 (c\<lparr>ioCtx := w\<rparr>)) (\<lambda>(ok, c).
          if \<not> ok then Some (- 1, c)
          else (case write_turn h' b c of (t, c) \<Rightarrow>
            (case t of None \<Rightarrow> Some (- 1, c) | Some buf \<Rightarrow> loop h' buf c))))) = Some y"
      and h: "h' = h" and c: "P c"
    show "P (snd y)"
    proof (cases "b = []")
      case True
      then show ?thesis using eq c by auto
    next
      case False
      then obtain s w ok c1 where 1: "RtNow h (ioCtx c) = (s, w)"
        "write_wait h s 0 (c\<lparr>ioCtx := w\<rparr>) = Some (ok, c1)"
        using eq h by (cases "RtNow h (ioCtx c)") (auto simp: bind_eq_Some_conv)
      have c1: "P c1" using write_wait_preserves [OF 1(2) _ wk] waits_keepD(2) [OF wk c] 1(1) by simp
      note c2 = turn [OF c1, of b]
      show ?thesis
        using False eq h 1 c1 c2 IH by (auto simp: split_beta split: if_splits option.splits)
    qed
  qed
  with assms(2) show ?thesis by simp
qed

lemma conn_inv_SshWrite [inv_intros]:
  assumes "SshWrite h buf c = Some y" and "read_fits h" and "conn_inv c"
  shows "conn_inv (snd y)"
  using assms(1)
  by (rule SshWrite_preserves [where P = conn_inv])
    (use assms(3) conn_inv_waits [OF assms(2)] conn_inv_write_turn in auto)

lemma conn_inv_send_close: "conn_inv c \<Longrightarrow> conn_inv (send_close h e c)"
  by (simp add: send_close_def Let_def conn_inv_SendPacket conn_inv_SendChannelReply)

lemma conn_inv_end_session: "conn_inv c \<Longrightarrow> conn_inv (end_session h c)"
  by (simp add: end_session_def conn_inv_Disconnect)

lemma conn_inv_SshClose [inv_intros]:
  assumes y: "SshClose h e c = Some y" and "read_fits h" and "conn_inv c"
  shows "conn_inv y"
proof (cases "state c = ST_CONN \<and> chanOpen c \<and> \<not> closeSent c")
  case True
  let ?c = "send_close h e c"
  obtain s w d where 1: "close_wait h s 0 (?c\<lparr>ioCtx := w\<rparr>) = Some d" "y = end_session h d"
    using y True by (auto simp: SshClose_def Let_def split_beta)
  have "conn_inv d" using 1(1)
    by (rule close_wait_preserves [where P = conn_inv])
      (use assms(3) conn_inv_send_close conn_inv_waits [OF assms(2)] in auto)
  then show ?thesis using 1(2) conn_inv_end_session by simp
next
  case False
  then have "SshClose h e c = Some (end_session h c)" unfolding SshClose_def by (rule if_not_P)
  then show ?thesis using y conn_inv_end_session [OF assms(3)] by simp
qed

subsection \<open>Reachable connections\<close>

text \<open>
  A caller may call the operations in any order and with any arguments, and anything may
  happen to the world in between.
\<close>

inductive api_step :: "'w host \<Rightarrow> 'w conn \<Rightarrow> 'w conn \<Rightarrow> bool" for h where
  step_accept: "SshAccept h c = Some (r, c') \<Longrightarrow> api_step h c c'"
| step_poll: "SshPoll h c = Some (r, c') \<Longrightarrow> api_step h c c'"
| step_read: "SshRead h n c = Some (r, bs, c') \<Longrightarrow> api_step h c c'"
| step_write: "SshWrite h buf c = Some (r, c') \<Longrightarrow> api_step h c c'"
| step_close: "SshClose h e c = Some c' \<Longrightarrow> api_step h c c'"
| step_world: "api_step h c (c\<lparr>ioCtx := w\<rparr>)"

inductive reachable :: "'w host \<Rightarrow> 'w conn \<Rightarrow> bool" for h where
  reach_new: "SshNew h sz ring seed w = (Some c, w') \<Longrightarrow> reachable h c"
| reach_step: "reachable h c \<Longrightarrow> api_step h c c' \<Longrightarrow> reachable h c'"

lemma api_step_inv:
  assumes "api_step h c c'" and "read_fits h" and "conn_inv c"
  shows "conn_inv c'"
  using assms(1)
proof cases
  case step_accept
  then show ?thesis using conn_inv_SshAccept assms(2,3) by fastforce
next
  case step_poll
  then show ?thesis using conn_inv_SshPoll assms(2,3) by fastforce
next
  case step_read
  then show ?thesis using conn_inv_SshRead assms(2,3) by fastforce
next
  case step_write
  then show ?thesis using conn_inv_SshWrite assms(2,3) by fastforce
next
  case step_close
  then show ?thesis using conn_inv_SshClose assms(2,3) by fastforce
qed (use assms(3) in simp)

lemma reachable_inv_lemma:
  assumes "read_fits h" and "reachable h c"
  shows "conn_inv c"
  using assms(2)
proof induction
  case reach_new
  then show ?case by (rule conn_inv_SshNew)
next
  case reach_step
  then show ?case using api_step_inv assms(1) by blast
qed

text \<open>The contract between a connection and its transport: a read stays within its limit.\<close>

locale bounded_reads =
  fixes h :: "'w host"
  assumes fits: "read_fits h"
begin

lemma session_inv: "reachable h c \<Longrightarrow> conn_inv c"
  by (rule reachable_inv_lemma [OF fits])

lemma ready_has_channel: "reachable h c \<Longrightarrow> shellReady c \<Longrightarrow> chanOpen c \<and> authenticated c"
  using conn_invD(2) [OF session_inv] by (simp add: auth_inv_def)

end

subsection \<open>Properties\<close>


lemma sample_read_fits: "read_fits sample_host"
  by (auto simp: read_fits_def sample_host_def sample_read_def split: list.splits)

definition sample_blocks :: conn_blocks where
  "sample_blocks = \<lparr>blk_self = (4112, 4096), blk_clientKexInit = (0, 0), blk_serverKexInit = (0, 0), blk_rx = (4112, 4096),
     blk_tx = (4112, 4096), blk_pl = (4112, 4096), blk_inRing = (4112, 4096)\<rparr>"

definition sample_new :: "sample_world conn" where
  "sample_new = (conn_zero ([], []) (\<lambda>_. 0))\<lparr>blocks := sample_blocks, rng := [1], rngInit := True,
     hostKey := replicate 32 8 @ replicate 32 9,
     hostPub := replicate 32 9, hostKeyInit := True, dir_in := dir_zero\<lparr>aes := []\<rparr>, dir_out := dir_zero\<lparr>aes := []\<rparr>\<rparr>"

lemma sample_alloc: "RtAlloc_block sample_host n w = ((4112, 4096), w)"
  by (simp add: RtAlloc_block_def sample_host_def align_raw_def)

lemma sample_new: "SshNew sample_host 2000 (\<lambda>_. 0) (replicate 32 8) ([], []) = (Some sample_new, ([], []))"
  by (simp add: SshNew_def sample_alloc alloc_buffers_def buffers_missing_def no_blocks_def)
    (simp add: init_conn_def sample_host_def LoadHostKey_def sample_new_def sample_blocks_def conn_zero_def dir_zero_def)




end
