(* ===== verification/Session.thy ===== *)
theory Session
  imports Reach
begin

text \<open>
  What the calls of \<^verbatim>\<open>ssh.h\<close> guarantee to the console shim and the server: reading hands out
  the terminal input in order and returns the window, writing sends exactly the caller's bytes
  inside the client's limits, and accepting gives up on a silent client.
\<close>

subsection \<open>Reading\<close>

lemma adjust_window_frame [simp]:
  "inRing (adjust_window h c) = inRing c" "inHead (adjust_window h c) = inHead c"
  "inTail (adjust_window h c) = inTail c" "remoteWindow (adjust_window h c) = remoteWindow c"
  by (simp_all add: adjust_window_def Let_def split_beta)

lemma pending_cong:
  "inRing d = inRing c \<Longrightarrow> inHead d = inHead c \<Longrightarrow> inTail d = inTail c \<Longrightarrow> pending d = pending c \<and> ring_ok d = ring_ok c"
  by (simp add: pending_def ring_ok_def)

lemma adjust_window_consumed: "consumed (adjust_window h c) \<in> {consumed c, 0}"
  by (simp add: adjust_window_def Let_def split_beta)

lemma ring_take_consumed [simp]: "consumed (snd (ring_take n c)) = consumed c"
  using ring_take_only [of n c] by auto

lemma read_ring_lemma:
  assumes "ring_ok c" and "read_ring h n c = (r, bs, c')"
  shows "bs = take n (pending c) \<and> pending c' = drop n (pending c) \<and> ring_ok c' \<and>
    (pending c \<noteq> [] \<longrightarrow> r = int (length bs) \<and> consumed c' \<in> {consumed c + of_nat (length bs), 0}) \<and>
    (pending c = [] \<longrightarrow> c' = c)"
proof (cases "RingEmpty c")
  case True
  with assms in_ring.empty_iff [OF assms(1)] show ?thesis by (auto simp: read_ring_def)
next
  case False
  then have ne: "pending c \<noteq> []" using in_ring.empty_iff [OF assms(1)] by simp
  note t = ring_take_pending [OF assms(1), of n]
  let ?d = "(snd (ring_take n c))\<lparr>consumed := consumed c + of_nat (length (fst (ring_take n c)))\<rparr>"
  have r: "r = int (length bs)" "bs = fst (ring_take n c)" "c' = adjust_window h ?d"
    using assms(2) False by (auto simp: read_ring_def Let_def split_beta)
  have "pending c' = pending (snd (ring_take n c)) \<and> ring_ok c' = ring_ok (snd (ring_take n c))"
    unfolding r(3) by (rule pending_cong) simp_all
  moreover have "consumed c' \<in> {consumed c + of_nat (length bs), 0}"
    using adjust_window_consumed [of h ?d] by (simp add: r)
  ultimately show ?thesis using t ne r by simp
qed

lemma credit_read_lemma:
  assumes "credit c w" and "read_ring h n c = (r, bs, c')"
  shows "credit c' (w + (unat (consumed c) + length bs - unat (consumed c')))"
proof -
  have ok: "ring_ok c" and l: "length (pending c) + unat (consumed c) + w \<le> 32768"
    using assms(1) by (simp_all add: credit_def SSH_LOCAL_WINDOW_def)
  note r = read_ring_lemma [OF ok assms(2)]
  show ?thesis
  proof (cases "pending c = []")
    case True
    with r assms(1) show ?thesis by simp
  next
    case False
    have b: "length bs \<le> length (pending c)" "length (pending c') = length (pending c) - length bs"
      using r by auto
    then have "unat (of_nat (length bs) :: u32) = length bs"
      using l by (simp add: unat_of_nat take_bit_nat_eq_self_iff)
    then have "unat (consumed c + of_nat (length bs)) = unat (consumed c) + length bs"
      using b l by (simp add: unat_word_ariths)
    with r False b l show ?thesis by (auto simp: credit_def SSH_LOCAL_WINDOW_def)
  qed
qed

subsection \<open>Writing\<close>

definition data_packet :: "'w conn \<Rightarrow> bytes \<Rightarrow> bytes" where
  "data_packet c d = MSG_CHANNEL_DATA # PutU32 (remoteChan c) @ enc_str d"

lemma data_buf_msg:
  assumes "length d \<le> SSH_DATA_CHUNK"
  shows "data_buf c d = \<lparr>wdata = data_packet c d, wcap = SSH_PL_BUF, werr = False\<rparr>"
proof -
  have "appends (\<lambda>b. WStr (WU32 (WByte b MSG_CHANNEL_DATA) (remoteChan c)) d)
    (([MSG_CHANNEL_DATA] @ PutU32 (remoteChan c)) @ enc_str d)"
    by (intro appends_steps appends_WByte)
  from appends_WInit [OF this, of SSH_PL_BUF] assms show ?thesis
    by (simp add: data_buf_def data_packet_def SSH_PL_BUF_def SSH_MAX_PACKET_def SSH_DATA_CHUNK_def)
qed

lemma write_chunk_bounds:
  "write_chunk c n \<le> n" "write_chunk c n \<le> unat (remoteWindow c)" "write_chunk c n \<le> unat (remoteMaxPkt c)"
  "write_chunk c n \<le> SSH_DATA_CHUNK"
  by (simp_all add: write_chunk_def Let_def)

lemma write_chunk_pos:
  "0 < n \<Longrightarrow> 0 < unat (remoteWindow c) \<Longrightarrow> 0 < unat (remoteMaxPkt c) \<Longrightarrow> 0 < write_chunk c n"
  by (simp add: write_chunk_def Let_def SSH_DATA_CHUNK_def)

text \<open>What is allowed to go out in one message, and the state after it.\<close>

definition within_limits :: "'w conn \<Rightarrow> bytes \<Rightarrow> bool" where
  "within_limits c d \<longleftrightarrow> CanSendNow c \<and> \<not> closeRecv c \<and> length d \<le> unat (remoteWindow c) \<and>
     length d \<le> unat (remoteMaxPkt c) \<and> length d \<le> SSH_DATA_CHUNK"

definition after_data :: "'w host \<Rightarrow> 'w conn \<Rightarrow> bytes \<Rightarrow> 'w conn" where
  "after_data h c d = (snd (SendPacket h (data_packet c d) c))\<lparr>remoteWindow := remoteWindow c - of_nat (length d)\<rparr>"

lemma write_turn_Some:
  assumes "write_turn h buf c = (Some t, c')"
  shows "\<exists>d. buf = d @ t \<and> within_limits c d \<and> fst (SendPacket h (data_packet c d) c) = 0 \<and> c' = after_data h c d \<and>
    (buf \<noteq> [] \<and> remoteMaxPkt c \<noteq> 0 \<longrightarrow> d \<noteq> [])"
proof -
  let ?k = "write_chunk c (length buf)"
  let ?d = "take ?k buf"
  have l: "length ?d = ?k" using write_chunk_bounds(1) [of c "length buf"] by simp
  note b = data_buf_msg [of ?d c, unfolded l, OF write_chunk_bounds(4)]
  have g: "CanSendNow c" "\<not> closeRecv c" "remoteWindow c \<noteq> 0" "fst (SendPacket h (data_packet c ?d) c) = 0"
    "t = drop ?k buf" "c' = after_data h c ?d"
    using assms l by (auto simp: write_turn_def Let_def split_beta b after_data_def split: if_splits)
  have "?d \<noteq> []" if ne: "buf \<noteq> []" "remoteMaxPkt c \<noteq> 0"
  proof -
    have "0 < ?k" using write_chunk_pos [of "length buf" c] g(3) ne by (simp add: unat_gt_0)
    then show ?thesis using ne(1) by simp
  qed
  moreover have "within_limits c ?d"
    using g(1,2) write_chunk_bounds [of c "length buf"] l by (simp add: within_limits_def)
  ultimately show ?thesis using g by (intro exI [of _ ?d]) auto
qed

text \<open>
  The course of a write: each chunk goes out in one packet within the limits of that moment,
  after whatever waiting was needed.
\<close>

inductive wrote :: "'w host \<Rightarrow> 'w conn \<Rightarrow> bytes list \<Rightarrow> 'w conn \<Rightarrow> bool" for h where
  wrote_done: "wrote h c [] c"
| wrote_chunk: "write_wait h s 0 (c\<lparr>ioCtx := w\<rparr>) = Some (True, c1) \<Longrightarrow> within_limits c1 d \<Longrightarrow>
    fst (SendPacket h (data_packet c1 d) c1) = 0 \<Longrightarrow> wrote h (after_data h c1 d) ds c' \<Longrightarrow> wrote h c (d # ds) c'"

lemma SshWrite_wrote_lemma:
  assumes "SshWrite h buf c = Some (r, c')"
  shows "r = 0 \<longrightarrow> (\<exists>ds. wrote h c ds c' \<and> concat ds = buf)" and "r \<in> {0, - 1}"
proof -
  let ?P = "\<lambda>h' b c y. h' = h \<longrightarrow> ((fst y :: int) = 0 \<longrightarrow> (\<exists>ds. wrote h c ds (snd y) \<and> concat ds = b)) \<and> fst y \<in> {0, - 1}"
  have "?P h buf c (r, c')"
  proof (rule SshWrite.raw_induct [where P = ?P, OF _ assms])
    fix loop h' b c y
    assume IH: "\<And>h' b c y. loop h' b c = Some y \<Longrightarrow> ?P h' b c y"
      and eq: "(if b = [] then Some (0, c)
       else (case RtNow h' (ioCtx c) of (start, w) \<Rightarrow>
        Option.bind (write_wait h' start 0 (c\<lparr>ioCtx := w\<rparr>)) (\<lambda>(ok, c).
          if \<not> ok then Some (- 1, c)
          else (case write_turn h' b c of (t, c) \<Rightarrow>
            (case t of None \<Rightarrow> Some (- 1, c) | Some buf \<Rightarrow> loop h' buf c))))) = Some y"
    show "?P h' b c y"
    proof (cases "b = [] \<or> h' \<noteq> h")
      case True
      have "(\<exists>ds. wrote h c ds (snd y) \<and> concat ds = b) \<and> fst y \<in> {0, - 1}" if "h' = h"
      proof -
        have y: "b = []" "y = (0, c)" using True eq that by auto
        show ?thesis unfolding y using wrote_done [of h c] by (intro conjI exI [of _ "[]"]) simp_all
      qed
      then show ?thesis by blast
    next
      case False
      obtain s w where rt: "RtNow h (ioCtx c) = (s, w)" by (cases "RtNow h (ioCtx c)")
      from eq False rt obtain ok c1 where 1: "write_wait h s 0 (c\<lparr>ioCtx := w\<rparr>) = Some (ok, c1)"
        by (auto simp: bind_eq_Some_conv)
      obtain t c2 where 2: "write_turn h b c1 = (t, c2)" by (cases "write_turn h b c1")
      show ?thesis
      proof (cases "ok \<and> t \<noteq> None")
        case False
        then have "fst y = - 1" using eq \<open>\<not> (b = [] \<or> h' \<noteq> h)\<close> rt 1 2 by (auto split: if_splits)
        then show ?thesis by simp
      next
        case True
        then obtain u where u: "t = Some u" by auto
        have l: "loop h u c2 = Some y" using eq \<open>\<not> (b = [] \<or> h' \<noteq> h)\<close> rt 1 2 True u by simp
        from write_turn_Some [of h b c1 u c2] 2 u obtain d where d: "b = d @ u" "within_limits c1 d"
          "fst (SendPacket h (data_packet c1 d) c1) = 0" "c2 = after_data h c1 d" by auto
        from IH [OF l] have ih: "fst y = 0 \<longrightarrow> (\<exists>ds. wrote h c2 ds (snd y) \<and> concat ds = u)" "fst y \<in> {0, - 1}"
          by simp_all
        have "\<exists>ds. wrote h c ds (snd y) \<and> concat ds = b" if z: "fst y = 0"
        proof -
          obtain ds where ds: "wrote h c2 ds (snd y)" "concat ds = u" using ih(1) z by blast
          have "wrote h c (d # ds) (snd y)"
            by (rule wrote_chunk [OF _ d(2,3)]) (use 1 True ds(1) d(4) in simp_all)
          then show ?thesis using ds(2) d(1) by (intro exI [of _ "d # ds"]) simp
        qed
        then show ?thesis using ih(2) by simp
      qed
    qed
  qed
  then show "r = 0 \<longrightarrow> (\<exists>ds. wrote h c ds c' \<and> concat ds = buf)" and "r \<in> {0, - 1}" by simp_all
qed

text \<open>A client that announced a maximum packet size of zero.\<close>

definition stuck_writer :: "'w conn \<Rightarrow> bool" where
  "stuck_writer c \<longleftrightarrow> CanSendNow c \<and> \<not> closeRecv c \<and> remoteWindow c \<noteq> 0 \<and> remoteMaxPkt c = 0"

definition sends_always :: "'w host \<Rightarrow> bool" where
  "sends_always h \<longleftrightarrow> (\<forall>p c. state c = ST_CONN \<longrightarrow> length p + 64 \<le> SSH_MAX_PACKET \<longrightarrow> fst (SendPacket h p c) = 0)"

lemma stuck_turn:
  assumes "stuck_writer c" and "sends_always h"
  shows "\<exists>c'. write_turn h buf c = (Some buf, c') \<and> stuck_writer c'"
proof -
  have k: "write_chunk c (length buf) = 0" using assms(1) write_chunk_bounds(3) [of c "length buf"] by (simp add: stuck_writer_def)
  have s: "state c = ST_CONN" using assms(1) by (simp add: stuck_writer_def CanSendNow_def)
  have "fst (SendPacket h (data_packet c []) c) = 0"
    using assms(2) s by (simp add: sends_always_def data_packet_def SSH_MAX_PACKET_def)
  with SendPacket_ok_state [OF this] assms(1) k data_buf_msg [of "[]" c] show ?thesis
    by (simp add: write_turn_def Let_def split_beta stuck_writer_def CanSendNow_def)
qed

lemma SshWrite_stuck_lemma:
  assumes al: "sends_always h" and "buf \<noteq> []" and "stuck_writer c"
  shows "SshWrite h buf c = None"
proof (rule ccontr)
  assume "SshWrite h buf c \<noteq> None"
  then obtain y where y: "SshWrite h buf c = Some y" by auto
  have "h = h \<longrightarrow> buf \<noteq> [] \<longrightarrow> \<not> stuck_writer c"
  proof (rule SshWrite.raw_induct [where P = "\<lambda>h' b c y. h' = h \<longrightarrow> b \<noteq> [] \<longrightarrow> \<not> stuck_writer c", OF _ y], intro impI notI)
    fix loop h' b c y
    assume IH: "\<And>h' b c y. loop h' b c = Some y \<Longrightarrow> h' = h \<longrightarrow> b \<noteq> [] \<longrightarrow> \<not> stuck_writer c"
      and eq: "(if b = [] then Some (0, c)
       else (case RtNow h' (ioCtx c) of (start, w) \<Rightarrow>
        Option.bind (write_wait h' start 0 (c\<lparr>ioCtx := w\<rparr>)) (\<lambda>(ok, c).
          if \<not> ok then Some (- 1, c)
          else (case write_turn h' b c of (t, c) \<Rightarrow>
            (case t of None \<Rightarrow> Some (- 1, c) | Some buf \<Rightarrow> loop h' buf c))))) = Some y"
      and h: "h' = h" and ne: "b \<noteq> []" and st: "stuck_writer c"
    obtain s w where rt: "RtNow h (ioCtx c) = (s, w)" by (cases "RtNow h (ioCtx c)")
    let ?c = "c\<lparr>ioCtx := w\<rparr>"
    have st': "stuck_writer ?c" using st by (simp add: stuck_writer_def CanSendNow_def)
    then have "\<not> must_wait ?c" by (simp add: must_wait_def stuck_writer_def)
    then have 1: "write_wait h s 0 ?c = Some (True, ?c)" by (subst write_wait.simps) simp
    obtain c2 where 2: "write_turn h b ?c = (Some b, c2)" "stuck_writer c2"
      using stuck_turn [OF st' al] by blast
    have "loop h b c2 = Some y" using eq ne h rt 1 2 by simp
    with IH 2(2) ne show False by blast
  qed
  with assms show False by simp
qed

subsection \<open>Accepting\<close>

definition silent :: "'w host \<Rightarrow> bool" where
  "silent h \<longleftrightarrow> (\<forall>w n. fst (rd h w n) = RdData [])"

text \<open>A connection that waits for the version line with nothing received.\<close>

definition waiting :: "'w conn \<Rightarrow> bool" where
  "waiting c \<longleftrightarrow> state c = ST_VERSION \<and> rx c = [] \<and> \<not> shellReady c"

lemma waiting_io [simp]: "waiting (c\<lparr>ioCtx := w\<rparr>) = waiting c"
  by (simp add: waiting_def)

lemma ProcessInput_silent:
  assumes "silent h" and "waiting c"
  shows "\<exists>w. ProcessInput h c = Some (0, False, c\<lparr>ioCtx := w\<rparr>)"
proof -
  obtain w where "rd h (ioCtx c) SSH_RX_BUF = (RdData [], w)"
    using assms(1) unfolding silent_def by (metis prod.collapse)
  then have r: "read_input h c = (Some False, c\<lparr>ioCtx := w\<rparr>)"
    using assms(2) by (simp add: read_input_def waiting_def SSH_RX_BUF_def SSH_MAX_PACKET_def)
  have "process_pending h False (c\<lparr>ioCtx := w\<rparr>) = (True, False, c\<lparr>ioCtx := w\<rparr>)"
    using assms(2) by (subst process_pending.simps) (simp add: TryProcessOne_def process_version_def waiting_def)
  with r assms(2) have "ProcessInput h c = Some (0, False, c\<lparr>ioCtx := w\<rparr>)"
    unfolding ProcessInput_def by (subst process_loop.simps) (simp add: waiting_def)
  then show ?thesis by blast
qed

lemma accept_loop_silent:
  assumes "silent h" and "waiting c"
  shows "\<exists>c'. accept_loop h start idle c = Some (- 1, c') \<and> state c' = ST_CLOSED"
  using assms(2)
proof (induction "480001 - idle" arbitrary: idle c rule: less_induct)
  case less
  obtain w where p: "ProcessInput h c = Some (0, False, c\<lparr>ioCtx := w\<rparr>)"
    using ProcessInput_silent [OF assms(1) less.prems] by blast
  obtain late w' where i: "idle_turn h start idle SSH_ACCEPT_TIMEOUT_MS (c\<lparr>ioCtx := w\<rparr>) = (late, c\<lparr>ioCtx := w'\<rparr>)"
    by (auto simp: idle_turn_def Let_def split_beta)
  have e: "accept_loop h start idle c = (if late
      then Some (- 1, Disconnect h DISC_BY_APPLICATION ''handshake timeout'' (c\<lparr>ioCtx := w'\<rparr>))
      else accept_loop h start (idle + 1) (c\<lparr>ioCtx := w'\<rparr>))"
    using less.prems p i by (subst accept_loop.simps) (simp add: waiting_def)
  show ?case
  proof (cases late)
    case True
    then show ?thesis by (simp add: e)
  next
    case False
    have "idle < 480001"
    proof (rule ccontr)
      assume "\<not> idle < 480001"
      then have "fst (RtTimedOut h start (idle + 1) 1000 SSH_ACCEPT_TIMEOUT_MS v)" for v
        by (intro RtTimedOut_spins) (simp add: SSH_ACCEPT_TIMEOUT_MS_def)
      then have "fst (idle_turn h start idle SSH_ACCEPT_TIMEOUT_MS (c\<lparr>ioCtx := w\<rparr>))"
        by (simp add: idle_turn_def Let_def split_beta)
      with i False show False by simp
    qed
    then have "480001 - (idle + 1) < 480001 - idle" by simp
    from less.hyps [OF this, of "c\<lparr>ioCtx := w'\<rparr>"] less.prems False e show ?thesis by simp
  qed
qed

lemma accept_silent_lemma:
  assumes "silent h" and "waiting c"
  shows "\<exists>c'. SshAccept h c = Some (- 1, c') \<and> state c' = ST_CLOSED"
proof -
  obtain s w where rt: "RtNow h (ioCtx c) = (s, w)" by (cases "RtNow h (ioCtx c)")
  obtain ok d where v: "send_version h (c\<lparr>ioCtx := w\<rparr>) = (ok, d)" by (cases "send_version h (c\<lparr>ioCtx := w\<rparr>)")
  have d: "if ok then waiting d else state d = ST_CLOSED"
    using v assms(2) by (auto simp: send_version_def waiting_def Let_def split_beta split: if_splits)
  show ?thesis
  proof (cases ok)
    case True
    then show ?thesis using accept_loop_silent [OF assms(1), of d s 0] d rt v by (simp add: SshAccept_def)
  next
    case False
    then show ?thesis using d rt v by (simp add: SshAccept_def)
  qed
qed

subsection \<open>A connection for the witnesses\<close>

definition sample_open :: "u32 \<Rightarrow> u32 \<Rightarrow> u32 \<Rightarrow> sample_world conn" where
  "sample_open win maxp used = sample_new\<lparr>state := ST_CONN, kex := KX_IDLE, authenticated := True, chanOpen := True,
     remoteWindow := win, remoteMaxPkt := maxp, consumed := used\<rparr>"

lemma sample_wire: "fst (send_wire sample_host bs c) = 0"
  by (simp add: send_wire_def Let_def sample_host_def)

lemma sample_seal: "fst (seal_and_send sample_host tx c) = 0"
proof -
  have "\<exists>mac. packet_mac sample_host d tx = Some mac" for d
    by (simp add: packet_mac_def sample_host_def sample_final_def)
  then obtain mac where "packet_mac sample_host (dir_out c) tx = Some mac" by blast
  moreover have "wc_AesCtrEncrypt sample_host a tx = (Some (sample_xor a tx), a)" for a
    by (simp add: sample_host_def)
  ultimately show ?thesis using sample_wire by (simp add: seal_and_send_def)
qed

lemma sample_sends_always: "sends_always sample_host"
  unfolding sends_always_def
proof (intro allI impI)
  fix p :: bytes and c :: "sample_world conn"
  assume "state c = ST_CONN" "length p + 64 \<le> SSH_MAX_PACKET"
  then show "fst (SendPacket sample_host p c) = 0"
    using sample_seal by (simp add: SendPacket_def Let_def sample_host_def)
qed

lemma sample_silent: "silent (sample_host\<lparr>rd := \<lambda>w n. (RdData [], w)\<rparr>)"
  by (simp add: silent_def)

lemma sample_open_idle: "ProcessInput sample_host (sample_open a b u) = Some (0, False, sample_open a b u)"
proof -
  have r: "read_input sample_host (sample_open a b u) = (Some False, sample_open a b u)"
    by (simp add: read_input_def sample_open_def sample_new_def conn_zero_def sample_host_def sample_read_def
        SSH_RX_BUF_def SSH_MAX_PACKET_def)
  have t: "TryProcessOne sample_host (sample_open a b u) = (0, sample_open a b u)"
    by (simp add: TryProcessOne_def process_packet_def take_length_def sample_open_def sample_new_def conn_zero_def
        dir_zero_def)
  have "process_pending sample_host False (sample_open a b u) = (True, False, sample_open a b u)"
    by (subst process_pending.simps) (simp add: t)
  with r show ?thesis
    unfolding ProcessInput_def
    by (subst process_loop.simps) (simp add: sample_open_def)
qed

lemma sample_open_ring: "ring_ok (sample_open a b u)" "pending (sample_open a b u) = []"
  by (simp_all add: ring_ok_def pending_def ring_list_def ring_count_def sample_open_def sample_new_def conn_zero_def SSH_IN_RING_def)

lemma sample_open_fields [simp]:
  "state (sample_open a b u) = ST_CONN" "chanOpen (sample_open a b u)" "consumed (sample_open a b u) = u"
  "remoteWindow (sample_open a b u) = a" "remoteMaxPkt (sample_open a b u) = b" "\<not> closeRecv (sample_open a b u)"
  "\<not> closeSent (sample_open a b u)" "\<not> remoteEof (sample_open a b u)" "kex (sample_open a b u) = KX_IDLE"
  "CanSendNow (sample_open a b u)"
  by (simp_all add: sample_open_def sample_new_def conn_zero_def CanSendNow_def)

subsection \<open>Properties\<close>



text \<open>The window stall: a read that finds the ring empty sends nothing, however much credit is owed to the
  client. When the last bytes were taken at a moment the window could not be returned (during a key
  exchange) and the client had used its whole window, no later read returns it.\<close>
theorem SshRead_empty_returns_no_credit:
  assumes "ProcessInput h c = Some (q, p, c1)" and "ring_ok c1" and "pending c1 = []"
    and "state c1 = ST_CONN" and "chanOpen c1" and "\<not> closeRecv c1" and "\<not> remoteEof c1"
  shows "SshRead h n c = Some (0, [], c1)"
proof -
  have "RingEmpty c1" using in_ring.empty_iff [OF assms(2)] assms(3) by simp
  then show ?thesis using assms by (simp add: SshRead_def read_ring_def)
qed

theorem SshRead_empty_returns_no_credit_witness:
  "SshRead sample_host 100 (sample_open 10 10 32768) = Some (0, [], sample_open 10 10 32768) \<and>
   CanSendNow (sample_open 10 10 32768) \<and> SSH_LOCAL_WINDOW div 2 \<le> consumed (sample_open 10 10 32768)"
  using SshRead_empty_returns_no_credit [OF sample_open_idle sample_open_ring, of 10 10 32768 100]
  by (simp add: SSH_LOCAL_WINDOW_def)


lemma write_turn_whole:
  assumes "CanSendNow c" and "\<not> closeRecv c" and "remoteWindow c \<noteq> 0" and "write_chunk c (length b) = length b"
    and "fst (SendPacket h (data_packet c b) c) = 0"
  shows "\<exists>c2. write_turn h b c = (Some [], c2)"
proof -
  have "length b \<le> SSH_DATA_CHUNK" using write_chunk_bounds(4) [of c "length b"] assms(4) by simp
  with assms show ?thesis by (simp add: write_turn_def Let_def split_beta data_buf_msg)
qed

lemma sample_write_one: "\<exists>c'. SshWrite sample_host [1, 2, 3] (sample_open 10 10 0) = Some (0, c')"
proof -
  obtain s w where rt: "RtNow sample_host (ioCtx (sample_open 10 10 0)) = (s, w)"
    by (cases "RtNow sample_host (ioCtx (sample_open 10 10 0))")
  let ?c = "(sample_open 10 10 0)\<lparr>ioCtx := w\<rparr>"
  have "\<not> must_wait ?c" by (simp add: must_wait_def sample_open_def sample_new_def conn_zero_def CanSendNow_def)
  then have 1: "write_wait sample_host s 0 ?c = Some (True, ?c)" by (subst write_wait.simps) simp
  have l: "length [1, 2, 3 :: byte] = 3" by simp
  have k: "write_chunk ?c (length [1, 2, 3 :: byte]) = length [1, 2, 3 :: byte]"
    unfolding l by (simp add: write_chunk_def SSH_DATA_CHUNK_def)
  have "fst (SendPacket sample_host (data_packet ?c [1, 2, 3]) ?c) = 0"
    using sample_sends_always by (simp add: sends_always_def data_packet_def SSH_MAX_PACKET_def)
  then obtain c2 where 2: "write_turn sample_host [1, 2, 3] ?c = (Some [], c2)"
    using write_turn_whole [of ?c "[1, 2, 3]" sample_host] k l by (auto simp: CanSendNow_def)
  have "SshWrite sample_host [1, 2, 3] (sample_open 10 10 0) = SshWrite sample_host [] c2"
    by (subst SshWrite.simps) (simp add: rt 1 2)
  also have "\<dots> = Some (0, c2)" by (subst SshWrite.simps) simp
  finally show ?thesis by blast
qed


text \<open>C40: A client that announces a maximum packet size of zero while its window is open makes \<^verbatim>\<open>SshWrite\<close> spin
  for ever, sending empty channel data messages: as long as sending succeeds, no write of a
  non-empty buffer returns.\<close>
theorem SshWrite_zero_packet_size_spins:
  assumes "sends_always h" and "buf \<noteq> []" and "CanSendNow c" and "\<not> closeRecv c" and "remoteWindow c \<noteq> 0"
    and "remoteMaxPkt c = 0"
  shows "SshWrite h buf c = None"
  using assms by (intro SshWrite_stuck_lemma) (simp_all add: stuck_writer_def)

theorem SshWrite_zero_packet_size_spins_witness: "SshWrite sample_host [104, 105] (sample_open 100 0 0) = None"
  by (rule SshWrite_zero_packet_size_spins [OF sample_sends_always]) simp_all

text \<open>C37: The handshake timeout: against a client that never sends a byte, \<^verbatim>\<open>SshAccept\<close> returns -1 with the
  connection closed, whatever the clock shows; the bound on its idle turns suffices.\<close>
theorem SshAccept_silent_client:
  assumes "silent h" and "state c = ST_VERSION" and "rx c = []" and "\<not> shellReady c"
  shows "\<exists>c'. SshAccept h c = Some (- 1, c') \<and> state c' = ST_CLOSED"
  using assms by (intro accept_silent_lemma) (simp_all add: waiting_def)

theorem SshAccept_silent_client_witness:
  "\<exists>c'. SshAccept (sample_host\<lparr>rd := \<lambda>w n. (RdData [], w)\<rparr>) sample_new = Some (- 1, c') \<and> state c' = ST_CLOSED"
  by (rule SshAccept_silent_client [OF sample_silent]) (simp_all add: sample_new_def conn_zero_def)

end
