(* ===== verification/Fingerprint.thy ===== *)
theory Fingerprint
  imports Ssh_Api
begin

text \<open>
  The host key fingerprint \<^verbatim>\<open>SshPrintHostKey\<close> prints: the unpadded base64 of the SHA-256 of
  the key blob. The specification reads the text back as a number in base 64.
\<close>

definition b64 :: string where
  "b64 = ''ABCDEFGHIJKLMNOPQRSTUVWXYZabcdefghijklmnopqrstuvwxyz0123456789+/''"

definition b64_digit :: "u32 \<Rightarrow> nat \<Rightarrow> char" where
  "b64_digit v k = b64 ! unat (drop_bit k v AND 63)"

text \<open>The ten full groups of the loop, and the last two bytes.\<close>

definition b64_group :: "bytes \<Rightarrow> nat \<Rightarrow> string" where
  "b64_group digest i =
     (let v = push_bit 16 (ucast (digest ! i)) OR push_bit 8 (ucast (digest ! (i + 1)))
              OR ucast (digest ! (i + 2))
      in map (b64_digit v) [18, 12, 6, 0])"

definition b64_tail :: "bytes \<Rightarrow> string" where
  "b64_tail digest =
     (let v = push_bit 16 (ucast (digest ! 30)) OR push_bit 8 (ucast (digest ! 31))
      in map (b64_digit v) [18, 12, 6])"

definition fingerprint :: "bytes \<Rightarrow> string" where
  "fingerprint digest = concat (map (\<lambda>k. b64_group digest (3 * k)) [0..<10]) @ b64_tail digest"

text \<open>The line printed on the local console.\<close>

definition SshPrintHostKey :: "'w host \<Rightarrow> bytes \<Rightarrow> string" where
  "SshPrintHostKey h seed =
     (case LoadHostKey h seed of
        None \<Rightarrow> ''Host key: invalid seed'' @ [CHR 0x0A]
      | Some (key, pub) \<Rightarrow>
          ''Host key: ssh-ed25519 SHA256:'' @ fingerprint (sha256 h [host_key_blob pub]) @ [CHR 0x0A])"

subsection \<open>Reading the text back\<close>

definition b64_index :: "char \<Rightarrow> nat" where
  "b64_index ch = length (takeWhile (\<lambda>x. x \<noteq> ch) b64)"

definition b64_value :: "string \<Rightarrow> nat" where
  "b64_value s = foldl (\<lambda>a ch. a * 64 + b64_index ch) 0 s"

lemma length_b64 [simp]: "length b64 = 64"
  by (simp add: b64_def)

lemma distinct_b64: "distinct b64"
  unfolding b64_def by code_simp

lemma b64_index_nth: "n < 64 \<Longrightarrow> b64_index (b64 ! n) = n"
proof -
  assume n: "n < 64"
  have "\<forall>n\<in>set [0..<64]. b64_index (b64 ! n) = n"
    unfolding b64_def b64_index_def by code_simp
  with n show ?thesis by simp
qed

lemma unat_and_63: "unat (w AND 63 :: u32) = unat w mod 64"
proof -
  have w: "w AND 63 = take_bit 6 w" by (simp add: take_bit_eq_mask mask_eq_exp_minus_1)
  show ?thesis unfolding w by (simp only: unsigned_take_bit_eq) (simp add: take_bit_eq_mod)
qed

lemma b64_index_digit: "b64_index (b64_digit v k) = unat v div 2 ^ k mod 64"
proof -
  have "unat (drop_bit k v AND 63) = unat v div 2 ^ k mod 64"
    by (simp only: unat_and_63 unat_drop_bit_eq) (simp add: drop_bit_eq_div)
  moreover have "unat v div 2 ^ k mod 64 < 64" by simp
  ultimately show ?thesis by (simp add: b64_digit_def b64_index_nth)
qed

lemma b64_digit_in: "b64_digit v k \<in> set b64"
proof -
  have "unat (drop_bit k v AND 63) < length b64" by (simp add: unat_and_63)
  then show ?thesis unfolding b64_digit_def by (rule nth_mem)
qed

lemma unat_three_bytes:
  "unat (push_bit 16 (ucast (a :: byte)) OR push_bit 8 (ucast (b :: byte)) OR ucast (c :: byte) :: u32)
   = unat a * 65536 + unat b * 256 + unat c"
proof -
  have "push_bit 16 (ucast a) OR push_bit 8 (ucast b) OR ucast c = GetU32 [0, a, b, c]"
    by (simp add: GetU32_def)
  also have "unat (GetU32 [0, a, b, c]) = be_val [0, a, b, c]" by (rule unat_GetU32) simp
  finally show ?thesis by (simp add: be_val_Cons)
qed

lemma foldl_b64:
  "foldl (\<lambda>a ch. a * 64 + b64_index ch) a s = a * 64 ^ length s + b64_value s"
proof (induction s arbitrary: a)
  case Nil
  then show ?case by (simp add: b64_value_def)
next
  case (Cons x s)
  have "b64_value (x # s) = b64_index x * 64 ^ length s + b64_value s"
    using Cons [of "b64_index x"] by (simp add: b64_value_def)
  then show ?case using Cons [of "a * 64 + b64_index x"] by (simp add: algebra_simps)
qed

lemma b64_value_append: "b64_value (s @ t) = b64_value s * 64 ^ length t + b64_value t"
  using foldl_b64 [of "b64_value s" t] by (simp add: b64_value_def)

lemma digits_value:
  assumes "n < 16777216"
  shows "((n div 262144 mod 64 * 64 + n div 4096 mod 64) * 64 + n div 64 mod 64) * 64 + n mod 64 = (n :: nat)"
proof -
  have s: "n div m div 64 * 64 + n div m mod 64 = n div m" for m by simp
  have d: "n div 64 div 64 = n div 4096" "n div 4096 div 64 = n div 262144"
    by (simp_all add: div_mult2_eq [symmetric])
  have t: "n div 262144 mod 64 = n div 262144"
    using assms by (simp add: less_mult_imp_div_less)
  show ?thesis using s [of 4096] s [of 64] s [of 1] by (simp only: t d div_by_1)
qed

lemma three_bytes_less: "unat (a :: byte) * 65536 + unat (b :: byte) * 256 + unat (c :: byte) < 16777216"
  using unat_byte_le [of a] unat_byte_le [of b] unat_byte_le [of c] by linarith

lemma b64_group_value:
  "b64_value (b64_group d i) = unat (d ! i) * 65536 + unat (d ! (i + 1)) * 256 + unat (d ! (i + 2))"
  using digits_value [OF three_bytes_less]
  by (simp add: b64_group_def b64_value_def b64_index_digit unat_three_bytes Let_def)

lemma be_val_append: "be_val (a @ b) = be_val a * 256 ^ length b + be_val b"
  using foldl_be [of "be_val a" b] by (simp add: be_val_def)

lemma take_three:
  "3 * k + 3 \<le> length d \<Longrightarrow> take (3 * Suc k) d = take (3 * k) d @ [d ! (3 * k), d ! (3 * k + 1), d ! (3 * k + 2)]"
  by (simp add: take_Suc_conv_app_nth numeral_eq_Suc)

lemma b64_groups_value:
  "3 * k \<le> length d \<Longrightarrow> b64_value (concat (map (\<lambda>k. b64_group d (3 * k)) [0..<k])) = be_val (take (3 * k) d)"
proof (induction k)
  case 0
  then show ?case by (simp add: b64_value_def)
next
  case (Suc k)
  have "length (b64_group d (3 * k)) = 4" by (simp add: b64_group_def Let_def)
  with Suc take_three [of k d] b64_group_value [of d "3 * k"] show ?case
    by (simp add: b64_value_append be_val_append be_val_Cons)
qed

lemma digits_value_3:
  assumes "n = 64 * m" and "m < 262144"
  shows "(n div 262144 mod 64 * 64 + n div 4096 mod 64) * 64 + n div 64 mod 64 = (m :: nat)"
  using digits_value [of n] assms by simp

lemma b64_value_digits_3:
  assumes "unat v = 64 * m" and "m < 262144"
  shows "b64_value (map (b64_digit v) [18, 12, 6]) = m"
  using digits_value_3 [OF assms] by (simp add: b64_value_def b64_index_digit)

lemma b64_tail_value: "b64_value (b64_tail d) = 4 * (unat (d ! 30) * 256 + unat (d ! 31))"
  unfolding b64_tail_def Let_def
  using unat_three_bytes [of "d ! 30" "d ! 31" 0] three_bytes_less [of "d ! 30" "d ! 31" 0]
  by (intro b64_value_digits_3) simp_all

lemma fingerprint_lemma:
  assumes "length d = 32"
  shows "length (fingerprint d) = 43" and "set (fingerprint d) \<subseteq> set b64"
    and "b64_value (fingerprint d) = 4 * be_val d"
proof -
  show "length (fingerprint d) = 43"
    by (simp add: fingerprint_def b64_group_def b64_tail_def Let_def length_concat comp_def upt_rec)
  show "set (fingerprint d) \<subseteq> set b64"
    using b64_digit_in by (auto simp: fingerprint_def b64_group_def b64_tail_def Let_def)
  have l: "length (b64_tail d) = 3" by (simp add: b64_tail_def Let_def)
  have "d = take 30 d @ [d ! 30, d ! 31]"
  proof -
    have "take 32 d = take 30 d @ [d ! 30, d ! 31]"
      using assms take_Suc_conv_app_nth [of 30 d] take_Suc_conv_app_nth [of 31 d] by simp
    then show ?thesis using assms by simp
  qed
  then have "be_val d = be_val (take 30 d) * 65536 + (unat (d ! 30) * 256 + unat (d ! 31))"
    using be_val_append [of "take 30 d" "[d ! 30, d ! 31]"] by (simp add: be_val_Cons)
  moreover have "b64_value (concat (map (\<lambda>k. b64_group d (3 * k)) [0..<10])) = be_val (take 30 d)"
    using b64_groups_value [of 10 d] assms by simp
  ultimately show "b64_value (fingerprint d) = 4 * be_val d"
    using b64_tail_value [of d] l by (simp add: fingerprint_def b64_value_append del: upt_Suc)
qed

subsection \<open>Properties\<close>

text \<open>The printed fingerprint is the base64 form of the digest: 43 characters of the alphabet whose value in
  base 64, cut by the two padding bits, is the 256-bit value of the SHA-256 of the key blob.\<close>
theorem fingerprint_is_base64:
  assumes "length d = 32"
  shows "length (fingerprint d) = 43 \<and> set (fingerprint d) \<subseteq> set b64 \<and> b64_value (fingerprint d) div 4 = be_val d \<and>
    b64_value (fingerprint d) mod 4 = 0"
  using fingerprint_lemma [OF assms] by simp

theorem fingerprint_is_base64_witness:
  "b64_value (fingerprint (replicate 32 255)) div 4 = be_val (replicate 32 255)"
  using fingerprint_is_base64 [of "replicate 32 255"] by simp

end
