(* ===== verification/Efi.thy ===== *)
theory Efi
  imports Clock
begin

text \<open>
  The part of \<^verbatim>\<open>uefi.h\<close> the components share: status codes, the text input types and the protocol identifiers.
\<close>

type_synonym efi_status = u64

definition EFIERR :: "u64 \<Rightarrow> efi_status" where
  "EFIERR a = 0x8000000000000000 OR a"

text \<open>A status is an error when it is negative as a signed number.\<close>

definition EFI_ERROR :: "efi_status \<Rightarrow> bool" where
  "EFI_ERROR s \<longleftrightarrow> sint s < 0"

definition EFI_SUCCESS :: efi_status where "EFI_SUCCESS = 0"
definition EFI_LOAD_ERROR :: efi_status where "EFI_LOAD_ERROR = EFIERR 1"
definition EFI_INVALID_PARAMETER :: efi_status where "EFI_INVALID_PARAMETER = EFIERR 2"
definition EFI_UNSUPPORTED :: efi_status where "EFI_UNSUPPORTED = EFIERR 3"
definition EFI_NOT_READY :: efi_status where "EFI_NOT_READY = EFIERR 6"
definition EFI_DEVICE_ERROR :: efi_status where "EFI_DEVICE_ERROR = EFIERR 7"
definition EFI_OUT_OF_RESOURCES :: efi_status where "EFI_OUT_OF_RESOURCES = EFIERR 9"
definition EFI_NOT_FOUND :: efi_status where "EFI_NOT_FOUND = EFIERR 14"
definition EFI_NO_MAPPING :: efi_status where "EFI_NO_MAPPING = EFIERR 17"
definition EFI_TIMEOUT :: efi_status where "EFI_TIMEOUT = EFIERR 18"
definition EFI_ABORTED :: efi_status where "EFI_ABORTED = EFIERR 21"

lemmas efi_status_defs = EFI_SUCCESS_def EFI_LOAD_ERROR_def EFI_INVALID_PARAMETER_def EFI_UNSUPPORTED_def
  EFI_NOT_READY_def EFI_DEVICE_ERROR_def EFI_OUT_OF_RESOURCES_def EFI_NOT_FOUND_def EFI_NO_MAPPING_def
  EFI_TIMEOUT_def EFI_ABORTED_def EFIERR_def

lemma EFI_SUCCESS_ok [simp]: "\<not> EFI_ERROR EFI_SUCCESS"
  by (simp add: EFI_ERROR_def EFI_SUCCESS_def)

lemma EFI_codes_fail [simp]:
  "EFI_ERROR EFI_TIMEOUT" "EFI_ERROR EFI_ABORTED" "EFI_ERROR EFI_NOT_READY" "EFI_ERROR EFI_NO_MAPPING"
  "EFI_ERROR EFI_NOT_FOUND" "EFI_ERROR EFI_OUT_OF_RESOURCES" "EFI_ERROR EFI_INVALID_PARAMETER"
  "EFI_ERROR EFI_LOAD_ERROR" "EFI_ERROR EFI_UNSUPPORTED" "EFI_ERROR EFI_DEVICE_ERROR"
  unfolding EFI_ERROR_def efi_status_defs by code_simp+

text \<open>A key: scan code and character (\<^verbatim>\<open>EFI_INPUT_KEY\<close>).\<close>

record efi_key =
  ScanCode :: u16
  UnicodeChar :: u16

definition SCAN_ESC :: u16 where "SCAN_ESC = 0x17"

text \<open>
  The identifiers of the protocols the program asks the firmware for, and of the Shell's file in a
  firmware volume.
\<close>

record efi_guid =
  Data1 :: u32
  Data2 :: u16
  Data3 :: u16
  Data4 :: "byte list"

definition gEfiSimpleTextInProtocolGuid :: efi_guid where
  "gEfiSimpleTextInProtocolGuid = \<lparr>Data1 = 0x387477c1, Data2 = 0x69c7, Data3 = 0x11d2,
     Data4 = [0x8e, 0x39, 0x00, 0xa0, 0xc9, 0x69, 0x72, 0x3b]\<rparr>"

definition gEfiSimpleTextInputExProtocolGuid :: efi_guid where
  "gEfiSimpleTextInputExProtocolGuid = \<lparr>Data1 = 0xdd9e7534, Data2 = 0x7762, Data3 = 0x4698,
     Data4 = [0x8c, 0x14, 0xf5, 0x85, 0x17, 0xa6, 0x25, 0xaa]\<rparr>"

definition gEfiSimpleTextOutProtocolGuid :: efi_guid where
  "gEfiSimpleTextOutProtocolGuid = \<lparr>Data1 = 0x387477c2, Data2 = 0x69c7, Data3 = 0x11d2,
     Data4 = [0x8e, 0x39, 0x00, 0xa0, 0xc9, 0x69, 0x72, 0x3b]\<rparr>"

definition gEfiLoadedImageProtocolGuid :: efi_guid where
  "gEfiLoadedImageProtocolGuid = \<lparr>Data1 = 0x5b1b31a1, Data2 = 0x9562, Data3 = 0x11d2,
     Data4 = [0x8e, 0x3f, 0x00, 0xa0, 0xc9, 0x69, 0x72, 0x3b]\<rparr>"

definition gEfiDevicePathProtocolGuid :: efi_guid where
  "gEfiDevicePathProtocolGuid = \<lparr>Data1 = 0x09576e91, Data2 = 0x6d3f, Data3 = 0x11d2,
     Data4 = [0x8e, 0x39, 0x00, 0xa0, 0xc9, 0x69, 0x72, 0x3b]\<rparr>"

definition gEfiTcp4ServiceBindingProtocolGuid :: efi_guid where
  "gEfiTcp4ServiceBindingProtocolGuid = \<lparr>Data1 = 0x00720665, Data2 = 0x67eb, Data3 = 0x4a99,
     Data4 = [0xba, 0xf7, 0xd3, 0xc3, 0x3a, 0x1c, 0x7c, 0xc9]\<rparr>"

definition gEfiTcp4ProtocolGuid :: efi_guid where
  "gEfiTcp4ProtocolGuid = \<lparr>Data1 = 0x65530bc7, Data2 = 0xa359, Data3 = 0x410f,
     Data4 = [0xb0, 0x10, 0x5a, 0xad, 0xc7, 0xec, 0x2b, 0x62]\<rparr>"

definition gEfiFirmwareVolume2ProtocolGuid :: efi_guid where
  "gEfiFirmwareVolume2ProtocolGuid = \<lparr>Data1 = 0x220e73b6, Data2 = 0x6bdb, Data3 = 0x4413,
     Data4 = [0x84, 0x05, 0xb9, 0x74, 0xb1, 0x08, 0x61, 0x9a]\<rparr>"

definition gEfiRngProtocolGuid :: efi_guid where
  "gEfiRngProtocolGuid = \<lparr>Data1 = 0x3152bca5, Data2 = 0xeade, Data3 = 0x433d,
     Data4 = [0x86, 0x2e, 0xc0, 0x1c, 0xdc, 0x29, 0x1f, 0x44]\<rparr>"

definition mShellFileGuid :: efi_guid where
  "mShellFileGuid = \<lparr>Data1 = 0x7C04A583, Data2 = 0x9E3E, Data3 = 0x4f1c,
     Data4 = [0xAD, 0x65, 0xE0, 0x52, 0x68, 0xD0, 0xB4, 0xD1]\<rparr>"

lemmas guid_defs = gEfiSimpleTextInProtocolGuid_def gEfiSimpleTextInputExProtocolGuid_def
    gEfiSimpleTextOutProtocolGuid_def gEfiLoadedImageProtocolGuid_def gEfiDevicePathProtocolGuid_def
    gEfiTcp4ServiceBindingProtocolGuid_def gEfiTcp4ProtocolGuid_def gEfiFirmwareVolume2ProtocolGuid_def
    gEfiRngProtocolGuid_def mShellFileGuid_def

text \<open>No two interfaces share an identifier, and each has its eight trailing bytes.\<close>

lemma guids_distinct:
    "distinct [gEfiSimpleTextInProtocolGuid, gEfiSimpleTextInputExProtocolGuid, gEfiSimpleTextOutProtocolGuid,
    gEfiLoadedImageProtocolGuid, gEfiDevicePathProtocolGuid, gEfiTcp4ServiceBindingProtocolGuid,
    gEfiTcp4ProtocolGuid, gEfiFirmwareVolume2ProtocolGuid, gEfiRngProtocolGuid, mShellFileGuid]"
  by (simp add: guid_defs)

lemma guids_complete: "length (Data4 g) = 8" if "g \<in> {gEfiSimpleTextInProtocolGuid,
    gEfiSimpleTextInputExProtocolGuid, gEfiSimpleTextOutProtocolGuid, gEfiLoadedImageProtocolGuid,
    gEfiDevicePathProtocolGuid, gEfiTcp4ServiceBindingProtocolGuid, gEfiTcp4ProtocolGuid,
    gEfiFirmwareVolume2ProtocolGuid, gEfiRngProtocolGuid, mShellFileGuid}"
  using that by (auto simp: guid_defs)

end
