(* ===== verification/Shim_State.thy ===== *)
theory Shim_State
  imports Session Efi
begin

text \<open>
  The state of the console shim (\<^verbatim>\<open>CONSOLE_SHIM\<close> of \<^verbatim>\<open>ConsoleShim.h\<close>) and its key ring. The shim
  runs on top of a connection of \<^verbatim>\<open>ssh.c\<close>; what else it touches, the local console, the
  keyboard notification functions of its clients and the tick counter, is the parameter
  \<open>console\<close> over the same world.
\<close>

definition SHIM_KEY_RING :: nat where "SHIM_KEY_RING = 256"
definition SHIM_MAX_NOTIFY :: nat where "SHIM_MAX_NOTIFY = 16"
definition SHIM_OUT_BUF :: nat where "SHIM_OUT_BUF = 2048"
definition ESC_CAP :: nat where "ESC_CAP = 24"
definition ESC_TIMEOUT_TICKS :: u64 where "ESC_TIMEOUT_TICKS = 300000000"
definition SHIM_EXIT_INJECT_MAX :: nat where "SHIM_EXIT_INJECT_MAX = 40"

definition EFI_SHIFT_STATE_VALID :: u32 where "EFI_SHIFT_STATE_VALID = 0x80000000"
definition EFI_LEFT_CONTROL_PRESSED :: u32 where "EFI_LEFT_CONTROL_PRESSED = 8"

definition CHAR_BACKSPACE :: u16 where "CHAR_BACKSPACE = 8"
definition CHAR_TAB :: u16 where "CHAR_TAB = 9"
definition CHAR_LINEFEED :: u16 where "CHAR_LINEFEED = 10"
definition CHAR_CARRIAGE_RETURN :: u16 where "CHAR_CARRIAGE_RETURN = 13"

lemmas char_defs = CHAR_BACKSPACE_def CHAR_TAB_def CHAR_LINEFEED_def CHAR_CARRIAGE_RETURN_def

text \<open>A key with its shift and toggle state (\<^verbatim>\<open>EFI_KEY_DATA\<close>), and a registered notification.\<close>

record key_data =
  Key :: efi_key
  KeyShiftState :: u32
  KeyToggleState :: byte

definition key_zero :: key_data where
  "key_zero = \<lparr>Key = \<lparr>ScanCode = 0, UnicodeChar = 0\<rparr>, KeyShiftState = 0, KeyToggleState = 0\<rparr>"

text \<open>\<open>Fn\<close> is the address of the function, 0 for \<^verbatim>\<open>NULL\<close>.\<close>

record shim_notify =
  NKey :: key_data
  Fn :: nat
  Used :: bool

definition notify_zero :: shim_notify where
  "notify_zero = \<lparr>NKey = key_zero, Fn = 0, Used = False\<rparr>"

record 'w console =
  LocalOut :: "u16 list \<Rightarrow> 'w \<Rightarrow> 'w"
  LocalRead :: "'w \<Rightarrow> (efi_status \<times> efi_key) \<times> 'w"
  LocalReady :: "'w \<Rightarrow> efi_status \<times> 'w"
  SignalEvent :: "nat \<Rightarrow> 'w \<Rightarrow> 'w"
  Ticks :: "'w \<Rightarrow> u64 \<times> 'w"
  NotifyFn :: "nat \<Rightarrow> key_data \<Rightarrow> 'w \<Rightarrow> 'w"

text \<open>
  \<open>Esc\<close> and \<open>OutBuf\<close> hold the \<open>EscLen\<close> and \<open>OutLen\<close> valid bytes; a pointer to the old console
  is its presence. \<open>outLog\<close> and \<open>fired\<close> are ghost fields: all bytes flushed so far, and the
  notifications made.
\<close>

record 'w shim =
  Ssh :: "'w conn"
  ModeNum :: nat
  Attribute :: nat
  CursorColumn :: nat
  CursorRow :: nat
  CursorVisible :: bool
  Keys :: "nat \<Rightarrow> key_data"
  KeyHead :: nat
  KeyTail :: nat
  Esc :: bytes
  EscTick :: u64
  Utf8Acc :: u32
  Utf8Need :: nat
  LastWasCr :: bool
  Notify :: "shim_notify list"
  Cols :: nat
  Rows :: nat
  PendingWrap :: bool
  OutBuf :: bytes
  OutPoll :: nat
  Disconnected :: bool
  ExitInjects :: nat
  OldConIn :: bool
  OldConOut :: bool
  Installed :: bool
  outLog :: bytes
  fired :: "(nat \<times> key_data) list"

definition shim_zero :: "'w conn \<Rightarrow> 'w shim" where
  "shim_zero c = \<lparr>Ssh = c, ModeNum = 0, Attribute = 0, CursorColumn = 0, CursorRow = 0, CursorVisible = False,
     Keys = (\<lambda>_. key_zero), KeyHead = 0, KeyTail = 0, Esc = [], EscTick = 0, Utf8Acc = 0, Utf8Need = 0,
     LastWasCr = False, Notify = replicate SHIM_MAX_NOTIFY notify_zero, Cols = 0, Rows = 0, PendingWrap = False,
     OutBuf = [], OutPoll = 0, Disconnected = False, ExitInjects = 0, OldConIn = False, OldConOut = False,
     Installed = False, outLog = [], fired = []\<rparr>"

subsection \<open>The key ring\<close>

definition KeysEmpty :: "'w shim \<Rightarrow> bool" where
  "KeysEmpty S \<longleftrightarrow> KeyHead S = KeyTail S"

definition key_push :: "key_data \<Rightarrow> 'w shim \<Rightarrow> 'w shim" where
  "key_push kd S = (let next = (KeyHead S + 1) mod SHIM_KEY_RING in
     if next = KeyTail S then S else S\<lparr>Keys := (Keys S)(KeyHead S := kd), KeyHead := next\<rparr>)"

definition key_front :: "'w shim \<Rightarrow> key_data" where
  "key_front S = Keys S (KeyTail S)"

definition key_pop :: "'w shim \<Rightarrow> 'w shim" where
  "key_pop S = S\<lparr>KeyTail := (KeyTail S + 1) mod SHIM_KEY_RING\<rparr>"

definition PopKey :: "'w shim \<Rightarrow> key_data option \<times> 'w shim" where
  "PopKey S = (if KeysEmpty S then (None, S) else (Some (key_front S), key_pop S))"

definition key_queue :: "'w shim \<Rightarrow> key_data list" where
  "key_queue S = ring_list SHIM_KEY_RING (Keys S) (KeyHead S) (KeyTail S)"

definition keys_ok :: "'w shim \<Rightarrow> bool" where
  "keys_ok S \<longleftrightarrow> KeyHead S < SHIM_KEY_RING \<and> KeyTail S < SHIM_KEY_RING"

interpretation key_ring: ring_queue key_push key_pop key_front KeysEmpty key_queue SHIM_KEY_RING keys_ok
proof
  fix s :: "'w shim" and x
  assume i: "keys_ok s"
  then have b: "KeyHead s < SHIM_KEY_RING" "KeyTail s < SHIM_KEY_RING" by (simp_all add: keys_ok_def)
  note full = ring_full_iff [OF b]
  have c: "ring_count SHIM_KEY_RING (KeyHead s) (KeyTail s) < SHIM_KEY_RING"
    by (rule ring_count_less) (simp add: SHIM_KEY_RING_def)
  show "key_queue (key_push x s) = (if length (key_queue s) + 1 < SHIM_KEY_RING then key_queue s @ [x] else key_queue s)"
    using ring_list_push [OF b, of "Keys s" x] full c by (auto simp: key_push_def key_queue_def Let_def)
  show "KeysEmpty s \<longleftrightarrow> key_queue s = []"
    using ring_empty_iff [OF b] by (simp add: KeysEmpty_def key_queue_def)
  show "length (key_queue s) < SHIM_KEY_RING" using c by (simp add: key_queue_def)
  show "keys_ok (key_push x s)" using b by (simp add: key_push_def keys_ok_def Let_def SHIM_KEY_RING_def)
  show "key_queue s = key_front s # key_queue (key_pop s)" if "\<not> KeysEmpty s"
    using ring_list_pop [OF b] that by (simp add: KeysEmpty_def key_queue_def key_front_def key_pop_def)
  show "keys_ok (key_pop s)" using b by (simp add: key_pop_def keys_ok_def SHIM_KEY_RING_def)
qed

lemma PopKey_queue:
  assumes "keys_ok S"
  shows "case key_queue S of [] \<Rightarrow> PopKey S = (None, S)
    | k # ks \<Rightarrow> \<exists>S'. PopKey S = (Some k, S') \<and> key_queue S' = ks \<and> keys_ok S'"
proof (cases "key_queue S")
  case Nil
  with key_ring.empty_iff [OF assms] show ?thesis by (simp add: PopKey_def)
next
  case (Cons k ks)
  with assms key_ring.empty_iff [OF assms] key_ring.pop_fifo [OF assms Cons] show ?thesis by (simp add: PopKey_def)
qed

text \<open>A local console that shows nothing and has no keyboard.\<close>

definition quiet_console :: "sample_world console" where
  "quiet_console = \<lparr>LocalOut = \<lambda>_ w. w, LocalRead = \<lambda>w. ((EFI_NOT_READY, \<lparr>ScanCode = 0, UnicodeChar = 0\<rparr>), w),
     LocalReady = \<lambda>w. (EFI_NOT_READY, w), SignalEvent = \<lambda>_ w. w, Ticks = \<lambda>w. (0, w), NotifyFn = \<lambda>_ _ w. w\<rparr>"

end
