(* ===== verification/Libc.thy ===== *)
theory Libc
  imports Prelude
begin

text \<open>
  The C library subset of \<^verbatim>\<open>uefirt.c\<close> over a flat memory: a function from addresses to cells.
  Bytes are cells of 8 bits, \<^verbatim>\<open>CHAR16\<close> cells have 16. A loop that walks to a terminator is a
  partial function, so a walk that never meets one is \<open>None\<close>; the length guard
  \<^verbatim>\<open>InsaneLen\<close> never returns either. The specifications are over lists: \<open>cells m a n\<close> is
  what \<open>n\<close> cells hold, \<open>str_at m a s\<close> says a terminated string \<open>s\<close> starts at \<open>a\<close>.
\<close>

type_synonym 'c cells = "nat \<Rightarrow> 'c"
type_synonym mem = "byte cells"

definition cells_at :: "'c cells \<Rightarrow> nat \<Rightarrow> nat \<Rightarrow> 'c list" where
  "cells_at m a n = map (\<lambda>i. m (a + i)) [0..<n]"

definition str_at :: "'c::zero cells \<Rightarrow> nat \<Rightarrow> 'c list \<Rightarrow> bool" where
  "str_at m a s \<longleftrightarrow> cells_at m a (length s) = s \<and> 0 \<notin> set s \<and> m (a + length s) = 0"

subsection \<open>Cells\<close>

lemma length_cells_at [simp]: "length (cells_at m a n) = n"
  by (simp add: cells_at_def)

lemma nth_cells_at [simp]: "i < n \<Longrightarrow> cells_at m a n ! i = m (a + i)"
  by (simp add: cells_at_def)

lemma cells_at_0 [simp]: "cells_at m a 0 = []"
  by (simp add: cells_at_def)

lemma cells_at_Suc: "cells_at m a (Suc n) = m a # cells_at m (Suc a) n"
  by (rule nth_equalityI) (auto simp: nth_Cons split: nat.split)

lemma cells_at_snoc: "cells_at m a (Suc n) = cells_at m a n @ [m (a + n)]"
  by (simp add: cells_at_def)

lemma cells_at_add: "cells_at m a (k + n) = cells_at m a k @ cells_at m (a + k) n"
  by (induction k arbitrary: a) (simp_all add: cells_at_Suc)

lemma cells_at_cong: "(\<And>i. i < n \<Longrightarrow> m (a + i) = m' (b + i)) \<Longrightarrow> cells_at m a n = cells_at m' b n"
  by (simp add: cells_at_def)

lemma str_at_Nil [simp]: "str_at m a [] \<longleftrightarrow> m a = 0"
  by (simp add: str_at_def)

lemma str_at_Cons [simp]: "str_at m a (x # s) \<longleftrightarrow> m a = x \<and> x \<noteq> 0 \<and> str_at m (Suc a) s"
  by (auto simp: str_at_def cells_at_Suc)

lemma str_at_nth: "str_at m a s \<Longrightarrow> i < length s \<Longrightarrow> m (a + i) = s ! i"
  by (metis nth_cells_at str_at_def)

lemma str_at_end: "str_at m a s \<Longrightarrow> m (a + length s) = 0"
  by (simp add: str_at_def)

lemma str_at_no_nul: "str_at m a s \<Longrightarrow> 0 \<notin> set s"
  by (simp add: str_at_def)

lemma str_at_drop: "str_at m a s \<Longrightarrow> k \<le> length s \<Longrightarrow> str_at m (a + k) (drop k s)"
proof (induction k arbitrary: a s)
  case (Suc k)
  then obtain x t where s: "s = x # t" by (cases s) auto
  with Suc.IH [of "Suc a" t] Suc.prems show ?case by simp
qed simp

lemma str_at_append: "str_at m a (s @ t) \<longleftrightarrow> cells_at m a (length s) = s \<and> 0 \<notin> set s \<and> str_at m (a + length s) t"
  by (induction s arbitrary: a) (auto simp: cells_at_Suc)

lemma str_at_cong: "str_at m a s \<Longrightarrow> (\<And>i. i \<le> length s \<Longrightarrow> m' (b + i) = m (a + i)) \<Longrightarrow> str_at m' b s"
  unfolding str_at_def using cells_at_cong [of "length s" m a m' b] by auto

subsection \<open>Blocks: \<^verbatim>\<open>memcpy\<close>, \<^verbatim>\<open>memmove\<close>, \<^verbatim>\<open>memset\<close>, \<^verbatim>\<open>memcmp\<close>, \<^verbatim>\<open>memchr\<close>\<close>

text \<open>The C expression \<^verbatim>\<open>*x - *y\<close> on unsigned characters.\<close>

definition byte_diff :: "byte \<Rightarrow> byte \<Rightarrow> int" where
  "byte_diff x y = uint x - uint y"

lemma byte_diff_iff [simp]: "byte_diff x y = 0 \<longleftrightarrow> x = y" "byte_diff x y < 0 \<longleftrightarrow> x < y" "0 < byte_diff x y \<longleftrightarrow> y < x"
  by (simp_all add: byte_diff_def word_uint_eq_iff word_less_def)

definition RT_INSANE_LEN :: nat where "RT_INSANE_LEN = 64 * 1024 * 1024"

fun copy_up :: "nat \<Rightarrow> nat \<Rightarrow> nat \<Rightarrow> mem \<Rightarrow> mem" where
  "copy_up d s 0 m = m"
| "copy_up d s (Suc n) m = copy_up (Suc d) (Suc s) n (m(d := m s))"

fun copy_down :: "nat \<Rightarrow> nat \<Rightarrow> nat \<Rightarrow> mem \<Rightarrow> mem" where
  "copy_down d s 0 m = m"
| "copy_down d s (Suc n) m = copy_down d s n (m(d + n := m (s + n)))"

definition memcpy :: "nat \<Rightarrow> nat \<Rightarrow> nat \<Rightarrow> mem \<Rightarrow> mem option" where
  "memcpy d s n m = (if RT_INSANE_LEN < n then None else Some (copy_up d s n m))"

definition memmove :: "nat \<Rightarrow> nat \<Rightarrow> nat \<Rightarrow> mem \<Rightarrow> mem option" where
  "memmove d s n m =
     (if d = s \<or> n = 0 then Some m
      else if RT_INSANE_LEN < n then None
      else if d < s then Some (copy_up d s n m) else Some (copy_down d s n m))"

fun fill_up :: "nat \<Rightarrow> byte \<Rightarrow> nat \<Rightarrow> mem \<Rightarrow> mem" where
  "fill_up d c 0 m = m"
| "fill_up d c (Suc n) m = fill_up (Suc d) c n (m(d := c))"

definition memset :: "nat \<Rightarrow> byte \<Rightarrow> nat \<Rightarrow> mem \<Rightarrow> mem option" where
  "memset d c n m = (if RT_INSANE_LEN < n then None else Some (fill_up d c n m))"

fun memcmp :: "nat \<Rightarrow> nat \<Rightarrow> nat \<Rightarrow> mem \<Rightarrow> int" where
  "memcmp a b 0 m = 0"
| "memcmp a b (Suc n) m =
     (if m a \<noteq> m b then byte_diff (m a) (m b) else memcmp (Suc a) (Suc b) n m)"

fun memchr :: "nat \<Rightarrow> byte \<Rightarrow> nat \<Rightarrow> mem \<Rightarrow> nat option" where
  "memchr s c 0 m = None"
| "memchr s c (Suc n) m = (if m s = c then Some s else memchr (Suc s) c n m)"

text \<open>What a block copy is: \<open>n\<close> cells at \<open>d\<close> take the old cells at \<open>s\<close>, the rest stays.\<close>

definition moved :: "nat \<Rightarrow> nat \<Rightarrow> nat \<Rightarrow> mem \<Rightarrow> mem" where
  "moved d s n m = (\<lambda>a. if d \<le> a \<and> a < d + n then m (s + (a - d)) else m a)"

lemma moved_0 [simp]: "moved d s 0 m = m"
  by (auto simp: moved_def fun_eq_iff)

lemma moved_same [simp]: "moved d d n m = m"
  by (auto simp: moved_def fun_eq_iff)

lemma copy_up_moved: "d \<le> s \<or> s + n \<le> d \<Longrightarrow> copy_up d s n m = moved d s n m"
proof (induction n arbitrary: d s m)
  case 0
  then show ?case by simp
next
  case (Suc n)
  then have "Suc d \<le> Suc s \<or> Suc s + n \<le> Suc d" by linarith
  note ih = Suc.IH [OF this, of "m(d := m s)"]
  have "moved (Suc d) (Suc s) n (m(d := m s)) = moved d s (Suc n) m"
  proof (rule ext)
   fix a
   show "moved (Suc d) (Suc s) n (m(d := m s)) a = moved d s (Suc n) m a"
   proof (cases "d < a \<and> a < d + Suc n")
    case True
    then have e: "Suc s + (a - Suc d) = s + (a - d)" by linarith
    have "s + (a - d) \<noteq> d" using Suc.prems True by linarith
    then have "moved (Suc d) (Suc s) n (m(d := m s)) a = m (s + (a - d))"
      using True unfolding moved_def e by simp
    then show ?thesis using True by (simp add: moved_def)
  next
    case False
    then show ?thesis by (auto simp: moved_def)
   qed
  qed
  then show ?case using ih by (simp only: copy_up.simps)
qed

lemma copy_down_moved: "s \<le> d \<or> d + n \<le> s \<Longrightarrow> copy_down d s n m = moved d s n m"
proof (induction n arbitrary: m)
  case 0
  then show ?case by simp
next
  case (Suc n)
  then have "s \<le> d \<or> d + n \<le> s" by linarith
  from Suc.IH [OF this] Suc.prems show ?case
    by (auto simp: moved_def fun_eq_iff)
qed

lemma memmove_lemma: "n \<le> RT_INSANE_LEN \<Longrightarrow> memmove d s n m = Some (moved d s n m)"
  by (auto simp: memmove_def copy_up_moved copy_down_moved)

lemma memcpy_lemma:
  "n \<le> RT_INSANE_LEN \<Longrightarrow> d \<le> s \<or> s + n \<le> d \<Longrightarrow> memcpy d s n m = Some (moved d s n m)"
  by (simp add: memcpy_def copy_up_moved)

lemma cells_at_moved [simp]: "cells_at (moved d s n m) d n = cells_at m s n"
  by (rule cells_at_cong) (simp add: moved_def)

lemma fill_up_eq: "fill_up d c n m = (\<lambda>a. if d \<le> a \<and> a < d + n then c else m a)"
  by (induction n arbitrary: d m) (auto simp: fun_eq_iff)

lemma memset_lemma: "n \<le> RT_INSANE_LEN \<Longrightarrow> memset d c n m = Some (\<lambda>a. if d \<le> a \<and> a < d + n then c else m a)"
  by (simp add: memset_def fill_up_eq)

lemma memcmp_lemma:
  "memcmp a b n m = 0 \<longleftrightarrow> cells_at m a n = cells_at m b n"
  by (induction n arbitrary: a b) (auto simp: cells_at_Suc)

lemma memcmp_sign:
  "memcmp a b n m < 0 \<longleftrightarrow>
     (\<exists>k<n. cells_at m a k = cells_at m b k \<and> m (a + k) < m (b + k))"
proof (induction n arbitrary: a b)
  case (Suc n)
  have ex: "(\<exists>k<Suc n. P k) \<longleftrightarrow> P 0 \<or> (\<exists>k<n. P (Suc k))" for P
    by (metis less_Suc_eq_0_disj)
  show ?case
    unfolding ex using Suc [of "Suc a" "Suc b"] by (auto simp: cells_at_Suc)
qed simp

lemma memchr_lemma:
  "memchr s c n m = (if c \<in> set (cells_at m s n) then Some (s + length (takeWhile (\<lambda>x. x \<noteq> c) (cells_at m s n))) else None)"
  by (induction n arbitrary: s) (auto simp: cells_at_Suc)

subsection \<open>Strings\<close>

partial_function (option) strlen_from :: "'c::zero cells \<Rightarrow> nat \<Rightarrow> nat \<Rightarrow> nat option" where
  "strlen_from m s n = (if m (s + n) \<noteq> 0 then strlen_from m s (n + 1) else Some n)"

declare strlen_from.simps [code]

definition strlen :: "mem \<Rightarrow> nat \<Rightarrow> nat option" where
  "strlen m s = strlen_from m s 0"

partial_function (option) strcmp :: "mem \<Rightarrow> nat \<Rightarrow> nat \<Rightarrow> int option" where
  "strcmp m a b = (if m a \<noteq> 0 \<and> m a = m b then strcmp m (Suc a) (Suc b) else Some (byte_diff (m a) (m b)))"

declare strcmp.simps [code]

fun strncmp :: "mem \<Rightarrow> nat \<Rightarrow> nat \<Rightarrow> nat \<Rightarrow> int" where
  "strncmp m a b 0 = 0"
| "strncmp m a b (Suc n) =
     (if m a \<noteq> m b \<or> m a = 0 then byte_diff (m a) (m b) else strncmp m (Suc a) (Suc b) n)"

fun strncpy_copy :: "nat \<Rightarrow> nat \<Rightarrow> nat \<Rightarrow> nat \<Rightarrow> mem \<Rightarrow> nat \<times> mem" where
  "strncpy_copy d s i 0 m = (i, m)"
| "strncpy_copy d s i (Suc k) m =
     (if m (s + i) \<noteq> 0 then strncpy_copy d s (Suc i) k (m(d + i := m (s + i))) else (i, m))"

definition strncpy :: "nat \<Rightarrow> nat \<Rightarrow> nat \<Rightarrow> mem \<Rightarrow> mem" where
  "strncpy d s n m = (let (i, m) = strncpy_copy d s 0 n m in fill_up (d + i) 0 (n - i) m)"

partial_function (option) strcpy :: "nat \<Rightarrow> nat \<Rightarrow> 'c::zero cells \<Rightarrow> 'c cells option" where
  "strcpy d s m = (if m s \<noteq> 0 then strcpy (Suc d) (Suc s) (m(d := m s)) else Some (m(d := m s)))"

declare strcpy.simps [code]

definition strcat :: "nat \<Rightarrow> nat \<Rightarrow> mem \<Rightarrow> mem option" where
  "strcat d s m = Option.bind (strlen m d) (\<lambda>n. strcpy (d + n) s m)"

text \<open>A search that returns: the address found, or \<open>None\<close> for the null pointer.\<close>

partial_function (option) strchr :: "mem \<Rightarrow> nat \<Rightarrow> byte \<Rightarrow> nat option option" where
  "strchr m s c =
     (if m s \<noteq> 0 then (if m s = c then Some (Some s) else strchr m (Suc s) c)
      else Some (if c = 0 then Some s else None))"

declare strchr.simps [code]

partial_function (option) strrchr_from :: "mem \<Rightarrow> nat option \<Rightarrow> nat \<Rightarrow> byte \<Rightarrow> nat option option" where
  "strrchr_from m r s c =
     (if m s \<noteq> 0 then strrchr_from m (if m s = c then Some s else r) (Suc s) c else Some r)"

declare strrchr_from.simps [code]

definition strrchr :: "mem \<Rightarrow> nat \<Rightarrow> byte \<Rightarrow> nat option option" where
  "strrchr m s c = strrchr_from m None s c"

partial_function (option) strstr_from :: "mem \<Rightarrow> nat \<Rightarrow> nat \<Rightarrow> nat \<Rightarrow> nat option option" where
  "strstr_from m h n nl =
     (if m h \<noteq> 0 then (if strncmp m h n nl = 0 then Some (Some h) else strstr_from m (Suc h) n nl)
      else Some None)"

declare strstr_from.simps [code]

definition strstr :: "mem \<Rightarrow> nat \<Rightarrow> nat \<Rightarrow> nat option option" where
  "strstr m h n = Option.bind (strlen m n) (\<lambda>nl. if nl = 0 then Some (Some h) else strstr_from m h n nl)"

subsection \<open>Strings: lemmas\<close>

lemma strlen_from_lemma: "str_at m (a + n) s \<Longrightarrow> strlen_from m a n = Some (n + length s)"
proof (induction s arbitrary: n)
  case Nil
  then show ?case by (subst strlen_from.simps) simp
next
  case (Cons x s)
  then show ?case by (subst strlen_from.simps) simp
qed

lemma strlen_lemma: "str_at m a s \<Longrightarrow> strlen m a = Some (length s)"
  using strlen_from_lemma [of m a 0 s] by (simp add: strlen_def)

lemma strcmp_lemma:
  "str_at m a s \<Longrightarrow> str_at m b t \<Longrightarrow>
   \<exists>r. strcmp m a b = Some r \<and> (r = 0 \<longleftrightarrow> s = t) \<and> (r < 0 \<longleftrightarrow> ord_class.lexordp s t)"
proof (induction s arbitrary: a b t)
  case Nil
  then show ?case by (subst strcmp.simps) (cases t; simp add: word_gt_0)
next
  case (Cons x s)
  note a = Cons.prems(1)
  show ?case
  proof (cases t)
    case Nil
    with a Cons.prems(2) show ?thesis by (subst strcmp.simps) (simp add: word_gt_0)
  next
    case (Cons y u)
    with Cons.prems(2) have b: "m b = y" "y \<noteq> 0" "str_at m (Suc b) u" by simp_all
    show ?thesis
    proof (cases "x = y")
      case True
      with Cons.IH [OF _ b(3), of "Suc a"] a b Cons show ?thesis by (subst strcmp.simps) simp
    next
      case False
      with a b Cons show ?thesis by (subst strcmp.simps) auto
    qed
  qed
qed

lemma strncmp_lemma:
  "str_at m a s \<Longrightarrow> str_at m b t \<Longrightarrow> strncmp m a b n = 0 \<longleftrightarrow> take n s = take n t"
proof (induction n arbitrary: a b s t)
  case (Suc n)
  show ?case
  proof (cases s)
    case Nil
    with Suc.prems show ?thesis by (cases t) auto
  next
    case s: (Cons x s')
    show ?thesis
    proof (cases t)
      case Nil
      with Suc.prems s show ?thesis by auto
    next
      case (Cons y t')
      with Suc s show ?thesis by auto
    qed
  qed
qed simp

lemma strcpy_lemma:
  assumes "str_at m s t" and "d \<le> s \<or> s + length t < d"
  shows "strcpy d s (m :: 'c::zero cells) = Some (\<lambda>a. if d \<le> a \<and> a < d + (length t + 1) then m (s + (a - d)) else m a)"
  using assms
proof (induction t arbitrary: s d m)
  case Nil
  then have "m(d := m s) = (\<lambda>a. if d \<le> a \<and> a < d + 1 then m (s + (a - d)) else m a)"
    by (auto simp: fun_eq_iff)
  with Nil show ?case by (subst strcpy.simps) simp
next
  case (Cons x t)
  let ?m = "m(d := m s)"
  have o: "Suc d \<le> Suc s \<or> Suc s + length t < Suc d" using Cons.prems(2) by auto
  have "str_at ?m (Suc s) t"
    by (rule str_at_cong [of m "Suc s"]) (use Cons.prems in auto)
  have ms: "m s \<noteq> 0" using Cons.prems(1) by simp
  from Cons.IH [OF \<open>str_at ?m (Suc s) t\<close> o]
  have "strcpy d s m = Some (\<lambda>a. if Suc d \<le> a \<and> a < Suc d + (length t + 1) then ?m (Suc s + (a - Suc d)) else ?m a)"
    by (subst strcpy.simps) (simp only: ms not_False_eq_True if_True)
  also have "(\<lambda>a. if Suc d \<le> a \<and> a < Suc d + (length t + 1) then ?m (Suc s + (a - Suc d)) else ?m a)
      = (\<lambda>a. if d \<le> a \<and> a < d + (length (x # t) + 1) then m (s + (a - d)) else m a)"
  proof
    fix a
    show "(if Suc d \<le> a \<and> a < Suc d + (length t + 1) then ?m (Suc s + (a - Suc d)) else ?m a)
      = (if d \<le> a \<and> a < d + (length (x # t) + 1) then m (s + (a - d)) else m a)"
    proof (cases "Suc d \<le> a")
      case True
      then have e: "Suc s + (a - Suc d) = s + (a - d)" by linarith
      show ?thesis
      proof (cases "a < Suc d + (length t + 1)")
        case a: True
        then have "s + (a - d) \<noteq> d" using True Cons.prems(2) by auto
        with True a e show ?thesis by simp
      qed (use True in auto)
    qed auto
  qed
  finally show ?case .
qed

lemma strcat_lemma:
  assumes "str_at m d x" and "str_at m s t" and "d + length x \<le> s \<or> s + length t < d"
  shows "\<exists>m'. strcat d s m = Some m' \<and> str_at m' d (x @ t) \<and>
    (\<forall>a. (a < d \<or> d + length x + length t < a) \<longrightarrow> m' a = m a)"
proof -
  let ?d = "d + length x"
  let ?m = "\<lambda>a. if ?d \<le> a \<and> a < ?d + (length t + 1) then m (s + (a - ?d)) else m a"
  have "?d \<le> s \<or> s + length t < ?d" using assms(3) by auto
  from strcpy_lemma [OF assms(2) this] strlen_lemma [OF assms(1)]
  have r: "strcat d s m = Some ?m" by (simp add: strcat_def)
  have "cells_at ?m d (length x) = x"
    using assms(1) cells_at_cong [of "length x" ?m d m d] by (simp add: str_at_def)
  moreover have "str_at ?m ?d t" using assms(2) by (rule str_at_cong) simp
  ultimately have "str_at ?m d (x @ t)" using str_at_no_nul [OF assms(1)] by (simp add: str_at_append)
  then show ?thesis using r by auto
qed

lemma strchr_lemma:
  "str_at m s t \<Longrightarrow> strchr m s c = Some (if c = 0 then Some (s + length t)
     else if c \<in> set t then Some (s + length (takeWhile (\<lambda>x. x \<noteq> c) t)) else None)"
proof (induction t arbitrary: s)
  case Nil
  then show ?case by (subst strchr.simps) simp
next
  case (Cons x t)
  then show ?case by (subst strchr.simps) auto
qed

lemma strrchr_from_lemma:
  "str_at m s t \<Longrightarrow> strrchr_from m r s c = Some (if c \<in> set t then
     Some (s + length t - 1 - length (takeWhile (\<lambda>x. x \<noteq> c) (rev t))) else r)"
proof (induction t arbitrary: s r)
  case Nil
  then show ?case by (subst strrchr_from.simps) simp
next
  case (Cons x t)
  have u: "strrchr_from m r s c = strrchr_from m (if x = c then Some s else r) (Suc s) c"
    using Cons.prems by (subst strrchr_from.simps) simp
  note ih = Cons.IH [of "Suc s" "if x = c then Some s else r"]
  show ?case
  proof (cases "c \<in> set t")
    case True
    then have "takeWhile (\<lambda>x. x \<noteq> c) (rev t @ [x]) = takeWhile (\<lambda>x. x \<noteq> c) (rev t)"
      by (intro takeWhile_append1 [of c]) simp_all
    with True u ih Cons.prems show ?thesis by simp
  next
    case False
    then have "takeWhile (\<lambda>x. x \<noteq> c) (rev t @ [x]) = rev t @ takeWhile (\<lambda>x. x \<noteq> c) [x]"
      by (intro takeWhile_append2) auto
    then have "x = c \<Longrightarrow> length (takeWhile (\<lambda>x. x \<noteq> c) (rev t @ [x])) = length t" by simp
    with False u ih Cons.prems show ?thesis by (cases "x = c") simp_all
  qed
qed

lemma strrchr_lemma:
  "str_at m s t \<Longrightarrow> strrchr m s c = Some (if c \<in> set t then
     Some (s + length t - 1 - length (takeWhile (\<lambda>x. x \<noteq> c) (rev t))) else None)"
  unfolding strrchr_def by (rule strrchr_from_lemma)

text \<open>The first position at or after \<open>k\<close> where \<open>p\<close> stands in \<open>t\<close>.\<close>

fun find_sub :: "'c list \<Rightarrow> 'c list \<Rightarrow> nat option" where
  "find_sub p [] = None"
| "find_sub p (x # t) = (if take (length p) (x # t) = p then Some 0 else map_option Suc (find_sub p t))"

lemma find_sub_Some:
  "find_sub p t = Some k \<Longrightarrow> take (length p) (drop k t) = p \<and> (\<forall>j<k. take (length p) (drop j t) \<noteq> p)"
proof (induction t arbitrary: k)
  case (Cons x t)
  show ?case
  proof (cases "take (length p) (x # t) = p")
    case True
    with Cons.prems show ?thesis by (simp del: take_Cons')
  next
    case False
    with Cons.prems obtain j where j: "find_sub p t = Some j" "k = Suc j" by (auto simp del: take_Cons')
    have "take (length p) (drop i (x # t)) \<noteq> p" if "i < k" for i
      using that False Cons.IH [OF j(1)] j(2) by (cases i) (simp_all del: take_Cons')
    then show ?thesis using Cons.IH [OF j(1)] j(2) by simp
  qed
qed simp

lemma find_sub_None: "p \<noteq> [] \<Longrightarrow> find_sub p t = None \<longleftrightarrow> (\<nexists>a b. t = a @ p @ b)"
proof (induction t)
  case (Cons x t)
  have e: "(\<exists>a b. x # t = a @ p @ b) \<longleftrightarrow> take (length p) (x # t) = p \<or> (\<exists>a b. t = a @ p @ b)"
  proof -
    have "(\<exists>a b. x # t = a @ p @ b) \<longleftrightarrow> (\<exists>b. x # t = p @ b) \<or> (\<exists>a b. t = a @ p @ b)"
    proof
      assume "\<exists>a b. x # t = a @ p @ b"
      then obtain a b where "x # t = a @ p @ b" by blast
      then show "(\<exists>b. x # t = p @ b) \<or> (\<exists>a b. t = a @ p @ b)" by (cases a) auto
    next
      assume "(\<exists>b. x # t = p @ b) \<or> (\<exists>a b. t = a @ p @ b)"
      then show "\<exists>a b. x # t = a @ p @ b" by (metis append_Cons append_Nil)
    qed
    moreover have "(\<exists>b. x # t = p @ b) \<longleftrightarrow> take (length p) (x # t) = p"
      by (metis append_eq_conv_conj append_take_drop_id)
    ultimately show ?thesis by simp
  qed
  show ?case unfolding find_sub.simps using Cons e by simp
qed simp

lemma strncmp_prefix:
  assumes "str_at m a s" and "str_at m b t"
  shows "strncmp m a b (length t) = 0 \<longleftrightarrow> take (length t) s = t"
  using strncmp_lemma [OF assms, of "length t"] by simp

lemma strstr_from_lemma:
  assumes "str_at m n p"
  shows "str_at m h t \<Longrightarrow> strstr_from m h n (length p) = Some (map_option (\<lambda>k. h + k) (find_sub p t))"
proof (induction t arbitrary: h)
  case Nil
  then show ?case by (subst strstr_from.simps) simp
next
  case (Cons x t)
  note s = strncmp_prefix [OF Cons.prems assms]
  have h: "m h \<noteq> 0" "str_at m (Suc h) t" using Cons.prems by simp_all
  show ?case
  proof (cases "take (length p) (x # t) = p")
    case True
    with h s show ?thesis by (subst strstr_from.simps) (simp del: take_Cons')
  next
    case False
    with h s Cons.IH [OF h(2)] show ?thesis
      by (subst strstr_from.simps) (simp add: option.map_comp comp_def del: take_Cons')
  qed
qed

lemma strstr_lemma:
  assumes "str_at m h t" and "str_at m n p"
  shows "strstr m h n = Some (if p = [] then Some h else map_option (\<lambda>k. h + k) (find_sub p t))"
  using strlen_lemma [OF assms(2)] strstr_from_lemma [OF assms(2,1)] by (simp add: strstr_def)

lemma strncpy_copy_lemma:
  assumes "str_at m s t" and "d + n \<le> s \<or> s + length t < d" and "i \<le> length t" and "i + k = n"
    and "m' = moved d s i m"
  shows "strncpy_copy d s i k m' = (min n (length t), moved d s (min n (length t)) m)"
  using assms(3-5)
proof (induction k arbitrary: i m')
  case 0
  then show ?case by (simp add: min_def)
next
  case (Suc k)
  have "s + i < d \<or> d + i \<le> s + i" using assms(2) Suc.prems by auto
  then have src: "m' (s + i) = m (s + i)" using assms(2) Suc.prems by (auto simp: moved_def)
  show ?case
  proof (cases "i < length t")
    case True
    then have "m (s + i) \<noteq> 0" using str_at_nth [OF assms(1) True] str_at_no_nul [OF assms(1)] by (metis nth_mem)
    moreover have "m'(d + i := m (s + i)) = moved d s (Suc i) m"
      using Suc.prems(3) by (auto simp: moved_def fun_eq_iff less_Suc_eq)
    ultimately show ?thesis using Suc.IH [of "Suc i"] Suc.prems True src by simp
  next
    case False
    then have "i = length t" using Suc.prems(1) by simp
    with src str_at_end [OF assms(1)] Suc.prems show ?thesis by (simp add: min_def)
  qed
qed

lemma strncpy_lemma:
  assumes "str_at m s t" and "d + n \<le> s \<or> s + length t < d"
  shows "cells_at (strncpy d s n m) d n = take n (t @ replicate n 0)"
    and "a < d \<or> d + n \<le> a \<Longrightarrow> strncpy d s n m a = m a"
proof -
  let ?i = "min n (length t)"
  have r: "strncpy d s n m = (\<lambda>a. if d + ?i \<le> a \<and> a < d + n then 0 else moved d s ?i m a)"
    using strncpy_copy_lemma [OF assms, of 0 n m] by (simp add: strncpy_def fill_up_eq)
  show "cells_at (strncpy d s n m) d n = take n (t @ replicate n 0)"
  proof (rule nth_equalityI)
    fix i assume "i < length (cells_at (strncpy d s n m) d n)"
    then have i: "i < n" by simp
    show "cells_at (strncpy d s n m) d n ! i = take n (t @ replicate n 0) ! i"
      using i str_at_nth [OF assms(1), of i] by (auto simp: r moved_def nth_append)
  qed simp
  show "strncpy d s n m a = m a" if "a < d \<or> d + n \<le> a"
    using that by (auto simp: r moved_def)
qed

subsection \<open>Characters and numbers\<close>

text \<open>The \<^verbatim>\<open>ctype.h\<close> functions take and return \<^verbatim>\<open>int\<close>.\<close>

definition toupper :: "int \<Rightarrow> int" where
  "toupper c = (if 97 \<le> c \<and> c \<le> 122 then c - 32 else c)"

definition tolower :: "int \<Rightarrow> int" where
  "tolower c = (if 65 \<le> c \<and> c \<le> 90 then c + 32 else c)"

definition isspace :: "int \<Rightarrow> bool" where
  "isspace c \<longleftrightarrow> c = 32 \<or> 9 \<le> c \<and> c \<le> 13"

definition isdigit :: "int \<Rightarrow> bool" where
  "isdigit c \<longleftrightarrow> 48 \<le> c \<and> c \<le> 57"

definition isalpha :: "int \<Rightarrow> bool" where
  "isalpha c \<longleftrightarrow> 97 \<le> c \<and> c \<le> 122 \<or> 65 \<le> c \<and> c \<le> 90"

definition isalnum :: "int \<Rightarrow> bool" where
  "isalnum c \<longleftrightarrow> isalpha c \<or> isdigit c"

definition isupper :: "int \<Rightarrow> bool" where
  "isupper c \<longleftrightarrow> 65 \<le> c \<and> c \<le> 90"

definition islower :: "int \<Rightarrow> bool" where
  "islower c \<longleftrightarrow> 97 \<le> c \<and> c \<le> 122"

definition isxdigit :: "int \<Rightarrow> bool" where
  "isxdigit c \<longleftrightarrow> isdigit c \<or> 97 \<le> c \<and> c \<le> 102 \<or> 65 \<le> c \<and> c \<le> 70"

fun strncasecmp :: "mem \<Rightarrow> nat \<Rightarrow> nat \<Rightarrow> nat \<Rightarrow> int" where
  "strncasecmp m a b 0 = 0"
| "strncasecmp m a b (Suc n) =
     (let x = tolower (uint (m a)); y = tolower (uint (m b)) in
      if x \<noteq> y \<or> x = 0 then x - y else strncasecmp m (Suc a) (Suc b) n)"

definition strcasecmp :: "mem \<Rightarrow> nat \<Rightarrow> nat \<Rightarrow> int" where
  "strcasecmp m a b = strncasecmp m a b (2 ^ 64 - 1)"

text \<open>
  Signed overflow is undefined in C: \<open>Some None\<close> is a digit string whose value does not fit
  an \<^verbatim>\<open>int\<close>; \<open>None\<close> a walk that never ends.
\<close>

partial_function (option) atoi_digits :: "mem \<Rightarrow> nat \<Rightarrow> int \<Rightarrow> int option option" where
  "atoi_digits m s v =
     (if isdigit (uint (m s))
      then (if 2 ^ 31 \<le> v * 10 + (uint (m s) - 48) then Some None
            else atoi_digits m (Suc s) (v * 10 + (uint (m s) - 48)))
      else Some (Some v))"

declare atoi_digits.simps [code]

partial_function (option) atoi_spaces :: "mem \<Rightarrow> nat \<Rightarrow> nat option" where
  "atoi_spaces m s = (if isspace (uint (m s)) then atoi_spaces m (Suc s) else Some s)"

declare atoi_spaces.simps [code]

definition atoi :: "mem \<Rightarrow> nat \<Rightarrow> int option option" where
  "atoi m s = Option.bind (atoi_spaces m s) (\<lambda>s.
     if m s = 45 then map_option (map_option uminus) (atoi_digits m (Suc s) 0)
     else if m s = 43 then atoi_digits m (Suc s) 0 else atoi_digits m s 0)"

lemma tolower_zero [simp]: "tolower (uint (x :: byte)) = 0 \<longleftrightarrow> x = 0"
proof -
  have u: "uint x = 0 \<longleftrightarrow> x = 0" by (simp add: word_uint_eq_iff)
  have "0 \<le> uint x" by simp
  then have "tolower (uint x) = 0 \<longleftrightarrow> uint x = 0" by (auto simp: tolower_def)
  then show ?thesis using u by simp
qed

lemma tolower_of_zero: "tolower 0 = 0"
  by (simp add: tolower_def)

lemma strncasecmp_lemma:
  "str_at m a s \<Longrightarrow> str_at m b t \<Longrightarrow>
   strncasecmp m a b n = 0 \<longleftrightarrow> map (\<lambda>x. tolower (uint x)) (take n s) = map (\<lambda>x. tolower (uint x)) (take n t)"
proof (induction n arbitrary: a b s t)
  case (Suc n)
  show ?case
  proof (cases s)
    case Nil
    with Suc.prems show ?thesis by (cases t) (auto simp: Let_def tolower_of_zero eq_commute [of 0])
  next
    case s: (Cons x s')
    show ?thesis
    proof (cases t)
      case Nil
      with Suc.prems s show ?thesis by (auto simp: Let_def tolower_of_zero eq_commute [of 0])
    next
      case (Cons y t')
      with Suc s show ?thesis by (auto simp: Let_def)
    qed
  qed
qed simp

definition dec_val :: "int \<Rightarrow> bytes \<Rightarrow> int" where
  "dec_val v ds = foldl (\<lambda>v d. v * 10 + (uint d - 48)) v ds"

definition all_digits :: "bytes \<Rightarrow> bool" where
  "all_digits ds \<longleftrightarrow> list_all (\<lambda>d. isdigit (uint d)) ds"

lemma dec_val_ge: "all_digits ds \<Longrightarrow> 0 \<le> v \<Longrightarrow> v \<le> dec_val v ds"
proof (induction ds arbitrary: v)
  case (Cons d ds)
  then have d: "0 \<le> uint d - 48" by (simp add: all_digits_def isdigit_def)
  have "v * 10 + (uint d - 48) \<le> dec_val (v * 10 + (uint d - 48)) ds"
    using Cons d by (simp add: all_digits_def)
  moreover have "dec_val v (d # ds) = dec_val (v * 10 + (uint d - 48)) ds" by (simp add: dec_val_def)
  ultimately show ?case using d Cons.prems(2) by linarith
qed (simp add: dec_val_def)

lemma atoi_digits_lemma:
  "cells_at m s (length ds) = ds \<Longrightarrow> all_digits ds \<Longrightarrow> \<not> isdigit (uint (m (s + length ds))) \<Longrightarrow> 0 \<le> v \<Longrightarrow>
   v < 2 ^ 31 \<Longrightarrow> atoi_digits m s v = Some (if dec_val v ds < 2 ^ 31 then Some (dec_val v ds) else None)"
proof (induction ds arbitrary: s v)
  case Nil
  then show ?case by (subst atoi_digits.simps) (simp add: dec_val_def)
next
  case (Cons d ds)
  let ?v = "v * 10 + (uint d - 48)"
  have d: "isdigit (uint d)" "m s = d" "0 \<le> uint d - 48" and ds: "cells_at m (Suc s) (length ds) = ds" "all_digits ds"
    using Cons.prems(1,2) by (simp_all add: cells_at_Suc all_digits_def isdigit_def)
  have e: "dec_val v (d # ds) = dec_val ?v ds" by (simp add: dec_val_def)
  show ?case
  proof (cases "?v < 2 ^ 31")
    case True
    with Cons.IH [OF ds, of ?v] Cons.prems d show ?thesis
      by (subst atoi_digits.simps) (simp add: e)
  next
    case False
    with dec_val_ge [OF ds(2), of ?v] Cons.prems d show ?thesis
      by (subst atoi_digits.simps) (simp add: e)
  qed
qed

lemma atoi_spaces_lemma:
  "cells_at m s (length ws) = ws \<Longrightarrow> list_all (\<lambda>x. isspace (uint x)) ws \<Longrightarrow> \<not> isspace (uint (m (s + length ws))) \<Longrightarrow>
   atoi_spaces m s = Some (s + length ws)"
proof (induction ws arbitrary: s)
  case Nil
  then show ?case by (subst atoi_spaces.simps) simp
next
  case (Cons x ws)
  then show ?case by (subst atoi_spaces.simps) (simp add: cells_at_Suc)
qed

lemma dec_val_append: "dec_val v (a @ b) = dec_val (dec_val v a) b"
  by (simp add: dec_val_def)

subsection \<open>Properties\<close>

text \<open>\<^verbatim>\<open>memmove\<close> copies correctly for every overlap of the two blocks: the destination takes what the
  source held before the call and nothing else changes; it returns for every length up to the
  guard.\<close>
theorem memmove_overlap:
  assumes "n \<le> RT_INSANE_LEN"
  shows "\<exists>m'. memmove d s n m = Some m' \<and> cells_at m' d n = cells_at m s n \<and>
    (\<forall>a. a < d \<or> d + n \<le> a \<longrightarrow> m' a = m a)"
proof (intro exI [of _ "moved d s n m"] conjI allI impI)
  fix a assume "a < d \<or> d + n \<le> a"
  then show "moved d s n m a = m a" by (auto simp: moved_def)
qed (simp_all add: memmove_lemma [OF assms])

theorem memmove_overlap_witness:
  "\<exists>m'. memmove 3 1 4 (\<lambda>a. of_nat a) = Some m' \<and> cells_at m' 3 4 = [1, 2, 3, 4]"
  using memmove_overlap [of 4 3 1 "\<lambda>a. of_nat a"] by (auto simp: RT_INSANE_LEN_def cells_at_def upt_rec)

text \<open>The string comparisons: on two terminated strings \<^verbatim>\<open>strcmp\<close> returns, with zero exactly for equal
  strings and a negative value exactly when the first comes before the second in the byte order,
  and \<^verbatim>\<open>strncmp\<close> is zero exactly when the first \<open>n\<close> characters agree.\<close>
theorem strcmp_order:
  assumes "str_at m a s" and "str_at m b t"
  shows "(\<exists>r. strcmp m a b = Some r \<and> (r = 0 \<longleftrightarrow> s = t) \<and> (r < 0 \<longleftrightarrow> ord_class.lexordp s t)) \<and>
    (strncmp m a b n = 0 \<longleftrightarrow> take n s = take n t)"
  using strcmp_lemma [OF assms] strncmp_lemma [OF assms] by blast

definition mem_of :: "bytes \<Rightarrow> mem" where
  "mem_of bs = (\<lambda>a. if a < length bs then bs ! a else 0)"

theorem strcmp_order_witness:
  "\<exists>r. strcmp (mem_of [97, 98, 0, 97, 99, 0]) 0 3 = Some r \<and> r < 0"
proof -
  have "str_at (mem_of [97, 98, 0, 97, 99, 0]) 0 [97, 98]" "str_at (mem_of [97, 98, 0, 97, 99, 0]) 3 [97, 99]"
    by (simp_all add: mem_of_def)
  from strcmp_order [OF this, of 0] show ?thesis by auto
qed

text \<open>\<^verbatim>\<open>strstr\<close> returns on terminated strings; it finds the pattern exactly when it occurs, and the
  address is that of its first occurrence.\<close>
theorem strstr_first:
  assumes "str_at m h t" and "str_at m n p" and "p \<noteq> []"
  shows "\<exists>r. strstr m h n = Some r \<and> (r = None \<longleftrightarrow> (\<nexists>a b. t = a @ p @ b)) \<and>
    (\<forall>x. r = Some x \<longrightarrow> (\<exists>k. x = h + k \<and> take (length p) (drop k t) = p \<and> (\<forall>j<k. take (length p) (drop j t) \<noteq> p)))"
  using strstr_lemma [OF assms(1,2)] assms(3) find_sub_None [OF assms(3), of t] find_sub_Some [of p t]
  by (cases "find_sub p t") auto

theorem strstr_first_witness:
  "\<exists>r. strstr (mem_of [97, 98, 99, 0, 98, 99, 0]) 0 4 = Some r \<and> r \<noteq> None"
proof -
  have "str_at (mem_of [97, 98, 99, 0, 98, 99, 0]) 0 [97, 98, 99]" "str_at (mem_of [97, 98, 99, 0, 98, 99, 0]) 4 [98, 99]"
    by (simp_all add: mem_of_def)
  from strstr_first [OF this] have "\<exists>r. strstr (mem_of [97, 98, 99, 0, 98, 99, 0]) 0 4 = Some r \<and>
      (r = None \<longleftrightarrow> (\<nexists>a b. [97, 98, 99 :: byte] = a @ [98, 99] @ b))" by blast
  moreover have "\<exists>a b. [97, 98, 99 :: byte] = a @ [98, 99] @ b" by (rule exI [of _ "[97]"]) simp
  ultimately show ?thesis by blast
qed

text \<open>Building strings: \<^verbatim>\<open>strcat\<close> leaves the concatenation at the destination when the source does not
  overlap it, and \<^verbatim>\<open>strncpy\<close> leaves exactly \<open>n\<close> bytes, the string cut or padded with zeros; neither
  writes outside.\<close>
theorem strcat_strncpy:
  assumes "str_at m d x" and "str_at m s t" and "d + length x + n \<le> s \<or> s + length t < d"
  shows "(\<exists>m'. strcat d s m = Some m' \<and> str_at m' d (x @ t) \<and> (\<forall>a. a < d \<or> d + length x + length t < a \<longrightarrow> m' a = m a)) \<and>
    cells_at (strncpy d s n m) d n = take n (t @ replicate n 0) \<and> (\<forall>a. a < d \<or> d + n \<le> a \<longrightarrow> strncpy d s n m a = m a)"
proof -
  have 1: "d + length x \<le> s \<or> s + length t < d" and 2: "d + n \<le> s \<or> s + length t < d" using assms(3) by auto
  show ?thesis using strcat_lemma [OF assms(1,2) 1] strncpy_lemma [OF assms(2) 2] by blast
qed

theorem strcat_strncpy_witness:
  "\<exists>m'. strcat 0 8 (mem_of [97, 0, 0, 0, 0, 0, 0, 0, 98, 99, 0]) = Some m' \<and> str_at m' 0 [97, 98, 99]"
proof -
  have "str_at (mem_of [97, 0, 0, 0, 0, 0, 0, 0, 98, 99, 0]) 0 [97]"
    "str_at (mem_of [97, 0, 0, 0, 0, 0, 0, 0, 98, 99, 0]) 8 [98, 99]"
    by (simp_all add: mem_of_def)
  from strcat_strncpy [OF this, of 3] show ?thesis by auto
qed

text \<open>\<^verbatim>\<open>atoi\<close> on leading blanks, a sign and digits up to a non-digit: it returns the decimal value
  while that fits an \<^verbatim>\<open>int\<close>; a longer number is undefined (signed overflow), not rejected.\<close>
theorem atoi_value:
  assumes "cells_at m s (length ws + (1 + length ds)) = ws @ [sg] @ ds" and "list_all (\<lambda>x. isspace (uint x)) ws"
    and "sg = 45 \<or> sg = 43" and "all_digits ds" and "\<not> isdigit (uint (m (s + length ws + 1 + length ds)))"
  shows "atoi m s = Some (if dec_val 0 ds < 2 ^ 31 then Some (if sg = 45 then - dec_val 0 ds else dec_val 0 ds) else None)"
proof -
  have w: "cells_at m s (length ws) = ws" and g: "m (s + length ws) = sg" and
    d: "cells_at m (Suc (s + length ws)) (length ds) = ds"
    using assms(1) unfolding cells_at_add by (simp_all add: cells_at_Suc)
  have "\<not> isspace (uint (m (s + length ws)))" using assms(3) g by (auto simp: isspace_def)
  from atoi_spaces_lemma [OF w assms(2) this]
  have "atoi_spaces m s = Some (s + length ws)" .
  moreover have "atoi_digits m (Suc (s + length ws)) 0 = Some (if dec_val 0 ds < 2 ^ 31 then Some (dec_val 0 ds) else None)"
    using atoi_digits_lemma [OF d assms(4)] assms(5) by simp
  ultimately show ?thesis using assms(3) g by (auto simp: atoi_def)
qed

theorem atoi_value_witness: "atoi (mem_of [32, 45, 50, 50, 0]) 0 = Some (Some (- 22))"
  by (subst atoi_value [of _ _ "[32]" "[50, 50]" 45])
    (simp_all add: cells_at_def upt_rec mem_of_def isspace_def isdigit_def all_digits_def dec_val_def)

end
