(* ===== verification/Runtime.thy ===== *)
theory Runtime
  imports Clock Libc
begin

text \<open>
  The rest of \<^verbatim>\<open>uefirt.c\<close>: the pool allocator and the wolfCrypt heap hooks over byte memory,
  the tiny \<^verbatim>\<open>Print\<close>, the entropy source and the stack scan. The state is a pair of the memory
  and the outside world; addresses are 64-bit words.
\<close>

subsection \<open>Words in memory\<close>

text \<open>Eight bytes, least significant first, as the machine stores a \<^verbatim>\<open>UINTN\<close> or a pointer.\<close>

definition store64 :: "nat \<Rightarrow> u64 \<Rightarrow> mem \<Rightarrow> mem" where
  "store64 a v m = (\<lambda>x. if a \<le> x \<and> x < a + 8 then ucast (drop_bit (8 * (x - a)) v) else m x)"

definition load64 :: "mem \<Rightarrow> nat \<Rightarrow> u64" where
  "load64 m a = foldr (\<lambda>b v. ucast b OR push_bit 8 v) (cells_at m a 8) 0"

lemma load64_cong: "(\<And>i. i < 8 \<Longrightarrow> m (a + i) = m' (b + i)) \<Longrightarrow> load64 m a = load64 m' b"
  unfolding load64_def using cells_at_cong [of 8 m a m' b] by simp

lemma byte_split: "(ucast (ucast (v :: u64) :: byte) :: u64) OR push_bit 8 (drop_bit 8 v) = v"
proof (rule bit_word_eqI)
  fix n assume "n < LENGTH(64)"
  then show "bit ((ucast (ucast v :: byte) :: u64) OR push_bit 8 (drop_bit 8 v)) n = bit v n"
    by (cases "n < 8") (simp_all add: bit_simps not_less)
qed

lemma load64_store64 [simp]: "load64 (store64 a v m) a = v"
proof -
  have c: "cells_at (store64 a v m) a 8 = map (\<lambda>i. ucast (drop_bit (8 * i) v)) [0..<8]"
    by (simp add: cells_at_def store64_def)
  have s: "ucast (ucast (drop_bit k v) :: byte) OR push_bit 8 (drop_bit (k + 8) v) = drop_bit k v" for k
    using byte_split [of "drop_bit k v"] by (simp add: drop_bit_drop_bit add.commute)
  have e: "drop_bit 64 v = 0" by (rule bit_word_eqI) (simp add: bit_simps)
  show ?thesis
    using s [of 0] s [of 8] s [of 16] s [of 24] s [of 32] s [of 40] s [of 48] s [of 56]
    by (simp add: load64_def c upt_rec e)
qed

lemma store64_other: "x < a \<or> a + 8 \<le> x \<Longrightarrow> store64 a v m x = m x"
  by (auto simp: store64_def)

lemma load64_store64_other: "b + 8 \<le> a \<or> a + 8 \<le> b \<Longrightarrow> load64 (store64 a v m) b = load64 m b"
  by (rule load64_cong) (auto intro!: store64_other)

subsection \<open>The pool\<close>

definition RtAlloc_mem :: "('w, 'z) pool_firmware_scheme \<Rightarrow> nat \<Rightarrow> mem \<times> 'w \<Rightarrow> u64 \<times> mem \<times> 'w" where
  "RtAlloc_mem fw n s = (let (m, w) = s; sz = (if n = 0 then 1 else n) in
     case AllocatePool fw (sz + 32) w of
       (None, w') \<Rightarrow> (0, m, w')
     | (Some raw, w') \<Rightarrow>
         if raw = 0 then (0, m, w')
         else (let p = align_raw raw in (p, store64 (unat p - 8) raw m, w')))"

definition RtAllocZero :: "('w, 'z) pool_firmware_scheme \<Rightarrow> nat \<Rightarrow> mem \<times> 'w \<Rightarrow> (u64 \<times> mem \<times> 'w) option" where
  "RtAllocZero fw n s = (let (p, m, w) = RtAlloc_mem fw n s in
     if p \<noteq> 0 then map_option (\<lambda>m. (p, m, w)) (memset (unat p) 0 n m) else Some (p, m, w))"

definition RtFree :: "('w, 'z) pool_firmware_scheme \<Rightarrow> u64 \<Rightarrow> mem \<times> 'w \<Rightarrow> mem \<times> 'w" where
  "RtFree fw p s = (let (m, w) = s in
     if p \<noteq> 0 then (m, FreePool fw (load64 m (unat p - 8)) w) else (m, w))"

definition XMALLOC :: "('w, 'z) pool_firmware_scheme \<Rightarrow> nat \<Rightarrow> mem \<times> 'w \<Rightarrow> u64 \<times> mem \<times> 'w" where
  "XMALLOC fw n s = (let (p, m, w) = RtAlloc_mem fw (n + 16) s in
     if p = 0 then (0, m, w) else (p + 16, store64 (unat p) (of_nat n) m, w))"

definition XFREE :: "('w, 'z) pool_firmware_scheme \<Rightarrow> u64 \<Rightarrow> mem \<times> 'w \<Rightarrow> mem \<times> 'w" where
  "XFREE fw p s = (if p \<noteq> 0 then RtFree fw (p - 16) s else s)"

definition XREALLOC :: "('w, 'z) pool_firmware_scheme \<Rightarrow> u64 \<Rightarrow> nat \<Rightarrow> mem \<times> 'w \<Rightarrow> (u64 \<times> mem \<times> 'w) option" where
  "XREALLOC fw p n s =
     (if p = 0 then Some (XMALLOC fw n s)
      else (let old = unat (load64 (fst s) (unat p - 16)); (q, m, w) = XMALLOC fw n s in
        if q = 0 then Some (0, m, w)
        else map_option (\<lambda>m. let (m, w) = XFREE fw p (m, w) in (q, m, w))
               (memcpy (unat q) (unat p) (if old < n then old else n) m)))"

subsection \<open>The pool: lemmas\<close>

text \<open>The memory-level allocator hands out the same blocks as the one the connection uses.\<close>

lemma RtAlloc_mem_RtAlloc:
  "(case RtAlloc_mem fw n (m, w) of (p, m', w') \<Rightarrow> (p, w')) = RtAlloc fw n w"
  by (simp add: RtAlloc_mem_def RtAlloc_def Let_def split: prod.split option.split)

text \<open>
  \<open>owns m p n raw\<close>: the heap block \<open>p\<close> of \<open>n\<close> bytes carries its header, the saved pool pointer
  \<open>raw\<close> in the first word and its size in the second. \<open>pool_room\<close> states what the
  specification of \<^verbatim>\<open>AllocatePool\<close> promises of a block it grants.
\<close>

definition owns :: "mem \<Rightarrow> u64 \<Rightarrow> nat \<Rightarrow> u64 \<Rightarrow> bool" where
  "owns m p n raw \<longleftrightarrow> 24 \<le> unat p \<and> load64 m (unat p - 16) = of_nat n \<and> load64 m (unat p - 24) = raw"

definition pool_room :: "u64 \<Rightarrow> nat \<Rightarrow> bool" where
  "pool_room raw n \<longleftrightarrow> raw \<noteq> 0 \<and> unat raw + n < 2 ^ 64"

definition same_outside :: "nat \<Rightarrow> nat \<Rightarrow> mem \<Rightarrow> mem \<Rightarrow> bool" where
  "same_outside a b m m' \<longleftrightarrow> (\<forall>x. x < a \<or> b \<le> x \<longrightarrow> m' x = m x)"

lemma unat_and_15: "unat (w AND 15 :: u64) = unat w mod 16"
proof -
  have w: "w AND 15 = take_bit 4 w" by (simp add: take_bit_eq_mask mask_eq_exp_minus_1)
  show ?thesis unfolding w by (simp only: unsigned_take_bit_eq) (simp add: take_bit_eq_mod)
qed

lemma XMALLOC_lemma:
  assumes "AllocatePool fw (n + 48) w = (Some raw, w')" and "pool_room raw (n + 48)"
  shows "\<exists>p m'. XMALLOC fw n (m, w) = (p, m', w') \<and> p \<noteq> 0 \<and> p AND 15 = 0 \<and> owns m' p n raw \<and>
    unat raw + 32 \<le> unat p \<and> unat p + n \<le> unat raw + (n + 48) \<and> same_outside (unat p - 24) (unat p - 8) m m'"
proof -
  let ?r = "align_raw raw"
  have r: "raw \<noteq> 0" "unat raw + (n + 48) < 2 ^ 64" using assms(2) by (simp_all add: pool_room_def)
  have "unat raw + 32 \<le> 2 ^ 64" using r(2) by simp
  note a = align_raw_bounds [OF this]
  have p: "unat (?r + 16) = unat ?r + 16" using a(3) r(2) by (simp add: unat_word_ariths)
  have r0: "?r \<noteq> 0" using a(2) by (metis add_is_0 le_zero_eq unat_0 zero_neq_numeral)
  let ?m = "store64 (unat ?r) (of_nat n) (store64 (unat ?r - 8) raw m)"
  have x: "XMALLOC fw n (m, w) = (?r + 16, ?m, w')"
    using assms(1) r(1) r0 by (simp add: XMALLOC_def RtAlloc_mem_def Let_def add.commute)
  have l: "load64 ?m (unat ?r - 8) = raw" using a(2) by (simp add: load64_store64_other)
  have "owns ?m (?r + 16) n raw" using a(2) p l by (simp add: owns_def)
  moreover have "same_outside (unat (?r + 16) - 24) (unat (?r + 16) - 8) m ?m"
    using a(2) p by (auto simp: same_outside_def store64_def)
  moreover have "(?r + 16) AND 15 = 0"
  proof -
    have "unat ?r mod 16 = 0" using a(1) unat_and_15 [of ?r] by simp
    then have "unat ((?r + 16) AND 15) = 0" unfolding unat_and_15 p by simp
    then show ?thesis by (simp add: unat_eq_0)
  qed
  moreover have "?r + 16 \<noteq> 0" using p by (metis add_is_0 unat_0 zero_neq_numeral)
  ultimately show ?thesis using x p a(2,3) by (intro exI [of _ "?r + 16"] exI [of _ ?m]) simp
qed

lemma XFREE_lemma:
  assumes "owns m p n raw"
  shows "XFREE fw p (m, w) = (m, FreePool fw raw w)"
proof -
  have p: "24 \<le> unat p" "load64 m (unat p - 24) = raw" using assms by (simp_all add: owns_def)
  have s: "unat (p - 16) = unat p - 16" using p(1) by (simp add: unat_sub_if')
  have "p \<noteq> 0" "p - 16 \<noteq> 0" using p(1) s by (auto simp: unat_eq_0 [symmetric])
  then show ?thesis using p s by (simp add: XFREE_def RtFree_def)
qed

lemma owns_same_outside:
  assumes "owns m p n raw" and "same_outside a b m m'" and "unat p \<le> a \<or> b \<le> unat p - 24"
  shows "owns m' p n raw"
proof -
  have "m' (x + i) = m (x + i)" if "i < 8" "x \<in> {unat p - 16, unat p - 24}" for x i
    using assms that by (auto simp: same_outside_def owns_def)
  then have "load64 m' x = load64 m x" if "x \<in> {unat p - 16, unat p - 24}" for x
    using that by (intro load64_cong) blast
  then show ?thesis using assms(1) by (simp add: owns_def)
qed

lemma XREALLOC_lemma:
  assumes al: "AllocatePool fw (n + 48) w = (Some raw', w')" and room: "pool_room raw' (n + 48)"
    and own: "owns m p old raw" and size: "old \<le> RT_INSANE_LEN"
    and fresh: "unat p + old \<le> unat raw' \<or> unat raw' + (n + 48) \<le> unat p - 24"
  shows "\<exists>q m'. XREALLOC fw p n (m, w) = Some (q, m', FreePool fw raw w') \<and> q AND 15 = 0 \<and> owns m' q n raw' \<and>
    cells_at m' (unat q) (min old n) = cells_at m (unat p) (min old n)"
proof -
  obtain q m1 where x: "XMALLOC fw n (m, w) = (q, m1, w')" and q: "q \<noteq> 0" "q AND 15 = 0" "owns m1 q n raw'"
    "unat raw' + 32 \<le> unat q" "unat q + n \<le> unat raw' + (n + 48)" and
    out: "same_outside (unat q - 24) (unat q - 8) m m1"
    using XMALLOC_lemma [OF al room, of m] by auto
  let ?k = "min old n"
  have p0: "p \<noteq> 0" "24 \<le> unat p" using own by (auto simp: owns_def)
  have old: "unat (load64 m (unat p - 16)) = old"
    using own size by (simp add: owns_def RT_INSANE_LEN_def unat_of_nat take_bit_nat_eq_self_iff)
  have dis: "unat q + ?k \<le> unat p - 24 \<or> unat p + old \<le> unat q - 24" using fresh q(4,5) by auto
  let ?m = "moved (unat q) (unat p) ?k m1"
  have k: "(if old < n then old else n) = ?k" by simp
  have cp: "memcpy (unat q) (unat p) ?k m1 = Some ?m"
    using dis size by (intro memcpy_lemma) auto
  have mv: "same_outside (unat q) (unat q + ?k) m1 ?m" by (auto simp: same_outside_def moved_def)
  have "owns m1 p old raw" by (rule owns_same_outside [OF own out]) (use dis in auto)
  then have "owns ?m p old raw" by (rule owns_same_outside [OF _ mv]) (use dis in auto)
  from XFREE_lemma [OF this] have "XREALLOC fw p n (m, w) = Some (q, ?m, FreePool fw raw w')"
    using p0 x q(1) old cp by (simp add: XREALLOC_def k Let_def)
  moreover have "owns ?m q n raw'" by (rule owns_same_outside [OF q(3) mv]) simp
  moreover have "cells_at ?m (unat q) ?k = cells_at m (unat p) ?k"
  proof -
    have "cells_at m1 (unat p) ?k = cells_at m (unat p) ?k"
      by (rule cells_at_cong) (use out dis in \<open>auto simp: same_outside_def\<close>)
    then show ?thesis by simp
  qed
  ultimately show ?thesis using q(2) by blast
qed

subsection \<open>Printing\<close>

text \<open>The cells \<^verbatim>\<open>Print\<close> may fill before its checks stop it: \<^verbatim>\<open>end\<close> is \<^verbatim>\<open>buf + 510\<close> of 512.\<close>

definition PRINT_END :: nat where "PRINT_END = 510"
definition PRINT_BUF :: nat where "PRINT_BUF = 512"

datatype print_arg = AInt int | AUns u32 | A64 u64 | AChar int | AStr bytes | ANull

definition digit_char :: "nat \<Rightarrow> u16" where
  "digit_char d = of_nat (if d < 10 then 48 + d else 97 + d - 10)"

text \<open>The digits in the order the \<^verbatim>\<open>do\<close> loop puts them into \<^verbatim>\<open>tmp\<close>; the callers pass base 10 or 16.\<close>

function num_rev :: "nat \<Rightarrow> nat \<Rightarrow> nat list" where
  "num_rev base v = v mod base # (if base < 2 \<or> v div base = 0 then [] else num_rev base (v div base))"
  by pat_completeness auto
termination
proof (relation "measure snd")
  fix base v :: nat
  assume "\<not> (base < 2 \<or> v div base = 0)"
  then have "v \<noteq> 0" "1 < base" by (auto intro!: Nat.gr0I)
  then show "((base, v div base), base, v) \<in> measure snd" by (simp add: div_less_dividend)
qed simp

declare num_rev.simps [simp del]

text \<open>The loops that write while \<^verbatim>\<open>w < end\<close>.\<close>

definition put_cells :: "u16 list \<Rightarrow> u16 list \<Rightarrow> u16 list" where
  "put_cells out cs = out @ take (PRINT_END - length out) cs"

definition PutNum :: "u16 list \<Rightarrow> nat \<Rightarrow> nat \<Rightarrow> bool \<Rightarrow> u16 list" where
  "PutNum out v base neg =
     put_cells (put_cells out (if neg then [45] else [])) (map digit_char (rev (num_rev base v)))"

text \<open>
  One conversion: the character after the percent sign, the format behind it, the arguments and
  the cells written. A missing or mistyped argument has no defined meaning.
\<close>

definition print_conv :: "byte \<Rightarrow> bytes \<Rightarrow> print_arg list \<Rightarrow> u16 list \<Rightarrow> (bytes \<times> print_arg list \<times> u16 list) option" where
  "print_conv c fmt args out =
     (if c = 100 then (case args of AInt v # args \<Rightarrow> Some (fmt, args, PutNum out (nat \<bar>v\<bar>) 10 (v < 0)) | _ \<Rightarrow> None)
      else if c = 117 then (case args of AUns v # args \<Rightarrow> Some (fmt, args, PutNum out (unat v) 10 False) | _ \<Rightarrow> None)
      else if c = 120 then (case args of AUns v # args \<Rightarrow> Some (fmt, args, PutNum out (unat v) 16 False) | _ \<Rightarrow> None)
      else if c = 108 then
        (case fmt of
           [] \<Rightarrow> Some (fmt, args, out)
         | d # fmt' \<Rightarrow>
             if d = 120 then (case args of A64 v # args \<Rightarrow> Some (fmt', args, PutNum out (unat v) 16 False) | _ \<Rightarrow> None)
             else if d = 117 then (case args of A64 v # args \<Rightarrow> Some (fmt', args, PutNum out (unat v) 10 False) | _ \<Rightarrow> None)
             else Some (fmt, args, out))
      else if c = 114 then (case args of A64 v # args \<Rightarrow> Some (fmt, args, PutNum out (unat v) 16 False) | _ \<Rightarrow> None)
      else if c = 99 then (case args of AChar v # args \<Rightarrow> Some (fmt, args, out @ [of_int v]) | _ \<Rightarrow> None)
      else if c = 115 then
        (case args of
           AStr s # args \<Rightarrow> Some (fmt, args, put_cells out (map ucast s))
         | ANull # args \<Rightarrow> Some (fmt, args, put_cells out (map ucast (bytes_of ''(null)'')))
         | _ \<Rightarrow> None)
      else if c = 37 then Some (fmt, args, out @ [37])
      else Some (fmt, args, (let out = out @ [37] in if length out < PRINT_END then out @ [ucast c] else out)))"

lemma print_conv_shrinks: "print_conv c fmt args out = Some (fmt', args', out') \<Longrightarrow> length fmt' \<le> length fmt"
  by (auto simp: print_conv_def split: if_splits list.splits print_arg.splits)

text \<open>
  The main loop; the result is what precedes the terminating zero. A percent sign at the end of
  the format makes the code step over the terminator, which has no defined meaning either.
\<close>

function print_loop :: "bytes \<Rightarrow> print_arg list \<Rightarrow> u16 list \<Rightarrow> u16 list option" where
  "print_loop [] args out = Some out"
| "print_loop (c # fmt) args out =
     (if \<not> length out < PRINT_END then Some out
      else if c \<noteq> 37 then print_loop fmt args ((if c = 10 then out @ [13] else out) @ [ucast c])
      else (case fmt of
              [] \<Rightarrow> None
            | d # fmt' \<Rightarrow>
                (case print_conv d fmt' args out of
                   None \<Rightarrow> None
                 | Some (f, a, out) \<Rightarrow> print_loop f a out)))"
  by pat_completeness auto
termination
  by (relation "measure (\<lambda>(f, _). length f)") (auto dest: print_conv_shrinks)

text \<open>\<^verbatim>\<open>Print\<close> itself: nothing without a console, else the cells handed to \<^verbatim>\<open>OutputString\<close>.\<close>

definition Print :: "bool \<Rightarrow> bytes \<Rightarrow> print_arg list \<Rightarrow> u16 list option" where
  "Print have_console fmt args = (if \<not> have_console then Some [] else map_option (\<lambda>out. out @ [0]) (print_loop fmt args []))"

lemma put_cells_le: "length out \<le> PRINT_END \<Longrightarrow> length (put_cells out cs) \<le> PRINT_END"
  by (simp add: put_cells_def)

lemma put_cells_prefix: "length out \<le> PRINT_END \<Longrightarrow> length out \<le> length (put_cells out cs)"
  by (simp add: put_cells_def)

lemma PutNum_le: "length out \<le> PRINT_END \<Longrightarrow> length (PutNum out v b neg) \<le> PRINT_END"
  by (simp add: PutNum_def put_cells_le)

lemma print_conv_le:
  "print_conv c fmt args out = Some (f, a, out') \<Longrightarrow> length out < PRINT_END \<Longrightarrow> length out' \<le> PRINT_END"
  using PutNum_le [of out] put_cells_le [of out]
  by (auto simp: print_conv_def Let_def split: if_splits list.splits print_arg.splits)

lemma print_loop_le:
  "print_loop fmt args out = Some r \<Longrightarrow> length out \<le> PRINT_END + 1 \<Longrightarrow> length r \<le> PRINT_END + 1"
proof (induction fmt args out arbitrary: r rule: print_loop.induct)
  case (2 c fmt args out)
  show ?case
  proof (cases "length out < PRINT_END \<and> c = 37")
    case True
    then obtain d fmt' f a o1 where c: "fmt = d # fmt'" "print_conv d fmt' args out = Some (f, a, o1)"
      "print_loop f a o1 = Some r" using 2(3) by (auto split: list.splits option.splits)
    have "length o1 \<le> PRINT_END + 1" using print_conv_le [OF c(2)] True by simp
    from 2(2) [OF _ _ c(1,2) refl refl c(3) this] True show ?thesis by simp
  next
    case False
    with 2 show ?thesis by (auto split: if_splits)
  qed
qed simp

definition num_val :: "nat \<Rightarrow> nat list \<Rightarrow> nat" where
  "num_val base ds = foldr (\<lambda>d v. d + base * v) ds 0"

lemma num_rev_lemma: "2 \<le> base \<Longrightarrow> num_val base (num_rev base v) = v \<and> (\<forall>d\<in>set (num_rev base v). d < base)"
proof (induction base v rule: num_rev.induct)
  case (1 base v)
  then have ih: "v div base \<noteq> 0 \<Longrightarrow> num_val base (num_rev base (v div base)) = v div base \<and>
      (\<forall>d\<in>set (num_rev base (v div base)). d < base)" by simp
  have m: "v mod base + base * (v div base) = v" by simp
  show ?case
  proof (cases "v div base = 0")
    case True
    then have "num_rev base v = [v mod base]" by (subst num_rev.simps) simp
    moreover have "v mod base < base" using 1(2) by simp
    ultimately show ?thesis using True m by (simp add: num_val_def)
  next
    case False
    then have "num_rev base v = v mod base # num_rev base (v div base)"
      using 1 by (subst num_rev.simps) simp
    with ih [OF False] 1 m show ?thesis by (simp add: num_val_def)
  qed
qed

lemma num_rev_length: "2 \<le> base \<Longrightarrow> v < base ^ Suc k \<Longrightarrow> length (num_rev base v) \<le> Suc k"
proof (induction k arbitrary: v)
  case 0
  then show ?case by (subst num_rev.simps) simp
next
  case (Suc k)
  have "v div base < base ^ Suc k"
    using Suc.prems by (simp add: less_mult_imp_div_less mult.commute)
  with Suc show ?case by (subst num_rev.simps) auto
qed

subsection \<open>The stack scan\<close>

text \<open>
  The globals of the program and how \<^verbatim>\<open>RtInit\<close> sets them. Pointers are numbers; \<open>members\<close> are the fields
  \<^verbatim>\<open>ConOut\<close>, \<^verbatim>\<open>BootServices\<close> and \<^verbatim>\<open>RuntimeServices\<close> of the table, \<open>LoadedImage\<close> is what \<^verbatim>\<open>HandleProtocol\<close> finds of
  the loaded image.
\<close>

record rt_globals =
  gST :: nat
  gBS :: nat
  gRT :: nat
  gImageHandle :: nat
  mLocalOut :: nat
  mImageBase :: u64
  mImageSize :: u64

definition rt_zero :: rt_globals where
  "rt_zero = \<lparr>gST = 0, gBS = 0, gRT = 0, gImageHandle = 0, mLocalOut = 0, mImageBase = 0, mImageSize = 0\<rparr>"

definition RtInit :: "nat \<Rightarrow> nat \<Rightarrow> nat \<times> nat \<times> nat \<Rightarrow> (nat \<Rightarrow> (u64 \<times> u64) option) \<Rightarrow> rt_globals \<Rightarrow> rt_globals" where
  "RtInit ImageHandle SystemTable members LoadedImage g =
     (case members of (con_out, boot, runtime) \<Rightarrow>
        let g = g\<lparr>gST := SystemTable, gBS := boot, gRT := runtime, gImageHandle := ImageHandle, mLocalOut := con_out\<rparr>
        in case LoadedImage ImageHandle of None \<Rightarrow> g | Some (base, sz) \<Rightarrow> g\<lparr>mImageBase := base, mImageSize := sz\<rparr>)"

text \<open>The offsets \<^verbatim>\<open>RtBacktrace\<close> prints before it halts: at most 40 of the first 6000 stack words.\<close>

fun scan_stack :: "u64 \<Rightarrow> u64 \<Rightarrow> (nat \<Rightarrow> u64) \<Rightarrow> nat \<Rightarrow> nat \<Rightarrow> nat \<Rightarrow> u64 list" where
  "scan_stack base sz p i shown 0 = []"
| "scan_stack base sz p i shown (Suc n) =
     (if \<not> shown < 40 then []
      else if base + 0x1000 \<le> p i \<and> p i < base + sz
      then (p i - base) # scan_stack base sz p (Suc i) (Suc shown) n
      else scan_stack base sz p (Suc i) shown n)"

definition backtrace_offsets :: "u64 \<Rightarrow> u64 \<Rightarrow> (nat \<Rightarrow> u64) \<Rightarrow> u64 list" where
  "backtrace_offsets base sz p = scan_stack base sz p 0 0 6000"

text \<open>
  The report on the local screen, \<open>out\<close>, and the loop that halts the machine behind it; the callers are
  \<^verbatim>\<open>RtBacktrace\<close>, \<^verbatim>\<open>InsaneLen\<close> (for a block longer than \<open>RT_INSANE_LEN\<close>, which \<^verbatim>\<open>Libc\<close> has as \<open>None\<close>) and \<^verbatim>\<open>abort\<close>.
\<close>

fun print_each :: "(u16 list \<Rightarrow> 'w \<Rightarrow> 'w) \<Rightarrow> (bytes \<times> print_arg list) list \<Rightarrow> 'w \<Rightarrow> 'w option" where
  "print_each out [] w = Some w"
| "print_each out ((fmt, args) # ls) w = Option.bind (Print True fmt args) (\<lambda>cs. print_each out ls (out cs w))"

definition backtrace_report :: "(u16 list \<Rightarrow> 'w \<Rightarrow> 'w) \<Rightarrow> u64 \<Rightarrow> u64 \<Rightarrow> (nat \<Rightarrow> u64) \<Rightarrow> bytes \<Rightarrow> 'w \<Rightarrow> 'w option" where
  "backtrace_report out base sz p why w = print_each out
     ((bytes_of ''BUG: %s'' @ [10] @ bytes_of ''Stack scan (offsets into SshShell.efi, newest first):'' @ [10], [AStr why]) #
      map (\<lambda>v. (bytes_of '' +%lx'', [A64 v])) (backtrace_offsets base sz p) @ [([10], [])]) w"

partial_function (option) halt_loop :: "('w, 'z) firmware_scheme \<Rightarrow> 'w \<Rightarrow> 'w option" where
  "halt_loop fw w = halt_loop fw (Stall fw 1000000 w)"

declare halt_loop.simps [code]

definition RtBacktrace :: "('w, 'z) firmware_scheme \<Rightarrow> (u16 list \<Rightarrow> 'w \<Rightarrow> 'w) \<Rightarrow> rt_globals \<Rightarrow> (nat \<Rightarrow> u64) \<Rightarrow> bytes \<Rightarrow> 'w \<Rightarrow> 'w option" where
  "RtBacktrace fw out g p why w = Option.bind (backtrace_report out (mImageBase g) (mImageSize g) p why w) (halt_loop fw)"

definition InsaneLen :: "('w, 'z) firmware_scheme \<Rightarrow> (u16 list \<Rightarrow> 'w \<Rightarrow> 'w) \<Rightarrow> rt_globals \<Rightarrow> (nat \<Rightarrow> u64) \<Rightarrow> bytes \<Rightarrow> u64 \<Rightarrow> u64 \<Rightarrow> 'w \<Rightarrow> 'w option" where
  "InsaneLen fw out g p what n ret w =
     Option.bind (print_each out [(bytes_of ''BUG: %s with length %lx, called from %lx'' @ [10], [AStr what, A64 n, A64 ret])] w)
       (RtBacktrace fw out g p what)"

definition abort :: "('w, 'z) firmware_scheme \<Rightarrow> (u16 list \<Rightarrow> 'w \<Rightarrow> 'w) \<Rightarrow> 'w \<Rightarrow> 'w option" where
  "abort fw out w = Option.bind (print_each out [(bytes_of ''abort() called'' @ [10], [])] w) (halt_loop fw)"

lemma halt_loop_never: "halt_loop fw w = None"
proof -
  have False if "halt_loop fw w = Some w'" for w'
    using that by (rule halt_loop.raw_induct [rotated])
  then show ?thesis by (cases "halt_loop fw w") auto
qed

text \<open>None of the three returns, and the report is out before the machine stops.\<close>

lemma halts_never_return: "RtBacktrace fw out g p why w = None" "InsaneLen fw out g p why n ret w = None" "abort fw out w = None"
proof -
  have h: "halt_loop fw = (\<lambda>w. None)" by (simp add: fun_eq_iff halt_loop_never)
  show r: "RtBacktrace fw out g p why w = None" for w
    by (cases "backtrace_report out (mImageBase g) (mImageSize g) p why w") (simp_all add: RtBacktrace_def h)
  show "InsaneLen fw out g p why n ret w = None" "abort fw out w = None"
    by (simp_all add: InsaneLen_def abort_def h r split: bind_split)
qed

lemma print_offset: "\<exists>cs. Print True (bytes_of '' +%lx'') [A64 v] = Some cs"
  by (simp add: Print_def bytes_of_def print_conv_def)

lemma backtrace_reported: "\<exists>w'. backtrace_report out base sz p why w = Some w'"
proof -
  have "\<exists>w'. print_each out (map (\<lambda>v. (bytes_of '' +%lx'', [A64 v])) vs @ [([10], [])]) w = Some w'" for vs w
  proof (induction vs arbitrary: w)
    case (Cons v vs)
    then show ?case using print_offset [of v] by auto
  qed (simp add: Print_def print_conv_def)
  moreover have "\<exists>cs. Print True (bytes_of ''BUG: %s'' @ [10] @ bytes_of ''Stack scan (offsets into SshShell.efi, newest first):'' @ [10]) [AStr why] = Some cs"
    by (simp add: Print_def bytes_of_def print_conv_def)
  ultimately show ?thesis by (fastforce simp: backtrace_report_def)
qed

lemma scan_stack_length: "length (scan_stack base sz p i k n) \<le> 40 - k"
proof (induction n arbitrary: i k)
  case (Suc n)
  from Suc [of "Suc i" "Suc k"] Suc [of "Suc i" k] show ?case by auto
qed simp
lemma scan_stack_words: "x \<in> set (scan_stack base sz p i k n) \<Longrightarrow> \<exists>v. x = v - base \<and> base + 0x1000 \<le> v \<and> v < base + sz"
  by (induction n arbitrary: i k) (auto split: if_splits)

text \<open>
  What is printed are offsets into the code of the image \<^verbatim>\<open>RtInit\<close> has found; without one nothing is.
\<close>

lemma backtrace_in_image:
  assumes g: "g = RtInit ih st members img rt_zero"
    and i: "img ih = Some (base, sz)" "unat base + unat sz < 2 ^ 64" "0x1000 \<le> sz"
    and x: "x \<in> set (backtrace_offsets (mImageBase g) (mImageSize g) p)"
  shows "0x1000 \<le> x" and "x < sz"
proof -
  have "mImageBase g = base" "mImageSize g = sz" using g i(1) by (simp_all add: RtInit_def Let_def split: prod.split)
  with x obtain v where v: "x = v - base" "base + 0x1000 \<le> v" "v < base + sz"
    using scan_stack_words unfolding backtrace_offsets_def by metis
  have s: "unat (base + sz) = unat base + unat sz" using i(2) by (simp add: unat_word_ariths)
  have "unat (0x1000 :: u64) \<le> unat sz" using i(3) by (simp add: word_le_nat_alt)
  then have b: "unat (base + 0x1000) = unat base + 0x1000" using i(2) by (simp add: unat_word_ariths)
  have "unat base + 0x1000 \<le> unat v" "unat v < unat base + unat sz"
    using v(2,3) b s by (simp_all add: word_le_nat_alt word_less_nat_alt)
  moreover from this have "unat x = unat v - unat base" using v(1) by (simp add: unat_sub word_le_nat_alt)
  ultimately show "0x1000 \<le> x" "x < sz" by (simp_all add: word_le_nat_alt word_less_nat_alt)
qed

lemma backtrace_no_image:
  "img ih = None \<Longrightarrow> g = RtInit ih st members img rt_zero \<Longrightarrow> backtrace_offsets (mImageBase g) (mImageSize g) p = []"
  using scan_stack_words [of _ 0 0 p 0 0 6000]
  by (auto simp: RtInit_def rt_zero_def backtrace_offsets_def Let_def split: prod.splits) (metis list.set_intros(1) list.exhaust)

subsection \<open>Entropy\<close>

text \<open>
  The sources: the processor's instructions \<^verbatim>\<open>cpuid\<close> (the registers \<open>a, b, c, d\<close> for the leaf and the
  subleaf), \<^verbatim>\<open>rdrand\<close> (one attempt) and \<^verbatim>\<open>rdtsc\<close> (the registers \<open>lo, hi\<close>), and the firmware's random
  number protocol; \<open>GetRNG\<close> gets the buffer and may leave anything in it when it fails.
\<close>

record 'w entropy_firmware = "'w firmware" +
  cpuid :: "u32 \<Rightarrow> u32 \<Rightarrow> u32 \<times> u32 \<times> u32 \<times> u32"
  rdrand :: "'w \<Rightarrow> u64 option \<times> 'w"
  LocateRng :: "'w \<Rightarrow> bool \<times> 'w"
  GetRNG :: "bytes \<Rightarrow> 'w \<Rightarrow> (bool \<times> bytes) \<times> 'w"
  rdtsc :: "'w \<Rightarrow> (u32 \<times> u32) \<times> 'w"

definition RtTicks :: "('w, 'z) entropy_firmware_scheme \<Rightarrow> 'w \<Rightarrow> u64 \<times> 'w" where
  "RtTicks fw w = (case rdtsc fw w of ((lo, hi), w) \<Rightarrow> (push_bit 32 (ucast hi) OR ucast lo, w))"

definition HaveRdrand :: "('w, 'z) entropy_firmware_scheme \<Rightarrow> bool" where
  "HaveRdrand fw \<longleftrightarrow> (case cpuid fw 1 0 of (a, b, c, d) \<Rightarrow> drop_bit 30 c AND 1 \<noteq> 0)"

fun rdrand_try :: "('w, 'z) entropy_firmware_scheme \<Rightarrow> nat \<Rightarrow> 'w \<Rightarrow> u64 option \<times> 'w" where
  "rdrand_try fw 0 w = (None, w)"
| "rdrand_try fw (Suc n) w =
     (case rdrand fw w of (Some v, w) \<Rightarrow> (Some v, w) | (None, w) \<Rightarrow> rdrand_try fw n w)"

definition Rdrand64 :: "('w, 'z) entropy_firmware_scheme \<Rightarrow> 'w \<Rightarrow> u64 option \<times> 'w" where
  "Rdrand64 fw w = rdrand_try fw 16 w"

text \<open>The inner loop: eight bytes of \<open>v\<close> onto the buffer from \<open>i\<close> on, as far as it reaches.\<close>

definition xor_word :: "nat \<Rightarrow> u64 \<Rightarrow> bytes \<Rightarrow> bytes" where
  "xor_word i v out =
     map (\<lambda>k. if i \<le> k \<and> k < i + 8 then out ! k XOR ucast (drop_bit (8 * (k - i)) v) else out ! k) [0..<length out]"

text \<open>The result is the buffer and \<^verbatim>\<open>haveSource\<close>.\<close>

function rdrand_fill :: "('w, 'z) entropy_firmware_scheme \<Rightarrow> nat \<Rightarrow> nat \<Rightarrow> bytes \<Rightarrow> bool \<Rightarrow> 'w \<Rightarrow> bytes \<times> bool \<times> 'w" where
  "rdrand_fill fw sz i out have_src w =
     (if \<not> i < sz then (out, have_src, w)
      else (case Rdrand64 fw w of
              (None, w) \<Rightarrow> (out, have_src, w)
            | (Some v, w) \<Rightarrow> rdrand_fill fw sz (i + 8) (xor_word i v out) True w))"
  by pat_completeness auto
termination
  by (relation "measure (\<lambda>(fw, sz, i, _). sz - i)") auto

declare rdrand_fill.simps [simp del]

definition firmware_rng :: "('w, 'z) entropy_firmware_scheme \<Rightarrow> bytes \<Rightarrow> 'w \<Rightarrow> bytes \<times> bool \<times> 'w" where
  "firmware_rng fw out w =
     (case LocateRng fw w of
        (False, w) \<Rightarrow> (out, False, w)
      | (True, w) \<Rightarrow> (case GetRNG fw out w of ((ok, out), w) \<Rightarrow> (out, ok, w)))"

definition tick_mix :: "u64 \<Rightarrow> u64 \<Rightarrow> byte" where
  "tick_mix t t2 = ucast (t XOR drop_bit 8 t XOR drop_bit 16 t XOR drop_bit 56 (t2 * 0x9E3779B97F4A7C15))"

definition time_mix :: "efi_time \<Rightarrow> byte" where
  "time_mix t = of_nat (Second t) XOR of_nat (Minute t) XOR of_nat (drop_bit 3 (Nanosecond t))"

text \<open>One turn of the jitter loop: what is mixed into byte \<open>i\<close>.\<close>

definition jitter_byte :: "('w, 'z) entropy_firmware_scheme \<Rightarrow> nat \<Rightarrow> 'w \<Rightarrow> byte \<times> 'w" where
  "jitter_byte fw i w =
     (let (t, w) = RtTicks fw w; w = Stall fw (37 + i mod 7) w; (t2, w) = RtTicks fw w; b = tick_mix t t2 in
      if i = 0 then (case GetTime fw w of (None, w) \<Rightarrow> (b, w) | (Some now, w) \<Rightarrow> (b XOR time_mix now, w))
      else (b, w))"

fun jitter :: "('w, 'z) entropy_firmware_scheme \<Rightarrow> nat \<Rightarrow> bytes \<Rightarrow> 'w \<Rightarrow> bytes \<times> 'w" where
  "jitter fw i [] w = ([], w)"
| "jitter fw i (x # out) w =
     (let (b, w) = jitter_byte fw i w; (out, w) = jitter fw (Suc i) out w in ((x XOR b) # out, w))"

definition UefiRandSeed :: "('w, 'z) entropy_firmware_scheme \<Rightarrow> nat \<Rightarrow> 'w \<Rightarrow> int \<times> bytes \<times> 'w" where
  "UefiRandSeed fw sz w =
     (let out = replicate sz 0;
          (out, haveSource, w) = (if HaveRdrand fw then rdrand_fill fw sz 0 out False w else (out, False, w));
          (out, haveSource, w) = (if \<not> haveSource then firmware_rng fw out w else (out, haveSource, w));
          (out, w) = jitter fw 0 out w
      in (if haveSource then 0 else - 1, out, w))"

subsection \<open>Entropy: lemmas\<close>

text \<open>The two halves of the counter do not overlap.\<close>

lemma RtTicks_value:
  assumes "rdtsc fw w = ((lo, hi), w')"
  shows "RtTicks fw w = (t, w') \<longleftrightarrow> unat t = unat hi * 2 ^ 32 + unat lo"
proof -
  let ?t = "push_bit 32 (ucast hi) OR ucast lo :: u64"
  have "(push_bit 32 (ucast hi) :: u64) AND ucast lo = 0"
    by (rule bit_word_eqI) (auto simp: bit_simps dest: bit_imp_le_length)
  then have "?t = push_bit 32 (ucast hi) + ucast lo" by (simp add: disjunctive_add_eq_or)
  moreover have b: "unat x < 2 ^ 32" for x :: u32 using unsigned_less [of x, where ?'a = nat] by simp
  moreover have "unat (ucast x :: u64) = unat x" for x :: u32
    using b [of x] by (simp add: unsigned_ucast_eq take_bit_nat_eq_self_iff)
  moreover have "unat hi * 2 ^ 32 + unat lo < 2 ^ 64" using b [of hi] b [of lo] by simp
  ultimately have "unat ?t = unat hi * 2 ^ 32 + unat lo"
    by (simp add: unat_word_ariths push_bit_eq_mult)
  then show ?thesis using assms by (auto simp: RtTicks_def word_unat_eq_iff)
qed

lemma length_xor_word [simp]: "length (xor_word i v out) = length out"
  by (simp add: xor_word_def)

lemma xor_word_nth: "k < length out \<Longrightarrow> \<not> (i \<le> k \<and> k < i + 8) \<Longrightarrow> xor_word i v out ! k = out ! k"
  by (auto simp: xor_word_def)

text \<open>The jitter does not depend on the buffer: it is exclusive-or'ed onto it.\<close>

lemma jitter_xor:
  "jitter fw i out w = (map2 (XOR) out (fst (jitter fw i (replicate (length out) 0) w)),
     snd (jitter fw i (replicate (length out) 0) w))"
proof (induction out arbitrary: i w)
  case (Cons x out)
  from Cons [of "Suc i" "snd (jitter_byte fw i w)"] show ?case
    by (simp add: Let_def split_beta)
qed simp

lemma length_jitter [simp]: "length (fst (jitter fw i out w)) = length out"
  by (induction out arbitrary: i w) (simp_all add: Let_def split_beta)

lemma length_rdrand_fill: "length (fst (rdrand_fill fw sz i out hs w)) = length out"
proof (induction fw sz i out hs w rule: rdrand_fill.induct)
  case (1 fw sz i out hs w)
  then show ?case by (subst rdrand_fill.simps) (auto split: prod.split option.split)
qed

lemma rdrand_fill_source:
  "fst (snd (rdrand_fill fw sz i out hs w)) \<longleftrightarrow> hs \<or> i < sz \<and> fst (Rdrand64 fw w) \<noteq> None"
proof (induction fw sz i out hs w rule: rdrand_fill.induct)
  case (1 fw sz i out hs w)
  then show ?case by (subst rdrand_fill.simps) (auto split: prod.split option.split)
qed

lemma seed_partial_lemma:
  assumes "HaveRdrand fw" and "Rdrand64 fw w = (Some v, w1)" and "Rdrand64 fw w1 = (None, w2)" and "8 < sz"
  shows "UefiRandSeed fw sz w = (0, jitter fw 0 (xor_word 0 v (replicate sz 0)) w2)"
proof -
  have "rdrand_fill fw sz 0 (replicate sz 0) False w = (xor_word 0 v (replicate sz 0), True, w2)"
    using assms by (subst rdrand_fill.simps, simp, subst rdrand_fill.simps, simp)
  then show ?thesis using assms(1) by (simp add: UefiRandSeed_def Let_def split_beta)
qed

subsection \<open>Properties\<close>

text \<open>The heap hooks of wolfCrypt: \<^verbatim>\<open>XMALLOC\<close> hands out a 16-byte aligned block inside the pool block it
  was granted, with its size and the pool pointer in front of it; \<^verbatim>\<open>XFREE\<close> of the block, with its
  header intact, frees that pool block.\<close>
theorem XMALLOC_XFREE:
  assumes "AllocatePool fw (n + 48) w = (Some raw, w')" and "pool_room raw (n + 48)"
  shows "\<exists>p m'. XMALLOC fw n (m, w) = (p, m', w') \<and> p AND 15 = 0 \<and> unat raw + 32 \<le> unat p \<and>
    unat p + n \<le> unat raw + (n + 48) \<and> (\<forall>x. x < unat raw \<or> unat p \<le> x \<longrightarrow> m' x = m x) \<and>
    (\<forall>m'' v. (\<forall>x. unat p - 24 \<le> x \<and> x < unat p \<longrightarrow> m'' x = m' x) \<longrightarrow> XFREE fw p (m'', v) = (m'', FreePool fw raw v))"
proof -
  obtain p m' where x: "XMALLOC fw n (m, w) = (p, m', w')" "p AND 15 = 0" "owns m' p n raw"
    "unat raw + 32 \<le> unat p" "unat p + n \<le> unat raw + (n + 48)" "same_outside (unat p - 24) (unat p - 8) m m'"
    using XMALLOC_lemma [OF assms, of m] by auto
  have "XFREE fw p (m'', v) = (m'', FreePool fw raw v)" if h: "\<forall>x. unat p - 24 \<le> x \<and> x < unat p \<longrightarrow> m'' x = m' x" for m'' v
  proof (rule XFREE_lemma)
    have "m'' (unat p - k + i) = m' (unat p - k + i)" if "i < 8" "k = 16 \<or> k = 24" for i k
    proof -
      have "unat p - 24 \<le> unat p - k + i \<and> unat p - k + i < unat p" using that x(3) by (auto simp: owns_def)
      then show ?thesis using h by blast
    qed
    then have "load64 m'' (unat p - k) = load64 m' (unat p - k)" if "k = 16 \<or> k = 24" for k
      using that by (intro load64_cong) blast
    then show "owns m'' p n raw" using x(3) by (simp add: owns_def)
  qed
  moreover have "\<forall>y. y < unat raw \<or> unat p \<le> y \<longrightarrow> m' y = m y"
    using x(4,6) by (auto simp: same_outside_def)
  ultimately show ?thesis using x(1,2,4,5) by blast
qed

definition pool_fw :: "u64 \<Rightarrow> u64 list pool_firmware" where
  "pool_fw a = \<lparr>GetTime = \<lambda>w. (None, w), Stall = \<lambda>n w. w, AllocatePool = \<lambda>n w. (Some a, w), FreePool = \<lambda>p w. p # w\<rparr>"

theorem XMALLOC_XFREE_witness:
  "\<exists>p m'. XMALLOC (pool_fw 4104) 100 (\<lambda>_. 0, []) = (p, m', []) \<and> XFREE (pool_fw 4104) p (m', []) = (m', [4104])"
proof -
  have "AllocatePool (pool_fw 4104) (100 + 48) [] = (Some 4104, [])" "pool_room 4104 (100 + 48)"
    by (simp_all add: pool_fw_def pool_room_def)
  from XMALLOC_XFREE [OF this, of "\<lambda>_. 0"] obtain p m' where
    "XMALLOC (pool_fw 4104) 100 (\<lambda>_. 0, []) = (p, m', [])"
    "\<forall>m'' v. (\<forall>x. unat p - 24 \<le> x \<and> x < unat p \<longrightarrow> m'' x = m' x) \<longrightarrow>
       XFREE (pool_fw 4104) p (m'', v) = (m'', FreePool (pool_fw 4104) 4104 v)" by metis
  moreover have "FreePool (pool_fw 4104) 4104 [] = [4104]" by (simp add: pool_fw_def)
  ultimately show ?thesis by metis
qed

text \<open>\<^verbatim>\<open>XREALLOC\<close> of a live block moves it: when the pool grants a block apart from the old one, the
  new block holds the old bytes up to the smaller size, carries its own header, and the pool block
  of the old one is freed, once.\<close>
theorem XREALLOC_keeps_data:
  assumes "AllocatePool fw (n + 48) w = (Some raw', w')" and "pool_room raw' (n + 48)"
    and "owns m p old raw" and "old \<le> RT_INSANE_LEN"
    and "unat p + old \<le> unat raw' \<or> unat raw' + (n + 48) \<le> unat p - 24"
  shows "\<exists>q m'. XREALLOC fw p n (m, w) = Some (q, m', FreePool fw raw w') \<and> q AND 15 = 0 \<and> owns m' q n raw' \<and>
    cells_at m' (unat q) (min old n) = cells_at m (unat p) (min old n)"
  by (rule XREALLOC_lemma [OF assms])

theorem XREALLOC_keeps_data_witness:
  "\<exists>q m'. XREALLOC (pool_fw 4096) 1024 8 (store64 1008 4 (store64 1000 992 (mem_of [])), []) = Some (q, m', [992])"
proof -
  have "owns (store64 1008 4 (store64 1000 992 (mem_of []))) 1024 4 992"
    by (simp add: owns_def load64_store64_other)
  from XREALLOC_keeps_data [of "pool_fw 4096" 8 "[]" 4096 "[]", OF _ _ this] show ?thesis
    by (fastforce simp: pool_fw_def pool_room_def RT_INSANE_LEN_def)
qed

text \<open>C39: \<^verbatim>\<open>Print\<close> never writes past its 512 characters, whatever the format and the arguments, although
  two of its branches store without a check of their own: at most 511 cells and the terminator.\<close>
theorem Print_fits:
  assumes "Print True fmt args = Some out"
  shows "length out \<le> PRINT_BUF"
  using assms print_loop_le [of fmt args "[]"] by (auto simp: Print_def PRINT_BUF_def PRINT_END_def)

theorem Print_fits_witness:
  "\<exists>out. Print True (replicate 509 65 @ [10, 37, 100]) [AInt 5] = Some out \<and> length out \<le> PRINT_BUF"
proof -
  have "print_loop (replicate n 65 @ [10, 37, 100]) [AInt 5] o1 \<noteq> None" for n o1
  proof (induction n arbitrary: o1)
    case 0
    show ?case by (simp add: print_conv_def)
  next
    case (Suc n)
    then show ?case by simp
  qed
  then have "Print True (replicate 509 65 @ [10, 37, 100]) [AInt 5] \<noteq> None" by (simp add: Print_def)
  then obtain out where "Print True (replicate 509 65 @ [10, 37, 100]) [AInt 5] = Some out" by blast
  with Print_fits [OF this] show ?thesis by blast
qed

text \<open>Number conversion: the digits \<^verbatim>\<open>PutNum\<close> collects are digits of the base, their value is the number
  printed, and for a 64-bit number in base 10 or 16 they fit the 24 cells of \<^verbatim>\<open>tmp\<close>.\<close>
theorem PutNum_digits:
  assumes "base = 10 \<or> base = 16"
  shows "num_val base (num_rev base (unat (v :: u64))) = unat v \<and> (\<forall>d\<in>set (num_rev base (unat v)). d < base) \<and>
    length (num_rev base (unat v)) \<le> 24"
proof -
  have v: "unat v < 2 ^ 64" using unsigned_less [of v] by simp
  have "length (num_rev base (unat v)) \<le> Suc 19"
    using assms v by (intro num_rev_length) auto
  then show ?thesis using num_rev_lemma [of base "unat v"] assms by auto
qed

theorem PutNum_digits_witness: "num_val 16 (num_rev 16 (unat (0x1F :: u64))) = 31"
  using PutNum_digits [of 16 "0x1F"] by simp

text \<open>A seed is accepted although its source ran dry: when \<^verbatim>\<open>RDRAND\<close> delivers one word and then fails
  all its attempts, \<^verbatim>\<open>UefiRandSeed\<close> reports success without asking the firmware, and every byte from
  the ninth on is timing jitter alone, the bytes a machine without any source would have produced.\<close>
theorem UefiRandSeed_partial:
  assumes "HaveRdrand fw" and "Rdrand64 fw w = (Some v, w1)" and "Rdrand64 fw w1 = (None, w2)" and "8 < sz"
  shows "\<exists>out w'. UefiRandSeed fw sz w = (0, out, w') \<and>
    (\<forall>k. 8 \<le> k \<and> k < sz \<longrightarrow> out ! k = fst (jitter fw 0 (replicate sz 0) w2) ! k)"
proof -
  let ?x = "xor_word 0 v (replicate sz 0)"
  let ?n = "fst (jitter fw 0 (replicate sz 0) w2)"
  have "fst (jitter fw 0 ?x w2) ! k = ?n ! k" if "8 \<le> k" "k < sz" for k
  proof -
    have "?x ! k = 0" using that xor_word_nth [of k "replicate sz 0" 0 v] by simp
    then show ?thesis using that jitter_xor [of fw 0 ?x w2] by simp
  qed
  then show ?thesis using seed_partial_lemma [OF assms]
    by (intro exI [of _ "fst (jitter fw 0 ?x w2)"] exI [of _ "snd (jitter fw 0 ?x w2)"]) simp
qed

definition one_word :: "nat entropy_firmware" where
  "one_word = \<lparr>GetTime = \<lambda>w. (None, w), Stall = \<lambda>n w. w, AllocatePool = \<lambda>n w. (None, w), cpuid = \<lambda>l s. (0, 0, 0x40000000, 0),
     rdrand = \<lambda>w. (if w = 0 then Some 0x1122334455667788 else None, Suc w), LocateRng = \<lambda>w. (False, w),
     GetRNG = \<lambda>out w. ((False, out), w), rdtsc = \<lambda>w. ((of_nat w, 0), w)\<rparr>"

theorem UefiRandSeed_partial_witness:
  "\<exists>out w'. UefiRandSeed one_word 32 0 = (0, out, w') \<and> out ! 8 = fst (jitter one_word 0 (replicate 32 0) 17) ! 8"
proof -
  have t: "w \<noteq> 0 \<Longrightarrow> rdrand_try one_word n w = (None, w + n)" for w n
    by (induction n arbitrary: w) (simp_all add: one_word_def)
  have "Rdrand64 one_word 0 = (Some 0x1122334455667788, 1)"
    by (simp add: Rdrand64_def numeral_eq_Suc one_word_def)
  moreover have "Rdrand64 one_word 1 = (None, 17)" using t [of 1 16] by (simp add: Rdrand64_def)
  moreover have "HaveRdrand one_word" unfolding HaveRdrand_def one_word_def by (simp add: and_one_eq bit_simps)
  ultimately show ?thesis using UefiRandSeed_partial [of one_word 0 _ 1 17 32] by fastforce
qed

text \<open>The status of a seed: success exactly when \<^verbatim>\<open>RDRAND\<close> delivered at least one word, or, when it
  delivered none, the firmware protocol was found and succeeded; the buffer always has the size
  asked for when the protocol keeps it.\<close>
theorem UefiRandSeed_status:
  assumes "0 < sz"
  shows "fst (UefiRandSeed fw sz w) = 0 \<longleftrightarrow>
    HaveRdrand fw \<and> fst (Rdrand64 fw w) \<noteq> None \<or>
    (let (out, hs, w1) = (if HaveRdrand fw then rdrand_fill fw sz 0 (replicate sz 0) False w else (replicate sz 0, False, w))
     in \<not> hs \<and> fst (snd (firmware_rng fw out w1)))"
  using assms rdrand_fill_source [of fw sz 0 "replicate sz 0" False w]
  by (simp add: UefiRandSeed_def Let_def split_beta)

theorem UefiRandSeed_status_witness: "fst (UefiRandSeed (one_word\<lparr>cpuid := \<lambda>l s. (0, 0, 0, 0)\<rparr>) 4 0) \<noteq> 0"
  by (subst UefiRandSeed_status) (simp_all add: one_word_def firmware_rng_def HaveRdrand_def)

end
