(* ===== verification/Shim_Out.thy ===== *)
theory Shim_Out
  imports Shim_State Runtime
begin

text \<open>
  The output half of \<^verbatim>\<open>ConsoleShim.c\<close>: the buffer in front of \<^verbatim>\<open>SshWrite\<close>, the text output
  protocol the Shell calls, and the cursor it is told. The specification is a small terminal
  that reads the bytes sent: the cursor the shim reports is the terminal's.
\<close>

subsection \<open>The output buffer\<close>

definition mirror_cells :: "byte \<Rightarrow> u16 list" where
  "mirror_cells b = (if 0x20 \<le> b \<and> b < 0x7F then [ucast b] else if b = 10 then [13, 10] else [])"

definition mirror_step :: "'w console \<Rightarrow> u16 list \<times> 'w \<Rightarrow> byte \<Rightarrow> u16 list \<times> 'w" where
  "mirror_step l s b = (let tmp = fst s @ mirror_cells b in
     if 120 \<le> length tmp then ([], LocalOut l (tmp @ [0]) (snd s)) else (tmp, snd s))"

text \<open>The copy on the local screen once the client is gone.\<close>

definition mirror_out :: "'w console \<Rightarrow> bytes \<Rightarrow> 'w \<Rightarrow> 'w" where
  "mirror_out l bs w = (let (tmp, w) = foldl (mirror_step l) ([], w) bs in
     if tmp \<noteq> [] then LocalOut l (tmp @ [0]) w else w)"

definition flush_ssh :: "'w host \<Rightarrow> 'w shim \<Rightarrow> 'w shim option" where
  "flush_ssh h S =
     (if \<not> Disconnected S
      then map_option (\<lambda>(r, c). S\<lparr>Ssh := c, Disconnected := (r \<noteq> 0)\<rparr>) (SshWrite h (OutBuf S) (Ssh S))
      else Some S)"

definition flush_local :: "'w console \<Rightarrow> 'w shim \<Rightarrow> 'w shim" where
  "flush_local l S =
     (if Disconnected S \<and> OldConOut S
      then S\<lparr>Ssh := (Ssh S)\<lparr>ioCtx := mirror_out l (OutBuf S) (ioCtx (Ssh S))\<rparr>\<rparr> else S)"

definition Flush :: "'w host \<Rightarrow> 'w console \<Rightarrow> 'w shim \<Rightarrow> 'w shim option" where
  "Flush h l S =
     (if OutBuf S = [] then Some S
      else map_option (\<lambda>S. (flush_local l S)\<lparr>OutBuf := [], outLog := outLog S @ OutBuf S\<rparr>) (flush_ssh h S))"

definition EmitByte :: "'w host \<Rightarrow> 'w console \<Rightarrow> byte \<Rightarrow> 'w shim \<Rightarrow> 'w shim option" where
  "EmitByte h l b S =
     map_option (\<lambda>S. S\<lparr>OutBuf := OutBuf S @ [b]\<rparr>) (if SHIM_OUT_BUF \<le> length (OutBuf S) then Flush h l S else Some S)"

fun Emit :: "'w host \<Rightarrow> 'w console \<Rightarrow> bytes \<Rightarrow> 'w shim \<Rightarrow> 'w shim option" where
  "Emit h l [] S = Some S"
| "Emit h l (b # bs) S = Option.bind (EmitByte h l b S) (Emit h l bs)"

definition num_bytes :: "nat \<Rightarrow> bytes" where
  "num_bytes v = map (\<lambda>d. of_nat (48 + d)) (rev (num_rev 10 v))"

definition EmitNum :: "'w host \<Rightarrow> 'w console \<Rightarrow> nat \<Rightarrow> 'w shim \<Rightarrow> 'w shim option" where
  "EmitNum h l v S = Emit h l (num_bytes v) S"

definition utf8_bytes :: "u16 \<Rightarrow> bytes" where
  "utf8_bytes c =
     (if c < 0x80 then [ucast c]
      else if c < 0x800 then [ucast (0xC0 OR drop_bit 6 c), ucast (0x80 OR (c AND 0x3F))]
      else [ucast (0xE0 OR drop_bit 12 c), ucast (0x80 OR (drop_bit 6 c AND 0x3F)), ucast (0x80 OR (c AND 0x3F))])"

definition EmitUtf8 :: "'w host \<Rightarrow> 'w console \<Rightarrow> u16 \<Rightarrow> 'w shim \<Rightarrow> 'w shim option" where
  "EmitUtf8 h l c S = Emit h l (utf8_bytes c) S"

subsection \<open>The text output protocol\<close>

definition RefreshSize :: "'w shim \<Rightarrow> 'w shim" where
  "RefreshSize S = (let (c, r) = SshGetWindow (Ssh S) in
     S\<lparr>Cols := (if 20 \<le> unat c then unat c else 80), Rows := (if 5 \<le> unat r then unat r else 25)\<rparr>)"

definition RowDown :: "'w shim \<Rightarrow> 'w shim" where
  "RowDown S = (if CursorRow S + 1 < Rows S then S\<lparr>CursorRow := CursorRow S + 1\<rparr> else S)"

text \<open>The printable case: a pending wrap happens first, the last column sets it again.\<close>

definition wrap_now :: "'w shim \<Rightarrow> 'w shim" where
  "wrap_now S = (if PendingWrap S then (RowDown (S\<lparr>CursorColumn := 0\<rparr>))\<lparr>PendingWrap := False\<rparr> else S)"

definition advance :: "'w shim \<Rightarrow> 'w shim" where
  "advance S =
     (if Cols S \<le> CursorColumn S + 1 then S\<lparr>CursorColumn := Cols S - 1, PendingWrap := True\<rparr>
      else S\<lparr>CursorColumn := CursorColumn S + 1\<rparr>)"

definition tab_stop :: "'w shim \<Rightarrow> 'w shim" where
  "tab_stop S = (let S = S\<lparr>CursorColumn := CursorColumn S div 8 * 8 + 8\<rparr>;
       S = (if Cols S \<le> CursorColumn S then S\<lparr>CursorColumn := Cols S - 1\<rparr> else S)
     in S\<lparr>PendingWrap := False\<rparr>)"

text \<open>One turn of the loop of \<^verbatim>\<open>ShimOutputString\<close>.\<close>

definition out_char :: "'w host \<Rightarrow> 'w console \<Rightarrow> u16 \<Rightarrow> 'w shim \<Rightarrow> 'w shim option" where
  "out_char h l c S =
     (if c = CHAR_LINEFEED
      then map_option (\<lambda>S. RowDown (S\<lparr>CursorColumn := 0, PendingWrap := False\<rparr>)) (Emit h l [13, 10] S)
      else if c = CHAR_CARRIAGE_RETURN
      then map_option (\<lambda>S. S\<lparr>CursorColumn := 0, PendingWrap := False\<rparr>) (EmitByte h l 13 S)
      else if c = CHAR_BACKSPACE
      then map_option (\<lambda>S. S\<lparr>PendingWrap := False\<rparr>)
             (if 0 < CursorColumn S then EmitByte h l 8 (S\<lparr>CursorColumn := CursorColumn S - 1\<rparr>) else Some S)
      else if c = CHAR_TAB then map_option tab_stop (EmitByte h l 9 S)
      else if c < 0x20 then EmitByte h l (ucast c) S
      else map_option advance (EmitUtf8 h l c (wrap_now S)))"

fun out_chars :: "'w host \<Rightarrow> 'w console \<Rightarrow> u16 list \<Rightarrow> 'w shim \<Rightarrow> 'w shim option" where
  "out_chars h l [] S = Some S"
| "out_chars h l (c # cs) S = Option.bind (out_char h l c S) (out_chars h l cs)"

definition out_poll :: "'w host \<Rightarrow> 'w shim \<Rightarrow> 'w shim option" where
  "out_poll h S = (let S = S\<lparr>OutPoll := OutPoll S + 1\<rparr> in
     if OutPoll S mod 16 = 0 \<and> \<not> Disconnected S
     then map_option (\<lambda>(r, c). if r < 0 then S\<lparr>Ssh := c, Disconnected := True\<rparr> else S\<lparr>Ssh := c\<rparr>) (SshPoll h (Ssh S))
     else Some S)"

text \<open>The string is what precedes its terminating zero.\<close>

definition ShimOutputString :: "'w host \<Rightarrow> 'w console \<Rightarrow> u16 list \<Rightarrow> 'w shim \<Rightarrow> (efi_status \<times> 'w shim) option" where
  "ShimOutputString h l s S =
     map_option (\<lambda>S. (EFI_SUCCESS, S)) (Option.bind (out_poll h S) (\<lambda>S. Option.bind (out_chars h l s S) (Flush h l)))"

definition ShimTestString :: "u16 list \<Rightarrow> efi_status" where
  "ShimTestString s = EFI_SUCCESS"

definition ShimQueryMode :: "nat \<Rightarrow> 'w shim \<Rightarrow> efi_status \<times> (nat \<times> nat) option \<times> 'w shim" where
  "ShimQueryMode n S =
     (if n \<noteq> 0 then (EFI_UNSUPPORTED, None, S)
      else (let S = RefreshSize S in (EFI_SUCCESS, Some (Cols S, Rows S), S)))"

definition clear_seq :: bytes where
  "clear_seq = 0x1B # bytes_of ''[2J'' @ 0x1B # bytes_of ''[H''"

definition ShimClearScreen :: "'w host \<Rightarrow> 'w console \<Rightarrow> 'w shim \<Rightarrow> (efi_status \<times> 'w shim) option" where
  "ShimClearScreen h l S =
     map_option (\<lambda>S. (EFI_SUCCESS, S))
       (Option.bind (Emit h l clear_seq S)
         (\<lambda>S. Flush h l (S\<lparr>CursorColumn := 0, CursorRow := 0, PendingWrap := False\<rparr>)))"

definition ShimSetMode :: "'w host \<Rightarrow> 'w console \<Rightarrow> nat \<Rightarrow> 'w shim \<Rightarrow> (efi_status \<times> 'w shim) option" where
  "ShimSetMode h l n S =
     (if n \<noteq> 0 then Some (EFI_UNSUPPORTED, S) else ShimClearScreen h l (RefreshSize (S\<lparr>ModeNum := 0\<rparr>)))"

definition efiToAnsi :: "nat list" where
  "efiToAnsi = [0, 4, 2, 6, 1, 5, 3, 7]"

definition attr_seq :: "nat \<Rightarrow> bytes" where
  "attr_seq a =
     0x1B # bytes_of ''[0;'' @ num_bytes ((if a div 8 mod 2 \<noteq> 0 then 90 else 30) + efiToAnsi ! (a mod 8)) @ bytes_of '';''
     @ num_bytes (40 + efiToAnsi ! (a div 16 mod 8)) @ bytes_of ''m''"

definition ShimSetAttribute :: "'w host \<Rightarrow> 'w console \<Rightarrow> nat \<Rightarrow> 'w shim \<Rightarrow> (efi_status \<times> 'w shim) option" where
  "ShimSetAttribute h l a S =
     (if 0x7F < a then Some (EFI_UNSUPPORTED, S)
      else map_option (\<lambda>S. (EFI_SUCCESS, S)) (Option.bind (Emit h l (attr_seq a) (S\<lparr>Attribute := a\<rparr>)) (Flush h l)))"

definition cursor_seq :: "nat \<Rightarrow> nat \<Rightarrow> bytes" where
  "cursor_seq col row = 0x1B # bytes_of ''['' @ num_bytes (row + 1) @ bytes_of '';'' @ num_bytes (col + 1) @ bytes_of ''H''"

definition ShimSetCursor :: "'w host \<Rightarrow> 'w console \<Rightarrow> nat \<Rightarrow> nat \<Rightarrow> 'w shim \<Rightarrow> (efi_status \<times> 'w shim) option" where
  "ShimSetCursor h l col row S =
     (if Cols S \<le> col \<or> Rows S \<le> row then Some (EFI_UNSUPPORTED, S)
      else map_option (\<lambda>S. (EFI_SUCCESS, S))
        (Option.bind (Emit h l (cursor_seq col row) (S\<lparr>CursorColumn := col, CursorRow := row, PendingWrap := False\<rparr>))
          (Flush h l)))"

definition ShimEnableCursor :: "'w host \<Rightarrow> 'w console \<Rightarrow> bool \<Rightarrow> 'w shim \<Rightarrow> (efi_status \<times> 'w shim) option" where
  "ShimEnableCursor h l vis S =
     map_option (\<lambda>S. (EFI_SUCCESS, S))
       (Option.bind (Emit h l (0x1B # bytes_of (if vis then ''[?25h'' else ''[?25l'')) (S\<lparr>CursorVisible := vis\<rparr>)) (Flush h l))"

definition ShimOutReset :: "'w host \<Rightarrow> 'w console \<Rightarrow> 'w shim \<Rightarrow> (efi_status \<times> 'w shim) option" where
  "ShimOutReset h l S =
     Option.bind (Emit h l (0x1B # bytes_of ''[0m'' @ 0x1B # bytes_of ''[?25h'') (S\<lparr>Attribute := 0x07, CursorVisible := True\<rparr>))
       (\<lambda>S. Option.bind (Flush h l S) (ShimClearScreen h l))"

subsection \<open>What emitting changes\<close>

text \<open>All bytes emitted so far, and the rest of the state, which emitting leaves alone.\<close>

definition stream :: "'w shim \<Rightarrow> bytes" where
  "stream S = outLog S @ OutBuf S"

definition same_out :: "'w shim \<Rightarrow> 'w shim \<Rightarrow> bool" where
  "same_out S T \<longleftrightarrow> T = S\<lparr>Ssh := Ssh T, Disconnected := Disconnected T, OutBuf := OutBuf T, outLog := outLog T\<rparr>"

lemma same_out_refl [simp]: "same_out S S"
  by (simp add: same_out_def)

lemma same_out_trans: "same_out S T \<Longrightarrow> same_out T U \<Longrightarrow> same_out S U"
  unfolding same_out_def by (cases S; cases T; cases U) simp

lemma same_outD:
  assumes "same_out S T"
  shows "CursorColumn T = CursorColumn S" "CursorRow T = CursorRow S" "PendingWrap T = PendingWrap S"
    "Cols T = Cols S" "Rows T = Rows S" "Keys T = Keys S" "KeyHead T = KeyHead S" "KeyTail T = KeyTail S"
    "Esc T = Esc S" "Attribute T = Attribute S" "CursorVisible T = CursorVisible S"
  by (subst assms [unfolded same_out_def], simp)+

lemma flush_ssh_same:
  "flush_ssh h S = Some T \<Longrightarrow> same_out S T \<and> OutBuf T = OutBuf S \<and> outLog T = outLog S"
  by (auto simp: flush_ssh_def same_out_def split: if_splits)

lemma Flush_lemma:
  assumes "Flush h l S = Some T"
  shows "same_out S T \<and> stream T = stream S \<and> OutBuf T = []"
proof (cases "OutBuf S = []")
  case True
  with assms show ?thesis by (simp add: Flush_def)
next
  case False
  with assms obtain U where u: "flush_ssh h S = Some U" and
    t: "T = (flush_local l U)\<lparr>OutBuf := [], outLog := outLog U @ OutBuf U\<rparr>" by (auto simp: Flush_def)
  have "same_out U T" by (auto simp: t flush_local_def same_out_def)
  with flush_ssh_same [OF u] same_out_trans [of S U T] show ?thesis by (simp add: stream_def t)
qed

lemma EmitByte_lemma:
  assumes "EmitByte h l b S = Some T"
  shows "same_out S T \<and> stream T = stream S @ [b] \<and>
    (length (OutBuf S) \<le> SHIM_OUT_BUF \<longrightarrow> length (OutBuf T) \<le> SHIM_OUT_BUF) \<and> OutBuf T \<noteq> []"
proof -
  from assms obtain U where u: "(if SHIM_OUT_BUF \<le> length (OutBuf S) then Flush h l S else Some S) = Some U"
    and t: "T = U\<lparr>OutBuf := OutBuf U @ [b]\<rparr>" by (auto simp: EmitByte_def)
  have "same_out S U \<and> stream U = stream S \<and> length (OutBuf U) < SHIM_OUT_BUF"
    using u Flush_lemma [of h l S U] by (auto simp: SHIM_OUT_BUF_def split: if_splits)
  moreover have "same_out U T" by (simp add: t same_out_def)
  ultimately show ?thesis using same_out_trans by (auto simp: t stream_def)
qed

lemma Emit_lemma:
  "Emit h l bs S = Some T \<Longrightarrow> same_out S T \<and> stream T = stream S @ bs \<and>
    (length (OutBuf S) \<le> SHIM_OUT_BUF \<longrightarrow> length (OutBuf T) \<le> SHIM_OUT_BUF)"
proof (induction bs arbitrary: S)
  case (Cons b bs)
  from Cons.prems obtain U where u: "EmitByte h l b S = Some U" and e: "Emit h l bs U = Some T"
    by (auto simp: bind_eq_Some_conv)
  note 1 = EmitByte_lemma [OF u] and 2 = Cons.IH [OF e]
  have "same_out S T" using same_out_trans 1 2 by blast
  with 1 2 show ?case by simp
qed simp

lemma emit_flush_lemma:
  assumes "Option.bind (Emit h l bs S) (Flush h l) = Some T"
  shows "same_out S T \<and> stream T = stream S @ bs \<and> OutBuf T = []"
proof -
  from assms obtain U where u: "Emit h l bs S = Some U" and f: "Flush h l U = Some T" by (auto simp: bind_eq_Some_conv)
  from Emit_lemma [OF u] Flush_lemma [OF f] same_out_trans show ?thesis by auto
qed

subsection \<open>The local mirror\<close>

text \<open>Every string handed to the local console fits the 128 cells of \<^verbatim>\<open>tmp\<close> with its terminator.\<close>

lemma mirror_step_fits: "length (fst s) < 120 \<Longrightarrow> length (fst (mirror_step l s b)) < 120"
  by (simp add: mirror_step_def Let_def)

lemma mirror_tmp_bound: "length tmp < 120 \<Longrightarrow> length (tmp @ mirror_cells b @ [0 :: u16]) \<le> 128"
  by (simp add: mirror_cells_def)

subsection \<open>A terminal\<close>

text \<open>
  The part of xterm the program uses: printable characters with a deferred wrap, the control
  characters, and control sequences, of which only cursor addressing moves the cursor. UTF-8
  continuation bytes belong to the character before them.
\<close>

datatype parse = Ground | GotEsc | Csi bytes

record vterm =
  tcol :: nat
  trow :: nat
  tpend :: bool
  tparse :: parse

definition csi_num :: "bytes \<Rightarrow> nat" where
  "csi_num ps = foldl (\<lambda>v d. v * 10 + (unat d - 48)) 0 ps"

text \<open>Cursor addressing; a missing parameter counts as 1.\<close>

definition term_address :: "nat \<Rightarrow> nat \<Rightarrow> bytes \<Rightarrow> vterm \<Rightarrow> vterm" where
  "term_address W H ps t =
     (let r = csi_num (takeWhile (\<lambda>b. b \<noteq> 59) ps); c = csi_num (tl (dropWhile (\<lambda>b. b \<noteq> 59) ps)) in
      t\<lparr>trow := min (H - 1) (r - 1), tcol := min (W - 1) (c - 1), tpend := False\<rparr>)"

definition term_down :: "nat \<Rightarrow> vterm \<Rightarrow> vterm" where
  "term_down H t = (if trow t + 1 < H then t\<lparr>trow := trow t + 1\<rparr> else t)"

definition term_print :: "nat \<Rightarrow> nat \<Rightarrow> vterm \<Rightarrow> vterm" where
  "term_print W H t =
     (let t = (if tpend t then term_down H (t\<lparr>tcol := 0, tpend := False\<rparr>) else t) in
      if W \<le> tcol t + 1 then t\<lparr>tcol := W - 1, tpend := True\<rparr> else t\<lparr>tcol := tcol t + 1\<rparr>)"

definition term_ground :: "nat \<Rightarrow> nat \<Rightarrow> byte \<Rightarrow> vterm \<Rightarrow> vterm" where
  "term_ground W H b t =
     (if b = 27 then t\<lparr>tparse := GotEsc\<rparr>
      else if b = 13 then t\<lparr>tcol := 0, tpend := False\<rparr>
      else if b = 10 then term_down H (t\<lparr>tpend := False\<rparr>)
      else if b = 8 then t\<lparr>tcol := tcol t - 1, tpend := False\<rparr>
      else if b = 9 then t\<lparr>tcol := min (W - 1) (tcol t div 8 * 8 + 8), tpend := False\<rparr>
      else if b < 0x20 \<or> b = 0x7F \<or> 0x80 \<le> b \<and> b < 0xC0 then t
      else term_print W H t)"

definition term_byte :: "nat \<Rightarrow> nat \<Rightarrow> vterm \<Rightarrow> byte \<Rightarrow> vterm" where
  "term_byte W H t b =
     (case tparse t of
        Ground \<Rightarrow> term_ground W H b t
      | GotEsc \<Rightarrow> (if b = 91 then t\<lparr>tparse := Csi []\<rparr> else t\<lparr>tparse := Ground\<rparr>)
      | Csi ps \<Rightarrow>
          if 0x40 \<le> b \<and> b \<le> 0x7E
          then (if b = 72 then term_address W H ps t else t)\<lparr>tparse := Ground\<rparr>
          else t\<lparr>tparse := Csi (ps @ [b])\<rparr>)"

definition term_run :: "nat \<Rightarrow> nat \<Rightarrow> bytes \<Rightarrow> vterm \<Rightarrow> vterm" where
  "term_run W H bs t = foldl (term_byte W H) t bs"

lemma term_run_append: "term_run W H (a @ b) t = term_run W H b (term_run W H a t)"
  by (simp add: term_run_def)

lemma term_run_Nil [simp]: "term_run W H [] t = t"
  by (simp add: term_run_def)

lemma term_run_Cons [simp]: "term_run W H (b # bs) t = term_run W H bs (term_byte W H t b)"
  by (simp add: term_run_def)

text \<open>A control sequence whose parameters hold no final byte.\<close>

lemma term_run_params:
  "tparse t = Csi ps \<Longrightarrow> list_all (\<lambda>b. b < 0x40) qs \<Longrightarrow> term_run W H qs t = t\<lparr>tparse := Csi (ps @ qs)\<rparr>"
proof (induction qs arbitrary: t ps)
  case (Cons q qs)
  have "\<not> 0x40 \<le> q" using Cons.prems(2) by (simp add: not_le)
  then have "term_byte W H t q = t\<lparr>tparse := Csi (ps @ [q])\<rparr>" using Cons.prems(1) by (simp add: term_byte_def)
  with Cons.IH [of "t\<lparr>tparse := Csi (ps @ [q])\<rparr>" "ps @ [q]"] Cons.prems(2) show ?case by simp
qed simp

lemma term_csi:
  assumes "tparse t = Ground" and "list_all (\<lambda>b. b < 0x40) ps" and "0x40 \<le> f" and "f \<le> 0x7E"
  shows "term_run W H (27 # 91 # ps @ [f]) t = (if f = 72 then term_address W H ps t else t)\<lparr>tparse := Ground\<rparr>"
proof -
  have 1: "term_byte W H (term_byte W H t 27) 91 = t\<lparr>tparse := Csi []\<rparr>"
    using assms(1) by (simp add: term_byte_def term_ground_def)
  have 2: "term_run W H ps (t\<lparr>tparse := Csi []\<rparr>) = t\<lparr>tparse := Csi ps\<rparr>"
    using term_run_params [OF _ assms(2), of "t\<lparr>tparse := Csi []\<rparr>" "[]"] by simp
  have 3: "term_address W H ps (t\<lparr>tparse := Csi ps\<rparr>) = (term_address W H ps t)\<lparr>tparse := Csi ps\<rparr>"
    by (simp add: term_address_def Let_def)
  show ?thesis using assms(3,4) 3 by (simp add: term_run_append 1 2) (simp add: term_byte_def)
qed

text \<open>Decimal numbers read back.\<close>

lemma unat_digit: "d < 10 \<Longrightarrow> unat (of_nat (48 + d) :: byte) = 48 + d"
  by (simp only: unat_of_nat) (simp add: take_bit_nat_eq_self_iff)

lemma num_bytes_digits: "list_all (\<lambda>b. 48 \<le> b \<and> b < 58) (num_bytes v)"
proof -
  have "48 \<le> (of_nat (48 + d) :: byte) \<and> (of_nat (48 + d) :: byte) < 58" if "d \<in> set (num_rev 10 v)" for d
  proof -
    have "d < 10" using that num_rev_lemma [of 10 v] by simp
    then show ?thesis using unat_digit [of d] by (simp only: word_le_nat_alt word_less_nat_alt) simp
  qed
  then show ?thesis by (auto simp: num_bytes_def list_all_iff)
qed

lemma csi_num_num_bytes: "csi_num (num_bytes v) = v"
proof -
  have d: "unat (of_nat (48 + d) :: byte) - 48 = d" if "d < 10" for d
    unfolding unat_digit [OF that] by simp
  have "csi_num (map (\<lambda>d. of_nat (48 + d)) (rev ds)) = num_val 10 ds" if "\<forall>d\<in>set ds. d < 10" for ds
    using that
  proof (induction ds)
    case Nil
    then show ?case by (simp add: csi_num_def num_val_def)
  next
    case (Cons x ds)
    have "unat (of_nat (48 + x) :: byte) - 48 = x" using d [of x] Cons.prems by simp
    with Cons show ?case by (simp add: csi_num_def num_val_def)
  qed
  then show ?thesis using num_rev_lemma [of 10 v] by (simp add: num_bytes_def)
qed

subsection \<open>UTF-8\<close>

lemma or_add: "x AND y = 0 \<Longrightarrow> x OR y = x + (y :: u16)"
  using word_plus_and_or [of x y] by simp

lemma low_part: "unat (x :: u16) < 2 ^ n \<Longrightarrow> x AND mask n = x"
proof -
  assume "unat x < 2 ^ n"
  then have "unat (take_bit n x) = unat x" by (simp add: unsigned_take_bit_eq take_bit_nat_eq_self)
  then have "take_bit n x = x" by (simp add: word_unat_eq_iff)
  then show ?thesis by (simp add: take_bit_eq_mask)
qed

lemma unat_and_63_16: "unat (x AND 0x3F :: u16) = unat x mod 64"
proof -
  have w: "x AND 0x3F = take_bit 6 x" by (simp add: take_bit_eq_mask mask_eq_exp_minus_1)
  show ?thesis unfolding w by (simp only: unsigned_take_bit_eq) (simp add: take_bit_eq_mod)
qed

lemma unat_byte_cast: "unat (ucast (x :: u16) :: byte) = unat x mod 256"
  by (simp add: unsigned_ucast_eq take_bit_eq_mod)

lemma cont_byte: "unat (ucast (0x80 OR (x AND 0x3F) :: u16) :: byte) = 128 + unat x mod 64"
proof -
  have "0x80 AND (x AND 0x3F) = x AND (0x80 AND 0x3F)" by (rule and.left_commute)
  then have o: "0x80 OR (x AND 0x3F) = 0x80 + (x AND 0x3F)" by (intro or_add) simp
  have "unat (0x80 + (x AND 0x3F)) = 128 + unat x mod 64"
    by (simp add: unat_word_ariths unat_and_63_16)
  then show ?thesis unfolding unat_byte_cast o by simp
qed

lemma lead_byte:
  assumes "unat (x :: u16) < 2 ^ n" and "a AND mask n = 0" and "unat a + 2 ^ n \<le> 256"
  shows "unat (ucast (a OR x) :: byte) = unat a + unat x"
proof -
  have "a AND x = a AND (x AND mask n)" using low_part [OF assms(1)] by simp
  also have "\<dots> = x AND (a AND mask n)" by (rule and.left_commute)
  finally have o: "a OR x = a + x" using assms(2) by (intro or_add) simp
  have "unat (a + x) = unat a + unat x" using assms(1,3) by (simp add: unat_word_ariths)
  then show ?thesis unfolding unat_byte_cast o using assms(1,3) by simp
qed

lemma utf8_unat:
  "map unat (utf8_bytes c) = (if unat c < 128 then [unat c]
     else if unat c < 2048 then [192 + unat c div 64, 128 + unat c mod 64]
     else [224 + unat c div 4096, 128 + unat c div 64 mod 64, 128 + unat c mod 64])"
proof -
  have d: "unat (drop_bit 6 c) = unat c div 64" "unat (drop_bit 12 c) = unat c div 4096"
    by (simp_all only: unat_drop_bit_eq) (simp_all add: drop_bit_eq_div)
  have lt: "c < 0x80 \<longleftrightarrow> unat c < 128" "c < 0x800 \<longleftrightarrow> unat c < 2048" by (simp_all add: word_less_nat_alt)
  have c: "unat c < 65536" using unsigned_less [of c] by simp
  have 2: "unat (ucast (0xC0 OR drop_bit 6 c) :: byte) = 192 + unat c div 64" if "unat c < 2048"
    using lead_byte [of "drop_bit 6 c" 5 "0xC0"] that d(1) by (simp add: mask_eq_exp_minus_1)
  have 3: "unat (ucast (0xE0 OR drop_bit 12 c) :: byte) = 224 + unat c div 4096"
    using lead_byte [of "drop_bit 12 c" 4 "0xE0"] c d(2) by (simp add: mask_eq_exp_minus_1)
  show ?thesis using 2 3 cont_byte [of c] cont_byte [of "drop_bit 6 c"] d(1) c
    by (auto simp: utf8_bytes_def lt unat_byte_cast)
qed

subsection \<open>The cursor and the terminal\<close>

text \<open>
  The terminal that has read everything sent is idle and its cursor is the one the shim reports;
  both are inside the window.
\<close>

definition agrees :: "nat \<Rightarrow> nat \<Rightarrow> vterm \<Rightarrow> 'w shim \<Rightarrow> bool" where
  "agrees W H t S \<longleftrightarrow> Cols S = W \<and> Rows S = H \<and> 2 \<le> W \<and> CursorColumn S < W \<and> CursorRow S < H \<and>
     (PendingWrap S \<longrightarrow> CursorColumn S = W - 1) \<and> tparse t = Ground \<and> tcol t = CursorColumn S \<and>
     trow t = CursorRow S \<and> tpend t = PendingWrap S"

definition sync :: "nat \<Rightarrow> nat \<Rightarrow> vterm \<Rightarrow> 'w shim \<Rightarrow> bool" where
  "sync W H t0 S \<longleftrightarrow> agrees W H (term_run W H (stream S) t0) S"

lemma agrees_same: "same_out S T \<Longrightarrow> agrees W H t T = agrees W H t S"
  using same_outD [of S T] by (simp add: agrees_def)

text \<open>Characters a terminal does not take as a control function of its own.\<close>

definition plain_char :: "u16 \<Rightarrow> bool" where
  "plain_char c \<longleftrightarrow> c \<noteq> 27 \<and> c \<noteq> 0x7F \<and> \<not> (0x80 \<le> c \<and> c < 0xA0)"

lemma term_continuation:
  "tparse t = Ground \<Longrightarrow> 128 \<le> unat b \<Longrightarrow> unat b < 192 \<Longrightarrow> term_byte W H t b = t"
  by (auto simp: term_byte_def term_ground_def word_less_nat_alt word_le_nat_alt)

lemma term_printable:
  "tparse t = Ground \<Longrightarrow> 32 \<le> unat b \<Longrightarrow> unat b < 127 \<or> 192 \<le> unat b \<Longrightarrow> term_byte W H t b = term_print W H t"
  by (auto simp: term_byte_def term_ground_def word_less_nat_alt word_le_nat_alt)

lemma term_print_ground [simp]: "tparse (term_print W H t) = tparse t"
  by (simp add: term_print_def term_down_def Let_def)

lemma term_run_utf8:
  assumes "tparse t = Ground" and "0x20 \<le> c" and "c \<noteq> 0x7F"
  shows "term_run W H (utf8_bytes c) t = term_print W H t"
proof -
  have c: "32 \<le> unat c" "unat c \<noteq> 127"
    using assms(2,3) by (simp_all add: word_le_nat_alt word_unat_eq_iff)
  have u: "map unat (utf8_bytes c) = (if unat c < 128 then [unat c]
     else if unat c < 2048 then [192 + unat c div 64, 128 + unat c mod 64]
     else [224 + unat c div 4096, 128 + unat c div 64 mod 64, 128 + unat c mod 64])" by (rule utf8_unat)
  have k: "term_byte W H (term_print W H t) b = term_print W H t" if "128 \<le> unat b" "unat b < 192" for b
    using term_continuation that assms(1) by simp
  have m: "m mod 64 < 64" for m :: nat by simp
  consider (1) "unat c < 128" | (2) "128 \<le> unat c" "unat c < 2048" | (3) "2048 \<le> unat c" by linarith
  then show ?thesis
  proof cases
    case 1
    with u obtain b where "utf8_bytes c = [b]" "unat b = unat c" by auto
    with term_printable [OF assms(1), of b] c 1 show ?thesis by simp
  next
    case 2
    with u obtain a b where "utf8_bytes c = [a, b]" "unat a = 192 + unat c div 64" "unat b = 128 + unat c mod 64" by auto
    with term_printable [OF assms(1), of a] k [of b] m [of "unat c"] show ?thesis by simp
  next
    case 3
    with u obtain a b d where "utf8_bytes c = [a, b, d]" "unat a = 224 + unat c div 4096"
      "unat b = 128 + unat c div 64 mod 64" "unat d = 128 + unat c mod 64" by auto
    with term_printable [OF assms(1), of a] k [of b] k [of d] m [of "unat c"] m [of "unat c div 64"] show ?thesis by simp
  qed
qed

text \<open>Any update of the shim that leaves the stream alone and moves the cursor as the bytes do.\<close>

lemma agrees_moved:
  assumes "agrees W H t S" and "same_out S T" and "stream T = stream S @ bs" and "sync W H t0 S"
  shows "agrees W H (term_run W H (stream S) t0) T"
  using agrees_same [OF assms(2)] assms(4) by (simp add: sync_def)

lemma sync_emit:
  assumes "sync W H t0 S" and "Emit h l bs S = Some T"
    and "\<And>t. agrees W H t S \<Longrightarrow> agrees W H (term_run W H bs t) (f S)"
    and "same_out (f S) (f T)" and "stream (f T) = stream T"
  shows "sync W H t0 (f T)"
proof -
  have "stream (f T) = stream S @ bs" using Emit_lemma [OF assms(2)] assms(5) by simp
  then show ?thesis
    using assms(1) assms(3) [of "term_run W H (stream S) t0"] agrees_same [OF assms(4)]
    by (simp add: sync_def term_run_append)
qed

lemma same_out_update:
  assumes "same_out S T"
  shows "same_out (S\<lparr>CursorColumn := a, PendingWrap := p\<rparr>) (T\<lparr>CursorColumn := a, PendingWrap := p\<rparr>)"
    "same_out (S\<lparr>PendingWrap := p\<rparr>) (T\<lparr>PendingWrap := p\<rparr>)"
    "same_out (S\<lparr>CursorColumn := a\<rparr>) (T\<lparr>CursorColumn := a\<rparr>)"
    "same_out (RowDown S) (RowDown T)" "same_out (tab_stop S) (tab_stop T)" "same_out (advance S) (advance T)"
proof -
  obtain x y z u where t: "T = S\<lparr>Ssh := x, Disconnected := y, OutBuf := z, outLog := u\<rparr>"
    using assms unfolding same_out_def by blast
  show "same_out (S\<lparr>CursorColumn := a, PendingWrap := p\<rparr>) (T\<lparr>CursorColumn := a, PendingWrap := p\<rparr>)"
    "same_out (S\<lparr>PendingWrap := p\<rparr>) (T\<lparr>PendingWrap := p\<rparr>)"
    "same_out (S\<lparr>CursorColumn := a\<rparr>) (T\<lparr>CursorColumn := a\<rparr>)"
    "same_out (RowDown S) (RowDown T)" "same_out (tab_stop S) (tab_stop T)" "same_out (advance S) (advance T)"
    by (simp_all add: t same_out_def RowDown_def tab_stop_def advance_def Let_def)
qed

lemma stream_updates [simp]:
  "stream (S\<lparr>CursorColumn := a\<rparr>) = stream S" "stream (S\<lparr>CursorRow := a\<rparr>) = stream S"
  "stream (S\<lparr>PendingWrap := p\<rparr>) = stream S" "stream (S\<lparr>Attribute := a\<rparr>) = stream S"
  "stream (S\<lparr>CursorVisible := p\<rparr>) = stream S" "stream (S\<lparr>Ssh := c\<rparr>) = stream S"
  "stream (S\<lparr>Disconnected := p\<rparr>) = stream S" "stream (S\<lparr>OutPoll := a\<rparr>) = stream S" "stream (S\<lparr>ModeNum := a\<rparr>) = stream S"
  by (simp_all add: stream_def)

lemma stream_moves [simp]:
  "stream (RowDown S) = stream S" "stream (tab_stop S) = stream S" "stream (advance S) = stream S" "stream (wrap_now S) = stream S"
  by (simp_all add: stream_def RowDown_def tab_stop_def advance_def wrap_now_def Let_def)

lemma Emit_single: "Emit h l [b] S = EmitByte h l b S"
  by (cases "EmitByte h l b S") simp_all

lemma sync_linefeed:
  assumes "sync W H t0 S" and "Emit h l [13, 10] S = Some T"
  shows "sync W H t0 (RowDown (T\<lparr>CursorColumn := 0, PendingWrap := False\<rparr>))"
proof (rule sync_emit [OF assms, where f = "\<lambda>S. RowDown (S\<lparr>CursorColumn := 0, PendingWrap := False\<rparr>)"])
  fix t assume "agrees W H t S"
  then show "agrees W H (term_run W H [13, 10] t) (RowDown (S\<lparr>CursorColumn := 0, PendingWrap := False\<rparr>))"
    by (auto simp: agrees_def term_byte_def term_ground_def term_down_def RowDown_def)
next
  have "same_out S T" using Emit_lemma [OF assms(2)] by simp
  then show "same_out (RowDown (S\<lparr>CursorColumn := 0, PendingWrap := False\<rparr>)) (RowDown (T\<lparr>CursorColumn := 0, PendingWrap := False\<rparr>))"
    by (intro same_out_update)
qed simp

lemma sync_return:
  assumes "sync W H t0 S" and "EmitByte h l 13 S = Some T"
  shows "sync W H t0 (T\<lparr>CursorColumn := 0, PendingWrap := False\<rparr>)"
proof (rule sync_emit [OF assms(1), where f = "\<lambda>S. S\<lparr>CursorColumn := 0, PendingWrap := False\<rparr>"])
  show "Emit h l [13] S = Some T" by (simp only: Emit_single assms(2))
  fix t assume "agrees W H t S"
  then show "agrees W H (term_run W H [13] t) (S\<lparr>CursorColumn := 0, PendingWrap := False\<rparr>)"
    by (auto simp: agrees_def term_byte_def term_ground_def)
next
  have "same_out S T" using EmitByte_lemma [OF assms(2)] by simp
  then show "same_out (S\<lparr>CursorColumn := 0, PendingWrap := False\<rparr>) (T\<lparr>CursorColumn := 0, PendingWrap := False\<rparr>)"
    by (intro same_out_update)
qed simp

lemma sync_backspace:
  assumes "sync W H t0 S" and "EmitByte h l 8 (S\<lparr>CursorColumn := CursorColumn S - 1\<rparr>) = Some T" and "0 < CursorColumn S"
  shows "sync W H t0 (T\<lparr>PendingWrap := False\<rparr>)"
proof -
  let ?S = "S\<lparr>CursorColumn := CursorColumn S - 1\<rparr>"
  note e = EmitByte_lemma [OF assms(2)]
  have "same_out (?S\<lparr>PendingWrap := False\<rparr>) (T\<lparr>PendingWrap := False\<rparr>)" using e by (intro same_out_update) simp
  then have a: "agrees W H t (T\<lparr>PendingWrap := False\<rparr>) = agrees W H t (?S\<lparr>PendingWrap := False\<rparr>)" for t
    by (rule agrees_same)
  have "agrees W H (term_run W H [8] t) (?S\<lparr>PendingWrap := False\<rparr>)" if "agrees W H t S" for t
    using that by (auto simp: agrees_def term_byte_def term_ground_def)
  then show ?thesis using assms(1) e by (simp add: sync_def a term_run_append)
qed

lemma sync_backspace_edge:
  assumes "sync W H t0 S" and "\<not> 0 < CursorColumn S"
  shows "sync W H t0 (S\<lparr>PendingWrap := False\<rparr>)"
  using assms by (auto simp: sync_def agrees_def)

lemma sync_tab:
  assumes "sync W H t0 S" and "EmitByte h l 9 S = Some T"
  shows "sync W H t0 (tab_stop T)"
proof (rule sync_emit [OF assms(1), where f = tab_stop])
  show "Emit h l [9] S = Some T" by (simp only: Emit_single assms(2))
  fix t assume "agrees W H t S"
  then show "agrees W H (term_run W H [9] t) (tab_stop S)"
    by (auto simp: agrees_def term_byte_def term_ground_def tab_stop_def Let_def min_def)
next
  show "same_out (tab_stop S) (tab_stop T)" using EmitByte_lemma [OF assms(2)] by (intro same_out_update) simp
qed simp

lemma sync_control:
  assumes "sync W H t0 S" and "EmitByte h l (ucast (c :: u16)) S = Some T" and "c < 0x20" and "c \<noteq> 8" "c \<noteq> 9" "c \<noteq> 10" "c \<noteq> 13" "c \<noteq> 27"
  shows "sync W H t0 T"
proof (rule sync_emit [OF assms(1), where f = "\<lambda>S. S"])
  show "Emit h l [ucast c] S = Some T" by (simp only: Emit_single assms(2))
  have u: "unat (ucast c :: byte) = unat c" using assms(3) by (simp add: unat_byte_cast word_less_nat_alt)
  fix t assume a: "agrees W H t S"
  have "term_byte W H t (ucast c) = t"
    using a assms(3-) u by (simp add: agrees_def term_byte_def term_ground_def word_less_nat_alt word_unat_eq_iff)
  then show "agrees W H (term_run W H [ucast c] t) S" using a by simp
qed (use EmitByte_lemma [OF assms(2)] in simp_all)

lemma agrees_print: "agrees W H t S \<Longrightarrow> agrees W H (term_print W H t) (advance (wrap_now S))"
  by (auto simp: agrees_def term_print_def term_down_def advance_def wrap_now_def RowDown_def Let_def)

lemma sync_print:
  assumes "sync W H t0 S" and "EmitUtf8 h l c (wrap_now S) = Some T" and "0x20 \<le> c" and "c \<noteq> 0x7F"
  shows "sync W H t0 (advance T)"
proof -
  have e: "same_out (wrap_now S) T \<and> stream T = stream S @ utf8_bytes c"
    using Emit_lemma [OF assms(2) [unfolded EmitUtf8_def]] by simp
  then have "same_out (advance (wrap_now S)) (advance T)" by (intro same_out_update) simp
  then have a: "agrees W H t (advance T) = agrees W H t (advance (wrap_now S))" for t by (rule agrees_same)
  have "tparse (term_run W H (stream S) t0) = Ground" using assms(1) by (simp add: sync_def agrees_def)
  from term_run_utf8 [OF this assms(3,4)] show ?thesis
    using assms(1) e agrees_print by (simp add: sync_def a term_run_append)
qed

lemma sync_out_char:
  assumes "sync W H t0 S" and "out_char h l c S = Some T" and "plain_char c"
  shows "sync W H t0 T"
proof -
  consider "c = CHAR_LINEFEED" | "c = CHAR_CARRIAGE_RETURN" | "c = CHAR_BACKSPACE" | "c = CHAR_TAB"
    | "c \<noteq> CHAR_LINEFEED" "c \<noteq> CHAR_CARRIAGE_RETURN" "c \<noteq> CHAR_BACKSPACE" "c \<noteq> CHAR_TAB" "c < 0x20"
    | "c \<noteq> CHAR_LINEFEED" "c \<noteq> CHAR_CARRIAGE_RETURN" "c \<noteq> CHAR_BACKSPACE" "c \<noteq> CHAR_TAB" "0x20 \<le> c"
    by (meson not_le)
  then show ?thesis
  proof cases
    case 1
    with assms(2) sync_linefeed [OF assms(1)] show ?thesis by (auto simp: out_char_def simp del: Emit.simps)
  next
    case 2
    with assms(2) sync_return [OF assms(1)] show ?thesis by (auto simp: out_char_def char_defs)
  next
    case 3
    with assms(2) sync_backspace [OF assms(1)] sync_backspace_edge [OF assms(1)] show ?thesis
      by (auto simp: out_char_def char_defs split: if_splits)
  next
    case 4
    with assms(2) sync_tab [OF assms(1)] show ?thesis by (auto simp: out_char_def char_defs)
  next
    case 5
    then have "EmitByte h l (ucast c) S = Some T" using assms(2) by (simp add: out_char_def)
    from sync_control [OF assms(1) this] 5 assms(3) show ?thesis by (simp add: char_defs plain_char_def)
  next
    case 6
    then obtain U where "EmitUtf8 h l c (wrap_now S) = Some U" "T = advance U"
      using assms(2) by (auto simp: out_char_def not_less [symmetric])
    with sync_print [OF assms(1)] 6 assms(3) show ?thesis by (simp add: plain_char_def)
  qed
qed

lemma sync_out_chars:
  "out_chars h l cs S = Some T \<Longrightarrow> sync W H t0 S \<Longrightarrow> list_all plain_char cs \<Longrightarrow> sync W H t0 T"
proof (induction cs arbitrary: S)
  case (Cons c cs)
  from Cons.prems(1) obtain U where "out_char h l c S = Some U" "out_chars h l cs U = Some T"
    by (auto simp: bind_eq_Some_conv)
  with Cons sync_out_char [of W H t0 S h l c U] show ?case by simp
qed simp

subsection \<open>The whole protocol\<close>

lemma out_poll_frame:
  assumes "out_poll h S = Some T"
  shows "\<exists>n c d. T = S\<lparr>OutPoll := n, Ssh := c, Disconnected := d\<rparr>"
proof -
  have f: "\<exists>n c d. X = S\<lparr>OutPoll := n, Ssh := c, Disconnected := d\<rparr>"
    if "X = S\<lparr>OutPoll := n0\<rparr> \<or> (\<exists>c. X = S\<lparr>OutPoll := n0, Ssh := c\<rparr>) \<or> (\<exists>c. X = S\<lparr>OutPoll := n0, Ssh := c, Disconnected := True\<rparr>)"
    for X n0
    using that by (cases S) auto
  show ?thesis
  proof (cases "OutPoll (S\<lparr>OutPoll := OutPoll S + 1\<rparr>) mod 16 = 0 \<and> \<not> Disconnected S")
    case True
    with assms have "(\<exists>c. T = S\<lparr>OutPoll := OutPoll S + 1, Ssh := c\<rparr>) \<or>
        (\<exists>c. T = S\<lparr>OutPoll := OutPoll S + 1, Ssh := c, Disconnected := True\<rparr>)"
      by (auto simp: out_poll_def Let_def split: if_splits)
    then show ?thesis by (intro f [of T "OutPoll S + 1"]) blast
  next
    case False
    with assms have "T = S\<lparr>OutPoll := OutPoll S + 1\<rparr>" by (auto simp: out_poll_def Let_def)
    then show ?thesis by (intro f [of T "OutPoll S + 1"]) simp
  qed
qed

lemma out_poll_sync:
  assumes "out_poll h S = Some T" and "sync W H t0 S"
  shows "sync W H t0 T"
proof -
  obtain n c d where "T = S\<lparr>OutPoll := n, Ssh := c, Disconnected := d\<rparr>" using out_poll_frame [OF assms(1)] by blast
  with assms(2) show ?thesis by (simp add: sync_def agrees_def)
qed

lemma sync_flush: "Flush h l S = Some T \<Longrightarrow> sync W H t0 S \<Longrightarrow> sync W H t0 T"
  using Flush_lemma [of h l S T] agrees_same [of S T] by (simp add: sync_def)

lemma ShimOutputString_sync:
  assumes "ShimOutputString h l s S = Some (st, T)" and "sync W H t0 S" and "list_all plain_char s"
  shows "sync W H t0 T"
proof -
  from assms(1) obtain U V where "out_poll h S = Some U" "out_chars h l s U = Some V" "Flush h l V = Some T"
    by (auto simp: ShimOutputString_def bind_eq_Some_conv)
  then show ?thesis using sync_flush [OF _ sync_out_chars [OF _ out_poll_sync [OF _ assms(2)] assms(3)]] by simp
qed

text \<open>A cursor-neutral sequence.\<close>

lemma sync_neutral:
  assumes "sync W H t0 S" and "Option.bind (Emit h l bs S') (Flush h l) = Some T"
    and "\<And>t. tparse t = Ground \<Longrightarrow> term_run W H bs t = t" and "stream S' = stream S"
    and "\<And>t. agrees W H t S' = agrees W H t S"
  shows "sync W H t0 T"
proof -
  note e = emit_flush_lemma [OF assms(2)]
  have "tparse (term_run W H (stream S) t0) = Ground" using assms(1) by (simp add: sync_def agrees_def)
  then have "term_run W H (stream T) t0 = term_run W H (stream S) t0"
    using e assms(3,4) by (simp add: term_run_append)
  then show ?thesis using e assms(1,5) agrees_same [of S' T] by (simp add: sync_def)
qed

lemma term_csi_neutral:
  "tparse t = Ground \<Longrightarrow> list_all (\<lambda>b. b < 0x40) ps \<Longrightarrow> 0x40 \<le> f \<Longrightarrow> f \<le> 0x7E \<Longrightarrow> f \<noteq> 72 \<Longrightarrow>
   term_run W H (27 # 91 # ps @ [f]) t = t"
  using term_csi [of t ps f W H] by simp

lemma num_bytes_params: "list_all (\<lambda>b. b < 0x40) (num_bytes v)"
  using num_bytes_digits [of v] by (auto simp: list_all_iff word_less_nat_alt word_le_nat_alt)

lemma attr_seq_csi: "\<exists>ps. attr_seq a = 27 # 91 # ps @ [109] \<and> list_all (\<lambda>b. b < 0x40) ps"
  by (rule exI [of _ "48 # 59 # num_bytes ((if a div 8 mod 2 \<noteq> 0 then 90 else 30) + efiToAnsi ! (a mod 8)) @ [59]
     @ num_bytes (40 + efiToAnsi ! (a div 16 mod 8))"]) (use num_bytes_params in \<open>simp add: attr_seq_def\<close>)

lemma ShimSetAttribute_sync:
  assumes "ShimSetAttribute h l a S = Some (st, T)" and "sync W H t0 S"
  shows "sync W H t0 T"
proof (cases "0x7F < a")
  case True
  with assms show ?thesis by (simp add: ShimSetAttribute_def)
next
  case False
  then have "Option.bind (Emit h l (attr_seq a) (S\<lparr>Attribute := a\<rparr>)) (Flush h l) = Some T"
    using assms(1) by (auto simp: ShimSetAttribute_def)
  then show ?thesis
  proof (rule sync_neutral [OF assms(2)])
    obtain ps where "attr_seq a = 27 # 91 # ps @ [109]" "list_all (\<lambda>b. b < 0x40) ps" using attr_seq_csi by blast
    then show "term_run W H (attr_seq a) t = t" if "tparse t = Ground" for t
      using that term_csi_neutral [of t ps 109] by simp
  qed (simp_all add: agrees_def)
qed

lemma ShimEnableCursor_sync:
  assumes "ShimEnableCursor h l v S = Some (st, T)" and "sync W H t0 S"
  shows "sync W H t0 T"
proof -
  let ?q = "0x1B # bytes_of (if v then ''[?25h'' else ''[?25l'')"
  have "Option.bind (Emit h l ?q (S\<lparr>CursorVisible := v\<rparr>)) (Flush h l) = Some T"
    using assms(1) by (auto simp: ShimEnableCursor_def)
  then show ?thesis
  proof (rule sync_neutral [OF assms(2)])
    have "?q = 27 # 91 # [63, 50, 53] @ [if v then 104 else 108]" by simp
    then show "term_run W H ?q t = t" if "tparse t = Ground" for t
      using that term_csi_neutral [of t "[63, 50, 53]" "if v then 104 else 108" W H] by (simp split: if_splits)
  qed (simp_all add: agrees_def)
qed

text \<open>Clearing brings shim and terminal together, whatever the cursor was.\<close>

lemma term_run_clear:
  assumes "tparse t = Ground"
  shows "term_run W H clear_seq t = t\<lparr>tcol := 0, trow := 0, tpend := False\<rparr>"
proof -
  have c: "clear_seq = (27 # 91 # [50] @ [74]) @ (27 # 91 # [] @ [72])" by (simp add: clear_seq_def)
  show ?thesis
    unfolding c term_run_append term_csi_neutral [OF assms, of "[50]" 74, simplified]
    using term_csi [OF assms, of "[]" 72 W H] assms
    by (simp add: term_address_def csi_num_def term_csi_neutral [OF assms, of "[50]" 74, simplified])
qed

lemma ShimClearScreen_sync:
  assumes "ShimClearScreen h l S = Some (st, T)" and "tparse (term_run (Cols S) (Rows S) (stream S) t0) = Ground"
    and "2 \<le> Cols S" and "0 < Rows S"
  shows "sync (Cols S) (Rows S) t0 T"
proof -
  from assms(1) obtain U where u: "Emit h l clear_seq S = Some U"
    and f: "Flush h l (U\<lparr>CursorColumn := 0, CursorRow := 0, PendingWrap := False\<rparr>) = Some T"
    by (auto simp: ShimClearScreen_def bind_eq_Some_conv)
  note e = Emit_lemma [OF u] and g = Flush_lemma [OF f]
  have "Cols U = Cols S" "Rows U = Rows S" using e same_outD by auto
  then have "agrees (Cols S) (Rows S) (term_run (Cols S) (Rows S) (stream U) t0) (U\<lparr>CursorColumn := 0, CursorRow := 0, PendingWrap := False\<rparr>)"
    using e assms(2-4) term_run_clear [OF assms(2)] by (simp add: agrees_def term_run_append)
  then show ?thesis using g agrees_same [of "U\<lparr>CursorColumn := 0, CursorRow := 0, PendingWrap := False\<rparr>" T] by (simp add: sync_def)
qed

lemma cursor_seq_csi:
  "cursor_seq col row = 27 # 91 # (num_bytes (row + 1) @ 59 # num_bytes (col + 1)) @ [72]"
  by (simp add: cursor_seq_def)

lemma term_address_num:
  "term_address W H (num_bytes r @ 59 # num_bytes c) t = t\<lparr>trow := min (H - 1) (r - 1), tcol := min (W - 1) (c - 1), tpend := False\<rparr>"
proof -
  have "b \<noteq> 59" if "b \<in> set (num_bytes r)" for b
    using num_bytes_digits [of r] that by (auto simp: list_all_iff)
  then have "takeWhile (\<lambda>b. b \<noteq> 59) (num_bytes r @ 59 # num_bytes c) = num_bytes r"
    "dropWhile (\<lambda>b. b \<noteq> 59) (num_bytes r @ 59 # num_bytes c) = 59 # num_bytes c"
    by (simp_all add: takeWhile_append dropWhile_append)
  then show ?thesis by (simp add: term_address_def csi_num_num_bytes)
qed

lemma ShimSetCursor_sync:
  assumes "ShimSetCursor h l col row S = Some (st, T)" and "sync W H t0 S"
  shows "sync W H t0 T \<and> (st = EFI_SUCCESS \<longrightarrow> CursorColumn T = col \<and> CursorRow T = row)"
proof (cases "Cols S \<le> col \<or> Rows S \<le> row")
  case True
  with assms show ?thesis by (auto simp: ShimSetCursor_def efi_status_defs)
next
  case False
  let ?S = "S\<lparr>CursorColumn := col, CursorRow := row, PendingWrap := False\<rparr>"
  let ?ps = "num_bytes (row + 1) @ 59 # num_bytes (col + 1)"
  have b: "Option.bind (Emit h l (cursor_seq col row) ?S) (Flush h l) = Some T"
    using assms(1) False by (auto simp: ShimSetCursor_def)
  note e = emit_flush_lemma [OF b]
  let ?t = "term_run W H (stream S) t0"
  have a: "agrees W H ?t S" using assms(2) by (simp add: sync_def)
  have p: "list_all (\<lambda>b. b < 0x40) ?ps" using num_bytes_params by simp
  have "term_run W H (cursor_seq col row) ?t = ?t\<lparr>trow := row, tcol := col, tpend := False\<rparr>"
  proof -
    have m: "min (H - 1) (row + 1 - 1) = row" "min (W - 1) (col + 1 - 1) = col" "tparse ?t = Ground"
      using a False by (auto simp: agrees_def)
    show ?thesis
      unfolding cursor_seq_csi using term_csi [OF m(3) p, of 72 W H] unfolding term_address_num m(1,2) using m(3) by simp
  qed
  then have "agrees W H (term_run W H (cursor_seq col row) ?t) ?S" using a False by (simp add: agrees_def)
  then have "sync W H t0 T" using e agrees_same [of ?S T] by (simp add: sync_def term_run_append)
  moreover have "CursorColumn T = col \<and> CursorRow T = row" using e same_outD(1,2) [of ?S T] by simp
  ultimately show ?thesis by simp
qed

lemma ShimOutReset_sync:
  assumes "ShimOutReset h l S = Some (st, T)" and "sync W H t0 S"
  shows "sync W H t0 T"
proof -
  let ?q = "0x1B # bytes_of ''[0m'' @ 0x1B # bytes_of ''[?25h''"
  from assms(1) obtain U where u: "Option.bind (Emit h l ?q (S\<lparr>Attribute := 0x07, CursorVisible := True\<rparr>)) (Flush h l) = Some U"
    and c: "ShimClearScreen h l U = Some (st, T)" by (auto simp: ShimOutReset_def bind_eq_Some_conv)
  have q: "?q = (27 # 91 # [48] @ [109]) @ (27 # 91 # [63, 50, 53] @ [104])" by simp
  have "sync W H t0 U"
  proof (rule sync_neutral [OF assms(2) u])
    show "term_run W H ?q t = t" if "tparse t = Ground" for t
      unfolding q term_run_append
      using term_csi_neutral [OF that, of "[48]" 109 W H] term_csi_neutral [OF that, of "[63, 50, 53]" 104 W H] by simp
  qed (simp_all add: agrees_def)
  then show ?thesis using ShimClearScreen_sync [OF c] by (auto simp: sync_def agrees_def)
qed

text \<open>The calls of the text output protocol, other than a change of the window size.\<close>

inductive out_step :: "'w host \<Rightarrow> 'w console \<Rightarrow> 'w shim \<Rightarrow> 'w shim \<Rightarrow> bool" for h l where
  out_string: "ShimOutputString h l s S = Some (st, T) \<Longrightarrow> list_all plain_char s \<Longrightarrow> out_step h l S T"
| out_attr: "ShimSetAttribute h l a S = Some (st, T) \<Longrightarrow> out_step h l S T"
| out_cursor: "ShimSetCursor h l col row S = Some (st, T) \<Longrightarrow> out_step h l S T"
| out_enable: "ShimEnableCursor h l v S = Some (st, T) \<Longrightarrow> out_step h l S T"
| out_clear: "ShimClearScreen h l S = Some (st, T) \<Longrightarrow> out_step h l S T"
| out_reset: "ShimOutReset h l S = Some (st, T) \<Longrightarrow> out_step h l S T"

lemma out_step_sync:
  assumes "out_step h l S T" and "sync W H t0 S"
  shows "sync W H t0 T"
  using assms(1)
proof (cases rule: out_step.cases)
  case (out_string s st)
  then show ?thesis using ShimOutputString_sync assms(2) by blast
next
  case (out_attr a st)
  then show ?thesis using ShimSetAttribute_sync assms(2) by blast
next
  case (out_cursor col row st)
  then show ?thesis using ShimSetCursor_sync assms(2) by blast
next
  case (out_enable v st)
  then show ?thesis using ShimEnableCursor_sync assms(2) by blast
next
  case (out_clear st)
  then show ?thesis using ShimClearScreen_sync [of h l S st T t0] assms(2) by (auto simp: sync_def agrees_def)
next
  case (out_reset st)
  then show ?thesis using ShimOutReset_sync assms(2) by blast
qed

text \<open>Without a client nothing is sent, so emitting always returns.\<close>

lemma Flush_disconnected: "Disconnected S \<Longrightarrow> \<exists>T. Flush h l S = Some T \<and> Disconnected T"
  by (simp add: Flush_def flush_ssh_def flush_local_def)

lemma Emit_disconnected: "Disconnected S \<Longrightarrow> \<exists>T. Emit h l bs S = Some T \<and> Disconnected T"
proof (induction bs arbitrary: S)
  case (Cons b bs)
  obtain U where "Flush h l S = Some U" "Disconnected U" using Flush_disconnected [OF Cons.prems] by blast
  then have "\<exists>V. EmitByte h l b S = Some V \<and> Disconnected V" using Cons.prems by (simp add: EmitByte_def)
  then obtain V where "EmitByte h l b S = Some V" "Disconnected V" by blast
  with Cons.IH show ?case by simp
qed simp

lemma out_string_utf8:
  "out_chars h l cs S = Some T \<Longrightarrow> list_all (\<lambda>c. 0x20 \<le> c) cs \<Longrightarrow>
   stream T = stream S @ concat (map utf8_bytes cs) \<and>
   (length (OutBuf S) \<le> SHIM_OUT_BUF \<longrightarrow> length (OutBuf T) \<le> SHIM_OUT_BUF)"
proof (induction cs arbitrary: S)
  case (Cons c cs)
  from Cons.prems obtain U where u: "out_char h l c S = Some U" "out_chars h l cs U = Some T"
    by (auto simp: bind_eq_Some_conv)
  have c: "\<not> c < 0x20" "c \<notin> {CHAR_LINEFEED, CHAR_CARRIAGE_RETURN, CHAR_BACKSPACE, CHAR_TAB}"
    using Cons.prems(2) by (auto simp: char_defs)
  then obtain V where v: "Emit h l (utf8_bytes c) (wrap_now S) = Some V" "U = advance V"
    using u(1) by (auto simp: out_char_def EmitUtf8_def)
  have "OutBuf (wrap_now S) = OutBuf S" "OutBuf (advance V) = OutBuf V"
    by (simp_all add: wrap_now_def RowDown_def advance_def)
  with Emit_lemma [OF v(1)] v(2) Cons.IH [OF u(2)] Cons.prems(2) show ?case by simp
qed simp

lemma RowDown_below: "Rows S \<le> CursorRow S + 1 \<Longrightarrow> RowDown S = S"
  by (simp add: RowDown_def)

lemma out_char_row:
  assumes "out_char h l c S = Some T" and "Rows S \<le> CursorRow S + 1"
  shows "CursorRow T = CursorRow S \<and> Rows T = Rows S"
proof -
  have e: "CursorRow V = CursorRow U \<and> Rows V = Rows U" if "EmitByte h l b U = Some V" for b and U V :: "'a shim"
    using EmitByte_lemma [OF that] same_outD(2,5) by blast
  have e': "CursorRow V = CursorRow U \<and> Rows V = Rows U" if "Emit h l bs U = Some V" for bs and U V :: "'a shim"
    using Emit_lemma [OF that] same_outD(2,5) by blast
  have w: "CursorRow (wrap_now S) = CursorRow S \<and> Rows (wrap_now S) = Rows S"
    using assms(2) by (simp add: wrap_now_def RowDown_def)
  have a: "CursorRow (advance V) = CursorRow V \<and> Rows (advance V) = Rows V"
    "CursorRow (tab_stop V) = CursorRow V \<and> Rows (tab_stop V) = Rows V" for V :: "'a shim"
    by (simp_all add: advance_def tab_stop_def Let_def)
  consider "c = CHAR_LINEFEED" | "c = CHAR_CARRIAGE_RETURN" | "c = CHAR_BACKSPACE" | "c = CHAR_TAB"
    | "c \<noteq> CHAR_LINEFEED" "c \<noteq> CHAR_CARRIAGE_RETURN" "c \<noteq> CHAR_BACKSPACE" "c \<noteq> CHAR_TAB" by blast
  then show ?thesis
  proof cases
    case 1
    then obtain V where "Emit h l [13, 10] S = Some V" "T = RowDown (V\<lparr>CursorColumn := 0, PendingWrap := False\<rparr>)"
      using assms(1) by (auto simp: out_char_def simp del: Emit.simps)
    with e' [of "[13, 10]" S V] assms(2) show ?thesis by (simp add: RowDown_def del: Emit.simps)
  next
    case 2
    with assms(1) e [of 13 S] show ?thesis by (auto simp: out_char_def char_defs)
  next
    case 3
    with assms(1) e [of 8 "S\<lparr>CursorColumn := CursorColumn S - 1\<rparr>"] show ?thesis
      by (auto simp: out_char_def char_defs split: if_splits)
  next
    case 4
    with assms(1) e [of 9 S] a(2) show ?thesis by (auto simp: out_char_def char_defs)
  next
    case 5
    with assms(1) e [of "ucast c" S] e' [of "utf8_bytes c" "wrap_now S"] a(1) w show ?thesis
      by (auto simp: out_char_def EmitUtf8_def split: if_splits)
  qed
qed

lemma out_chars_row:
  "out_chars h l cs S = Some T \<Longrightarrow> Rows S \<le> CursorRow S + 1 \<Longrightarrow> CursorRow T = CursorRow S \<and> Rows T = Rows S"
proof (induction cs arbitrary: S)
  case (Cons c cs)
  then obtain U where "out_char h l c S = Some U" "out_chars h l cs U = Some T" by (auto simp: bind_eq_Some_conv)
  with Cons out_char_row [of h l c S U] show ?case by simp
qed simp

subsection \<open>Properties\<close>


definition sample_shim :: "sample_world shim" where
  "sample_shim = (shim_zero sample_new)\<lparr>Cols := 80, Rows := 25, Disconnected := True\<rparr>"

definition sample_term :: vterm where
  "sample_term = \<lparr>tcol = 0, trow = 0, tpend = False, tparse = Ground\<rparr>"

lemma sample_sync: "sync 80 25 sample_term sample_shim"
  by (simp add: sync_def agrees_def sample_shim_def sample_term_def shim_zero_def stream_def)


text \<open>Text output: the bytes \<^verbatim>\<open>ShimOutputString\<close> adds to the stream for printable text are the UTF-8
  encodings of its characters, in order and without loss; the buffer never holds more than its
  2048 bytes and is empty at the end.\<close>
theorem ShimOutputString_text:
  assumes "ShimOutputString h l s S = Some (st, T)" and "list_all (\<lambda>c. 0x20 \<le> c) s"
  shows "st = EFI_SUCCESS \<and> stream T = stream S @ concat (map utf8_bytes s) \<and> OutBuf T = []"
proof -
  from assms(1) obtain U V where 1: "out_poll h S = Some U" "out_chars h l s U = Some V" "Flush h l V = Some T" "st = EFI_SUCCESS"
    by (auto simp: ShimOutputString_def bind_eq_Some_conv)
  obtain n c d where "U = S\<lparr>OutPoll := n, Ssh := c, Disconnected := d\<rparr>" using out_poll_frame [OF 1(1)] by blast
  then have "stream U = stream S" by simp
  then show ?thesis using out_string_utf8 [OF 1(2) assms(2)] Flush_lemma [OF 1(3)] 1(4) by simp
qed

theorem ShimOutputString_text_witness:
  "\<exists>T. ShimOutputString sample_host quiet_console [] sample_shim = Some (EFI_SUCCESS, T) \<and> stream T = stream sample_shim"
proof -
  have p: "out_poll sample_host sample_shim = Some (sample_shim\<lparr>OutPoll := 1\<rparr>)"
    by (simp add: out_poll_def sample_shim_def shim_zero_def)
  obtain T where "Flush sample_host quiet_console (sample_shim\<lparr>OutPoll := 1\<rparr>) = Some T"
    using Flush_disconnected [of "sample_shim\<lparr>OutPoll := 1\<rparr>"] by (auto simp: sample_shim_def)
  then have s: "ShimOutputString sample_host quiet_console [] sample_shim = Some (EFI_SUCCESS, T)"
    using p by (simp add: ShimOutputString_def)
  from ShimOutputString_text [OF this] s show ?thesis by simp
qed

text \<open>A client that shrinks its window strands the cursor: once \<^verbatim>\<open>ShimQueryMode\<close> has reported the smaller
  size, the row the shim reports lies outside it, and no string the Shell prints brings it back.\<close>
theorem ShimQueryMode_strands_cursor:
  assumes "ShimQueryMode 0 S = (st, Some (c, r), S1)" and "r \<le> CursorRow S"
    and "ShimOutputString h l s S1 = Some (st', T)"
  shows "Rows T = r \<and> CursorRow T = CursorRow S \<and> Rows T \<le> CursorRow T"
proof -
  have 1: "Rows S1 = r" "CursorRow S1 = CursorRow S"
    using assms(1) by (auto simp: ShimQueryMode_def RefreshSize_def Let_def split_beta)
  from assms(3) obtain U V where 2: "out_poll h S1 = Some U" "out_chars h l s U = Some V" "Flush h l V = Some T"
    by (auto simp: ShimOutputString_def bind_eq_Some_conv)
  obtain n k d where "U = S1\<lparr>OutPoll := n, Ssh := k, Disconnected := d\<rparr>" using out_poll_frame [OF 2(1)] by blast
  then have u: "Rows U = r" "CursorRow U = CursorRow S" using 1 by simp_all
  have "CursorRow V = CursorRow U \<and> Rows V = Rows U" using out_chars_row [OF 2(2)] u assms(2) by simp
  moreover have "CursorRow T = CursorRow V" "Rows T = Rows V" using Flush_lemma [OF 2(3)] same_outD(2,5) by blast+
  ultimately show ?thesis using u assms(2) by simp
qed

theorem ShimQueryMode_strands_cursor_witness:
  "\<exists>T. ShimOutputString sample_host quiet_console [] (snd (snd (ShimQueryMode 0 (sample_shim\<lparr>CursorRow := 40, Rows := 50\<rparr>)))) =
     Some (EFI_SUCCESS, T) \<and> CursorRow T = 40 \<and> Rows T = 25"
proof -
  let ?S = "sample_shim\<lparr>CursorRow := 40, Rows := 50\<rparr>"
  have q: "ShimQueryMode 0 ?S = (EFI_SUCCESS, Some (80, 25), ?S\<lparr>Cols := 80, Rows := 25\<rparr>)"
    by (simp add: ShimQueryMode_def RefreshSize_def SshGetWindow_def sample_shim_def shim_zero_def sample_new_def conn_zero_def)
  let ?S1 = "?S\<lparr>Cols := 80, Rows := 25\<rparr>"
  have p: "out_poll sample_host ?S1 = Some (?S1\<lparr>OutPoll := 1\<rparr>)"
    by (simp add: out_poll_def sample_shim_def shim_zero_def)
  obtain T where "Flush sample_host quiet_console (?S1\<lparr>OutPoll := 1\<rparr>) = Some T"
    using Flush_disconnected [of "?S1\<lparr>OutPoll := 1\<rparr>"] by (auto simp: sample_shim_def)
  then have s: "ShimOutputString sample_host quiet_console [] ?S1 = Some (EFI_SUCCESS, T)"
    using p by (simp add: ShimOutputString_def)
  from ShimQueryMode_strands_cursor [OF q _ s] have "Rows T = 25 \<and> CursorRow T = 40" by simp
  with s q show ?thesis by simp
qed

end
