(* ===== verification/Shim_In.thy ===== *)
theory Shim_In
  imports Shim_Out
begin

text \<open>
  The input half of \<^verbatim>\<open>ConsoleShim.c\<close>: the decoder for escape sequences and UTF-8, the key ring
  behind the two text input protocols, key notifications, and what happens when the client is
  gone. A notification runs a function of the Shell: an effect on the world, recorded in the
  ghost field \<open>fired\<close>; a notification that re-enters the shim is not modelled.
\<close>

definition SCAN_NULL :: u16 where "SCAN_NULL = 0"

subsection \<open>Notifications and keys\<close>

definition NotifyMatches :: "key_data \<Rightarrow> key_data \<Rightarrow> bool" where
  "NotifyMatches reg kd \<longleftrightarrow>
     ScanCode (Key reg) = ScanCode (Key kd) \<and> UnicodeChar (Key reg) = UnicodeChar (Key kd) \<and>
     (KeyShiftState reg AND EFI_SHIFT_STATE_VALID \<noteq> 0 \<longrightarrow>
        KeyShiftState reg AND NOT EFI_SHIFT_STATE_VALID = KeyShiftState kd AND NOT EFI_SHIFT_STATE_VALID)"

definition fire_one :: "'w console \<Rightarrow> key_data \<Rightarrow> 'w shim \<Rightarrow> shim_notify \<Rightarrow> 'w shim" where
  "fire_one l kd S n =
     (if Used n \<and> Fn n \<noteq> 0 \<and> NotifyMatches (NKey n) kd
      then S\<lparr>Ssh := (Ssh S)\<lparr>ioCtx := NotifyFn l (Fn n) kd (ioCtx (Ssh S))\<rparr>, fired := fired S @ [(Fn n, kd)]\<rparr>
      else S)"

definition FireNotify :: "'w console \<Rightarrow> key_data \<Rightarrow> 'w shim \<Rightarrow> 'w shim" where
  "FireNotify l kd S = foldl (fire_one l kd) S (Notify S)"

definition PushKeyData :: "'w console \<Rightarrow> key_data \<Rightarrow> 'w shim \<Rightarrow> 'w shim" where
  "PushKeyData l kd S = key_push kd (FireNotify l kd S)"

definition is_control :: "u16 \<Rightarrow> u16 \<Rightarrow> bool" where
  "is_control scan ch \<longleftrightarrow> scan = SCAN_NULL \<and> 1 \<le> ch \<and> ch \<le> 26 \<and> ch \<noteq> CHAR_BACKSPACE \<and> ch \<noteq> CHAR_TAB \<and>
     ch \<noteq> CHAR_LINEFEED \<and> ch \<noteq> CHAR_CARRIAGE_RETURN"

definition PushKey :: "'w console \<Rightarrow> u16 \<Rightarrow> u16 \<Rightarrow> 'w shim \<Rightarrow> 'w shim" where
  "PushKey l scan ch S =
     (let kd = \<lparr>Key = \<lparr>ScanCode = scan, UnicodeChar = ch\<rparr>, KeyShiftState = EFI_SHIFT_STATE_VALID, KeyToggleState = 0\<rparr> in
      if is_control scan ch
      then (let kd = kd\<lparr>KeyShiftState := EFI_SHIFT_STATE_VALID OR EFI_LEFT_CONTROL_PRESSED\<rparr>;
                alt = kd\<lparr>Key := \<lparr>ScanCode = scan, UnicodeChar = 97 + ch - 1\<rparr>\<rparr>
            in PushKeyData l kd (FireNotify l alt S))
      else PushKeyData l kd S)"

definition FireBreak :: "'w console \<Rightarrow> 'w shim \<Rightarrow> 'w shim" where
  "FireBreak l S =
     (let kd = key_zero\<lparr>Key := \<lparr>ScanCode = 0, UnicodeChar = 3\<rparr>,
                        KeyShiftState := EFI_SHIFT_STATE_VALID OR EFI_LEFT_CONTROL_PRESSED\<rparr>;
          S = FireNotify l kd S
      in FireNotify l (kd\<lparr>Key := \<lparr>ScanCode = 0, UnicodeChar = 99\<rparr>\<rparr>) S)"

definition exit_chars :: "u16 list" where
  "exit_chars = [101, 120, 105, 116, CHAR_CARRIAGE_RETURN]"

definition InjectExit :: "'w console \<Rightarrow> 'w shim \<Rightarrow> 'w shim" where
  "InjectExit l S =
     (if \<not> KeysEmpty S \<or> SHIM_EXIT_INJECT_MAX \<le> ExitInjects S then S
      else foldl (\<lambda>S c. PushKey l SCAN_NULL c S) (S\<lparr>ExitInjects := ExitInjects S + 1\<rparr>) exit_chars)"

subsection \<open>Escape sequences\<close>

definition csi_param :: "bytes \<Rightarrow> u64" where
  "csi_param esc = foldl (\<lambda>n b. n * 10 + (ucast b - 48)) 0 (takeWhile (\<lambda>b. 48 \<le> b \<and> b \<le> 57) (drop 2 (butlast esc)))"

definition letter_scan :: "byte \<Rightarrow> u16" where
  "letter_scan b =
     (if b = 65 then 1 else if b = 66 then 2 else if b = 67 then 3 else if b = 68 then 4
      else if b = 72 then 5 else if b = 70 then 6 else if b = 80 then 0x0B else if b = 81 then 0x0C
      else if b = 82 then 0x0D else if b = 83 then 0x0E else SCAN_NULL)"

definition tilde_scan :: "u64 \<Rightarrow> u16" where
  "tilde_scan n =
     (if n = 1 then 5 else if n = 2 then 7 else if n = 3 then 8 else if n = 4 then 6
      else if n = 5 then 9 else if n = 6 then 0x0A else if n = 7 then 5 else if n = 8 then 6
      else if n = 11 then 0x0B else if n = 12 then 0x0C else if n = 13 then 0x0D else if n = 14 then 0x0E
      else if n = 15 then 0x0F else if n = 17 then 0x10 else if n = 18 then 0x11 else if n = 19 then 0x12
      else if n = 20 then 0x13 else if n = 21 then 0x14 else if n = 23 then 0x15 else if n = 24 then 0x16
      else SCAN_NULL)"

definition csi_scan :: "bytes \<Rightarrow> u16" where
  "csi_scan esc = (let final = last esc in if final = 126 then tilde_scan (csi_param esc) else letter_scan final)"

definition push_scan :: "'w console \<Rightarrow> u16 \<Rightarrow> 'w shim \<Rightarrow> 'w shim" where
  "push_scan l scan S = (if scan \<noteq> SCAN_NULL then PushKey l scan 0 S else S)"

definition HandleCsi :: "'w console \<Rightarrow> 'w shim \<Rightarrow> 'w shim" where
  "HandleCsi l S = push_scan l (csi_scan (Esc S)) S"

definition HandleSs3 :: "'w console \<Rightarrow> byte \<Rightarrow> 'w shim \<Rightarrow> 'w shim" where
  "HandleSs3 l b S = push_scan l (letter_scan b) S"

subsection \<open>The decoder\<close>

text \<open>The part of \<^verbatim>\<open>FeedByte\<close> after the UTF-8 continuation check.\<close>

definition feed_lead :: "'w console \<Rightarrow> byte \<Rightarrow> 'w shim \<Rightarrow> 'w shim" where
  "feed_lead l b S =
     (if 0xF0 \<le> b then S\<lparr>Utf8Acc := ucast (b AND 0x07), Utf8Need := 3\<rparr>
      else if 0xE0 \<le> b then S\<lparr>Utf8Acc := ucast (b AND 0x0F), Utf8Need := 2\<rparr>
      else if 0xC0 \<le> b then S\<lparr>Utf8Acc := ucast (b AND 0x1F), Utf8Need := 1\<rparr>
      else if b = 13 then PushKey l SCAN_NULL CHAR_CARRIAGE_RETURN (S\<lparr>LastWasCr := True\<rparr>)
      else if b = 10 then
        (if LastWasCr S then S\<lparr>LastWasCr := False\<rparr> else PushKey l SCAN_NULL CHAR_CARRIAGE_RETURN S)
      else
        (let S = S\<lparr>LastWasCr := False\<rparr> in
         if b = 0x7F \<or> b = 0x08 then PushKey l SCAN_NULL CHAR_BACKSPACE S
         else PushKey l SCAN_NULL (ucast b) S))"

text \<open>The part of \<^verbatim>\<open>FeedByte\<close> outside an escape sequence.\<close>

definition feed_ground :: "'w console \<Rightarrow> byte \<Rightarrow> 'w shim \<Rightarrow> 'w shim" where
  "feed_ground l b S =
     (if b = 0x1B
      then (let (t, w) = Ticks l (ioCtx (Ssh S)) in S\<lparr>Ssh := (Ssh S)\<lparr>ioCtx := w\<rparr>, Esc := [b], EscTick := t\<rparr>)
      else if 0 < Utf8Need S then
        (if b AND 0xC0 = 0x80
         then (let S = S\<lparr>Utf8Acc := push_bit 6 (Utf8Acc S) OR ucast (b AND 0x3F), Utf8Need := Utf8Need S - 1\<rparr> in
               if Utf8Need S = 0 \<and> Utf8Acc S \<le> 0xFFFF then PushKey l SCAN_NULL (ucast (Utf8Acc S)) S else S)
         else feed_lead l b (S\<lparr>Utf8Need := 0\<rparr>))
      else feed_lead l b S)"

text \<open>
  Inside an escape sequence the recursive call of the code is made with \<^verbatim>\<open>EscLen == 0\<close>, so it is
  \<open>feed_ground\<close>.
\<close>

definition FeedByte :: "'w console \<Rightarrow> 'w shim \<Rightarrow> byte \<Rightarrow> 'w shim" where
  "FeedByte l S b =
     (if Esc S \<noteq> [] then
        (let S = (if length (Esc S) < ESC_CAP then S\<lparr>Esc := Esc S @ [b]\<rparr> else S) in
         if length (Esc S) = 2 then
           (if b = 91 \<or> b = 79 then S
            else feed_ground l b (PushKey l SCAN_ESC 0 (S\<lparr>Esc := []\<rparr>)))
         else if Esc S ! 1 = 79 then HandleSs3 l b (S\<lparr>Esc := []\<rparr>)
         else if 0x40 \<le> b \<and> b \<le> 0x7E then (HandleCsi l S)\<lparr>Esc := []\<rparr>
         else if ESC_CAP \<le> length (Esc S) then S\<lparr>Esc := []\<rparr> else S)
      else feed_ground l b S)"

definition FlushEsc :: "'w console \<Rightarrow> 'w shim \<Rightarrow> 'w shim" where
  "FlushEsc l S = foldl (FeedByte l) (PushKey l SCAN_ESC 0 (S\<lparr>Esc := []\<rparr>)) (tl (Esc S))"

subsection \<open>Reading\<close>

definition esc_timeout :: "'w console \<Rightarrow> 'w shim \<Rightarrow> 'w shim" where
  "esc_timeout l S =
     (if Esc S \<noteq> []
      then (let (t, w) = Ticks l (ioCtx (Ssh S)); S = S\<lparr>Ssh := (Ssh S)\<lparr>ioCtx := w\<rparr>\<rparr> in
            if ESC_TIMEOUT_TICKS < t - EscTick S then FlushEsc l S else S)
      else S)"

definition client_gone :: "'w console \<Rightarrow> 'w shim \<Rightarrow> 'w shim" where
  "client_gone l S = InjectExit l (FireBreak l (S\<lparr>Disconnected := True\<rparr>))"

partial_function (option) pump_loop :: "'w host \<Rightarrow> 'w console \<Rightarrow> 'w shim \<Rightarrow> 'w shim option" where
  "pump_loop h l S = Option.bind (SshRead h 256 (Ssh S)) (\<lambda>(n, bs, c).
     if n < 0 then Some (client_gone l (S\<lparr>Ssh := c\<rparr>))
     else if n = 0 then Some (esc_timeout l (S\<lparr>Ssh := c\<rparr>))
     else if n < 256 then Some (esc_timeout l (foldl (FeedByte l) (S\<lparr>Ssh := c\<rparr>) bs))
     else pump_loop h l (foldl (FeedByte l) (S\<lparr>Ssh := c\<rparr>) bs))"

declare pump_loop.simps [code]

definition PumpInput :: "'w host \<Rightarrow> 'w console \<Rightarrow> 'w shim \<Rightarrow> 'w shim option" where
  "PumpInput h l S = (if Disconnected S then Some (InjectExit l S) else pump_loop h l S)"

text \<open>The status, the key when there is one, and the state.\<close>

definition ReadCommon :: "'w host \<Rightarrow> 'w console \<Rightarrow> 'w shim \<Rightarrow> (efi_status \<times> key_data \<times> 'w shim) option" where
  "ReadCommon h l S = map_option (\<lambda>S.
     case PopKey S of
       (Some kd, S) \<Rightarrow> (EFI_SUCCESS, kd, S)
     | (None, S) \<Rightarrow>
         if Disconnected S \<and> OldConIn S
         then (case LocalRead l (ioCtx (Ssh S)) of ((st, k), w) \<Rightarrow>
                 (st, key_zero\<lparr>Key := k\<rparr>, S\<lparr>Ssh := (Ssh S)\<lparr>ioCtx := w\<rparr>\<rparr>))
         else (EFI_NOT_READY, key_zero, S)) (PumpInput h l S)"

definition ShimInReset :: "'w shim \<Rightarrow> efi_status \<times> 'w shim" where
  "ShimInReset S = (EFI_SUCCESS, S\<lparr>KeyHead := 0, KeyTail := 0, Esc := [], Utf8Need := 0\<rparr>)"

definition ShimInResetEx :: "'w shim \<Rightarrow> efi_status \<times> 'w shim" where
  "ShimInResetEx S = ShimInReset S"

definition ShimReadKey :: "'w host \<Rightarrow> 'w console \<Rightarrow> 'w shim \<Rightarrow> (efi_status \<times> efi_key option \<times> 'w shim) option" where
  "ShimReadKey h l S =
     map_option (\<lambda>(st, kd, S). (st, if EFI_ERROR st then None else Some (Key kd), S)) (ReadCommon h l S)"

text \<open>\<open>have_arg\<close> says whether the caller passed a place for the key.\<close>

definition ShimReadKeyEx :: "'w host \<Rightarrow> 'w console \<Rightarrow> bool \<Rightarrow> 'w shim \<Rightarrow> (efi_status \<times> key_data \<times> 'w shim) option" where
  "ShimReadKeyEx h l have_arg S =
     (if \<not> have_arg then Some (EFI_INVALID_PARAMETER, key_zero, S) else ReadCommon h l S)"

definition ShimSetState :: efi_status where
  "ShimSetState = EFI_UNSUPPORTED"

text \<open>A handle is the index of its entry plus one; 0 stands for \<^verbatim>\<open>NULL\<close>.\<close>

definition free_slot :: "shim_notify list \<Rightarrow> nat" where
  "free_slot ns = length (takeWhile Used ns)"

definition ShimRegisterNotify :: "key_data option \<Rightarrow> nat \<Rightarrow> bool \<Rightarrow> 'w shim \<Rightarrow> efi_status \<times> nat \<times> 'w shim" where
  "ShimRegisterNotify kd f have_handle S =
     (if kd = None \<or> f = 0 \<or> \<not> have_handle then (EFI_INVALID_PARAMETER, 0, S)
      else (let i = free_slot (Notify S) in
        if i < length (Notify S)
        then (EFI_SUCCESS, i + 1, S\<lparr>Notify := (Notify S)[i := \<lparr>NKey = the kd, Fn = f, Used = True\<rparr>]\<rparr>)
        else (EFI_OUT_OF_RESOURCES, 0, S)))"

definition ShimUnregisterNotify :: "nat \<Rightarrow> 'w shim \<Rightarrow> efi_status \<times> 'w shim" where
  "ShimUnregisterNotify hnd S =
     (if 0 < hnd \<and> hnd \<le> length (Notify S) \<and> Used (Notify S ! (hnd - 1))
      then (EFI_SUCCESS, S\<lparr>Notify := (Notify S)[hnd - 1 := (Notify S ! (hnd - 1))\<lparr>Used := False, Fn := 0\<rparr>]\<rparr>)
      else (EFI_INVALID_PARAMETER, S))"

definition ShimWaitKeyNotify :: "'w host \<Rightarrow> 'w console \<Rightarrow> nat \<Rightarrow> 'w shim \<Rightarrow> 'w shim option" where
  "ShimWaitKeyNotify h l ev S = map_option (\<lambda>S.
     if \<not> KeysEmpty S then S\<lparr>Ssh := (Ssh S)\<lparr>ioCtx := SignalEvent l ev (ioCtx (Ssh S))\<rparr>\<rparr>
     else if Disconnected S \<and> OldConIn S
     then (case LocalReady l (ioCtx (Ssh S)) of (st, w) \<Rightarrow>
             S\<lparr>Ssh := (Ssh S)\<lparr>ioCtx := (if st = EFI_SUCCESS then SignalEvent l ev w else w)\<rparr>\<rparr>)
     else S) (PumpInput h l S)"

subsection \<open>What pushing keys changes\<close>

text \<open>The decoder's and the ring's part of the state; notifications touch neither.\<close>

definition in_view :: "'w shim \<Rightarrow> (nat \<Rightarrow> key_data) \<times> nat \<times> nat \<times> bytes \<times> nat \<times> bool \<times> shim_notify list \<times> bool \<times> nat" where
  "in_view S = (Keys S, KeyHead S, KeyTail S, Esc S, Utf8Need S, LastWasCr S, Notify S, Disconnected S, ExitInjects S)"

lemma fire_one_view [simp]: "in_view (fire_one l kd S n) = in_view S"
  by (simp add: fire_one_def in_view_def)

lemma FireNotify_view [simp]: "in_view (FireNotify l kd S) = in_view S"
proof -
  have "in_view (foldl (fire_one l kd) S ns) = in_view S" for ns
    by (induction ns arbitrary: S) simp_all
  then show ?thesis by (simp add: FireNotify_def)
qed

text \<open>Two states with the same ring.\<close>

definition same_keys :: "'w shim \<Rightarrow> 'w shim \<Rightarrow> bool" where
  "same_keys S T \<longleftrightarrow> Keys T = Keys S \<and> KeyHead T = KeyHead S \<and> KeyTail T = KeyTail S"

lemma same_keys_view: "in_view T = in_view S \<Longrightarrow> same_keys S T"
  by (simp add: in_view_def same_keys_def)

lemma same_keys_queue: "same_keys S T \<Longrightarrow> key_queue T = key_queue S \<and> keys_ok T = keys_ok S \<and> KeysEmpty T = KeysEmpty S"
  by (simp add: same_keys_def key_queue_def keys_ok_def KeysEmpty_def)

lemma same_keys_push: "same_keys S T \<Longrightarrow> same_keys (key_push k S) (key_push k T)"
  by (simp add: same_keys_def key_push_def Let_def)

lemma same_keys_trans: "same_keys S T \<Longrightarrow> same_keys T U \<Longrightarrow> same_keys S U"
  by (simp add: same_keys_def)

lemma same_keys_refl [simp]: "same_keys S S"
  by (simp add: same_keys_def)

text \<open>The decoder's part alone.\<close>

definition dec_view :: "'w shim \<Rightarrow> bytes \<times> nat \<times> bool \<times> shim_notify list \<times> bool \<times> nat" where
  "dec_view S = (Esc S, Utf8Need S, LastWasCr S, Notify S, Disconnected S, ExitInjects S)"

lemma dec_view_in_view: "in_view T = in_view S \<Longrightarrow> dec_view T = dec_view S"
  by (simp add: in_view_def dec_view_def)

lemma dec_view_push [simp]: "dec_view (key_push k S) = dec_view S"
  by (simp add: key_push_def dec_view_def Let_def)

lemma dec_view_FireNotify [simp]: "dec_view (FireNotify l kd S) = dec_view S"
  by (rule dec_view_in_view) simp

lemma dec_view_PushKey [simp]: "dec_view (PushKey l scan ch S) = dec_view S"
  by (simp add: PushKey_def PushKeyData_def Let_def)

text \<open>The key a call of \<^verbatim>\<open>PushKey\<close> puts into the ring.\<close>

definition the_key :: "u16 \<Rightarrow> u16 \<Rightarrow> key_data" where
  "the_key scan ch = \<lparr>Key = \<lparr>ScanCode = scan, UnicodeChar = ch\<rparr>,
     KeyShiftState = (if is_control scan ch then EFI_SHIFT_STATE_VALID OR EFI_LEFT_CONTROL_PRESSED else EFI_SHIFT_STATE_VALID),
     KeyToggleState = 0\<rparr>"

lemma PushKey_ring: "same_keys (key_push (the_key scan ch) S) (PushKey l scan ch S)"
proof -
  have f: "same_keys S (FireNotify l k S)" for k and S :: "'a shim" by (intro same_keys_view) simp
  show ?thesis
  proof (cases "is_control scan ch")
    case True
    then have "\<exists>k k'. PushKey l scan ch S = key_push (the_key scan ch) (FireNotify l k (FireNotify l k' S))"
      by (auto simp: PushKey_def PushKeyData_def the_key_def Let_def)
    then show ?thesis using same_keys_push [OF same_keys_trans [OF f f]] by auto
  next
    case False
    then have "\<exists>k. PushKey l scan ch S = key_push (the_key scan ch) (FireNotify l k S)"
      by (auto simp: PushKey_def PushKeyData_def the_key_def Let_def)
    then show ?thesis using same_keys_push [OF f] by auto
  qed
qed

lemma PushKey_queue:
  assumes "keys_ok S"
  shows "key_queue (PushKey l scan ch S) = (if length (key_queue S) + 1 < SHIM_KEY_RING then key_queue S @ [the_key scan ch] else key_queue S)"
    and "keys_ok (PushKey l scan ch S)"
  using same_keys_queue [OF PushKey_ring [of scan ch S l]] key_ring.contents_push [OF assms, of "the_key scan ch"]
    key_ring.inv_push [OF assms, of "the_key scan ch"] by simp_all

subsection \<open>The invariant\<close>

text \<open>
  Memory safety of the input side: the ring indices, the escape buffer (with room for one more
  byte), the continuation count; and the shape of a pending sequence.
\<close>

definition shim_inv :: "'w shim \<Rightarrow> bool" where
  "shim_inv S \<longleftrightarrow> keys_ok S \<and> length (Esc S) < ESC_CAP \<and> Utf8Need S \<le> 3 \<and> length (Notify S) = SHIM_MAX_NOTIFY \<and>
     (Esc S \<noteq> [] \<longrightarrow> Esc S ! 0 = 0x1B) \<and> (2 \<le> length (Esc S) \<longrightarrow> Esc S ! 1 = 91 \<or> Esc S ! 1 = 79 \<and> length (Esc S) = 2) \<and>
     ExitInjects S \<le> SHIM_EXIT_INJECT_MAX"

lemma shim_inv_cong: "dec_view T = dec_view S \<Longrightarrow> keys_ok T = keys_ok S \<Longrightarrow> shim_inv T = shim_inv S"
  by (simp add: shim_inv_def dec_view_def)

lemma shim_inv_FireNotify [simp]: "shim_inv (FireNotify l k S) = shim_inv S"
proof -
  have "same_keys S (FireNotify l k S)" by (intro same_keys_view) simp
  from same_keys_queue [OF this] show ?thesis by (intro shim_inv_cong) simp_all
qed

lemma shim_inv_PushKey:
  assumes "shim_inv S"
  shows "shim_inv (PushKey l scan ch S)"
proof -
  have "keys_ok S" using assms by (simp add: shim_inv_def)
  from PushKey_queue(2) [OF this, of l scan ch] this have "keys_ok (PushKey l scan ch S) = keys_ok S" by simp
  then show ?thesis using assms shim_inv_cong [of "PushKey l scan ch S" S] by simp
qed

lemma Esc_PushKey [simp]: "Esc (PushKey l scan ch S) = Esc S"
  using dec_view_PushKey [of l scan ch S] by (simp add: dec_view_def)

lemma shim_inv_updates [simp]:
  "shim_inv (S\<lparr>LastWasCr := b\<rparr>) = shim_inv S" "shim_inv (S\<lparr>Utf8Acc := a\<rparr>) = shim_inv S"
  "shim_inv (S\<lparr>Ssh := c\<rparr>) = shim_inv S" "shim_inv (S\<lparr>Disconnected := b\<rparr>) = shim_inv S"
  by (simp_all add: shim_inv_def keys_ok_def)

lemma keys_ok_updates [simp]:
  "keys_ok (S\<lparr>Utf8Acc := a\<rparr>) = keys_ok S" "keys_ok (S\<lparr>Utf8Need := n\<rparr>) = keys_ok S" "keys_ok (S\<lparr>Esc := e\<rparr>) = keys_ok S"
  "keys_ok (S\<lparr>LastWasCr := b\<rparr>) = keys_ok S" "keys_ok (S\<lparr>Ssh := c\<rparr>) = keys_ok S" "keys_ok (S\<lparr>ExitInjects := n\<rparr>) = keys_ok S"
  by (simp_all add: keys_ok_def)

lemma shim_inv_need: "shim_inv S \<Longrightarrow> n \<le> 3 \<Longrightarrow> shim_inv (S\<lparr>Utf8Need := n\<rparr>)"
  by (simp add: shim_inv_def keys_ok_def)

lemma shim_inv_no_esc: "shim_inv S \<Longrightarrow> shim_inv (S\<lparr>Esc := []\<rparr>)"
  by (simp add: shim_inv_def keys_ok_def ESC_CAP_def)

lemma shim_inv_feed_lead:
  assumes "shim_inv S"
  shows "shim_inv (feed_lead l b S)"
proof -
  have "shim_inv (S\<lparr>Utf8Acc := a, Utf8Need := n\<rparr>)" if "n \<le> 3" for a n
    using assms that shim_inv_need [of "S\<lparr>Utf8Acc := a\<rparr>" n] by simp
  moreover have "shim_inv (PushKey l s c (S\<lparr>LastWasCr := x\<rparr>))" for s c x
    using assms by (intro shim_inv_PushKey) simp
  moreover have "shim_inv (PushKey l s c S)" for s c using assms by (rule shim_inv_PushKey)
  ultimately show ?thesis using assms by (simp add: feed_lead_def Let_def)
qed

lemma shim_inv_feed_ground:
  assumes "shim_inv S" and "Esc S = []"
  shows "shim_inv (feed_ground l b S)"
proof -
  have e: "shim_inv (S\<lparr>Ssh := c, Esc := [0x1B], EscTick := t\<rparr>)" for c t
    using assms by (simp add: shim_inv_def keys_ok_def ESC_CAP_def)
  have k: "shim_inv (S\<lparr>Utf8Acc := a, Utf8Need := Utf8Need S - 1\<rparr>)" for a
    using assms(1) by (auto simp: shim_inv_def)
  have z: "shim_inv (feed_lead l b (S\<lparr>Utf8Need := 0\<rparr>))"
    by (intro shim_inv_feed_lead shim_inv_need) (use assms in simp_all)
  show ?thesis
    using e k z shim_inv_PushKey [OF k] shim_inv_feed_lead [OF assms(1)]
    by (auto simp: feed_ground_def Let_def split: prod.split)
qed

lemma shim_inv_push_scan: "shim_inv S \<Longrightarrow> shim_inv (push_scan l s S)"
  by (simp add: push_scan_def shim_inv_PushKey)

lemma shim_inv_FeedByte:
  assumes "shim_inv S"
  shows "shim_inv (FeedByte l S b)"
proof (cases "Esc S = []")
  case True
  then show ?thesis using shim_inv_feed_ground [OF assms] by (simp add: FeedByte_def)
next
  case False
  let ?S = "S\<lparr>Esc := Esc S @ [b]\<rparr>"
  have cap: "length (Esc S) < ESC_CAP" using assms by (simp add: shim_inv_def)
  have clr: "shim_inv (S\<lparr>Esc := []\<rparr>)" by (rule shim_inv_no_esc [OF assms])
  have f: "FeedByte l S b =
      (if length (Esc ?S) = 2 then (if b = 91 \<or> b = 79 then ?S else feed_ground l b (PushKey l SCAN_ESC 0 (S\<lparr>Esc := []\<rparr>)))
       else if Esc ?S ! 1 = 79 then HandleSs3 l b (S\<lparr>Esc := []\<rparr>)
       else if 0x40 \<le> b \<and> b \<le> 0x7E then (HandleCsi l ?S)\<lparr>Esc := []\<rparr>
       else if ESC_CAP \<le> length (Esc ?S) then S\<lparr>Esc := []\<rparr> else ?S)"
    using False cap by (simp add: FeedByte_def Let_def)
  have csi: "shim_inv ((HandleCsi l ?S)\<lparr>Esc := []\<rparr>)"
  proof -
    have "keys_ok ?S" using assms by (simp add: shim_inv_def)
    then have "keys_ok (HandleCsi l ?S)" by (simp add: HandleCsi_def push_scan_def PushKey_queue(2))
    moreover have "dec_view (HandleCsi l ?S) = dec_view ?S" by (simp add: HandleCsi_def push_scan_def)
    ultimately show ?thesis using assms by (simp add: shim_inv_def dec_view_def keys_ok_def ESC_CAP_def)
  qed
  consider (two) "length (Esc ?S) = 2" | (more) "3 \<le> length (Esc ?S)" using False by (cases "Esc S") (auto simp: Suc_le_eq)
  then show ?thesis
  proof cases
    case two
    then obtain x where x: "Esc S = [x]" by (cases "Esc S") auto
    have "shim_inv ?S" if "b = 91 \<or> b = 79" using assms that x by (auto simp: shim_inv_def keys_ok_def ESC_CAP_def)
    moreover have "shim_inv (feed_ground l b (PushKey l SCAN_ESC 0 (S\<lparr>Esc := []\<rparr>)))"
      by (intro shim_inv_feed_ground shim_inv_PushKey clr) simp
    ultimately show ?thesis using two f by simp
  next
    case more
    then have n: "2 \<le> length (Esc S)" by simp
    then have o: "Esc S ! 1 = 91 \<or> Esc S ! 1 = 79 \<and> length (Esc S) = 2" using assms by (simp add: shim_inv_def)
    have i: "Esc ?S ! 1 = Esc S ! 1" "Esc ?S ! 0 = Esc S ! 0" using n by (auto simp: nth_append)
    have "shim_inv ?S" if "Esc ?S ! 1 \<noteq> 79" "\<not> ESC_CAP \<le> length (Esc ?S)"
      using assms that o n i by (auto simp: shim_inv_def keys_ok_def nth_append)
    moreover have "shim_inv (HandleSs3 l b (S\<lparr>Esc := []\<rparr>))" using clr by (simp add: HandleSs3_def shim_inv_push_scan)
    ultimately show ?thesis using f more csi clr by simp
  qed
qed

lemma shim_inv_feed: "shim_inv S \<Longrightarrow> shim_inv (foldl (FeedByte l) S bs)"
  by (induction bs arbitrary: S) (simp_all add: shim_inv_FeedByte)

lemma shim_inv_FlushEsc: "shim_inv S \<Longrightarrow> shim_inv (FlushEsc l S)"
  unfolding FlushEsc_def by (intro shim_inv_feed shim_inv_PushKey shim_inv_no_esc)

lemma shim_inv_esc_timeout: "shim_inv S \<Longrightarrow> shim_inv (esc_timeout l S)"
  by (simp add: esc_timeout_def Let_def shim_inv_FlushEsc split: prod.split)

lemma shim_inv_pushes: "shim_inv S \<Longrightarrow> shim_inv (foldl (\<lambda>S c. PushKey l scan c S) S cs)"
  by (induction cs arbitrary: S) (simp_all add: shim_inv_PushKey)

lemma shim_inv_InjectExit:
  assumes "shim_inv S"
  shows "shim_inv (InjectExit l S)"
proof (cases "\<not> KeysEmpty S \<or> SHIM_EXIT_INJECT_MAX \<le> ExitInjects S")
  case True
  then show ?thesis using assms by (simp add: InjectExit_def)
next
  case False
  then have "shim_inv (S\<lparr>ExitInjects := ExitInjects S + 1\<rparr>)" using assms by (simp add: shim_inv_def)
  then show ?thesis using False shim_inv_pushes by (simp add: InjectExit_def)
qed

lemma shim_inv_client_gone: "shim_inv S \<Longrightarrow> shim_inv (client_gone l S)"
  by (simp add: client_gone_def FireBreak_def Let_def shim_inv_InjectExit)

lemma shim_inv_pump_loop:
  assumes "pump_loop h l S = Some T" and "shim_inv S"
  shows "shim_inv T"
proof -
  have "h = h \<longrightarrow> l = l \<longrightarrow> shim_inv S \<longrightarrow> shim_inv T"
  proof (rule pump_loop.raw_induct [where P = "\<lambda>h' l' S T. h' = h \<longrightarrow> l' = l \<longrightarrow> shim_inv S \<longrightarrow> shim_inv T", OF _ assms(1)], intro impI)
    fix loop h' l' S T
    assume IH: "\<And>h' l' S T. loop h' l' S = Some T \<Longrightarrow> h' = h \<longrightarrow> l' = l \<longrightarrow> shim_inv S \<longrightarrow> shim_inv T"
      and eq: "Option.bind (SshRead h' 256 (Ssh S)) (\<lambda>(n, bs, c).
     if n < 0 then Some (client_gone l' (S\<lparr>Ssh := c\<rparr>))
     else if n = 0 then Some (esc_timeout l' (S\<lparr>Ssh := c\<rparr>))
     else if n < 256 then Some (esc_timeout l' (foldl (FeedByte l') (S\<lparr>Ssh := c\<rparr>) bs))
     else loop h' l' (foldl (FeedByte l') (S\<lparr>Ssh := c\<rparr>) bs)) = Some T"
      and hl: "h' = h" "l' = l" and inv: "shim_inv S"
    obtain n bs c where r: "SshRead h 256 (Ssh S) = Some (n, bs, c)" using eq hl by (cases "SshRead h' 256 (Ssh S)") auto
    have 1: "shim_inv (foldl (FeedByte l) (S\<lparr>Ssh := c\<rparr>) bs)" using inv by (intro shim_inv_feed) simp
    consider "n < 0" | "n = 0" | "0 < n" "n < 256" | "256 \<le> n" by linarith
    then show "shim_inv T"
    proof cases
      case 1
      then have "T = client_gone l (S\<lparr>Ssh := c\<rparr>)" using eq hl r by simp
      then show ?thesis using inv by (simp add: shim_inv_client_gone)
    next
      case 2
      then have "T = esc_timeout l (S\<lparr>Ssh := c\<rparr>)" using eq hl r by simp
      then show ?thesis using inv by (simp add: shim_inv_esc_timeout)
    next
      case 3
      then have "T = esc_timeout l (foldl (FeedByte l) (S\<lparr>Ssh := c\<rparr>) bs)" using eq hl r by simp
      then show ?thesis using 1 by (simp add: shim_inv_esc_timeout)
    next
      case 4
      then have "loop h l (foldl (FeedByte l) (S\<lparr>Ssh := c\<rparr>) bs) = Some T" using eq hl r by simp
      then show ?thesis using IH 1 by blast
    qed
  qed
  then show ?thesis using assms(2) by simp
qed

lemma shim_inv_PumpInput: "PumpInput h l S = Some T \<Longrightarrow> shim_inv S \<Longrightarrow> shim_inv T"
  using shim_inv_pump_loop [of h l S T] shim_inv_InjectExit [of S l] by (auto simp: PumpInput_def split: if_splits)

lemma shim_inv_PopKey: "shim_inv S \<Longrightarrow> shim_inv (snd (PopKey S))"
  by (simp add: PopKey_def key_pop_def shim_inv_def keys_ok_def SHIM_KEY_RING_def)

lemma shim_inv_ReadCommon:
  assumes "ReadCommon h l S = Some (st, kd, T)" and "shim_inv S"
  shows "shim_inv T"
proof -
  obtain U where u: "PumpInput h l S = Some U" using assms(1) by (auto simp: ReadCommon_def)
  have "shim_inv (snd (PopKey U))" by (rule shim_inv_PopKey [OF shim_inv_PumpInput [OF u assms(2)]])
  then show ?thesis using assms(1) u
    by (auto simp: ReadCommon_def split: prod.splits option.splits if_splits)
qed

lemma shim_inv_WaitKey:
  assumes "ShimWaitKeyNotify h l ev S = Some T" and "shim_inv S"
  shows "shim_inv T"
proof -
  obtain U where u: "PumpInput h l S = Some U" using assms(1) by (auto simp: ShimWaitKeyNotify_def)
  have "shim_inv U" by (rule shim_inv_PumpInput [OF u assms(2)])
  then show ?thesis using assms(1) u by (auto simp: ShimWaitKeyNotify_def split: prod.splits if_splits)
qed

lemma shim_inv_Reset: "shim_inv S \<Longrightarrow> shim_inv (snd (ShimInReset S))"
  by (simp add: ShimInReset_def shim_inv_def keys_ok_def SHIM_KEY_RING_def ESC_CAP_def)

lemma shim_inv_Register: "shim_inv S \<Longrightarrow> shim_inv (snd (snd (ShimRegisterNotify kd f b S)))"
  by (simp add: ShimRegisterNotify_def shim_inv_def keys_ok_def Let_def)

lemma shim_inv_Unregister: "shim_inv S \<Longrightarrow> shim_inv (snd (ShimUnregisterNotify hnd S))"
  by (simp add: ShimUnregisterNotify_def shim_inv_def keys_ok_def)

subsection \<open>Output leaves the input side alone\<close>

definition key_view :: "'w shim \<Rightarrow> (nat \<Rightarrow> key_data) \<times> nat \<times> nat \<times> bytes \<times> nat \<times> shim_notify list \<times> nat" where
  "key_view S = (Keys S, KeyHead S, KeyTail S, Esc S, Utf8Need S, Notify S, ExitInjects S)"

lemma shim_inv_key_view: "key_view T = key_view S \<Longrightarrow> shim_inv T = shim_inv S"
  by (simp add: key_view_def shim_inv_def keys_ok_def)

lemma key_view_updates [simp]:
  "key_view (S\<lparr>CursorColumn := a\<rparr>) = key_view S" "key_view (S\<lparr>CursorRow := a\<rparr>) = key_view S"
  "key_view (S\<lparr>PendingWrap := p\<rparr>) = key_view S" "key_view (S\<lparr>Attribute := a\<rparr>) = key_view S"
  "key_view (S\<lparr>CursorVisible := p\<rparr>) = key_view S" "key_view (S\<lparr>Ssh := c\<rparr>) = key_view S"
  "key_view (S\<lparr>Disconnected := p\<rparr>) = key_view S" "key_view (S\<lparr>OutPoll := a\<rparr>) = key_view S"
  "key_view (S\<lparr>ModeNum := a\<rparr>) = key_view S" "key_view (S\<lparr>Cols := a\<rparr>) = key_view S" "key_view (S\<lparr>Rows := a\<rparr>) = key_view S"
  by (simp_all add: key_view_def)

lemma key_view_moves [simp]:
  "key_view (RowDown S) = key_view S" "key_view (tab_stop S) = key_view S" "key_view (advance S) = key_view S"
  "key_view (wrap_now S) = key_view S" "key_view (RefreshSize S) = key_view S"
  by (simp_all add: key_view_def RowDown_def tab_stop_def advance_def wrap_now_def RefreshSize_def Let_def split_beta)

lemma key_view_same: "same_out S T \<Longrightarrow> key_view T = key_view S"
  unfolding same_out_def by (cases S; cases T) (simp add: key_view_def)

text \<open>A state's buffer and input side after a call, relative to those before it.\<close>

definition keeps :: "'w shim \<Rightarrow> 'w shim \<Rightarrow> bool" where
  "keeps S T \<longleftrightarrow> key_view T = key_view S \<and> (length (OutBuf S) \<le> SHIM_OUT_BUF \<longrightarrow> length (OutBuf T) \<le> SHIM_OUT_BUF)"

lemma keeps_trans: "keeps S T \<Longrightarrow> keeps T U \<Longrightarrow> keeps S U"
  by (simp add: keeps_def)

lemma keeps_Emit: "Emit h l bs S = Some T \<Longrightarrow> keeps S T"
  using Emit_lemma [of h l bs S T] key_view_same [of S T] by (simp add: keeps_def)

lemma keeps_EmitByte: "EmitByte h l b S = Some T \<Longrightarrow> keeps S T"
  using EmitByte_lemma [of h l b S T] key_view_same [of S T] by (simp add: keeps_def)

lemma keeps_Flush: "Flush h l S = Some T \<Longrightarrow> keeps S T"
  using Flush_lemma [of h l S T] key_view_same [of S T] by (simp add: keeps_def)

lemma keeps_emit_flush: "Option.bind (Emit h l bs S) (Flush h l) = Some T \<Longrightarrow> keeps S T"
  using emit_flush_lemma [of h l bs S T] key_view_same [of S T] by (simp add: keeps_def)

lemma OutBuf_moves [simp]:
  "OutBuf (RowDown S) = OutBuf S" "OutBuf (tab_stop S) = OutBuf S" "OutBuf (advance S) = OutBuf S"
  "OutBuf (wrap_now S) = OutBuf S" "OutBuf (RefreshSize S) = OutBuf S"
  by (simp_all add: RowDown_def tab_stop_def advance_def wrap_now_def RefreshSize_def Let_def split_beta)

lemma keeps_updates [simp]:
  "keeps S (T\<lparr>CursorColumn := a\<rparr>) = keeps S T" "keeps S (T\<lparr>CursorRow := a\<rparr>) = keeps S T" "keeps S (T\<lparr>PendingWrap := p\<rparr>) = keeps S T"
  "keeps (S\<lparr>CursorColumn := a\<rparr>) T = keeps S T" "keeps (S\<lparr>CursorRow := a\<rparr>) T = keeps S T" "keeps (S\<lparr>PendingWrap := p\<rparr>) T = keeps S T"
  "keeps (S\<lparr>Attribute := a\<rparr>) T = keeps S T" "keeps (S\<lparr>CursorVisible := p\<rparr>) T = keeps S T" "keeps (S\<lparr>ModeNum := a\<rparr>) T = keeps S T"
  "keeps S (RowDown T) = keeps S T" "keeps S (tab_stop T) = keeps S T" "keeps S (advance T) = keeps S T"
  "keeps (wrap_now S) T = keeps S T" "keeps (RefreshSize S) T = keeps S T"
  by (simp_all add: keeps_def)

lemma keeps_refl [simp]: "keeps S S"
  by (simp add: keeps_def)

lemma keeps_out_char:
  assumes "out_char h l c S = Some T"
  shows "keeps S T"
proof -
  consider "c = CHAR_LINEFEED" | "c = CHAR_CARRIAGE_RETURN" | "c = CHAR_BACKSPACE" | "c = CHAR_TAB"
    | "c \<noteq> CHAR_LINEFEED" "c \<noteq> CHAR_CARRIAGE_RETURN" "c \<noteq> CHAR_BACKSPACE" "c \<noteq> CHAR_TAB" by blast
  then show ?thesis
  proof cases
    case 1
    then obtain V where "Emit h l [13, 10] S = Some V" "T = RowDown (V\<lparr>CursorColumn := 0, PendingWrap := False\<rparr>)"
      using assms by (auto simp: out_char_def simp del: Emit.simps)
    with keeps_Emit [of h l "[13, 10]" S V] show ?thesis by simp
  next
    case 2
    with assms keeps_EmitByte [of h l 13 S] show ?thesis by (auto simp: out_char_def char_defs)
  next
    case 3
    with assms keeps_EmitByte [of h l 8 "S\<lparr>CursorColumn := CursorColumn S - 1\<rparr>"] show ?thesis
      by (auto simp: out_char_def char_defs split: if_splits)
  next
    case 4
    with assms keeps_EmitByte [of h l 9 S] show ?thesis by (auto simp: out_char_def char_defs)
  next
    case 5
    with assms keeps_EmitByte [of h l "ucast c" S] keeps_Emit [of h l "utf8_bytes c" "wrap_now S"] show ?thesis
      by (auto simp: out_char_def EmitUtf8_def split: if_splits)
  qed
qed

lemma keeps_out_chars: "out_chars h l cs S = Some T \<Longrightarrow> keeps S T"
proof (induction cs arbitrary: S)
  case (Cons c cs)
  from Cons.prems obtain U where "out_char h l c S = Some U" "out_chars h l cs U = Some T" by (auto simp: bind_eq_Some_conv)
  with Cons.IH keeps_out_char keeps_trans show ?case by blast
qed simp

lemma keeps_ShimOutputString:
  assumes "ShimOutputString h l s S = Some (st, T)"
  shows "keeps S T"
proof -
  from assms obtain U V where 1: "out_poll h S = Some U" "out_chars h l s U = Some V" "Flush h l V = Some T"
    by (auto simp: ShimOutputString_def bind_eq_Some_conv)
  obtain n c d where "U = S\<lparr>OutPoll := n, Ssh := c, Disconnected := d\<rparr>" using out_poll_frame [OF 1(1)] by blast
  then have "keeps S U" by (simp add: keeps_def)
  then show ?thesis using keeps_out_chars [OF 1(2)] keeps_Flush [OF 1(3)] keeps_trans by blast
qed

lemma keeps_ShimClearScreen:
  assumes "ShimClearScreen h l S = Some (st, T)"
  shows "keeps S T"
proof -
  from assms obtain U where "Emit h l clear_seq S = Some U" and
    "Flush h l (U\<lparr>CursorColumn := 0, CursorRow := 0, PendingWrap := False\<rparr>) = Some T"
    by (auto simp: ShimClearScreen_def bind_eq_Some_conv)
  with keeps_Emit [of h l clear_seq S U] keeps_Flush [of h l "U\<lparr>CursorColumn := 0, CursorRow := 0, PendingWrap := False\<rparr>" T]
    keeps_trans [of S U T] show ?thesis by simp
qed

lemma keeps_rest:
  "ShimSetAttribute h l a S = Some (st, T) \<Longrightarrow> keeps S T"
  "ShimSetCursor h l col row S = Some (st, T) \<Longrightarrow> keeps S T"
  "ShimEnableCursor h l v S = Some (st, T) \<Longrightarrow> keeps S T"
  "ShimSetMode h l n S = Some (st, T) \<Longrightarrow> keeps S T"
  "ShimOutReset h l S = Some (st, T) \<Longrightarrow> keeps S T"
proof -
  show "keeps S T" if "ShimSetAttribute h l a S = Some (st, T)"
    using that keeps_emit_flush [of h l "attr_seq a" "S\<lparr>Attribute := a\<rparr>"] by (auto simp: ShimSetAttribute_def split: if_splits)
  show "keeps S T" if "ShimSetCursor h l col row S = Some (st, T)"
    using that keeps_emit_flush [of h l "cursor_seq col row" "S\<lparr>CursorColumn := col, CursorRow := row, PendingWrap := False\<rparr>"]
    by (auto simp: ShimSetCursor_def split: if_splits)
  show "keeps S T" if "ShimEnableCursor h l v S = Some (st, T)"
  proof -
    from that have "Option.bind (Emit h l (0x1B # bytes_of (if v then ''[?25h'' else ''[?25l'')) (S\<lparr>CursorVisible := v\<rparr>)) (Flush h l) = Some T"
      unfolding ShimEnableCursor_def by (auto simp del: bytes_of_Cons Emit.simps)
    from keeps_emit_flush [OF this] show ?thesis by simp
  qed
  show "keeps S T" if "ShimSetMode h l n S = Some (st, T)"
    using that keeps_ShimClearScreen [of h l "RefreshSize (S\<lparr>ModeNum := 0\<rparr>)" st T] by (auto simp: ShimSetMode_def split: if_splits)
  show "keeps S T" if "ShimOutReset h l S = Some (st, T)"
  proof -
    from that obtain U where "Option.bind (Emit h l (0x1B # bytes_of ''[0m'' @ 0x1B # bytes_of ''[?25h'')
        (S\<lparr>Attribute := 0x07, CursorVisible := True\<rparr>)) (Flush h l) = Some U" "ShimClearScreen h l U = Some (st, T)"
      by (auto simp: ShimOutReset_def bind_eq_Some_conv simp del: bytes_of_Cons Emit.simps)
    with keeps_emit_flush [OF this(1)] keeps_ShimClearScreen [OF this(2)] keeps_trans show ?thesis by simp
  qed
qed

lemma keeps_ShimQueryMode: "keeps S (snd (snd (ShimQueryMode n S)))"
  by (simp add: ShimQueryMode_def Let_def keeps_def)

subsection \<open>Every call of the protocols\<close>

text \<open>Between two calls anything may happen outside the program.\<close>

inductive shim_step :: "'w host \<Rightarrow> 'w console \<Rightarrow> 'w shim \<Rightarrow> 'w shim \<Rightarrow> bool" for h l where
  step_string: "ShimOutputString h l s S = Some (st, T) \<Longrightarrow> shim_step h l S T"
| step_query: "shim_step h l S (snd (snd (ShimQueryMode n S)))"
| step_mode: "ShimSetMode h l n S = Some (st, T) \<Longrightarrow> shim_step h l S T"
| step_attr: "ShimSetAttribute h l a S = Some (st, T) \<Longrightarrow> shim_step h l S T"
| step_clear: "ShimClearScreen h l S = Some (st, T) \<Longrightarrow> shim_step h l S T"
| step_cursor: "ShimSetCursor h l col row S = Some (st, T) \<Longrightarrow> shim_step h l S T"
| step_enable: "ShimEnableCursor h l v S = Some (st, T) \<Longrightarrow> shim_step h l S T"
| step_oreset: "ShimOutReset h l S = Some (st, T) \<Longrightarrow> shim_step h l S T"
| step_ireset: "shim_step h l S (snd (ShimInReset S))"
| step_key: "ReadCommon h l S = Some (st, kd, T) \<Longrightarrow> shim_step h l S T"
| step_register: "shim_step h l S (snd (snd (ShimRegisterNotify kd f b S)))"
| step_unregister: "shim_step h l S (snd (ShimUnregisterNotify hnd S))"
| step_wait: "ShimWaitKeyNotify h l ev S = Some T \<Longrightarrow> shim_step h l S T"
| step_outside: "shim_step h l S (S\<lparr>Ssh := (Ssh S)\<lparr>ioCtx := w\<rparr>\<rparr>)"

lemma shim_inv_keeps: "keeps S T \<Longrightarrow> shim_inv S \<Longrightarrow> shim_inv T"
  using shim_inv_key_view [of T S] by (simp add: keeps_def)

lemma shim_step_inv:
  assumes "shim_step h l S T" and "shim_inv S"
  shows "shim_inv T"
  using assms(1)
proof cases
  case (step_string s st)
  from keeps_ShimOutputString [OF this] show ?thesis using shim_inv_keeps assms(2) by blast
next
  case (step_query n)
  then show ?thesis using shim_inv_keeps [OF keeps_ShimQueryMode] assms(2) by blast
next
  case (step_mode n st)
  from keeps_rest(4) [OF this] show ?thesis using shim_inv_keeps assms(2) by blast
next
  case (step_attr a st)
  from keeps_rest(1) [OF this] show ?thesis using shim_inv_keeps assms(2) by blast
next
  case (step_clear st)
  from keeps_ShimClearScreen [OF this] show ?thesis using shim_inv_keeps assms(2) by blast
next
  case (step_cursor col row st)
  from keeps_rest(2) [OF this] show ?thesis using shim_inv_keeps assms(2) by blast
next
  case (step_enable v st)
  from keeps_rest(3) [OF this] show ?thesis using shim_inv_keeps assms(2) by blast
next
  case (step_oreset st)
  from keeps_rest(5) [OF this] show ?thesis using shim_inv_keeps assms(2) by blast
next
  case (step_outside w)
  then show ?thesis using assms(2) shim_inv_key_view [of T S] by (simp add: key_view_def)
qed (use assms(2) shim_inv_Reset shim_inv_ReadCommon shim_inv_Register shim_inv_Unregister shim_inv_WaitKey in blast)+

subsection \<open>Typed text\<close>

text \<open>Between characters: no escape sequence and no continuation byte awaited.\<close>

definition idle :: "'w shim \<Rightarrow> bool" where
  "idle S \<longleftrightarrow> Esc S = [] \<and> Utf8Need S = 0 \<and> keys_ok S"

lemma Utf8Need_PushKey [simp]: "Utf8Need (PushKey l scan ch S) = Utf8Need S" "LastWasCr (PushKey l scan ch S) = LastWasCr S"
  using dec_view_PushKey [of l scan ch S] by (simp_all add: dec_view_def)

lemma idle_PushKey: "idle S \<Longrightarrow> idle (PushKey l scan ch S)"
  by (simp add: idle_def PushKey_queue(2))

lemma unat_and_mask_byte:
  "unat (b AND 0x3F :: byte) = unat b mod 64" "unat (b AND 0x1F :: byte) = unat b mod 32" "unat (b AND 0x0F :: byte) = unat b mod 16"
proof -
  have m: "b AND 0x3F = take_bit 6 b" "b AND 0x1F = take_bit 5 b" "b AND 0x0F = take_bit 4 b"
    by (simp_all add: take_bit_eq_mask mask_eq_exp_minus_1)
  show "unat (b AND 0x3F) = unat b mod 64" "unat (b AND 0x1F) = unat b mod 32" "unat (b AND 0x0F) = unat b mod 16"
    unfolding m by (simp_all only: unsigned_take_bit_eq) (simp_all add: take_bit_eq_mod)
qed

lemma continuation_iff: "(b :: byte) AND 0xC0 = 0x80 \<longleftrightarrow> 128 \<le> unat b \<and> unat b < 192"
proof -
  have "\<forall>x\<in>set (map (\<lambda>n. of_nat n :: byte) [0..<256]). x AND 0xC0 = 0x80 \<longleftrightarrow> 128 \<le> unat x \<and> unat x < 192"
    by code_simp
  moreover have "b \<in> set (map (\<lambda>n. of_nat n) [0..<256])"
  proof -
    have "b = of_nat (unat b)" by simp
    moreover have "unat b \<in> set [0..<256]" by simp
    ultimately show ?thesis by (metis image_eqI set_map)
  qed
  ultimately show ?thesis by blast
qed

text \<open>One continuation byte.\<close>

lemma feed_continuation:
  assumes "Esc S = []" and "0 < Utf8Need S" and "128 \<le> unat b" and "unat b < 192"
  shows "FeedByte l S b = (let S = S\<lparr>Utf8Acc := push_bit 6 (Utf8Acc S) OR ucast (b AND 0x3F), Utf8Need := Utf8Need S - 1\<rparr> in
    if Utf8Need S = 0 \<and> Utf8Acc S \<le> 0xFFFF then PushKey l SCAN_NULL (ucast (Utf8Acc S)) S else S)"
proof -
  have "b \<noteq> 0x1B" using assms(3) by (auto simp: word_unat_eq_iff)
  then show ?thesis using assms continuation_iff [of b] by (simp add: FeedByte_def feed_ground_def)
qed

lemma unat_acc:
  assumes "unat a < 65536"
  shows "unat (push_bit 6 a OR ucast (b AND 0x3F :: byte) :: u32) = unat a * 64 + unat b mod 64"
proof -
  have p: "unat (push_bit 6 a) = unat a * 64"
    using assms by (simp only: unsigned_push_bit_eq) (simp add: take_bit_eq_mod push_bit_eq_mult)
  have u: "unat (ucast (b AND 0x3F) :: u32) = unat b mod 64"
    using unat_and_mask_byte(1) [of b] by (simp add: unsigned_ucast_eq take_bit_eq_mod)
  have "push_bit 6 a AND ucast (b AND 0x3F) = 0"
  proof -
    have t: "b AND 0x3F = take_bit 6 b" by (simp add: take_bit_eq_mask mask_eq_exp_minus_1)
    show ?thesis unfolding t by (rule bit_word_eqI) (auto simp: bit_simps)
  qed
  then have "push_bit 6 a OR ucast (b AND 0x3F) = push_bit 6 a + (ucast (b AND 0x3F) :: u32)"
    using word_plus_and_or [of "push_bit 6 a" "ucast (b AND 0x3F)"] by simp
  then show ?thesis using p u assms by (simp add: unat_word_ariths)
qed

lemma u16_of_acc: "unat (a :: u32) = unat (c :: u16) \<Longrightarrow> ucast a = c"
proof -
  assume "unat a = unat c"
  moreover have "unat c < 65536" using unsigned_less [of c] by simp
  ultimately have "unat (ucast a :: u16) = unat c" by (simp add: unsigned_ucast_eq take_bit_eq_mod)
  then show ?thesis by (simp add: word_unat_eq_iff)
qed

lemma lead_mods: "k < 32 \<Longrightarrow> (192 + k) mod 32 = k" "k < 16 \<Longrightarrow> (224 + k) mod 16 = k" "k < 64 \<Longrightarrow> (128 + k) mod 64 = k" for k :: nat
  using mod_mult_self3 [of 6 32 k] mod_mult_self3 [of 14 16 k] mod_mult_self3 [of 2 64 k] by simp_all

text \<open>What a lead byte starts.\<close>

lemma feed_lead_2:
  assumes "idle S" and "unat a = 192 + k" and "k < 32"
  shows "\<exists>x. FeedByte l S a = S\<lparr>Utf8Acc := x, Utf8Need := 1\<rparr> \<and> unat x = k"
proof (intro exI conjI)
  have "a \<noteq> 0x1B" "\<not> 0xF0 \<le> a" "\<not> 0xE0 \<le> a" "0xC0 \<le> a"
    using assms(2,3) by (auto simp: word_le_nat_alt word_unat_eq_iff)
  then show "FeedByte l S a = S\<lparr>Utf8Acc := ucast (a AND 0x1F), Utf8Need := 1\<rparr>"
    using assms(1) by (simp add: idle_def FeedByte_def feed_ground_def feed_lead_def)
  show "unat (ucast (a AND 0x1F) :: u32) = k"
    using assms(2,3) unat_and_mask_byte(2) [of a] by (simp add: lead_mods unsigned_ucast_eq take_bit_eq_mod)
qed

lemma feed_lead_3:
  assumes "idle S" and "unat a = 224 + k" and "k < 16"
  shows "\<exists>x. FeedByte l S a = S\<lparr>Utf8Acc := x, Utf8Need := 2\<rparr> \<and> unat x = k"
proof (intro exI conjI)
  have "a \<noteq> 0x1B" "\<not> 0xF0 \<le> a" "0xE0 \<le> a"
    using assms(2,3) by (auto simp: word_le_nat_alt word_unat_eq_iff)
  then show "FeedByte l S a = S\<lparr>Utf8Acc := ucast (a AND 0x0F), Utf8Need := 2\<rparr>"
    using assms(1) by (simp add: idle_def FeedByte_def feed_ground_def feed_lead_def)
  show "unat (ucast (a AND 0x0F) :: u32) = k"
    using assms(2,3) unat_and_mask_byte(3) [of a] by (simp add: lead_mods unsigned_ucast_eq take_bit_eq_mod)
qed

lemma feed_last:
  assumes "Esc S = []" and "Utf8Need S = 1" and "unat (Utf8Acc S) * 64 + k = unat c" and "unat b = 128 + k" and "k < 64"
  shows "\<exists>x. FeedByte l S b = PushKey l SCAN_NULL c (S\<lparr>Utf8Acc := x, Utf8Need := 0\<rparr>)"
proof -
  let ?x = "push_bit 6 (Utf8Acc S) OR ucast (b AND 0x3F) :: u32"
  have c: "unat c < 65536" using unsigned_less [of c] by simp
  have a: "unat ?x = unat c" using unat_acc [of "Utf8Acc S" b] assms(3-5) c by (simp add: lead_mods)
  then have "?x \<le> 0xFFFF" using c by (simp add: word_le_nat_alt)
  moreover have "ucast ?x = c" using u16_of_acc [OF a] .
  ultimately show ?thesis using feed_continuation [of S b l] assms by (intro exI [of _ ?x]) (simp add: Let_def)
qed

lemma feed_middle:
  assumes "Esc S = []" and "Utf8Need S = 2" and "unat (Utf8Acc S) < 65536" and "unat b = 128 + k" and "k < 64"
  shows "\<exists>x. FeedByte l S b = S\<lparr>Utf8Acc := x, Utf8Need := 1\<rparr> \<and> unat x = unat (Utf8Acc S) * 64 + k"
  using feed_continuation [of S b l] assms unat_acc [OF assms(3), of b]
  by (intro exI [of _ "push_bit 6 (Utf8Acc S) OR ucast (b AND 0x3F) :: u32"]) (simp add: Let_def lead_mods)

lemma same_keys_updates [simp]:
  "same_keys S (T\<lparr>Utf8Acc := x\<rparr>) = same_keys S T" "same_keys S (T\<lparr>Utf8Need := n\<rparr>) = same_keys S T"
  "same_keys S (T\<lparr>LastWasCr := b\<rparr>) = same_keys S T"
  by (simp_all add: same_keys_def)

text \<open>One character of text: its key, whatever its encoding's length.\<close>

lemma feed_char_lemma:
  assumes "idle S" and "0x20 \<le> c" and "c \<noteq> 0x7F"
  shows "idle (foldl (FeedByte l) S (utf8_bytes c)) \<and> same_keys (key_push (the_key SCAN_NULL c) S) (foldl (FeedByte l) S (utf8_bytes c)) \<and>
    LastWasCr (foldl (FeedByte l) S (utf8_bytes c)) = (0x80 \<le> c \<and> LastWasCr S)"
proof -
  have c: "32 \<le> unat c" "unat c \<noteq> 127" "unat c < 65536"
    using assms(2,3) unsigned_less [of c] by (simp_all add: word_le_nat_alt word_unat_eq_iff)
  have ge: "0x80 \<le> c \<longleftrightarrow> 128 \<le> unat c" by (simp add: word_le_nat_alt)
  have u: "map unat (utf8_bytes c) = (if unat c < 128 then [unat c]
     else if unat c < 2048 then [192 + unat c div 64, 128 + unat c mod 64]
     else [224 + unat c div 4096, 128 + unat c div 64 mod 64, 128 + unat c mod 64])" by (rule utf8_unat)
  have push: "same_keys (key_push (the_key SCAN_NULL c) S) (PushKey l SCAN_NULL c T)" if "same_keys S T" for T
    using same_keys_trans [OF same_keys_push [OF that] PushKey_ring] .
  have pi: "idle (PushKey l SCAN_NULL c (S\<lparr>Utf8Acc := x, Utf8Need := 0\<rparr>))" for x
    using assms(1) by (intro idle_PushKey) (simp add: idle_def)
  have e: "Esc S = []" using assms(1) by (simp add: idle_def)
  consider (1) "unat c < 128" | (2) "128 \<le> unat c" "unat c < 2048" | (3) "2048 \<le> unat c" by linarith
  then show ?thesis
  proof cases
    case 1
    with u obtain b where b: "utf8_bytes c = [b]" "unat b = unat c" by auto
    have n: "b \<noteq> 0x1B" "\<not> 0xF0 \<le> b" "\<not> 0xE0 \<le> b" "\<not> 0xC0 \<le> b" "b \<noteq> 13" "b \<noteq> 10" "b \<noteq> 0x7F" "b \<noteq> 8"
      using b(2) c 1 by (auto simp: word_le_nat_alt word_unat_eq_iff)
    have "unat (ucast b :: u16) = unat c" using b(2) 1 by (simp add: unsigned_ucast_eq take_bit_eq_mod)
    then have "(ucast b :: u16) = c" by (simp add: word_unat_eq_iff)
    then have "FeedByte l S b = PushKey l SCAN_NULL c (S\<lparr>LastWasCr := False\<rparr>)"
      using n assms(1) by (simp add: idle_def FeedByte_def feed_ground_def feed_lead_def Let_def)
    moreover have "idle (PushKey l SCAN_NULL c (S\<lparr>LastWasCr := False\<rparr>))"
      using assms(1) by (intro idle_PushKey) (simp add: idle_def)
    ultimately show ?thesis using b(1) 1 ge push [of "S\<lparr>LastWasCr := False\<rparr>"] by simp
  next
    case 2
    with u obtain a b where b: "utf8_bytes c = [a, b]" "unat a = 192 + unat c div 64" "unat b = 128 + unat c mod 64" by auto
    obtain x where x: "FeedByte l S a = S\<lparr>Utf8Acc := x, Utf8Need := 1\<rparr>" "unat x = unat c div 64"
    proof -
      have "unat c div 64 < 32" using 2(2) by (simp add: less_mult_imp_div_less)
      then show thesis using feed_lead_2 [OF assms(1) b(2), of l] that by blast
    qed
    obtain y where y: "FeedByte l (S\<lparr>Utf8Acc := x, Utf8Need := 1\<rparr>) b = PushKey l SCAN_NULL c (S\<lparr>Utf8Acc := y, Utf8Need := 0\<rparr>)"
      using feed_last [of "S\<lparr>Utf8Acc := x, Utf8Need := 1\<rparr>" "unat c mod 64" c b l] e x(2) b(3) by auto
    show ?thesis using b(1) x(1) y 2 ge pi push [of "S\<lparr>Utf8Acc := y, Utf8Need := 0\<rparr>"] by simp
  next
    case 3
    with u obtain a b d where b: "utf8_bytes c = [a, b, d]" "unat a = 224 + unat c div 4096"
      "unat b = 128 + unat c div 64 mod 64" "unat d = 128 + unat c mod 64" by auto
    obtain x where x: "FeedByte l S a = S\<lparr>Utf8Acc := x, Utf8Need := 2\<rparr>" "unat x = unat c div 4096"
    proof -
      have "unat c div 4096 < 16" using c(3) by (simp add: less_mult_imp_div_less)
      then show thesis using feed_lead_3 [OF assms(1) b(2), of l] that by blast
    qed
    obtain y where y: "FeedByte l (S\<lparr>Utf8Acc := x, Utf8Need := 2\<rparr>) b = S\<lparr>Utf8Acc := y, Utf8Need := 1\<rparr>"
      "unat y = unat c div 4096 * 64 + unat c div 64 mod 64"
      using feed_middle [of "S\<lparr>Utf8Acc := x, Utf8Need := 2\<rparr>" b "unat c div 64 mod 64" l] e x(2) b(3)
        div_le_dividend [of "unat c" 4096] c(3) by auto
    have d: "unat c div 4096 * 64 + unat c div 64 mod 64 = unat c div 64"
    proof -
      have "unat c div 64 div 64 = unat c div 4096" by (simp add: div_mult2_eq [symmetric])
      then show ?thesis by (metis div_mult_mod_eq)
    qed
    obtain z where z: "FeedByte l (S\<lparr>Utf8Acc := y, Utf8Need := 1\<rparr>) d = PushKey l SCAN_NULL c (S\<lparr>Utf8Acc := z, Utf8Need := 0\<rparr>)"
      using feed_last [of "S\<lparr>Utf8Acc := y, Utf8Need := 1\<rparr>" "unat c mod 64" c d l] e y(2) b(4) d by auto
    show ?thesis using b(1) x(1) y(1) z 3 ge pi push [of "S\<lparr>Utf8Acc := z, Utf8Need := 0\<rparr>"] by simp
  qed
qed

lemma feed_text_lemma:
  "idle S \<Longrightarrow> list_all (\<lambda>c. 0x20 \<le> c \<and> c \<noteq> 0x7F) cs \<Longrightarrow>
   idle (foldl (FeedByte l) S (concat (map utf8_bytes cs))) \<and>
   same_keys (fold key_push (map (the_key SCAN_NULL) cs) S) (foldl (FeedByte l) S (concat (map utf8_bytes cs)))"
proof (induction cs arbitrary: S)
  case (Cons c cs)
  let ?T = "foldl (FeedByte l) S (utf8_bytes c)"
  have t: "idle ?T" "same_keys (key_push (the_key SCAN_NULL c) S) ?T"
    using feed_char_lemma [OF Cons.prems(1), of c l] Cons.prems(2) by simp_all
  have "same_keys (fold key_push ks A) (fold key_push ks B)" if "same_keys A B" for ks and A B :: "'a shim"
    using that by (induction ks arbitrary: A B) (simp_all add: same_keys_push)
  from this [OF t(2)] Cons.IH [OF t(1)] Cons.prems(2) same_keys_trans show ?case by simp blast
qed simp

subsection \<open>Control keys and escape sequences\<close>

text \<open>A complete control sequence that fits the buffer.\<close>

lemma feed_params:
  assumes "list_all (\<lambda>b. b < 0x40) ps" and "Esc S = e" and "2 \<le> length e" and "e ! 1 = 91" and "length e + length ps < ESC_CAP"
  shows "foldl (FeedByte l) S ps = S\<lparr>Esc := e @ ps\<rparr>"
  using assms
proof (induction ps arbitrary: S e)
  case Nil
  then show ?case by simp
next
  case (Cons p ps)
  have p: "\<not> 0x40 \<le> p" using Cons.prems(1) by (simp add: not_le)
  have "FeedByte l S p = S\<lparr>Esc := e @ [p]\<rparr>"
    using Cons.prems p by (auto simp: FeedByte_def Let_def nth_append)
  moreover have "foldl (FeedByte l) (S\<lparr>Esc := e @ [p]\<rparr>) ps = S\<lparr>Esc := e @ [p]\<rparr>\<lparr>Esc := (e @ [p]) @ ps\<rparr>"
    by (rule Cons.IH) (use Cons.prems in \<open>auto simp: nth_append\<close>)
  ultimately show ?case by simp
qed

lemma feed_csi_lemma:
  assumes "idle S" and "list_all (\<lambda>b. b < 0x40) ps" and "length ps \<le> 21" and "0x40 \<le> f" and "f \<le> 0x7E"
  shows "\<exists>w t. foldl (FeedByte l) S (27 # 91 # ps @ [f]) =
    (push_scan l (csi_scan (27 # 91 # ps @ [f])) (S\<lparr>Ssh := (Ssh S)\<lparr>ioCtx := w\<rparr>, EscTick := t, Esc := 27 # 91 # ps @ [f]\<rparr>))\<lparr>Esc := []\<rparr>"
proof -
  have e: "Esc S = []" "Utf8Need S = 0" using assms(1) by (simp_all add: idle_def)
  obtain t w where tk: "Ticks l (ioCtx (Ssh S)) = (t, w)" by (cases "Ticks l (ioCtx (Ssh S))")
  let ?S = "S\<lparr>Ssh := (Ssh S)\<lparr>ioCtx := w\<rparr>, EscTick := t\<rparr>"
  have 1: "FeedByte l S 27 = ?S\<lparr>Esc := [27]\<rparr>" using e tk by (simp add: FeedByte_def feed_ground_def)
  have 2: "FeedByte l (?S\<lparr>Esc := [27]\<rparr>) 91 = ?S\<lparr>Esc := [27, 91]\<rparr>" by (simp add: FeedByte_def ESC_CAP_def)
  have 3: "foldl (FeedByte l) (?S\<lparr>Esc := [27, 91]\<rparr>) ps = ?S\<lparr>Esc := [27, 91]\<rparr>\<lparr>Esc := [27, 91] @ ps\<rparr>"
    by (rule feed_params) (use assms(2,3) in \<open>simp_all add: ESC_CAP_def\<close>)
  have 4: "FeedByte l (?S\<lparr>Esc := [27, 91] @ ps\<rparr>) f = (HandleCsi l (?S\<lparr>Esc := 27 # 91 # ps @ [f]\<rparr>))\<lparr>Esc := []\<rparr>"
    using assms(3-5) by (simp add: FeedByte_def ESC_CAP_def Let_def)
  show ?thesis
    by (rule exI [of _ w], rule exI [of _ t]) (use 1 2 3 4 in \<open>simp add: HandleCsi_def\<close>)
qed

lemma feed_cr:
  assumes "idle S"
  shows "FeedByte l S 13 = PushKey l SCAN_NULL CHAR_CARRIAGE_RETURN (S\<lparr>LastWasCr := True\<rparr>)"
  using assms by (simp add: idle_def FeedByte_def feed_ground_def feed_lead_def)

lemma feed_lf:
  assumes "idle S"
  shows "FeedByte l S 10 = (if LastWasCr S then S\<lparr>LastWasCr := False\<rparr> else PushKey l SCAN_NULL CHAR_CARRIAGE_RETURN S)"
  using assms by (simp add: idle_def FeedByte_def feed_ground_def feed_lead_def)

lemma exit_keys:
  assumes "keys_ok S" and "key_queue S = []"
  shows "key_queue (foldl (\<lambda>S c. PushKey l SCAN_NULL c S) S exit_chars) = map (the_key SCAN_NULL) exit_chars"
proof -
  have "same_keys (fold key_push (map (the_key SCAN_NULL) cs) S) (foldl (\<lambda>S c. PushKey l SCAN_NULL c S) T cs)"
    if "same_keys S T" for cs and S T :: "'a shim"
    using that
  proof (induction cs arbitrary: S T)
    case (Cons c cs)
    have "same_keys (key_push (the_key SCAN_NULL c) S) (PushKey l SCAN_NULL c T)"
      using same_keys_trans [OF same_keys_push [OF Cons.prems] PushKey_ring] .
    from Cons.IH [OF this] show ?case by simp
  qed simp
  from same_keys_queue [OF this [OF same_keys_refl [of S], of exit_chars]]
  have "key_queue (foldl (\<lambda>S c. PushKey l SCAN_NULL c S) S exit_chars) = key_queue (fold key_push (map (the_key SCAN_NULL) exit_chars) S)"
    by simp
  also have "\<dots> = map (the_key SCAN_NULL) exit_chars"
    using key_ring.contents_pushes_fit [OF assms(1), of "map (the_key SCAN_NULL) exit_chars"] assms(2)
    by (simp add: exit_chars_def SHIM_KEY_RING_def)
  finally show ?thesis .
qed

subsection \<open>Properties\<close>

text \<open>C25: Memory safety of the shim's input side: whatever bytes the client sends and whatever the Shell calls,
  in any order, the ring indices, the escape buffer, the continuation count and the notification
  table stay inside their arrays, and \<^verbatim>\<open>exit\<close> is typed at most 40 times.\<close>
theorem shim_input_safe:
  assumes "shim_inv S" and "(shim_step h l)\<^sup>*\<^sup>* S T"
  shows "KeyHead T < SHIM_KEY_RING \<and> KeyTail T < SHIM_KEY_RING \<and> length (Esc T) < ESC_CAP \<and> Utf8Need T \<le> 3 \<and>
    length (Notify T) = SHIM_MAX_NOTIFY \<and> ExitInjects T \<le> SHIM_EXIT_INJECT_MAX"
proof -
  have "shim_inv T" using assms(2,1) by (induction rule: rtranclp_induct) (auto intro: shim_step_inv)
  then show ?thesis by (simp add: shim_inv_def keys_ok_def)
qed

lemma sample_shim_inv: "shim_inv sample_shim"
  by (simp add: shim_inv_def sample_shim_def shim_zero_def keys_ok_def SHIM_KEY_RING_def ESC_CAP_def)

theorem shim_input_safe_witness: "length (Esc (snd (ShimInReset sample_shim))) < ESC_CAP"
  using shim_input_safe [OF sample_shim_inv r_into_rtranclp [where r = "shim_step sample_host quiet_console", OF step_ireset]] by blast

text \<open>C26: The two UTF-8 coders agree: text the shim's encoder would send, fed back through its input decoder from
  an idle state, arrives in the key ring as exactly its characters, in order, as far as the ring has
  room, whatever the lengths of the encodings.\<close>
theorem utf8_round_trip:
  assumes "idle S" and "list_all (\<lambda>c. 0x20 \<le> c \<and> c \<noteq> 0x7F) cs"
  shows "key_queue (foldl (FeedByte l) S (concat (map utf8_bytes cs))) =
    key_queue S @ take (SHIM_KEY_RING - 1 - length (key_queue S)) (map (the_key SCAN_NULL) cs)"
proof -
  have "keys_ok S" using assms(1) by (simp add: idle_def)
  from key_ring.contents_pushes [OF this] same_keys_queue [OF conjunct2 [OF feed_text_lemma [OF assms, of l]]]
  show ?thesis by simp
qed

lemma sample_idle: "idle sample_shim" "key_queue sample_shim = []" "\<not> LastWasCr sample_shim"
  by (simp_all add: idle_def keys_ok_def sample_shim_def shim_zero_def SHIM_KEY_RING_def key_queue_def ring_list_def ring_count_def)

theorem utf8_round_trip_witness:
  "key_queue (foldl (FeedByte quiet_console) sample_shim (concat (map utf8_bytes [0x68, 0xE9, 0x20AC]))) = map (the_key SCAN_NULL) [0x68, 0xE9, 0x20AC]"
  by (subst utf8_round_trip [OF sample_idle(1)]) (simp_all add: sample_idle SHIM_KEY_RING_def)

text \<open>C27: Control sequences: a complete \<^verbatim>\<open>ESC [\<close> sequence with at most 21 parameter bytes, fed from an idle
  state, pushes the one key its final byte and first parameter stand for, or none, and leaves the
  decoder idle; no byte of it is typed as text.\<close>
theorem csi_one_key:
  assumes "idle S" and "list_all (\<lambda>b. b < 0x40) ps" and "length ps \<le> 21" and "0x40 \<le> f" and "f \<le> 0x7E"
  shows "(let k = csi_scan (27 # 91 # ps @ [f]); T = foldl (FeedByte l) S (27 # 91 # ps @ [f]) in
    idle T \<and> key_queue T = (if k \<noteq> SCAN_NULL \<and> length (key_queue S) + 1 < SHIM_KEY_RING
      then key_queue S @ [the_key k 0] else key_queue S))"
proof -
  let ?e = "27 # 91 # ps @ [f]"
  obtain w t where r: "foldl (FeedByte l) S ?e =
      (push_scan l (csi_scan ?e) (S\<lparr>Ssh := (Ssh S)\<lparr>ioCtx := w\<rparr>, EscTick := t, Esc := ?e\<rparr>))\<lparr>Esc := []\<rparr>"
    using feed_csi_lemma [OF assms, of l] by blast
  let ?S = "S\<lparr>Ssh := (Ssh S)\<lparr>ioCtx := w\<rparr>, EscTick := t, Esc := ?e\<rparr>"
  have q: "keys_ok ?S" "key_queue ?S = key_queue S" "Utf8Need ?S = 0"
    using assms(1) by (simp_all add: idle_def keys_ok_def key_queue_def)
  have e: "key_queue (T\<lparr>Esc := []\<rparr>) = key_queue T" "idle (T\<lparr>Esc := []\<rparr>) \<longleftrightarrow> Utf8Need T = 0 \<and> keys_ok T" for T :: "'a shim"
    by (simp_all add: key_queue_def idle_def)
  show ?thesis
    unfolding Let_def r e using PushKey_queue [OF q(1), of l "csi_scan ?e" 0] q by (simp add: push_scan_def)
qed

theorem csi_one_key_witness:
  "key_queue (foldl (FeedByte quiet_console) sample_shim [27, 91, 53, 126]) = [the_key 9 0]"
  using csi_one_key [OF sample_idle(1), of "[53]" 126 quiet_console]
  by (simp add: Let_def csi_scan_def csi_param_def tilde_scan_def SCAN_NULL_def sample_idle SHIM_KEY_RING_def)

text \<open>A lost Enter: the flag that pairs a line feed with a carriage return survives characters outside
  ASCII, so after Enter and such a character the next line feed is swallowed; after an ASCII
  character it is not.\<close>
theorem enter_lost_after_utf8:
  assumes "idle S" and "0x20 \<le> c" and "c \<noteq> 0x7F" and "length (key_queue S) + 3 < SHIM_KEY_RING"
  shows "key_queue (foldl (FeedByte l) S (13 # utf8_bytes c @ [10])) =
    (key_queue S @ [the_key SCAN_NULL CHAR_CARRIAGE_RETURN, the_key SCAN_NULL c]) @
    (if 0x80 \<le> c then [] else [the_key SCAN_NULL CHAR_CARRIAGE_RETURN])"
proof -
  let ?A = "PushKey l SCAN_NULL CHAR_CARRIAGE_RETURN (S\<lparr>LastWasCr := True\<rparr>)"
  let ?B = "foldl (FeedByte l) ?A (utf8_bytes c)"
  have i: "idle (S\<lparr>LastWasCr := True\<rparr>)" "key_queue (S\<lparr>LastWasCr := True\<rparr>) = key_queue S"
    using assms(1) by (simp_all add: idle_def key_queue_def)
  have a: "idle ?A" by (rule idle_PushKey [OF i(1)])
  have qa: "key_queue ?A = key_queue S @ [the_key SCAN_NULL CHAR_CARRIAGE_RETURN]"
    using PushKey_queue(1) [of "S\<lparr>LastWasCr := True\<rparr>" l SCAN_NULL CHAR_CARRIAGE_RETURN] i assms(4) by (simp add: idle_def)
  note b = feed_char_lemma [OF a assms(2,3), of l]
  have ka: "keys_ok ?A" using a by (simp add: idle_def)
  have qb: "key_queue ?B = key_queue ?A @ [the_key SCAN_NULL c]"
  proof -
    have "same_keys (key_push (the_key SCAN_NULL c) ?A) ?B" using b by simp
    then have "key_queue ?B = key_queue (key_push (the_key SCAN_NULL c) ?A)" by (simp add: same_keys_queue)
    then show ?thesis using key_ring.contents_push [OF ka, of "the_key SCAN_NULL c"] qa assms(4) by simp
  qed
  have kb: "keys_ok ?B" using b by (simp add: idle_def)
  have f: "foldl (FeedByte l) S (13 # utf8_bytes c @ [10]) = FeedByte l ?B 10" using feed_cr [OF assms(1)] by simp
  show ?thesis
  proof (cases "0x80 \<le> c")
    case True
    then have "FeedByte l ?B 10 = ?B\<lparr>LastWasCr := False\<rparr>" using feed_lf [of ?B l] b by simp
    then show ?thesis unfolding f using True qa qb by (simp add: key_queue_def)
  next
    case False
    then have "FeedByte l ?B 10 = PushKey l SCAN_NULL CHAR_CARRIAGE_RETURN ?B" using feed_lf [of ?B l] b by simp
    then show ?thesis unfolding f using False qa qb PushKey_queue(1) [OF kb] assms(4) by simp
  qed
qed

theorem enter_lost_after_utf8_witness:
  "key_queue (foldl (FeedByte quiet_console) sample_shim (13 # utf8_bytes 0xE9 @ [10])) =
     [the_key SCAN_NULL CHAR_CARRIAGE_RETURN, the_key SCAN_NULL 0xE9]"
  by (subst enter_lost_after_utf8 [OF sample_idle(1)]) (simp_all add: sample_idle SHIM_KEY_RING_def)

text \<open>The vanished client: when reading reports the connection gone and no key waits, the next key read is the
  first of \<^verbatim>\<open>exit\<close> and Enter, which the Shell then reads in order; the break notification fires first.\<close>
theorem client_gone_types_exit:
  assumes "SshRead h 256 (Ssh S) = Some (n, bs, c)" and "n < 0" and "\<not> Disconnected S" and "keys_ok S" and "key_queue S = []"
    and "ExitInjects S < SHIM_EXIT_INJECT_MAX"
  shows "\<exists>T. PumpInput h l S = Some T \<and> Disconnected T \<and> key_queue T = map (the_key SCAN_NULL) exit_chars"
proof -
  let ?S = "FireBreak l (S\<lparr>Ssh := c, Disconnected := True\<rparr>)"
  have p: "PumpInput h l S = Some (client_gone l (S\<lparr>Ssh := c\<rparr>))"
    using assms(1-3) by (simp add: PumpInput_def) (subst pump_loop.simps, simp)
  have v: "in_view ?S = in_view (S\<lparr>Ssh := c, Disconnected := True\<rparr>)" by (simp add: FireBreak_def Let_def)
  have k: "key_queue ?S = []" "keys_ok ?S" "KeysEmpty ?S" "ExitInjects ?S = ExitInjects S" "Disconnected ?S"
    using v assms(4,5) key_ring.empty_iff [OF assms(4)]
    by (simp_all add: in_view_def key_queue_def keys_ok_def KeysEmpty_def)
  let ?U = "?S\<lparr>ExitInjects := ExitInjects ?S + 1\<rparr>"
  have u: "client_gone l (S\<lparr>Ssh := c\<rparr>) = foldl (\<lambda>S c. PushKey l SCAN_NULL c S) ?U exit_chars"
    using k assms(6) by (simp add: client_gone_def InjectExit_def)
  have q: "keys_ok ?U" "key_queue ?U = []" using k by (simp_all add: key_queue_def)
  have d: "dec_view (foldl (\<lambda>S c. PushKey l SCAN_NULL c S) T cs) = dec_view T" for T :: "'a shim" and cs
    by (induction cs arbitrary: T) simp_all
  have "Disconnected (foldl (\<lambda>S c. PushKey l SCAN_NULL c S) ?U exit_chars)"
    using d [of ?U exit_chars] k(5) by (simp add: dec_view_def)
  then show ?thesis using p exit_keys [OF q, of l] unfolding u by blast
qed

theorem client_gone_types_exit_witness:
  "\<exists>T. PumpInput sample_host quiet_console (sample_shim\<lparr>Disconnected := False, Ssh := (sample_open 0 0 0)\<lparr>chanOpen := False\<rparr>\<rparr>) = Some T \<and>
     key_queue T = map (the_key SCAN_NULL) exit_chars"
proof -
  let ?c = "(sample_open 0 0 0)\<lparr>chanOpen := False\<rparr>"
  have "read_input sample_host ?c = (Some False, ?c)"
    by (simp add: read_input_def sample_open_def sample_new_def conn_zero_def sample_host_def sample_read_def SSH_RX_BUF_def SSH_MAX_PACKET_def)
  moreover have "TryProcessOne sample_host ?c = (0, ?c)"
    by (simp add: TryProcessOne_def process_packet_def take_length_def sample_open_def sample_new_def conn_zero_def dir_zero_def)
  then have "process_pending sample_host False ?c = (True, False, ?c)" by (subst process_pending.simps) simp
  ultimately have "ProcessInput sample_host ?c = Some (0, False, ?c)"
    unfolding ProcessInput_def by (subst process_loop.simps) (simp add: sample_open_def)
  moreover have "RingEmpty ?c" by (simp add: RingEmpty_def sample_open_def sample_new_def conn_zero_def)
  ultimately have r: "SshRead sample_host 256 (Ssh (sample_shim\<lparr>Disconnected := False, Ssh := ?c\<rparr>)) = Some (- 1, [], ?c)"
    by (simp add: SshRead_def read_ring_def)
  have "\<exists>T. PumpInput sample_host quiet_console (sample_shim\<lparr>Disconnected := False, Ssh := ?c\<rparr>) = Some T \<and> Disconnected T \<and>
      key_queue T = map (the_key SCAN_NULL) exit_chars"
    by (rule client_gone_types_exit [OF r]) (simp_all add: sample_shim_def shim_zero_def keys_ok_def SHIM_KEY_RING_def
        key_queue_def ring_list_def ring_count_def SHIM_EXIT_INJECT_MAX_def)
  then show ?thesis by blast
qed

end
