(* ===== verification/Install.thy ===== *)
theory Install
  imports Shim_In
begin

text \<open>
  \<^verbatim>\<open>ShimInstall\<close> and \<^verbatim>\<open>ShimRemove\<close>: the console of the firmware's system table is replaced by the
  shim's protocols and put back. The boot services used are the parameter \<open>shim_boot\<close>; the other
  field of \<^verbatim>\<open>CONSOLE_SHIM\<close>, the shim itself, is \<open>Con\<close>.
\<close>

subsection \<open>The system table\<close>

text \<open>A pointer to a console protocol: none, one of the firmware's, or one inside the shim.\<close>

datatype con_ref = NoConsole | Firmware nat | OwnTextIn | OwnTextOut

record system_table =
  ConsoleInHandle :: nat
  ConIn :: con_ref
  ConsoleOutHandle :: nat
  ConOut :: con_ref
  StandardErrorHandle :: nat
  StdErr :: con_ref
  HeaderSize :: u32
  CRC32 :: u32

text \<open>
  \<open>CalculateCrc32\<close> reads the table and may fail, leaving its output alone. A created event and
  an installed handle are numbers.
\<close>

record 'w shim_boot =
  NewEvent :: "'w \<Rightarrow> (efi_status \<times> nat) \<times> 'w"
  EndEvent :: "nat \<Rightarrow> 'w \<Rightarrow> 'w"
  InstallProtocols :: "'w \<Rightarrow> (efi_status \<times> nat) \<times> 'w"
  UninstallProtocols :: "nat \<Rightarrow> 'w \<Rightarrow> efi_status \<times> 'w"
  CalculateCrc32 :: "system_table \<Rightarrow> u32 option"

record 'w installation =
  Con :: "'w shim"
  WaitForKey :: nat
  WaitForKeyEx :: nat
  ShimHandle :: nat
  SavedConIn :: con_ref
  SavedConOut :: con_ref
  SavedStdErr :: con_ref
  SavedInHandle :: nat
  SavedOutHandle :: nat
  SavedErrHandle :: nat

definition on_world :: "('w \<Rightarrow> 'w) \<Rightarrow> 'w shim \<Rightarrow> 'w shim" where
  "on_world f S = S\<lparr>Ssh := (Ssh S)\<lparr>ioCtx := f (ioCtx (Ssh S))\<rparr>\<rparr>"

definition world :: "'w installation \<Rightarrow> 'w" where
  "world I = ioCtx (Ssh (Con I))"

definition FixCrc :: "'w shim_boot \<Rightarrow> system_table \<Rightarrow> system_table" where
  "FixCrc b T = (let T = T\<lparr>CRC32 := 0\<rparr> in
     T\<lparr>CRC32 := (case CalculateCrc32 b T of None \<Rightarrow> 0 | Some crc \<Rightarrow> crc)\<rparr>)"

subsection \<open>Installing\<close>

text \<open>The shim after \<^verbatim>\<open>memset\<close> and \<^verbatim>\<open>RefreshSize\<close>.\<close>

definition fresh_installation :: "'w conn \<Rightarrow> 'w installation" where
  "fresh_installation ssh = \<lparr>Con = RefreshSize (shim_zero ssh), WaitForKey = 0, WaitForKeyEx = 0, ShimHandle = 0,
     SavedConIn = NoConsole, SavedConOut = NoConsole, SavedStdErr = NoConsole,
     SavedInHandle = 0, SavedOutHandle = 0, SavedErrHandle = 0\<rparr>"

definition close_events :: "'w shim_boot \<Rightarrow> nat list \<Rightarrow> 'w installation \<Rightarrow> 'w installation" where
  "close_events b evs I = I\<lparr>Con := on_world (\<lambda>w. foldl (\<lambda>w e. EndEvent b e w) w evs) (Con I)\<rparr>"

text \<open>Saving the old console and pointing the table at the shim.\<close>

definition save_console :: "system_table \<Rightarrow> 'w installation \<Rightarrow> 'w installation" where
  "save_console T I = I\<lparr>SavedConIn := ConIn T, SavedConOut := ConOut T, SavedStdErr := StdErr T,
     SavedInHandle := ConsoleInHandle T, SavedOutHandle := ConsoleOutHandle T, SavedErrHandle := StandardErrorHandle T,
     Con := (Con I)\<lparr>OldConIn := ConIn T \<noteq> NoConsole, OldConOut := ConOut T \<noteq> NoConsole\<rparr>\<rparr>"

definition redirect :: "nat \<Rightarrow> system_table \<Rightarrow> system_table" where
  "redirect hnd T = T\<lparr>ConIn := OwnTextIn, ConOut := OwnTextOut, StdErr := OwnTextOut,
     ConsoleInHandle := hnd, ConsoleOutHandle := hnd, StandardErrorHandle := hnd\<rparr>"

definition reset_seq :: bytes where
  "reset_seq = 0x1B # bytes_of ''[0m''"

definition finish_install :: "'w host \<Rightarrow> 'w console \<Rightarrow> 'w shim_boot \<Rightarrow> system_table \<Rightarrow> 'w installation \<Rightarrow>
    (efi_status \<times> system_table \<times> 'w installation) option" where
  "finish_install h l b T I =
     (let I = save_console T I; T = FixCrc b (redirect (ShimHandle I) T);
          S = (Con I)\<lparr>Installed := True\<rparr>
      in map_option (\<lambda>S. (EFI_SUCCESS, T, I\<lparr>Con := S\<rparr>)) (Option.bind (Emit h l reset_seq S) (Flush h l)))"

definition ShimInstall :: "'w host \<Rightarrow> 'w console \<Rightarrow> 'w shim_boot \<Rightarrow> 'w conn \<Rightarrow> system_table \<Rightarrow>
    (efi_status \<times> system_table \<times> 'w installation) option" where
  "ShimInstall h l b ssh T =
     (let I = fresh_installation ssh;
          ((st, ev), w) = NewEvent b (world I);
          I = I\<lparr>Con := on_world (\<lambda>_. w) (Con I), WaitForKey := ev\<rparr>
      in if EFI_ERROR st then Some (st, T, I)
         else (let ((st, ev), w) = NewEvent b (world I);
                   I = I\<lparr>Con := on_world (\<lambda>_. w) (Con I), WaitForKeyEx := ev\<rparr>
               in if EFI_ERROR st then Some (st, T, close_events b [WaitForKey I] I)
                  else (let S = (Con I)\<lparr>ModeNum := 0, Attribute := 0x07, CursorColumn := 0, CursorRow := 0, CursorVisible := True\<rparr>;
                            ((st, hnd), w) = InstallProtocols b (world I);
                            I = I\<lparr>Con := on_world (\<lambda>_. w) S, ShimHandle := hnd\<rparr>
                        in if EFI_ERROR st then Some (st, T, close_events b [WaitForKey I, WaitForKeyEx I] I)
                           else finish_install h l b T I)))"

definition restore_console :: "'w installation \<Rightarrow> system_table \<Rightarrow> system_table" where
  "restore_console I T = T\<lparr>ConIn := SavedConIn I, ConOut := SavedConOut I, StdErr := SavedStdErr I,
     ConsoleInHandle := SavedInHandle I, ConsoleOutHandle := SavedOutHandle I, StandardErrorHandle := SavedErrHandle I\<rparr>"

definition ShimRemove :: "'w host \<Rightarrow> 'w console \<Rightarrow> 'w shim_boot \<Rightarrow> system_table \<Rightarrow> 'w installation \<Rightarrow>
    (system_table \<times> 'w installation) option" where
  "ShimRemove h l b T I =
     (if \<not> Installed (Con I) then Some (T, I)
      else map_option (\<lambda>S. (let T = FixCrc b (restore_console I T);
              I = I\<lparr>Con := on_world (\<lambda>w. snd (UninstallProtocols b (ShimHandle I) w)) S\<rparr>;
              I = close_events b [WaitForKey I, WaitForKeyEx I] I
            in (T, I\<lparr>Con := (Con I)\<lparr>Installed := False\<rparr>\<rparr>)))
             (Option.bind (Emit h l (reset_seq @ [13, 10]) (Con I)) (Flush h l)))"

subsection \<open>What the Shell's calls do to the connection\<close>

text \<open>
  \<open>during h S T\<close>: from \<open>S\<close> to \<open>T\<close> the connection is only moved by operations of \<^verbatim>\<open>ssh.h\<close>, and the
  fields installing sets stay.
\<close>

named_theorems during_intros

definition during :: "'w host \<Rightarrow> 'w shim \<Rightarrow> 'w shim \<Rightarrow> bool" where
  "during h S T \<longleftrightarrow> (api_step h)\<^sup>*\<^sup>* (Ssh S) (Ssh T) \<and> Installed T = Installed S \<and> OldConIn T = OldConIn S \<and>
     OldConOut T = OldConOut S"

lemma during_refl [simp]: "during h S S"
  by (simp add: during_def)

lemma during_trans: "during h S T \<Longrightarrow> during h T U \<Longrightarrow> during h S U"
  unfolding during_def by (meson rtranclp_trans)

lemma during_same: "Ssh T = Ssh S \<Longrightarrow> Installed T = Installed S \<Longrightarrow> OldConIn T = OldConIn S \<Longrightarrow> OldConOut T = OldConOut S \<Longrightarrow>
    during h S T"
  by (simp add: during_def)

lemma during_ssh:
  assumes "during h S T" and "api_step h (Ssh T) c"
  shows "during h S (T\<lparr>Ssh := c\<rparr>)"
proof -
  have "(api_step h)\<^sup>*\<^sup>* (Ssh S) c" using assms rtranclp.rtrancl_into_rtrancl by (fastforce simp: during_def)
  with assms(1) show ?thesis by (simp add: during_def)
qed

lemma during_world [during_intros]: "during h S T \<Longrightarrow> during h S (T\<lparr>Ssh := (Ssh T)\<lparr>ioCtx := w\<rparr>\<rparr>)"
  using during_ssh [OF _ step_world] .

lemma during_upds [during_intros]:
  assumes "during h S T"
  shows "during h S (T\<lparr>Disconnected := b\<rparr>)" "during h S (T\<lparr>OutBuf := o1\<rparr>)" "during h S (T\<lparr>outLog := o1\<rparr>)"
    "during h S (T\<lparr>CursorColumn := n\<rparr>)" "during h S (T\<lparr>CursorRow := n\<rparr>)" "during h S (T\<lparr>PendingWrap := b\<rparr>)"
    "during h S (T\<lparr>Attribute := n\<rparr>)" "during h S (T\<lparr>CursorVisible := b\<rparr>)" "during h S (T\<lparr>OutPoll := n\<rparr>)"
    "during h S (T\<lparr>ModeNum := n\<rparr>)" "during h S (T\<lparr>Cols := n\<rparr>)" "during h S (T\<lparr>Rows := n\<rparr>)"
    "during h S (T\<lparr>Esc := o1\<rparr>)" "during h S (T\<lparr>EscTick := t\<rparr>)" "during h S (T\<lparr>Utf8Acc := a\<rparr>)"
    "during h S (T\<lparr>Utf8Need := n\<rparr>)" "during h S (T\<lparr>LastWasCr := b\<rparr>)" "during h S (T\<lparr>KeyHead := n\<rparr>)"
    "during h S (T\<lparr>KeyTail := n\<rparr>)" "during h S (T\<lparr>Keys := k\<rparr>)" "during h S (T\<lparr>Notify := ns\<rparr>)"
    "during h S (T\<lparr>ExitInjects := n\<rparr>)" "during h S (T\<lparr>fired := fs\<rparr>)"
  using assms by (simp_all add: during_def)

subsubsection \<open>Output\<close>

lemma during_flush_ssh: "flush_ssh h S = Some T \<Longrightarrow> during h S T"
proof (cases "Disconnected S")
  case False
  assume "flush_ssh h S = Some T"
  with False obtain r c where w: "SshWrite h (OutBuf S) (Ssh S) = Some (r, c)" and
    T: "T = S\<lparr>Ssh := c, Disconnected := (r \<noteq> 0)\<rparr>" by (auto simp: flush_ssh_def)
  show ?thesis unfolding T by (intro during_intros during_ssh [OF during_refl] step_write [OF w])
qed (simp add: flush_ssh_def)

lemma during_Flush: "Flush h l S = Some T \<Longrightarrow> during h S T"
proof (cases "OutBuf S = []")
  case False
  assume "Flush h l S = Some T"
  with False obtain U where u: "flush_ssh h S = Some U" and
    t: "T = (flush_local l U)\<lparr>OutBuf := [], outLog := outLog U @ OutBuf U\<rparr>" by (auto simp: Flush_def)
  have "during h S (flush_local l U)"
    using during_flush_ssh [OF u] during_world [of h S U] by (simp add: flush_local_def)
  then show ?thesis unfolding t by (intro during_intros)
qed (simp add: Flush_def)

lemma during_Emit: "Emit h l bs S = Some T \<Longrightarrow> during h S T"
proof (induction bs arbitrary: S)
  case (Cons b bs)
  from Cons.prems obtain U V where u: "(if SHIM_OUT_BUF \<le> length (OutBuf S) then Flush h l S else Some S) = Some V"
    and "U = V\<lparr>OutBuf := OutBuf V @ [b]\<rparr>" and e: "Emit h l bs U = Some T"
    by (auto simp: bind_eq_Some_conv EmitByte_def)
  then have "during h S U" using during_Flush [of h l S V] by (auto split: if_splits intro: during_intros)
  then show ?case using Cons.IH [OF e] during_trans by blast
qed simp

lemma during_emit_flush: "Option.bind (Emit h l bs S) (Flush h l) = Some T \<Longrightarrow> during h S T"
  using during_Emit during_Flush during_trans by (fastforce simp: bind_eq_Some_conv)

text \<open>Emitting from a state that differs from \<open>S\<close> in the cursor only, and the same with a last change.\<close>

lemma during_emit:
  assumes "map_option f (Option.bind (Emit h l bs S') (Flush h l)) = Some T" and "during h S S'"
  shows "\<exists>U. during h S U \<and> T = f U"
  using assms during_emit_flush [of h l bs S'] during_trans by blast

lemma during_moves [during_intros]:
  assumes "during h S T"
  shows "during h S (RowDown T)" "during h S (wrap_now T)" "during h S (advance T)" "during h S (tab_stop T)" "during h S (RefreshSize T)"
  using assms by (simp_all add: RowDown_def wrap_now_def advance_def tab_stop_def RefreshSize_def Let_def split_beta during_def)

lemma during_EmitByte: "EmitByte h l b S = Some T \<Longrightarrow> during h S T"
  using during_Emit [of h l "[b]" S T] by simp

lemma during_out_char:
  assumes "out_char h l c S = Some T"
  shows "during h S T"
proof -
  note r = during_trans [OF during_Emit] during_trans [OF during_EmitByte]
  have w: "during h S (wrap_now S)" "during h S (S\<lparr>CursorColumn := CursorColumn S - 1\<rparr>)"
    by (intro during_intros during_refl)+
  have e: "during h S V" if "EmitUtf8 h l c (wrap_now S) = Some V" for V
    using that during_trans [OF w(1) during_Emit] by (simp add: EmitUtf8_def)
  have f: "during h S V" if "EmitByte h l b (S\<lparr>CursorColumn := CursorColumn S - 1\<rparr>) = Some V" for V b
    using that during_trans [OF w(2) during_EmitByte] by simp
  show ?thesis
    using assms e f during_Emit [of h l "[13, 10]" S] during_EmitByte [of h l _ S]
    by (auto simp del: Emit.simps simp: out_char_def split: if_splits intro!: during_intros)
qed

lemma during_out_chars: "out_chars h l cs S = Some T \<Longrightarrow> during h S T"
proof (induction cs arbitrary: S)
  case (Cons c cs)
  then show ?case using during_out_char during_trans by (fastforce simp: bind_eq_Some_conv)
qed simp

lemma during_out_poll: "out_poll h S = Some T \<Longrightarrow> during h S T"
proof -
  assume "out_poll h S = Some T"
  moreover have "during h S ((S\<lparr>OutPoll := OutPoll S + 1\<rparr>)\<lparr>Ssh := c\<rparr>)" if "SshPoll h (Ssh S) = Some (r, c)" for r c
    using that step_poll by (intro during_ssh during_intros during_refl) (simp, blast)
  ultimately show ?thesis
    by (auto simp: out_poll_def Let_def split: if_splits intro: during_intros)
qed

lemma during_string: "ShimOutputString h l s S = Some (st, T) \<Longrightarrow> during h S T"
proof -
  assume "ShimOutputString h l s S = Some (st, T)"
  then obtain U V where "out_poll h S = Some U" "out_chars h l s U = Some V" "Flush h l V = Some T"
    by (auto simp: ShimOutputString_def bind_eq_Some_conv)
  then show ?thesis using during_out_poll during_out_chars during_Flush during_trans by metis
qed

lemma during_clear: "ShimClearScreen h l S = Some (st, T) \<Longrightarrow> during h S T"
proof -
  assume "ShimClearScreen h l S = Some (st, T)"
  then obtain U where e: "Emit h l clear_seq S = Some U" and f: "Flush h l (U\<lparr>CursorColumn := 0, CursorRow := 0, PendingWrap := False\<rparr>) = Some T"
    by (auto simp: ShimClearScreen_def bind_eq_Some_conv)
  have "during h S (U\<lparr>CursorColumn := 0, CursorRow := 0, PendingWrap := False\<rparr>)"
    using during_Emit [OF e] by (intro during_intros)
  then show ?thesis using during_Flush [OF f] during_trans by blast
qed

lemma during_mode: "ShimSetMode h l n S = Some (st, T) \<Longrightarrow> during h S T"
proof (cases "n = 0")
  case True
  assume "ShimSetMode h l n S = Some (st, T)"
  with True have "during h (RefreshSize (S\<lparr>ModeNum := 0\<rparr>)) T" by (intro during_clear) (simp add: ShimSetMode_def)
  moreover have "during h S (RefreshSize (S\<lparr>ModeNum := 0\<rparr>))" by (intro during_intros during_refl)
  ultimately show ?thesis using during_trans by blast
qed (simp add: ShimSetMode_def)

lemma during_attr: "ShimSetAttribute h l a S = Some (st, T) \<Longrightarrow> during h S T"
  using during_emit [of "\<lambda>S. (EFI_SUCCESS, S)" h l "attr_seq a" "S\<lparr>Attribute := a\<rparr>" "(st, T)" S]
  by (auto simp: ShimSetAttribute_def during_intros split: if_splits)

lemma during_cursor: "ShimSetCursor h l col row S = Some (st, T) \<Longrightarrow> during h S T"
  using during_emit [of "\<lambda>S. (EFI_SUCCESS, S)" h l "cursor_seq col row"
      "S\<lparr>CursorColumn := col, CursorRow := row, PendingWrap := False\<rparr>" "(st, T)" S]
  by (auto simp: ShimSetCursor_def during_intros split: if_splits)

lemma during_enable: "ShimEnableCursor h l v S = Some (st, T) \<Longrightarrow> during h S T"
  using during_emit [of "\<lambda>S. (EFI_SUCCESS, S)" h l "0x1B # bytes_of (if v then ''[?25h'' else ''[?25l'')"
      "S\<lparr>CursorVisible := v\<rparr>" "(st, T)" S]
  by (auto simp: ShimEnableCursor_def during_intros)

lemma during_oreset: "ShimOutReset h l S = Some (st, T) \<Longrightarrow> during h S T"
proof -
  let ?S = "S\<lparr>Attribute := 0x07, CursorVisible := True\<rparr>"
  assume "ShimOutReset h l S = Some (st, T)"
  then obtain U V where e: "Emit h l (0x1B # bytes_of ''[0m'' @ 0x1B # bytes_of ''[?25h'') ?S = Some U" "Flush h l U = Some V"
    and c: "ShimClearScreen h l V = Some (st, T)" unfolding ShimOutReset_def by (fastforce simp: bind_eq_Some_conv)
  have "during h S ?S" by (intro during_intros during_refl)
  then show ?thesis using during_Emit [OF e(1)] during_Flush [OF e(2)] during_clear [OF c] during_trans by blast
qed

subsubsection \<open>Input\<close>

lemma during_fire [during_intros]:
  assumes "during h S T"
  shows "during h S (FireNotify l kd T)"
proof -
  have "during h S (foldl (fire_one l kd) T ns)" for ns
    using assms by (induction ns arbitrary: T) (simp_all add: fire_one_def during_intros)
  then show ?thesis by (simp add: FireNotify_def)
qed

lemma during_push [during_intros]:
  assumes "during h S T"
  shows "during h S (key_push kd T)" "during h S (PushKeyData l kd T)" "during h S (PushKey l scan ch T)"
    "during h S (push_scan l scan T)" "during h S (FireBreak l T)"
proof -
  have k: "during h S (key_push kd U)" if "during h S U" for kd U
    using that by (auto simp: key_push_def Let_def during_intros)
  have p: "during h S (PushKeyData l kd U)" if "during h S U" for kd U
    using that by (auto simp: PushKeyData_def intro: k during_intros)
  show "during h S (key_push kd T)" "during h S (PushKeyData l kd T)" using assms by (rule k, rule p)
  have q: "during h S (PushKey l scan ch T)" for scan ch using assms by (auto simp: PushKey_def Let_def intro: p during_intros)
  then show "during h S (PushKey l scan ch T)" .
  show "during h S (push_scan l scan T)" using assms q by (simp add: push_scan_def)
  show "during h S (FireBreak l T)" using assms by (auto simp: FireBreak_def Let_def intro: during_intros)
qed

lemma during_exit [during_intros]:
  assumes "during h S T"
  shows "during h S (InjectExit l T)"
proof -
  have "during h S (foldl (\<lambda>S c. PushKey l SCAN_NULL c S) U cs)" if "during h S U" for U cs
    using that by (induction cs arbitrary: U) (simp_all add: during_intros)
  then show ?thesis using assms by (simp add: InjectExit_def during_intros)
qed

lemma during_feed_lead: "during h S T \<Longrightarrow> during h S (feed_lead l b T)"
  by (auto simp: feed_lead_def Let_def intro!: during_intros)

lemma during_feed_ground: "during h S T \<Longrightarrow> during h S (feed_ground l b T)"
  by (auto simp: feed_ground_def Let_def split_beta intro!: during_intros during_feed_lead)

lemma during_FeedByte [during_intros]:
  assumes "during h S T"
  shows "during h S (FeedByte l T b)"
proof -
  have a: "during h S (if length (Esc T) < ESC_CAP then T\<lparr>Esc := Esc T @ [b]\<rparr> else T)"
    using assms by (simp add: during_intros)
  then show ?thesis using assms
    by (simp only: FeedByte_def Let_def HandleCsi_def HandleSs3_def split: if_split)
       (auto intro: during_intros during_feed_ground)
qed

lemma during_feed [during_intros]: "during h S T \<Longrightarrow> during h S (foldl (FeedByte l) T bs)"
  by (induction bs arbitrary: T) (simp_all add: during_intros)

lemma during_esc_timeout [during_intros]: "during h S T \<Longrightarrow> during h S (esc_timeout l T)"
  by (auto simp: esc_timeout_def FlushEsc_def Let_def split_beta intro!: during_intros)

lemma during_client_gone [during_intros]: "during h S T \<Longrightarrow> during h S (client_gone l T)"
  by (auto simp: client_gone_def intro!: during_intros)

lemma during_pump_loop:
  assumes "pump_loop h l S = Some T"
  shows "during h S T"
proof -
  have "h = h' \<longrightarrow> during h' S T" for h'
  proof (rule pump_loop.raw_induct [where P = "\<lambda>h l S T. h = h' \<longrightarrow> during h' S T", OF _ assms], intro impI)
    fix loop h l S T
    assume IH: "\<And>h l S T. loop h l S = Some T \<Longrightarrow> h = h' \<longrightarrow> during h' S T"
      and eq: "Option.bind (SshRead h 256 (Ssh S)) (\<lambda>(n, bs, c).
         if n < 0 then Some (client_gone l (S\<lparr>Ssh := c\<rparr>))
         else if n = 0 then Some (esc_timeout l (S\<lparr>Ssh := c\<rparr>))
         else if n < 256 then Some (esc_timeout l (foldl (FeedByte l) (S\<lparr>Ssh := c\<rparr>) bs))
         else loop h l (foldl (FeedByte l) (S\<lparr>Ssh := c\<rparr>) bs)) = Some T"
      and h: "h = h'"
    obtain n bs c where r: "SshRead h' 256 (Ssh S) = Some (n, bs, c)" using eq h by (auto simp: bind_eq_Some_conv)
    have d: "during h' S (S\<lparr>Ssh := c\<rparr>)" by (intro during_ssh during_refl step_read [OF r])
    then have f: "during h' S (foldl (FeedByte l) (S\<lparr>Ssh := c\<rparr>) bs)" by (rule during_feed)
    show "during h' S T"
      using eq r h d f IH [of h' l "foldl (FeedByte l) (S\<lparr>Ssh := c\<rparr>) bs" T]
      by (auto split: if_splits intro: during_intros during_trans)
  qed
  then show ?thesis by simp
qed

lemma during_PumpInput: "PumpInput h l S = Some T \<Longrightarrow> during h S T"
  using during_exit [OF during_refl, of h S l] during_pump_loop [of h l S T] by (auto simp: PumpInput_def split: if_splits)

lemma during_PopKey [during_intros]: "during h S T \<Longrightarrow> during h S (snd (PopKey T))"
  by (simp add: PopKey_def key_pop_def during_intros)

lemma during_ReadCommon: "ReadCommon h l S = Some (st, kd, T) \<Longrightarrow> during h S T"
proof -
  assume r: "ReadCommon h l S = Some (st, kd, T)"
  then obtain U where u: "PumpInput h l S = Some U" by (auto simp: ReadCommon_def)
  obtain k V where p: "PopKey U = (k, V)" by fastforce
  have "during h S V" using during_PopKey [OF during_PumpInput [OF u]] p by simp
  then show ?thesis using r u p during_world [of h S V]
    by (auto simp: ReadCommon_def split: option.splits if_splits prod.splits)
qed

lemma during_wait: "ShimWaitKeyNotify h l ev S = Some T \<Longrightarrow> during h S T"
proof -
  assume r: "ShimWaitKeyNotify h l ev S = Some T"
  then obtain U where u: "PumpInput h l S = Some U" by (auto simp: ShimWaitKeyNotify_def)
  from r u during_world [OF during_PumpInput [OF u]] during_PumpInput [OF u] show ?thesis
    by (auto simp: ShimWaitKeyNotify_def split_beta split: if_splits)
qed

lemma shim_step_during: "shim_step h l S T \<Longrightarrow> during h S T"
proof (induction rule: shim_step.cases)
  case (step_query S n)
  then show ?case by (auto simp: ShimQueryMode_def Let_def intro!: during_intros)
next
  case (step_ireset S)
  then show ?case by (auto simp: ShimInReset_def intro!: during_intros)
next
  case (step_register S kd f b)
  then show ?case by (auto simp: ShimRegisterNotify_def Let_def intro!: during_intros)
next
  case (step_unregister S hnd)
  then show ?case by (auto simp: ShimUnregisterNotify_def intro!: during_intros)
next
  case (step_outside S w)
  then show ?case using during_world [OF during_refl] by simp
qed (auto intro: during_string during_mode during_attr during_clear during_cursor during_enable during_oreset
    during_ReadCommon during_wait)

lemma shim_steps_during: "(shim_step h l)\<^sup>*\<^sup>* S T \<Longrightarrow> during h S T"
  by (induction rule: rtranclp_induct) (auto intro: shim_step_during during_trans)

lemma reachable_steps: "(api_step h)\<^sup>*\<^sup>* c d \<Longrightarrow> reachable h c \<Longrightarrow> reachable h d"
  by (induction rule: rtranclp_induct) (auto intro: reach_step)

subsection \<open>The two outcomes of installing\<close>

text \<open>The shim when its protocols are installed, before the table is touched.\<close>

definition ready_shim :: "'w conn \<Rightarrow> 'w \<Rightarrow> 'w shim" where
  "ready_shim ssh w = (RefreshSize (shim_zero ssh))\<lparr>Ssh := ssh\<lparr>ioCtx := w\<rparr>, Attribute := 7, CursorVisible := True\<rparr>"

lemma fresh_shim [simp]:
  "Con (fresh_installation ssh) = RefreshSize (shim_zero ssh)" "world (fresh_installation ssh) = ioCtx ssh"
  "Ssh (shim_zero ssh) = ssh" "Ssh (RefreshSize S) = Ssh S" "Installed (RefreshSize S) = Installed S"
  by (simp_all add: fresh_installation_def world_def RefreshSize_def shim_zero_def Let_def split_beta)

text \<open>What creating, closing and installing promise about the events that exist.\<close>

definition shim_events_law :: "'w shim_boot \<Rightarrow> ('w \<Rightarrow> nat set) \<Rightarrow> bool" where
  "shim_events_law b live \<longleftrightarrow>
     (\<forall>w st e w'. NewEvent b w = ((st, e), w') \<longrightarrow>
        (if EFI_ERROR st then live w' = live w else e \<notin> live w \<and> live w' = insert e (live w))) \<and>
     (\<forall>e w. live (EndEvent b e w) = live w - {e}) \<and> (\<forall>w. live (snd (InstallProtocols b w)) = live w)"

lemma shim_eventsD:
  assumes "shim_events_law b live"
  shows "NewEvent b w = ((st, e), w') \<Longrightarrow>
      if EFI_ERROR st then live w' = live w else e \<notin> live w \<and> live w' = insert e (live w)"
    "live (EndEvent b e w) = live w - {e}" "InstallProtocols b w = ((st, e), w') \<Longrightarrow> live w' = live w"
  using assms by (auto simp: shim_events_law_def dest: spec [of _ w])

lemma finish_install_ok: "finish_install h l b T I = Some (st, T', J) \<Longrightarrow> st = EFI_SUCCESS"
  by (auto simp: finish_install_def Let_def)

lemma ShimInstall_unfold:
  assumes "NewEvent b (ioCtx ssh) = ((st1, e1), w1)" and "NewEvent b w1 = ((st2, e2), w2)"
    and "InstallProtocols b w2 = ((st3, hn), w3)"
  shows "ShimInstall h l b ssh T =
    (let S = RefreshSize (shim_zero ssh); I = fresh_installation ssh;
         I1 = I\<lparr>Con := on_world (\<lambda>_. w1) S, WaitForKey := e1\<rparr>;
         I2 = I\<lparr>Con := on_world (\<lambda>_. w2) S, WaitForKey := e1, WaitForKeyEx := e2\<rparr>;
         I3 = I\<lparr>Con := ready_shim ssh w3, WaitForKey := e1, WaitForKeyEx := e2, ShimHandle := hn\<rparr>
     in if EFI_ERROR st1 then Some (st1, T, I1)
        else if EFI_ERROR st2 then Some (st2, T, close_events b [e1] I2)
        else if EFI_ERROR st3 then Some (st3, T, close_events b [e1, e2] I3)
        else finish_install h l b T I3)"
proof -
  let ?S = "RefreshSize (shim_zero ssh)"
  have w: "on_world f (on_world (\<lambda>_. w) S) = on_world (\<lambda>_. f w) S" "ioCtx (Ssh (on_world (\<lambda>_. w) S)) = w" for f w and S :: "'a shim"
    by (simp_all add: on_world_def)
  have 3: "on_world (\<lambda>_. w3) ((on_world (\<lambda>_. w2) ?S)\<lparr>ModeNum := 0, Attribute := 7, CursorColumn := 0, CursorRow := 0,
      CursorVisible := True\<rparr>) = ready_shim ssh w3"
    by (simp add: on_world_def ready_shim_def RefreshSize_def shim_zero_def Let_def split_beta)
  show ?thesis
    by (simp add: ShimInstall_def Let_def split_beta assms world_def w 3) (simp add: fresh_installation_def)
qed

lemma ShimInstall_outcomes:
  assumes "ShimInstall h l b ssh T = Some (st, T', I)"
  shows "if EFI_ERROR st then T' = T \<and> \<not> Installed (Con I) \<and> (shim_events_law b live \<longrightarrow> live (world I) = live (ioCtx ssh))
    else (\<exists>P w. finish_install h l b T P = Some (st, T', I) \<and> Con P = ready_shim ssh w)"
proof -
  obtain st1 e1 w1 where 1: "NewEvent b (ioCtx ssh) = ((st1, e1), w1)" by (metis prod.collapse)
  obtain st2 e2 w2 where 2: "NewEvent b w1 = ((st2, e2), w2)" by (metis prod.collapse)
  obtain st3 hn w3 where 3: "InstallProtocols b w2 = ((st3, hn), w3)" by (metis prod.collapse)
  note u = assms [unfolded ShimInstall_unfold [OF 1 2 3] Let_def]
  show ?thesis
  proof (cases "EFI_ERROR st1 \<or> EFI_ERROR st2 \<or> EFI_ERROR st3")
    case True
    have "shim_events_law b live \<longrightarrow> live (world I) = live (ioCtx ssh)"
    proof
      assume L: "shim_events_law b live"
      note l = shim_eventsD(1) [OF L 1] shim_eventsD(1) [OF L 2] shim_eventsD(3) [OF L 3] shim_eventsD(2) [OF L]
      show "live (world I) = live (ioCtx ssh)" using True u l
        by (auto simp: world_def on_world_def close_events_def ready_shim_def split: if_splits)
    qed
    with True u show ?thesis
      by (auto simp: on_world_def close_events_def ready_shim_def shim_zero_def split: if_splits)
  next
    case False
    let ?P = "(fresh_installation ssh)\<lparr>Con := ready_shim ssh w3, WaitForKey := e1, WaitForKeyEx := e2, ShimHandle := hn\<rparr>"
    have "finish_install h l b T ?P = Some (st, T', I)" using u False by simp
    moreover have "Con ?P = ready_shim ssh w3" by simp
    ultimately show ?thesis using finish_install_ok EFI_SUCCESS_ok by metis
  qed
qed

lemma ShimInstall_ok:
  assumes "ShimInstall h l b ssh T = Some (st, T', I)" and "\<not> EFI_ERROR st"
  obtains P w where "finish_install h l b T P = Some (st, T', I)" and "Con P = ready_shim ssh w"
  using ShimInstall_outcomes [OF assms(1)] assms(2) by auto

text \<open>What a finished installation has done.\<close>

lemma same_out_installed:
  assumes "same_out S T"
  shows "Installed T = Installed S"
  by (subst assms [unfolded same_out_def]) simp

lemma finish_install_lemma:
  assumes "finish_install h l b T P = Some (st, T', I)"
  shows "T' = FixCrc b (redirect (ShimHandle I) T)" "\<And>U. restore_console I U = restore_console (save_console T P) U"
    "Installed (Con I)" "key_view (Con I) = key_view (Con P)"
    "length (OutBuf (Con P)) \<le> SHIM_OUT_BUF \<Longrightarrow> OutBuf (Con I) = []"
    "\<exists>S. same_out S (Con I) \<and> Option.bind (Emit h l reset_seq S) (Flush h l) = Some (Con I) \<and>
       S = (Con P)\<lparr>OldConIn := ConIn T \<noteq> NoConsole, OldConOut := ConOut T \<noteq> NoConsole, Installed := True\<rparr>"
proof -
  let ?S = "(Con P)\<lparr>OldConIn := ConIn T \<noteq> NoConsole, OldConOut := ConOut T \<noteq> NoConsole, Installed := True\<rparr>"
  from assms obtain C where e: "Option.bind (Emit h l reset_seq ?S) (Flush h l) = Some C"
    and I: "I = (save_console T P)\<lparr>Con := C\<rparr>" and T': "T' = FixCrc b (redirect (ShimHandle P) T)"
    by (auto simp: finish_install_def Let_def save_console_def)
  note f = emit_flush_lemma [OF e]
  show "T' = FixCrc b (redirect (ShimHandle I) T)" using T' I by (simp add: save_console_def)
  show "restore_console I U = restore_console (save_console T P) U" for U by (simp add: I restore_console_def)
  show "Installed (Con I)" using same_out_installed [of ?S C] f I by simp
  show "key_view (Con I) = key_view (Con P)" using key_view_same [of ?S C] f I by (simp add: key_view_def)
  show "OutBuf (Con I) = []" using f I by simp
  show "\<exists>S. same_out S (Con I) \<and> Option.bind (Emit h l reset_seq S) (Flush h l) = Some (Con I) \<and> S = ?S"
    using f e I by simp
qed

lemma ready_shim_start:
  "shim_inv (ready_shim ssh w)" "key_queue (ready_shim ssh w) = []" "Ssh (ready_shim ssh w) = ssh\<lparr>ioCtx := w\<rparr>"
  "stream (ready_shim ssh w) = []" "CursorColumn (ready_shim ssh w) = 0" "CursorRow (ready_shim ssh w) = 0"
  "\<not> PendingWrap (ready_shim ssh w)" "20 \<le> Cols (ready_shim ssh w)" "5 \<le> Rows (ready_shim ssh w)"
  by (simp_all add: ready_shim_def RefreshSize_def shim_zero_def shim_inv_def keys_ok_def SHIM_KEY_RING_def ESC_CAP_def
      key_queue_def ring_list_def ring_count_def stream_def SHIM_MAX_NOTIFY_def Let_def split_beta)

text \<open>A terminal whose cursor stands at its top left corner.\<close>

definition home_term :: vterm where
  "home_term = \<lparr>tcol = 0, trow = 0, tpend = False, tparse = Ground\<rparr>"

lemma reset_seq_neutral: "tparse t = Ground \<Longrightarrow> term_run W H reset_seq t = t"
  using term_csi_neutral [of t "[48]" 109 W H] by (simp add: reset_seq_def)

lemma installed_sync:
  assumes "finish_install h l b T P = Some (st, T', I)" and "Con P = ready_shim ssh w"
  shows "sync (Cols (Con I)) (Rows (Con I)) home_term (Con I)"
proof -
  obtain S where S: "same_out S (Con I)" "Option.bind (Emit h l reset_seq S) (Flush h l) = Some (Con I)"
    "S = (Con P)\<lparr>OldConIn := ConIn T \<noteq> NoConsole, OldConOut := ConOut T \<noteq> NoConsole, Installed := True\<rparr>"
    using finish_install_lemma(6) [OF assms(1)] by blast
  have "agrees (Cols S) (Rows S) home_term S"
    using ready_shim_start [of ssh w] assms(2) S(3) by (simp add: agrees_def home_term_def)
  then have "sync (Cols S) (Rows S) home_term S"
    using ready_shim_start(4) [of ssh w] assms(2) S(3) by (simp add: sync_def stream_def)
  from sync_neutral [OF this S(2) reset_seq_neutral refl refl] have "sync (Cols S) (Rows S) home_term (Con I)" .
  then show ?thesis using same_outD(4,5) [OF S(1)] by simp
qed

lemma out_steps_sync: "(out_step h l)\<^sup>*\<^sup>* S T \<Longrightarrow> sync W H t0 S \<Longrightarrow> sync W H t0 T"
  by (induction rule: rtranclp_induct) (auto intro: out_step_sync)

lemma shim_steps_inv: "(shim_step h l)\<^sup>*\<^sup>* S T \<Longrightarrow> shim_inv S \<Longrightarrow> shim_inv T"
  by (induction rule: rtranclp_induct) (auto intro: shim_step_inv)

subsection \<open>Properties\<close>

text \<open>The checksum of the table is the one the firmware computes with its field zero.\<close>

definition crc_valid :: "'w shim_boot \<Rightarrow> system_table \<Rightarrow> bool" where
  "crc_valid b T \<longleftrightarrow> CalculateCrc32 b (T\<lparr>CRC32 := 0\<rparr>) = Some (CRC32 T)"

definition console_of :: "system_table \<Rightarrow> (con_ref \<times> con_ref \<times> con_ref) \<times> nat \<times> nat \<times> nat" where
  "console_of T = ((ConIn T, ConOut T, StdErr T), ConsoleInHandle T, ConsoleOutHandle T, StandardErrorHandle T)"

lemma FixCrc_lemma:
  "console_of (FixCrc b T) = console_of T" "HeaderSize (FixCrc b T) = HeaderSize T"
  "CalculateCrc32 b (T\<lparr>CRC32 := 0\<rparr>) \<noteq> None \<Longrightarrow> crc_valid b (FixCrc b T)"
  by (auto simp: FixCrc_def Let_def console_of_def crc_valid_def)

lemma restore_saved:
  "console_of (restore_console (save_console T I) U) = console_of T" "HeaderSize (restore_console I U) = HeaderSize U"
  by (simp_all add: restore_console_def save_console_def console_of_def)

lemma shim_round_trip_lemma:
  assumes "ShimInstall h l b ssh T = Some (st, T1, I)" and "\<not> EFI_ERROR st"
    and "(shim_step h l)\<^sup>*\<^sup>* (Con I) S" and "ShimRemove h l b T2 (I\<lparr>Con := S\<rparr>) = Some (T3, J)"
  shows "ConIn T1 = OwnTextIn \<and> ConOut T1 = OwnTextOut \<and> StdErr T1 = OwnTextOut \<and>
    console_of T3 = console_of T \<and> HeaderSize T3 = HeaderSize T2 \<and>
    (T2 = T1 \<and> crc_valid b T \<longrightarrow> T3 = T) \<and> \<not> Installed (Con J)"
proof -
  obtain P w where P: "finish_install h l b T P = Some (st, T1, I)" using ShimInstall_ok [OF assms(1,2)] .
  note f = finish_install_lemma(1-3) [OF P]
  have "Installed S" using shim_steps_during [OF assms(3)] f(3) by (simp add: during_def)
  then have T3: "T3 = FixCrc b (restore_console I T2)" and J: "\<not> Installed (Con J)"
    using assms(4) by (auto simp: ShimRemove_def Let_def restore_console_def)
  have c: "console_of T3 = console_of T" "HeaderSize T3 = HeaderSize T2"
    unfolding T3 by (simp_all add: FixCrc_lemma f(2) restore_saved)
  have "T3 = T" if "T2 = T1" "crc_valid b T"
  proof -
    have "(restore_console I T1)\<lparr>CRC32 := 0\<rparr> = T\<lparr>CRC32 := 0\<rparr>"
      unfolding f(1,2) by (simp add: restore_console_def save_console_def redirect_def FixCrc_def Let_def)
    then have "T3 = T\<lparr>CRC32 := CRC32 T\<rparr>" using that unfolding T3 FixCrc_def Let_def crc_valid_def by simp
    then show ?thesis by simp
  qed
  then show ?thesis using c J f(1) FixCrc_lemma(1) [of b "redirect (ShimHandle I) T"]
    by (simp add: console_of_def redirect_def)
qed

text \<open>C22: The console comes back: after a successful install and whatever the Shell then calls, \<^verbatim>\<open>ShimRemove\<close>
  writes the six console fields of the table the program started with, and if nobody else touched
  the table it is the original one bit for bit, checksum included; the shim is no longer installed.\<close>
theorem shim_round_trip:
  assumes "ShimInstall h l b ssh T = Some (st, T1, I)" and "\<not> EFI_ERROR st"
    and "(shim_step h l)\<^sup>*\<^sup>* (Con I) S" and "ShimRemove h l b T2 (I\<lparr>Con := S\<rparr>) = Some (T3, J)"
  shows "ConIn T1 = OwnTextIn \<and> ConOut T1 = OwnTextOut \<and> StdErr T1 = OwnTextOut \<and>
    console_of T3 = console_of T \<and> HeaderSize T3 = HeaderSize T2 \<and>
    (T2 = T1 \<and> crc_valid b T \<longrightarrow> T3 = T) \<and> \<not> Installed (Con J)"
  by (rule shim_round_trip_lemma [OF assms])

text \<open>A failed install is undone: the table is untouched, every event created on the way is closed again,
  and a later \<^verbatim>\<open>ShimRemove\<close> does nothing.\<close>
theorem shim_install_failure:
  assumes "shim_events_law b live" and "ShimInstall h l b ssh T = Some (st, T', I)" and "EFI_ERROR st"
  shows "T' = T \<and> live (world I) = live (ioCtx ssh) \<and> ShimRemove h l b T' I = Some (T, I)"
  using ShimInstall_outcomes [OF assms(2), of live] assms(1,3) by (simp add: ShimRemove_def)

text \<open>The installed shim starts in step with the client's terminal: from a terminal with its cursor at the
  top left corner, through any output calls with ordinary characters, the position the Shell reads
  is the terminal's; no key is waiting before the client types.\<close>
theorem shim_starts_in_sync:
  assumes "ShimInstall h l b ssh T = Some (st, T1, I)" and "\<not> EFI_ERROR st" and "(out_step h l)\<^sup>*\<^sup>* (Con I) S"
  shows "key_queue (Con I) = [] \<and> stream (Con I) = reset_seq \<and>
    (let t = term_run (Cols (Con I)) (Rows (Con I)) (stream S) home_term in
       tcol t = CursorColumn S \<and> trow t = CursorRow S \<and> tpend t = PendingWrap S)"
proof -
  obtain P w where P: "finish_install h l b T P = Some (st, T1, I)" "Con P = ready_shim ssh w"
    using ShimInstall_ok [OF assms(1,2)] .
  note s = out_steps_sync [OF assms(3) installed_sync [OF P]]
  obtain U where U: "Option.bind (Emit h l reset_seq U) (Flush h l) = Some (Con I)"
    "U = (Con P)\<lparr>OldConIn := ConIn T \<noteq> NoConsole, OldConOut := ConOut T \<noteq> NoConsole, Installed := True\<rparr>"
    using finish_install_lemma(6) [OF P(1)] by blast
  have "stream U = []" using ready_shim_start(4) [of ssh w] P(2) U(2) by (simp add: stream_def)
  then have st: "stream (Con I) = reset_seq" using emit_flush_lemma [OF U(1)] by simp
  have "key_view (Con I) = key_view (ready_shim ssh w)" using finish_install_lemma(4) [OF P(1)] P(2) by simp
  then have "key_queue (Con I) = []" using ready_shim_start(2) [of ssh w] by (simp add: key_view_def key_queue_def)
  with s st show ?thesis by (simp add: sync_def agrees_def Let_def)
qed


subsection \<open>A firmware for the witnesses\<close>

definition sample_boot :: "sample_world shim_boot" where
  "sample_boot = \<lparr>NewEvent = \<lambda>w. ((EFI_SUCCESS, 1), w), EndEvent = \<lambda>e w. w, InstallProtocols = \<lambda>w. ((EFI_SUCCESS, 5), w),
     UninstallProtocols = \<lambda>n w. (EFI_SUCCESS, w), CalculateCrc32 = \<lambda>T. Some (HeaderSize T + of_nat (ConsoleInHandle T))\<rparr>"

definition sample_table :: system_table where
  "sample_table = \<lparr>ConsoleInHandle = 3, ConIn = Firmware 0, ConsoleOutHandle = 4, ConOut = Firmware 1,
     StandardErrorHandle = 4, StdErr = Firmware 1, HeaderSize = 120, CRC32 = 123\<rparr>"

lemma sample_write: "bs \<noteq> [] \<Longrightarrow> SshWrite sample_host bs sample_new = Some (- 1, sample_new)"
proof -
  assume bs: "bs \<noteq> []"
  have n: "snd (RtNow sample_host w) = w" for w by (simp add: RtNow_def) (simp add: sample_host_def)
  have st: "state sample_new = ST_VERSION" "\<not> chanOpen sample_new" "sample_new\<lparr>ioCtx := ioCtx sample_new\<rparr> = sample_new"
    by (simp_all add: sample_new_def conn_zero_def)
  have w: "write_wait sample_host s k sample_new = Some (True, sample_new)" for s k
    by (subst write_wait.simps) (simp add: must_wait_def st)
  have t: "write_turn sample_host bs sample_new = (None, sample_new)"
    by (simp add: write_turn_def CanSendNow_def st)
  show ?thesis using bs
    by (subst SshWrite.simps) (simp add: split_beta n st(3) w t)
qed

lemma sample_install:
  obtains T I where "ShimInstall sample_host l sample_boot sample_new sample_table = Some (EFI_SUCCESS, T, I)" "Disconnected (Con I)"
proof -
  have 1: "NewEvent sample_boot (ioCtx sample_new) = ((EFI_SUCCESS, 1), ioCtx sample_new)"
    "InstallProtocols sample_boot (ioCtx sample_new) = ((EFI_SUCCESS, 5), ioCtx sample_new)" by (simp_all add: sample_boot_def)
  let ?S = "(ready_shim sample_new (ioCtx sample_new))\<lparr>OldConIn := True, OldConOut := True, Installed := True\<rparr>"
  have s: "OutBuf ?S = []" "Ssh ?S = sample_new" "\<not> Disconnected ?S"
    by (simp_all add: ready_shim_def RefreshSize_def shim_zero_def Let_def split_beta)
  have e: "Emit sample_host l reset_seq ?S = Some (?S\<lparr>OutBuf := reset_seq\<rparr>)"
    using s(1) by (simp add: reset_seq_def EmitByte_def SHIM_OUT_BUF_def)
  have "\<exists>C. Flush sample_host l (?S\<lparr>OutBuf := reset_seq\<rparr>) = Some C \<and> Disconnected C"
    using s sample_write [of reset_seq] by (simp add: Flush_def flush_ssh_def flush_local_def reset_seq_def)
  then obtain C where C: "Flush sample_host l (?S\<lparr>OutBuf := reset_seq\<rparr>) = Some C" "Disconnected C" by blast
  have "\<exists>T I. ShimInstall sample_host l sample_boot sample_new sample_table = Some (EFI_SUCCESS, T, I) \<and> Disconnected (Con I)"
    unfolding ShimInstall_unfold [OF 1(1) 1] Let_def
    using e C by (simp add: finish_install_def Let_def save_console_def sample_table_def)
  then show ?thesis using that by blast
qed

theorem shim_round_trip_witness:
  "\<exists>T1 I T3 J. ShimInstall sample_host quiet_console sample_boot sample_new sample_table = Some (EFI_SUCCESS, T1, I) \<and>
     ConOut T1 = OwnTextOut \<and> ShimRemove sample_host quiet_console sample_boot T1 I = Some (T3, J) \<and> T3 = sample_table"
proof -
  obtain T1 I where i: "ShimInstall sample_host quiet_console sample_boot sample_new sample_table = Some (EFI_SUCCESS, T1, I)" "Disconnected (Con I)"
    using sample_install .
  obtain U where u: "Emit sample_host quiet_console (reset_seq @ [13, 10]) (Con I) = Some U" "Disconnected U"
    using Emit_disconnected [OF i(2)] by blast
  obtain V where v: "Flush sample_host quiet_console U = Some V" using Flush_disconnected [OF u(2)] by blast
  have "\<exists>T3 J. ShimRemove sample_host quiet_console sample_boot T1 I = Some (T3, J)"
    using u v by (simp add: ShimRemove_def Let_def)
  then obtain T3 J where r: "ShimRemove sample_host quiet_console sample_boot T1 (I\<lparr>Con := Con I\<rparr>) = Some (T3, J)" by auto
  have "crc_valid sample_boot sample_table" by (simp add: crc_valid_def sample_boot_def sample_table_def)
  with shim_round_trip [OF i(1) EFI_SUCCESS_ok rtranclp.rtrancl_refl r] i(1) r show ?thesis by auto
qed

text \<open>Room for one event only: the first is created, the second is refused.\<close>

definition tight_boot :: "sample_world shim_boot" where
  "tight_boot = sample_boot\<lparr>
     NewEvent := \<lambda>w. if fst w = [] then ((EFI_SUCCESS, 1), ([[]], snd w)) else ((EFI_OUT_OF_RESOURCES, 0), w),
     EndEvent := \<lambda>e w. if e = 1 then ([], snd w) else w\<rparr>"

definition tight_live :: "sample_world \<Rightarrow> nat set" where
  "tight_live w = (if fst w = [] then {} else {1})"

lemma tight_law: "shim_events_law tight_boot tight_live"
  by (auto simp: shim_events_law_def tight_boot_def sample_boot_def tight_live_def split: if_splits)

theorem shim_install_failure_witness:
  "\<exists>I. ShimInstall sample_host quiet_console tight_boot sample_new sample_table = Some (EFI_OUT_OF_RESOURCES, sample_table, I) \<and>
     tight_live (world I) = {}"
proof -
  have 1: "NewEvent tight_boot (ioCtx sample_new) = ((EFI_SUCCESS, 1), ([[]], []))"
    "NewEvent tight_boot ([[]], []) = ((EFI_OUT_OF_RESOURCES, 0), ([[]], []))"
    "InstallProtocols tight_boot ([[]], []) = ((EFI_SUCCESS, 5), ([[]], []))"
    by (simp_all add: tight_boot_def sample_boot_def sample_new_def conn_zero_def)
  have "\<exists>I. ShimInstall sample_host quiet_console tight_boot sample_new sample_table = Some (EFI_OUT_OF_RESOURCES, sample_table, I)"
    unfolding ShimInstall_unfold [OF 1] Let_def by simp
  then obtain I where i: "ShimInstall sample_host quiet_console tight_boot sample_new sample_table = Some (EFI_OUT_OF_RESOURCES, sample_table, I)"
    by blast
  from shim_install_failure [OF tight_law i] have "tight_live (world I) = tight_live (ioCtx sample_new)" by simp
  moreover have "tight_live (ioCtx sample_new) = {}" by (simp add: tight_live_def sample_new_def conn_zero_def)
  ultimately show ?thesis using i by blast
qed

theorem shim_starts_in_sync_witness:
  "\<exists>T1 I. ShimInstall sample_host quiet_console sample_boot sample_new sample_table = Some (EFI_SUCCESS, T1, I) \<and>
     key_queue (Con I) = [] \<and> stream (Con I) = reset_seq"
proof -
  obtain T1 I where i: "ShimInstall sample_host quiet_console sample_boot sample_new sample_table = Some (EFI_SUCCESS, T1, I)"
    using sample_install .
  from shim_starts_in_sync [OF i EFI_SUCCESS_ok rtranclp.rtrancl_refl] i show ?thesis by blast
qed


end
