(* ===== verification/Net.thy ===== *)
theory Net
  imports Efi Ssh_State "HOL-Library.Sublist"
begin

text \<open>
  The TCP listener and connection of \<^verbatim>\<open>net.c\<close> over the firmware's TCP4 driver. The driver
  and the event services are the parameter \<open>tcp_fw\<close>; a token is known by its event, whose
  status, child handle and received data the driver fills in. Handles and interface pointers
  are numbers, 0 is \<^verbatim>\<open>NULL\<close>. Waits that may last for ever return an option.
\<close>

definition NET_RX_SIZE :: nat where "NET_RX_SIZE = 16384"

record 'w tcp_fw = "'w firmware" +
  ReadKeyStroke :: "'w \<Rightarrow> efi_key option \<times> 'w"
  CreateEvent :: "'w \<Rightarrow> (efi_status \<times> nat) \<times> 'w"
  CloseEvent :: "nat \<Rightarrow> 'w \<Rightarrow> 'w"
  CheckEvent :: "nat \<Rightarrow> 'w \<Rightarrow> efi_status \<times> 'w"
  LocateTcp :: "'w \<Rightarrow> (efi_status \<times> bool) \<times> 'w"
  CreateChild :: "'w \<Rightarrow> (efi_status \<times> nat) \<times> 'w"
  DestroyChild :: "nat \<Rightarrow> 'w \<Rightarrow> 'w"
  OpenTcp :: "nat \<Rightarrow> 'w \<Rightarrow> (efi_status \<times> nat) \<times> 'w"
  Configure :: "nat \<Rightarrow> u16 option \<Rightarrow> 'w \<Rightarrow> efi_status \<times> 'w"
  GetRemote :: "nat \<Rightarrow> 'w \<Rightarrow> (efi_status \<times> u32 \<times> u16) \<times> 'w"
  Poll :: "nat \<Rightarrow> 'w \<Rightarrow> 'w"
  Accept :: "nat \<Rightarrow> nat \<Rightarrow> 'w \<Rightarrow> efi_status \<times> 'w"
  Receive :: "nat \<Rightarrow> nat \<Rightarrow> nat \<Rightarrow> 'w \<Rightarrow> efi_status \<times> 'w"
  Transmit :: "nat \<Rightarrow> nat \<Rightarrow> bytes \<Rightarrow> 'w \<Rightarrow> efi_status \<times> 'w"
  Cancel :: "nat \<Rightarrow> nat \<Rightarrow> 'w \<Rightarrow> 'w"
  TcpClose :: "nat \<Rightarrow> nat \<Rightarrow> 'w \<Rightarrow> efi_status \<times> 'w"
  TokStatus :: "nat \<Rightarrow> 'w \<Rightarrow> efi_status"
  TokChild :: "nat \<Rightarrow> 'w \<Rightarrow> nat"
  TokData :: "nat \<Rightarrow> 'w \<Rightarrow> bytes \<times> nat"

text \<open>The module's static variables and one connection.\<close>

record net_module =
  mSb :: bool
  mListenHandle :: nat
  mListen :: nat
  mLocalIn :: bool

record net_conn =
  Tcp :: nat
  Handle :: nat
  RxEvent :: nat
  RxBuf :: bytes
  RxPosted :: bool
  RxAvail :: nat
  RxOff :: nat
  Closed :: bool
  Remote :: u32
  RemotePort :: u16

definition net_zero :: net_conn where
  "net_zero = \<lparr>Tcp = 0, Handle = 0, RxEvent = 0, RxBuf = replicate NET_RX_SIZE 0, RxPosted = False,
     RxAvail = 0, RxOff = 0, Closed = False, Remote = 0, RemotePort = 0\<rparr>"

subsection \<open>The local keyboard\<close>

partial_function (option) abort_keys :: "('w, 'z) tcp_fw_scheme \<Rightarrow> 'w \<Rightarrow> (bool \<times> 'w) option" where
  "abort_keys fw w =
     (case ReadKeyStroke fw w of (k, w) \<Rightarrow>
       if k = None then Some (False, w)
       else if ScanCode (the k) = SCAN_ESC \<or> UnicodeChar (the k) = 113 \<or> UnicodeChar (the k) = 81
       then Some (True, w) else abort_keys fw w)"

declare abort_keys.simps [code]

definition NetLocalAbortRequested :: "('w, 'z) tcp_fw_scheme \<Rightarrow> net_module \<Rightarrow> 'w \<Rightarrow> (bool \<times> 'w) option" where
  "NetLocalAbortRequested fw m w = (if \<not> mLocalIn m then Some (False, w) else abort_keys fw w)"

definition MakeEvent :: "('w, 'z) tcp_fw_scheme \<Rightarrow> 'w \<Rightarrow> (efi_status \<times> nat) \<times> 'w" where
  "MakeEvent fw w = CreateEvent fw w"

subsection \<open>Waiting for a token\<close>

partial_function (option) wait_loop :: "('w, 'z) tcp_fw_scheme \<Rightarrow> nat \<Rightarrow> nat \<Rightarrow> nat \<Rightarrow> nat \<Rightarrow> nat \<Rightarrow> 'w \<Rightarrow> (efi_status \<times> 'w) option" where
  "wait_loop fw tcp ev timeoutMs start spins w =
     (case CheckEvent fw ev (Poll fw tcp w) of (st, w) \<Rightarrow>
       if st = EFI_SUCCESS then Some (TokStatus fw ev w, w)
       else if timeoutMs = 0 then wait_loop fw tcp ev timeoutMs start (spins + 1) (Stall fw 100 w)
       else (case RtTimedOut fw start (spins + 1) 100 timeoutMs (Stall fw 100 w) of (late, w) \<Rightarrow>
         if late then Some (EFI_TIMEOUT, w) else wait_loop fw tcp ev timeoutMs start (spins + 1) w))"

declare wait_loop.simps [code]

definition WaitToken :: "('w, 'z) tcp_fw_scheme \<Rightarrow> nat \<Rightarrow> nat \<Rightarrow> nat \<Rightarrow> 'w \<Rightarrow> (efi_status \<times> 'w) option" where
  "WaitToken fw tcp ev timeoutMs w = (let (start, w) = RtNow fw w in wait_loop fw tcp ev timeoutMs start 0 w)"

subsection \<open>The listener\<close>

definition NetListenStop :: "('w, 'z) tcp_fw_scheme \<Rightarrow> net_module \<Rightarrow> 'w \<Rightarrow> net_module \<times> 'w" where
  "NetListenStop fw m w =
     (let w = (if mListen m \<noteq> 0 then snd (Configure fw (mListen m) None w) else w);
          w = (if mSb m \<and> mListenHandle m \<noteq> 0 then DestroyChild fw (mListenHandle m) w else w)
      in (m\<lparr>mListen := 0, mListenHandle := 0\<rparr>, w))"

text \<open>The loop that waits for an address, \<open>n\<close> tries left; the status it leaves with.\<close>

fun config_loop :: "('w, 'z) tcp_fw_scheme \<Rightarrow> net_module \<Rightarrow> u16 \<Rightarrow> nat \<Rightarrow> efi_status \<Rightarrow> 'w \<Rightarrow> (efi_status \<times> 'w) option" where
  "config_loop fw m port 0 st w = Some (st, w)"
| "config_loop fw m port (Suc n) st w =
     (case Configure fw (mListen m) (Some port) w of (st, w) \<Rightarrow>
       if st \<noteq> EFI_NO_MAPPING then Some (st, w)
       else Option.bind (NetLocalAbortRequested fw m w) (\<lambda>(abrt, w).
         if abrt then Some (EFI_ABORTED, w)
         else config_loop fw m port n st (Stall fw 500000 w)))"

definition NetListenStart :: "('w, 'z) tcp_fw_scheme \<Rightarrow> u16 \<Rightarrow> net_module \<Rightarrow> 'w \<Rightarrow> (efi_status \<times> net_module \<times> 'w) option" where
  "NetListenStart fw port m w =
     (let m = m\<lparr>mLocalIn := True\<rparr>; ((st, found), w) = LocateTcp fw w; m = m\<lparr>mSb := found\<rparr> in
      if EFI_ERROR st \<or> \<not> found then Some (EFI_NOT_FOUND, m, w)
      else
        (let ((st, hd), w) = CreateChild fw w; m = m\<lparr>mListenHandle := hd\<rparr> in
         if EFI_ERROR st then Some (st, m, w)
         else
           (let ((st, l), w) = OpenTcp fw (mListenHandle m) w; m = m\<lparr>mListen := l\<rparr> in
            if EFI_ERROR st
            then (let w = DestroyChild fw (mListenHandle m) w in Some (st, m\<lparr>mListenHandle := 0\<rparr>, w))
            else map_option (\<lambda>(st, w).
              if EFI_ERROR st then (let (m, w) = NetListenStop fw m w in (st, m, w))
              else (EFI_SUCCESS, m, snd (GetRemote fw (mListen m) w)))
                (config_loop fw m port 240 EFI_SUCCESS w))))"

subsection \<open>Closing a connection\<close>

definition cancel_receive :: "('w, 'z) tcp_fw_scheme \<Rightarrow> net_conn \<Rightarrow> 'w \<Rightarrow> (net_conn \<times> 'w) option" where
  "cancel_receive fw c w =
     (if RxPosted c
      then map_option (\<lambda>(st, w). (c\<lparr>RxPosted := False\<rparr>, w))
             (WaitToken fw (Tcp c) (RxEvent c) 500 (Cancel fw (Tcp c) (RxEvent c) w))
      else Some (c, w))"

definition close_graceful :: "('w, 'z) tcp_fw_scheme \<Rightarrow> net_conn \<Rightarrow> 'w \<Rightarrow> (net_conn \<times> 'w) option" where
  "close_graceful fw c w =
     (if Closed c then Some (c, w)
      else map_option (\<lambda>w. (c\<lparr>Closed := True\<rparr>, w))
        (case MakeEvent fw w of ((st, ev), w) \<Rightarrow>
          if EFI_ERROR st then Some w
          else (case TcpClose fw (Tcp c) ev w of (st, w) \<Rightarrow>
            map_option (CloseEvent fw ev)
              (if EFI_ERROR st then Some w else map_option snd (WaitToken fw (Tcp c) ev 3000 w)))))"

definition release_conn :: "('w, 'z) tcp_fw_scheme \<Rightarrow> net_module \<Rightarrow> net_conn \<Rightarrow> 'w \<Rightarrow> net_conn \<times> 'w" where
  "release_conn fw m c w =
     (let w = (if RxEvent c \<noteq> 0 then CloseEvent fw (RxEvent c) w else w);
          w = (if mSb m \<and> Handle c \<noteq> 0 then DestroyChild fw (Handle c) w else w)
      in (c\<lparr>RxEvent := 0, Handle := 0, Tcp := 0\<rparr>, w))"

definition NetCloseConn :: "('w, 'z) tcp_fw_scheme \<Rightarrow> net_module \<Rightarrow> net_conn \<Rightarrow> 'w \<Rightarrow> (net_conn \<times> 'w) option" where
  "NetCloseConn fw m c w =
     (if Tcp c = 0 then Some (c, w)
      else Option.bind (cancel_receive fw c w) (\<lambda>(c, w).
           map_option (\<lambda>(c, w). release_conn fw m c w) (close_graceful fw c w)))"

subsection \<open>Accepting\<close>

text \<open>After \<^verbatim>\<open>Cancel\<close> the accept token gets a hundred more turns to complete.\<close>

fun drain_accept :: "('w, 'z) tcp_fw_scheme \<Rightarrow> nat \<Rightarrow> nat \<Rightarrow> nat \<Rightarrow> 'w \<Rightarrow> 'w" where
  "drain_accept fw l ev 0 w = w"
| "drain_accept fw l ev (Suc n) w =
     (case CheckEvent fw ev (Poll fw l w) of (st, w) \<Rightarrow>
       if st = EFI_SUCCESS then w else drain_accept fw l ev n (Stall fw 1000 w))"

text \<open>The wait; false means the user asked to stop.\<close>

partial_function (option) accept_wait :: "('w, 'z) tcp_fw_scheme \<Rightarrow> net_module \<Rightarrow> nat \<Rightarrow> 'w \<Rightarrow> (bool \<times> 'w) option" where
  "accept_wait fw m ev w =
     (case CheckEvent fw ev (Poll fw (mListen m) w) of (st, w) \<Rightarrow>
       if st = EFI_SUCCESS then Some (True, w)
       else Option.bind (NetLocalAbortRequested fw m w) (\<lambda>(abrt, w).
         if abrt then Some (False, drain_accept fw (mListen m) ev 100 (Cancel fw (mListen m) ev w))
         else accept_wait fw m ev (Stall fw 1000 w)))"

declare accept_wait.simps [code]

text \<open>What follows a completed accept: open the child, note the peer, make the receive event.\<close>

definition adopt_child :: "('w, 'z) tcp_fw_scheme \<Rightarrow> net_module \<Rightarrow> nat \<Rightarrow> 'w \<Rightarrow> (efi_status \<times> net_conn \<times> 'w) option" where
  "adopt_child fw m child w =
     (let c = net_zero\<lparr>Handle := child\<rparr>; ((st, t), w) = OpenTcp fw child w; c = c\<lparr>Tcp := t\<rparr> in
      if EFI_ERROR st then Some (st, c\<lparr>Handle := 0\<rparr>, DestroyChild fw child w)
      else
        (let ((st, ip, port), w) = GetRemote fw t w;
             c = (if EFI_ERROR st then c else c\<lparr>Remote := ip, RemotePort := port\<rparr>);
             ((st, ev), w) = MakeEvent fw w
         in if EFI_ERROR st
            then map_option (\<lambda>(c, w). (st, c, w)) (NetCloseConn fw m c w)
            else Some (EFI_SUCCESS, c\<lparr>RxEvent := ev\<rparr>, w)))"

definition NetAccept :: "('w, 'z) tcp_fw_scheme \<Rightarrow> net_module \<Rightarrow> net_conn \<Rightarrow> 'w \<Rightarrow> (efi_status \<times> net_conn \<times> 'w) option" where
  "NetAccept fw m c w =
     (case MakeEvent fw w of ((st, ev), w) \<Rightarrow>
       if EFI_ERROR st then Some (st, c, w)
       else (case Accept fw (mListen m) ev w of (st, w) \<Rightarrow>
         if EFI_ERROR st then Some (st, c, CloseEvent fw ev w)
         else Option.bind (accept_wait fw m ev w) (\<lambda>(ok, w).
           if \<not> ok then Some (EFI_ABORTED, c, CloseEvent fw ev w)
           else (let st = TokStatus fw ev w; child = TokChild fw ev w; w = CloseEvent fw ev w in
                 if EFI_ERROR st then Some (st, c, w) else adopt_child fw m child w))))"

subsection \<open>Reading\<close>

definition PostReceive :: "('w, 'z) tcp_fw_scheme \<Rightarrow> net_conn \<Rightarrow> 'w \<Rightarrow> net_conn \<times> 'w" where
  "PostReceive fw c w =
     (case Receive fw (Tcp c) (RxEvent c) NET_RX_SIZE w of (st, w) \<Rightarrow>
       if EFI_ERROR st then (c\<lparr>Closed := True\<rparr>, w) else (c\<lparr>RxPosted := True\<rparr>, w))"

text \<open>A completed receive: the driver has filled the buffer and the data length.\<close>

definition complete_receive :: "('w, 'z) tcp_fw_scheme \<Rightarrow> net_conn \<Rightarrow> 'w \<Rightarrow> net_conn" where
  "complete_receive fw c w =
     (let c = c\<lparr>RxPosted := False\<rparr> in
      if EFI_ERROR (TokStatus fw (RxEvent c) w) then c\<lparr>Closed := True\<rparr>
      else (let (buf, n) = TokData fw (RxEvent c) w in
            c\<lparr>RxBuf := buf, RxAvail := (if n > NET_RX_SIZE then NET_RX_SIZE else n), RxOff := 0\<rparr>))"

definition net_fill :: "('w, 'z) tcp_fw_scheme \<Rightarrow> net_conn \<Rightarrow> 'w \<Rightarrow> net_conn \<times> 'w" where
  "net_fill fw c w =
     (if RxAvail c = 0
      then (let (c, w) = (if \<not> RxPosted c \<and> \<not> Closed c then PostReceive fw c w else (c, w));
                w = Poll fw (Tcp c) w
            in if RxPosted c
               then (let (st, w) = CheckEvent fw (RxEvent c) w in
                     if st = EFI_SUCCESS then (complete_receive fw c w, w) else (c, w))
               else (c, w))
      else (c, w))"

definition NetRead :: "('w, 'z) tcp_fw_scheme \<Rightarrow> nat \<Rightarrow> net_conn \<Rightarrow> 'w \<Rightarrow> int \<times> bytes \<times> net_conn \<times> 'w" where
  "NetRead fw limit c w =
     (if Tcp c = 0 then (- 1, [], c, w)
      else (let (c, w) = net_fill fw c w in
        if RxAvail c = 0 then (if Closed c then - 1 else 0, [], c, w)
        else (let n = (if RxAvail c < limit then RxAvail c else limit) in
              (int n, take n (drop (RxOff c) (RxBuf c)), c\<lparr>RxOff := RxOff c + n, RxAvail := RxAvail c - n\<rparr>, w))))"

subsection \<open>Writing\<close>

definition NET_TX_CHUNK :: nat where "NET_TX_CHUNK = 8192"

text \<open>One chunk: post, wait, cancel on a timeout; the status that decides.\<close>

definition send_chunk :: "('w, 'z) tcp_fw_scheme \<Rightarrow> nat \<Rightarrow> nat \<Rightarrow> bytes \<Rightarrow> 'w \<Rightarrow> (efi_status \<times> 'w) option" where
  "send_chunk fw tcp ev d w =
     (case Transmit fw tcp ev d w of (st, w) \<Rightarrow>
       if EFI_ERROR st then Some (st, w)
       else Option.bind (WaitToken fw tcp ev 30000 w) (\<lambda>(st, w).
         if st = EFI_TIMEOUT
         then map_option (\<lambda>(_, w). (st, w)) (WaitToken fw tcp ev 1000 (Cancel fw tcp ev w))
         else Some (st, w)))"

function net_write_loop :: "('w, 'z) tcp_fw_scheme \<Rightarrow> bytes \<Rightarrow> net_conn \<Rightarrow> 'w \<Rightarrow> (int \<times> net_conn \<times> 'w) option" where
  "net_write_loop fw buf c w =
     (if buf = [] then Some (0, c, w)
      else (case MakeEvent fw w of ((st, ev), w) \<Rightarrow>
        if EFI_ERROR st then Some (- 1, c, w)
        else Option.bind (send_chunk fw (Tcp c) ev (take NET_TX_CHUNK buf) w) (\<lambda>(st, w).
          let w = CloseEvent fw ev w in
          if EFI_ERROR st then Some (- 1, c\<lparr>Closed := True\<rparr>, w)
          else net_write_loop fw (drop NET_TX_CHUNK buf) c w)))"
  by pat_completeness auto
termination
  by (relation "measure (\<lambda>(fw, buf, _). length buf)") (auto simp: NET_TX_CHUNK_def)

declare net_write_loop.simps [simp del]

definition NetWrite :: "('w, 'z) tcp_fw_scheme \<Rightarrow> bytes \<Rightarrow> net_conn \<Rightarrow> 'w \<Rightarrow> (int \<times> net_conn \<times> 'w) option" where
  "NetWrite fw buf c w = (if Tcp c = 0 \<or> Closed c then Some (- 1, c, w) else net_write_loop fw buf c w)"

subsection \<open>Bounded waits\<close>

text \<open>Every wait of this file has a nonzero limit, and four times the limit in turns ends it.\<close>

lemma wait_loop_returns:
  "timeoutMs \<noteq> 0 \<Longrightarrow> \<exists>st w'. wait_loop fw tcp ev timeoutMs start spins w = Some (st, w')"
proof (induction "timeoutMs * 4000 + 1 - spins" arbitrary: spins w rule: less_induct)
  case less
  obtain st w1 where c: "CheckEvent fw ev (Poll fw tcp w) = (st, w1)" by (cases "CheckEvent fw ev (Poll fw tcp w)")
  obtain late w2 where l: "RtTimedOut fw start (spins + 1) 100 timeoutMs (Stall fw 100 w1) = (late, w2)"
    by (cases "RtTimedOut fw start (spins + 1) 100 timeoutMs (Stall fw 100 w1)")
  show ?case
  proof (cases "st = EFI_SUCCESS \<or> late")
    case True
    with c l less.prems show ?thesis by (subst wait_loop.simps) auto
  next
    case False
    have "\<not> timeoutMs * 4000 < (spins + 1) * 100"
      using RtTimedOut_spins [of timeoutMs "spins + 1" 100 fw start "Stall fw 100 w1"] l False by auto
    then have "spins < timeoutMs * 4000" by simp
    then have "timeoutMs * 4000 + 1 - (spins + 1) < timeoutMs * 4000 + 1 - spins" by simp
    from less.hyps [OF this less.prems, of w2] c l False less.prems show ?thesis
      by (subst wait_loop.simps) simp
  qed
qed

lemma WaitToken_returns: "timeoutMs \<noteq> 0 \<Longrightarrow> \<exists>st w'. WaitToken fw tcp ev timeoutMs w = Some (st, w')"
  using wait_loop_returns by (simp add: WaitToken_def split_beta)

lemma send_chunk_returns: "\<exists>st w'. send_chunk fw tcp ev d w = Some (st, w')"
proof -
  obtain st w1 where t: "Transmit fw tcp ev d w = (st, w1)" by (cases "Transmit fw tcp ev d w")
  obtain s2 w2 where 1: "WaitToken fw tcp ev 30000 w1 = Some (s2, w2)"
    using WaitToken_returns [of 30000 fw tcp ev w1] by auto
  obtain s3 w3 where 2: "WaitToken fw tcp ev 1000 (Cancel fw tcp ev w2) = Some (s3, w3)"
    using WaitToken_returns [of 1000 fw tcp ev "Cancel fw tcp ev w2"] by auto
  from t 1 2 show ?thesis by (simp add: send_chunk_def)
qed

lemma net_write_loop_returns: "\<exists>r c' w'. net_write_loop fw buf c w = Some (r, c', w')"
proof (induction fw buf c w rule: net_write_loop.induct)
  case (1 fw buf c w)
  obtain st ev w1 where e: "MakeEvent fw w = ((st, ev), w1)" by (metis prod.collapse)
  obtain s2 w2 where s: "send_chunk fw (Tcp c) ev (take NET_TX_CHUNK buf) w1 = Some (s2, w2)"
    using send_chunk_returns [of fw "Tcp c" ev "take NET_TX_CHUNK buf" w1] by blast
  show ?case
  proof (cases "buf = [] \<or> EFI_ERROR st \<or> EFI_ERROR s2")
    case True
    with e s show ?thesis by (subst net_write_loop.simps) (auto simp: Let_def)
  next
    case False
    with 1 [OF _ e [symmetric] refl _ s refl refl] e s show ?thesis
      by (subst net_write_loop.simps) (simp add: Let_def)
  qed
qed

lemma NetWrite_returns: "\<exists>r c' w'. NetWrite fw buf c w = Some (r, c', w')"
proof (cases "Tcp c = 0 \<or> Closed c")
  case True
  then show ?thesis by (auto simp: NetWrite_def)
next
  case False
  have "\<exists>r c' w'. net_write_loop fw buf c w = Some (r, c', w')" by (rule net_write_loop_returns)
  with False show ?thesis by (simp add: NetWrite_def)
qed

lemma NetCloseConn_returns: "\<exists>c' w'. NetCloseConn fw m c w = Some (c', w')"
proof -
  have 1: "\<exists>c' w'. cancel_receive fw c w = Some (c', w')" for c w
    using WaitToken_returns [of 500 fw "Tcp c" "RxEvent c" "Cancel fw (Tcp c) (RxEvent c) w"]
    by (auto simp: cancel_receive_def)
  have 2: "\<exists>c' w'. close_graceful fw c w = Some (c', w')" for c w
  proof -
    obtain st ev w1 where e: "MakeEvent fw w = ((st, ev), w1)" by (metis prod.collapse)
    obtain s2 w2 where t: "TcpClose fw (Tcp c) ev w1 = (s2, w2)" by (cases "TcpClose fw (Tcp c) ev w1")
    obtain s3 w3 where w: "WaitToken fw (Tcp c) ev 3000 w2 = Some (s3, w3)"
      using WaitToken_returns [of 3000 fw "Tcp c" ev w2] by auto
    from e t w show ?thesis by (simp add: close_graceful_def)
  qed
  obtain c1 w1 where a: "cancel_receive fw c w = Some (c1, w1)" using 1 by blast
  obtain c2 w2 where b: "close_graceful fw c1 w1 = Some (c2, w2)" using 2 by blast
  from a b show ?thesis by (simp add: NetCloseConn_def split_beta)
qed

subsection \<open>What the driver calls leave alone\<close>

text \<open>
  A quantity of the world that only creating and destroying things may change. The laws for
  events, children and the bytes handed to the driver are documented behaviour of the firmware.
\<close>

definition quiet :: "('w, 'z) tcp_fw_scheme \<Rightarrow> ('w \<Rightarrow> 'b) \<Rightarrow> bool" where
  "quiet fw f \<longleftrightarrow> (\<forall>w n e h p. f (snd (GetTime fw w)) = f w \<and> f (Stall fw n w) = f w \<and> f (snd (ReadKeyStroke fw w)) = f w \<and>
     f (snd (CheckEvent fw e w)) = f w \<and> f (snd (LocateTcp fw w)) = f w \<and> f (snd (OpenTcp fw h w)) = f w \<and>
     f (snd (Configure fw h p w)) = f w \<and> f (snd (GetRemote fw h w)) = f w \<and> f (Poll fw h w) = f w \<and>
     f (snd (Accept fw h e w)) = f w \<and> f (snd (Receive fw h e n w)) = f w \<and> f (Cancel fw h e w) = f w \<and>
     f (snd (TcpClose fw h e w)) = f w)"

definition events_law :: "('w, 'z) tcp_fw_scheme \<Rightarrow> ('w \<Rightarrow> nat set) \<Rightarrow> bool" where
  "events_law fw live \<longleftrightarrow> quiet fw live \<and> (\<forall>w. 0 \<notin> live w) \<and> (\<forall>w h e d. live (snd (Transmit fw h e d w)) = live w) \<and>
     (\<forall>w h. live (DestroyChild fw h w) = live w) \<and> (\<forall>w. live (snd (CreateChild fw w)) = live w) \<and>
     (\<forall>w e. live (CloseEvent fw e w) = live w - {e}) \<and>
     (\<forall>w st ev w'. CreateEvent fw w = ((st, ev), w') \<longrightarrow>
        (if EFI_ERROR st then live w' = live w else ev \<notin> live w \<and> live w' = insert ev (live w)))"

definition children_law :: "('w, 'z) tcp_fw_scheme \<Rightarrow> ('w \<Rightarrow> nat set) \<Rightarrow> bool" where
  "children_law fw kids \<longleftrightarrow> quiet fw kids \<and> (\<forall>w. 0 \<notin> kids w) \<and> (\<forall>w h. kids (DestroyChild fw h w) = kids w - {h}) \<and>
     (\<forall>w st ch w'. CreateChild fw w = ((st, ch), w') \<longrightarrow>
        (if EFI_ERROR st then kids w' = kids w else ch \<notin> kids w \<and> kids w' = insert ch (kids w)))"

definition sent_law :: "('w, 'z) tcp_fw_scheme \<Rightarrow> ('w \<Rightarrow> bytes list) \<Rightarrow> bool" where
  "sent_law fw sent \<longleftrightarrow> quiet fw sent \<and> (\<forall>w. sent (snd (CreateEvent fw w)) = sent w) \<and>
     (\<forall>w e. sent (CloseEvent fw e w) = sent w) \<and>
     (\<forall>w h e d. sent (snd (Transmit fw h e d w)) = (if EFI_ERROR (fst (Transmit fw h e d w)) then sent w else sent w @ [d]))"

lemma quietD:
  assumes "quiet fw f"
  shows "f (snd (GetTime fw w)) = f w" "f (Stall fw n w) = f w" "f (snd (ReadKeyStroke fw w)) = f w"
    "f (snd (CheckEvent fw e w)) = f w" "f (snd (LocateTcp fw w)) = f w" "f (snd (OpenTcp fw h w)) = f w"
    "f (snd (Configure fw h p w)) = f w" "f (snd (GetRemote fw h w)) = f w" "f (Poll fw h w) = f w"
    "f (snd (Accept fw h e w)) = f w" "f (snd (Receive fw h e n w)) = f w" "f (Cancel fw h e w) = f w"
    "f (snd (TcpClose fw h e w)) = f w"
  using assms unfolding quiet_def by blast+

lemma RtNow_quiet: "quiet fw f \<Longrightarrow> f (snd (RtNow fw w)) = f w"
  using quietD(1) [of fw f w] by (cases "GetTime fw w"; cases "fst (GetTime fw w)") (simp_all add: RtNow_def)

lemma RtTimedOut_quiet: "quiet fw f \<Longrightarrow> f (snd (RtTimedOut fw s n us l w)) = f w"
  using RtNow_quiet [of fw f w] by (simp add: RtTimedOut_def Let_def split_beta)

lemma wait_loop_quiet:
  assumes "wait_loop fw tcp ev t s n w = Some y" and "quiet fw f"
  shows "f (snd y) = f w"
proof -
  have "fw = fw \<longrightarrow> f (snd y) = f w"
  proof (rule wait_loop.raw_induct [where P = "\<lambda>fw' tcp ev t s n w y. fw' = fw \<longrightarrow> f (snd y) = f w", OF _ assms(1)], intro impI)
    fix loop fw' tcp ev t s n w and y :: "efi_status \<times> _"
    assume IH: "\<And>fw' tcp ev t s n w y. loop fw' tcp ev t s n w = Some y \<Longrightarrow> fw' = fw \<longrightarrow> f (snd y) = f w"
      and eq: "(case CheckEvent fw' ev (Poll fw' tcp w) of (st, w) \<Rightarrow>
       if st = EFI_SUCCESS then Some (TokStatus fw' ev w, w)
       else if t = 0 then loop fw' tcp ev t s (n + 1) (Stall fw' 100 w)
       else (case RtTimedOut fw' s (n + 1) 100 t (Stall fw' 100 w) of (late, w) \<Rightarrow>
         if late then Some (EFI_TIMEOUT, w) else loop fw' tcp ev t s (n + 1) w)) = Some y" and h: "fw' = fw"
    obtain st w1 where c: "CheckEvent fw ev (Poll fw tcp w) = (st, w1)" by (cases "CheckEvent fw ev (Poll fw tcp w)")
    then have 1: "f w1 = f w" using quietD(4,9) [OF assms(2)] by (metis snd_conv)
    obtain late w2 where l: "RtTimedOut fw s (n + 1) 100 t (Stall fw 100 w1) = (late, w2)"
      by (cases "RtTimedOut fw s (n + 1) 100 t (Stall fw 100 w1)")
    then have 2: "f w2 = f w" using RtTimedOut_quiet [OF assms(2)] quietD(2) [OF assms(2)] 1 by (metis snd_conv)
    show "f (snd y) = f w"
      using eq h c l 1 2 IH quietD(2) [OF assms(2)] by (auto split: if_splits)
  qed
  then show ?thesis by simp
qed

lemma WaitToken_quiet:
  assumes "WaitToken fw tcp ev t w = Some (st, w')" and "quiet fw f"
  shows "f w' = f w"
  using wait_loop_quiet [OF _ assms(2)] assms RtNow_quiet [OF assms(2), of w]
  by (fastforce simp: WaitToken_def split_beta)

lemma abort_keys_quiet:
  assumes "abort_keys fw w = Some y" and "quiet fw f"
  shows "f (snd y) = f w"
proof -
  have "fw = fw \<longrightarrow> f (snd y) = f w"
  proof (rule abort_keys.raw_induct [where P = "\<lambda>fw' w y. fw' = fw \<longrightarrow> f (snd y) = f w", OF _ assms(1)], intro impI)
    fix loop fw' w and y :: "bool \<times> _"
    assume IH: "\<And>fw' w y. loop fw' w = Some y \<Longrightarrow> fw' = fw \<longrightarrow> f (snd y) = f w"
      and eq: "(case ReadKeyStroke fw' w of (k, w) \<Rightarrow>
       if k = None then Some (False, w)
       else if ScanCode (the k) = SCAN_ESC \<or> UnicodeChar (the k) = 113 \<or> UnicodeChar (the k) = 81
       then Some (True, w) else loop fw' w) = Some y" and h: "fw' = fw"
    show "f (snd y) = f w"
      using eq h IH quietD(3) [OF assms(2), of w] by (auto simp: split_beta split: if_splits)
  qed
  then show ?thesis by simp
qed

lemma NetLocalAbortRequested_quiet:
  "NetLocalAbortRequested fw m w = Some (b, w') \<Longrightarrow> quiet fw f \<Longrightarrow> f w' = f w"
  using abort_keys_quiet [of fw w "(b, w')" f] by (auto simp: NetLocalAbortRequested_def split: if_splits)

lemma drain_accept_quiet: "quiet fw f \<Longrightarrow> f (drain_accept fw l ev n w) = f w"
proof (induction n arbitrary: w)
  case (Suc n)
  obtain st w1 where c: "CheckEvent fw ev (Poll fw l w) = (st, w1)" by (cases "CheckEvent fw ev (Poll fw l w)")
  then have "f w1 = f w" using quietD(4,9) [OF Suc.prems] by (metis snd_conv)
  with c Suc quietD(2) [OF Suc.prems] show ?case by simp
qed simp

lemma accept_wait_quiet:
  assumes "accept_wait fw m ev w = Some y" and "quiet fw f"
  shows "f (snd y) = f w"
proof -
  have "fw = fw \<longrightarrow> f (snd y) = f w"
  proof (rule accept_wait.raw_induct [where P = "\<lambda>fw' m ev w y. fw' = fw \<longrightarrow> f (snd y) = f w", OF _ assms(1)], intro impI)
    fix loop fw' m ev w and y :: "bool \<times> _"
    assume IH: "\<And>fw' m ev w y. loop fw' m ev w = Some y \<Longrightarrow> fw' = fw \<longrightarrow> f (snd y) = f w"
      and eq: "(case CheckEvent fw' ev (Poll fw' (mListen m) w) of (st, w) \<Rightarrow>
       if st = EFI_SUCCESS then Some (True, w)
       else Option.bind (NetLocalAbortRequested fw' m w) (\<lambda>(abrt, w).
         if abrt then Some (False, drain_accept fw' (mListen m) ev 100 (Cancel fw' (mListen m) ev w))
         else loop fw' m ev (Stall fw' 1000 w))) = Some y" and h: "fw' = fw"
    obtain st w1 where c: "CheckEvent fw ev (Poll fw (mListen m) w) = (st, w1)"
      by (cases "CheckEvent fw ev (Poll fw (mListen m) w)")
    then have 1: "f w1 = f w" using quietD(4,9) [OF assms(2)] by (metis snd_conv)
    show "f (snd y) = f w"
    proof (cases "st = EFI_SUCCESS")
      case True
      with eq h c 1 show ?thesis by auto
    next
      case False
      with eq h c obtain ab w2 where a: "NetLocalAbortRequested fw m w1 = Some (ab, w2)"
        by (auto simp: bind_eq_Some_conv)
      then have 2: "f w2 = f w" using NetLocalAbortRequested_quiet [OF a assms(2)] 1 by simp
      show ?thesis
      proof (cases ab)
        case True
        with eq h c False a 2 show ?thesis
          by (auto simp: drain_accept_quiet [OF assms(2)] quietD(12) [OF assms(2)])
      next
        case no: False
        with eq h c False a have "loop fw m ev (Stall fw 1000 w2) = Some y" by simp
        then show ?thesis using IH 2 quietD(2) [OF assms(2)] by metis
      qed
    qed
  qed
  then show ?thesis by simp
qed

lemma config_loop_quiet:
  assumes "quiet fw f"
  shows "config_loop fw m port n st w = Some (st', w') \<Longrightarrow> f w' = f w"
proof (induction n arbitrary: st w)
  case (Suc n)
  obtain s1 w1 where c: "Configure fw (mListen m) (Some port) w = (s1, w1)"
    by (cases "Configure fw (mListen m) (Some port) w")
  then have 1: "f w1 = f w" using quietD(7) [OF assms] by (metis snd_conv)
  show ?case
  proof (cases "s1 = EFI_NO_MAPPING")
    case True
    with Suc.prems c obtain ab w2 where a: "NetLocalAbortRequested fw m w1 = Some (ab, w2)"
      by (auto simp: bind_eq_Some_conv)
    then have 2: "f w2 = f w" using NetLocalAbortRequested_quiet [OF a assms] 1 by simp
    show ?thesis
    proof (cases ab)
      case True
      with Suc.prems c a 2 \<open>s1 = EFI_NO_MAPPING\<close> show ?thesis by simp
    next
      case False
      with Suc.prems c a \<open>s1 = EFI_NO_MAPPING\<close>
      have "config_loop fw m port n s1 (Stall fw 500000 w2) = Some (st', w')" by simp
      from Suc.IH [OF this] show ?thesis using quietD(2) [OF assms] 2 by simp
    qed
  next
    case False
    with Suc.prems c 1 show ?thesis by simp
  qed
qed simp

lemma send_chunk_world:
  assumes "send_chunk fw tcp ev d w = Some (st, w')" and "quiet fw f"
  shows "f w' = f (snd (Transmit fw tcp ev d w))"
    and "EFI_ERROR (fst (Transmit fw tcp ev d w)) \<Longrightarrow> EFI_ERROR st"
proof -
  obtain s1 w1 where t: "Transmit fw tcp ev d w = (s1, w1)" by (cases "Transmit fw tcp ev d w")
  show "f w' = f (snd (Transmit fw tcp ev d w))"
    using assms t WaitToken_quiet [OF _ assms(2)] quietD(12) [OF assms(2)]
    by (fastforce simp: send_chunk_def bind_eq_Some_conv split: if_splits)
  show "EFI_ERROR (fst (Transmit fw tcp ev d w)) \<Longrightarrow> EFI_ERROR st"
    using assms(1) t by (simp add: send_chunk_def)
qed

subsection \<open>No event is lost\<close>

lemma events_lawD:
  assumes "events_law fw live"
  shows "quiet fw live" "0 \<notin> live w" "live (snd (Transmit fw h e d w)) = live w" "live (DestroyChild fw h w) = live w"
    "live (snd (CreateChild fw w)) = live w" "live (CloseEvent fw e w) = live w - {e}"
    "MakeEvent fw w = ((st, ev), w') \<Longrightarrow> EFI_ERROR st \<Longrightarrow> live w' = live w"
    "MakeEvent fw w = ((st, ev), w') \<Longrightarrow> \<not> EFI_ERROR st \<Longrightarrow> ev \<notin> live w \<and> live w' = insert ev (live w)"
proof -
  note l = assms [unfolded events_law_def]
  show "quiet fw live" "0 \<notin> live w" "live (snd (Transmit fw h e d w)) = live w" "live (DestroyChild fw h w) = live w"
    "live (snd (CreateChild fw w)) = live w" "live (CloseEvent fw e w) = live w - {e}" using l by simp_all
  have m: "CreateEvent fw w = ((st, ev), w') \<longrightarrow>
        (if EFI_ERROR st then live w' = live w else ev \<notin> live w \<and> live w' = insert ev (live w))" using l by blast
  show "MakeEvent fw w = ((st, ev), w') \<Longrightarrow> EFI_ERROR st \<Longrightarrow> live w' = live w"
    "MakeEvent fw w = ((st, ev), w') \<Longrightarrow> \<not> EFI_ERROR st \<Longrightarrow> ev \<notin> live w \<and> live w' = insert ev (live w)"
    using m by (simp_all add: MakeEvent_def)
qed

lemma net_write_loop_events:
  "net_write_loop fw buf c w = Some (r, c', w') \<Longrightarrow> events_law fw live \<Longrightarrow> live w' = live w"
proof (induction fw buf c w rule: net_write_loop.induct)
  case (1 fw buf c w)
  note L = events_lawD [OF 1(3)]
  obtain st ev w1 where e: "MakeEvent fw w = ((st, ev), w1)" by (metis prod.collapse)
  show ?case
  proof (cases "buf = [] \<or> EFI_ERROR st")
    case True
    with e 1(2) L(7) show ?thesis by (subst (asm) net_write_loop.simps) (auto split: if_splits)
  next
    case False
    obtain s2 w2 where s: "send_chunk fw (Tcp c) ev (take NET_TX_CHUNK buf) w1 = Some (s2, w2)"
      using send_chunk_returns [of fw "Tcp c" ev "take NET_TX_CHUNK buf" w1] by blast
    have ev: "ev \<notin> live w" "live w1 = insert ev (live w)" using L(8) [OF e] False by simp_all
    have "live w2 = live w1" using send_chunk_world(1) [OF s L(1)] L(3) by simp
    then have c: "live (CloseEvent fw ev w2) = live w" using ev L(6) by simp
    show ?thesis
    proof (cases "EFI_ERROR s2")
      case True
      with False e s 1(2) c show ?thesis by (subst (asm) net_write_loop.simps) (auto simp: Let_def)
    next
      case s2: False
      have "net_write_loop fw (drop NET_TX_CHUNK buf) c (CloseEvent fw ev w2) = Some (r, c', w')"
        using False s2 e s 1(2) by (subst (asm) net_write_loop.simps) (simp add: Let_def)
      with 1(1) [OF _ e [symmetric] refl _ s refl refl] False s2 1(3) c show ?thesis by simp
    qed
  qed
qed

lemma NetCloseConn_events:
  assumes "NetCloseConn fw m c w = Some (c', w')" and law: "events_law fw live" and "Tcp c \<noteq> 0"
  shows "live w' = live w - {RxEvent c} \<and> Tcp c' = 0 \<and> Handle c' = 0"
proof -
  note L = events_lawD [OF law]
  from assms(1,3) obtain c1 w1 c2 w2 where 1: "cancel_receive fw c w = Some (c1, w1)"
    and 2: "close_graceful fw c1 w1 = Some (c2, w2)" and 3: "release_conn fw m c2 w2 = (c', w')"
    by (auto simp: NetCloseConn_def bind_eq_Some_conv)
  have a: "live w1 = live w \<and> RxEvent c1 = RxEvent c"
    using 1 WaitToken_quiet [OF _ L(1)] quietD(12) [OF L(1)]
    by (fastforce simp: cancel_receive_def split: if_splits)
  have b: "live w2 = live w1 \<and> RxEvent c2 = RxEvent c1"
  proof (cases "Closed c1")
    case True
    with 2 show ?thesis by (simp add: close_graceful_def)
  next
    case False
    obtain st ev w3 where e: "MakeEvent fw w1 = ((st, ev), w3)" by (metis prod.collapse)
    obtain s4 w4 where t: "TcpClose fw (Tcp c1) ev w3 = (s4, w4)" by (cases "TcpClose fw (Tcp c1) ev w3")
    have 4: "live w4 = live w3" using quietD(13) [OF L(1)] t by (metis snd_conv)
    show ?thesis
    proof (cases "EFI_ERROR st")
      case True
      with 2 e False L(7) show ?thesis by (auto simp: close_graceful_def)
    next
      case ok: False
      have 5: "ev \<notin> live w1" "live w3 = insert ev (live w1)" using L(8) [OF e ok] by simp_all
      show ?thesis
        using 2 False e t ok 4 5 L(6) WaitToken_quiet [OF _ L(1), of "Tcp c1" ev 3000 w4]
        by (auto simp: close_graceful_def split: if_splits)
    qed
  qed
  show ?thesis
    using 3 a b L(2,4,6) by (auto simp: release_conn_def Let_def split: if_splits)
qed

lemma adopt_child_events:
  assumes "adopt_child fw m ch w = Some (st, c', w')" and law: "events_law fw live"
  shows "if EFI_ERROR st then live w' = live w
    else RxEvent c' \<notin> live w \<and> live w' = insert (RxEvent c') (live w) \<and> Tcp c' = snd (fst (OpenTcp fw ch w))"
proof -
  note L = events_lawD [OF law]
  obtain s1 t w1 where o: "OpenTcp fw ch w = ((s1, t), w1)" by (metis prod.collapse)
  then have 1: "live w1 = live w" using quietD(6) [OF L(1)] by (metis snd_conv)
  show ?thesis
  proof (cases "EFI_ERROR s1")
    case True
    with assms(1) o 1 L(4) show ?thesis by (auto simp: adopt_child_def Let_def)
  next
    case False
    obtain s2 ip port w2 where g: "GetRemote fw t w1 = ((s2, ip, port), w2)" by (metis prod.collapse)
    then have 2: "live w2 = live w" using quietD(8) [OF L(1)] 1 by (metis snd_conv)
    obtain s3 ev w3 where e: "MakeEvent fw w2 = ((s3, ev), w3)" by (metis prod.collapse)
    show ?thesis
    proof (cases "EFI_ERROR s3")
      case True
      let ?c = "if EFI_ERROR s2 then net_zero\<lparr>Handle := ch, Tcp := t\<rparr>
         else net_zero\<lparr>Handle := ch, Tcp := t, Remote := ip, RemotePort := port\<rparr>"
      have "NetCloseConn fw m ?c w3 = Some (c', w')" "st = s3"
        using assms(1) o False g e True by (auto simp: adopt_child_def Let_def)
      moreover have "RxEvent ?c = 0" by (simp add: net_zero_def)
      ultimately have "live w' = live w3"
        using NetCloseConn_events [OF _ law, of m ?c w3 c' w'] L(2) by (cases "Tcp ?c = 0") (auto simp: NetCloseConn_def)
      then show ?thesis using L(7) [OF e True] 2 True \<open>st = s3\<close> by simp
    next
      case ok: False
      with assms(1) o False g e have "st = EFI_SUCCESS" "w' = w3" "RxEvent c' = ev" "Tcp c' = t"
        by (auto simp: adopt_child_def Let_def split: if_splits)
      then show ?thesis using L(8) [OF e ok] 2 o by simp
    qed
  qed
qed

lemma NetAccept_events:
  assumes "NetAccept fw m c w = Some (st, c', w')" and law: "events_law fw live"
  shows "if EFI_ERROR st then live w' = live w else RxEvent c' \<notin> live w \<and> live w' = insert (RxEvent c') (live w)"
proof -
  note L = events_lawD [OF law]
  obtain s1 ev w1 where e: "MakeEvent fw w = ((s1, ev), w1)" by (metis prod.collapse)
  show ?thesis
  proof (cases "EFI_ERROR s1")
    case True
    with assms(1) e L(7) [OF e True] show ?thesis by (simp add: NetAccept_def)
  next
    case False
    note ev = L(8) [OF e False]
    obtain s2 w2 where a: "Accept fw (mListen m) ev w1 = (s2, w2)" by (cases "Accept fw (mListen m) ev w1")
    then have 2: "live w2 = live w1" using quietD(10) [OF L(1)] by (metis snd_conv)
    show ?thesis
    proof (cases "EFI_ERROR s2")
      case True
      with assms(1) e False a 2 ev L(6) show ?thesis by (auto simp: NetAccept_def)
    next
      case ok: False
      from assms(1) e False a ok obtain k w3 where k: "accept_wait fw m ev w2 = Some (k, w3)"
        by (auto simp: NetAccept_def bind_eq_Some_conv)
      have 3: "live (CloseEvent fw ev w3) = live w"
        using accept_wait_quiet [OF k L(1)] 2 ev L(6) by simp
      show ?thesis
      proof (cases "k \<and> \<not> EFI_ERROR (TokStatus fw ev w3)")
        case True
        then have "adopt_child fw m (TokChild fw ev w3) (CloseEvent fw ev w3) = Some (st, c', w')"
          using assms(1) e False a ok k by (simp add: NetAccept_def Let_def)
        from adopt_child_events [OF this law] 3 show ?thesis by (simp split: if_splits)
      next
        case False
        with assms(1) e \<open>\<not> EFI_ERROR s1\<close> a ok k 3 show ?thesis
          by (auto simp: NetAccept_def Let_def split: if_splits)
      qed
    qed
  qed
qed

subsection \<open>The bytes received\<close>

text \<open>What the driver guarantees of a posted buffer, and the state of the receive side.\<close>

definition data_law :: "('w, 'z) tcp_fw_scheme \<Rightarrow> bool" where
  "data_law fw \<longleftrightarrow> (\<forall>e w. length (fst (TokData fw e w)) = NET_RX_SIZE)"

definition rx_ok :: "net_conn \<Rightarrow> bool" where
  "rx_ok c \<longleftrightarrow> length (RxBuf c) = NET_RX_SIZE \<and> RxOff c + RxAvail c \<le> NET_RX_SIZE \<and> (RxPosted c \<longrightarrow> RxAvail c = 0)"

definition unread :: "net_conn \<Rightarrow> bytes" where
  "unread c = take (RxAvail c) (drop (RxOff c) (RxBuf c))"

lemma length_unread: "rx_ok c \<Longrightarrow> length (unread c) = RxAvail c"
  by (auto simp: rx_ok_def unread_def)

lemma net_fill_ok:
  assumes "net_fill fw c w = (c', w')" and "data_law fw" and "rx_ok c"
  shows "rx_ok c' \<and> Tcp c' = Tcp c \<and> (RxAvail c \<noteq> 0 \<longrightarrow> c' = c \<and> w' = w)"
  using assms
  by (auto simp: net_fill_def PostReceive_def complete_receive_def rx_ok_def data_law_def Let_def split_beta NET_RX_SIZE_def
      split: if_splits)

lemma NetRead_lemma:
  assumes "NetRead fw n c w = (r, bs, c', w')" and "data_law fw" and "rx_ok c" and "Tcp c \<noteq> 0"
  shows "rx_ok c' \<and> Tcp c' = Tcp c \<and> length bs \<le> n \<and> (r = - 1 \<and> bs = [] \<or> r = int (length bs)) \<and>
    bs @ unread c' = unread (fst (net_fill fw c w)) \<and> (RxAvail c \<noteq> 0 \<longrightarrow> r = int (length bs) \<and> bs @ unread c' = unread c)"
proof -
  obtain c1 w1 where f: "net_fill fw c w = (c1, w1)" by (cases "net_fill fw c w")
  note ok = net_fill_ok [OF f assms(2,3)]
  show ?thesis
  proof (cases "RxAvail c1 = 0")
    case True
    then have "r = (if Closed c1 then - 1 else 0)" "bs = []" "c' = c1" using assms(1,4) f by (auto simp: NetRead_def)
    moreover have "RxAvail c = 0" using True ok by (cases "RxAvail c = 0") auto
    ultimately show ?thesis using True f ok by (simp add: unread_def)
  next
    case False
    define k where "k = (if RxAvail c1 < n then RxAvail c1 else n)"
    have n: "k \<le> RxAvail c1" "k \<le> n" by (simp_all add: k_def)
    have "NetRead fw n c w = (int k, take k (drop (RxOff c1) (RxBuf c1)),
        c1\<lparr>RxOff := RxOff c1 + k, RxAvail := RxAvail c1 - k\<rparr>, w1)"
      using assms(4) f False by (simp add: NetRead_def k_def Let_def)
    then have r: "r = int k" "bs = take k (drop (RxOff c1) (RxBuf c1))"
      "c' = c1\<lparr>RxOff := RxOff c1 + k, RxAvail := RxAvail c1 - k\<rparr>"
      using assms(1) by simp_all
    have l: "length bs = k" using r(2) ok n by (auto simp: rx_ok_def)
    have s: "take k (drop (RxOff c1) (RxBuf c1)) = take k (unread c1)" using n by (simp add: unread_def min_def)
    have "unread c' = drop k (unread c1)"
      using n by (simp add: r(3) unread_def drop_take add.commute)
    then have "bs @ unread c' = unread c1" using r(2) s by simp
    moreover have "rx_ok c' \<and> Tcp c' = Tcp c" using ok n r(3) by (auto simp: rx_ok_def)
    moreover have "RxAvail c \<noteq> 0 \<longrightarrow> c1 = c" using ok by blast
    ultimately show ?thesis using r(1) l n(2) f by auto
  qed
qed

text \<open>The callbacks \<^verbatim>\<open>SshNew\<close> is given; the wait of \<^verbatim>\<open>NetWrite\<close> always ends (\<open>net_write_loop_returns\<close>).\<close>

definition net_rd :: "('w, 'z) tcp_fw_scheme \<Rightarrow> net_conn \<times> 'w \<Rightarrow> nat \<Rightarrow> rd_result \<times> net_conn \<times> 'w" where
  "net_rd fw s n = (case NetRead fw n (fst s) (snd s) of (r, bs, c, w) \<Rightarrow> (if r < 0 then RdErr else RdData bs, c, w))"

definition net_wr :: "('w, 'z) tcp_fw_scheme \<Rightarrow> net_conn \<times> 'w \<Rightarrow> bytes \<Rightarrow> bool \<times> net_conn \<times> 'w" where
  "net_wr fw s b = (case NetWrite fw b (fst s) (snd s) of None \<Rightarrow> (False, s) | Some (r, c, w) \<Rightarrow> (r = 0, c, w))"

text \<open>
  The interface \<^verbatim>\<open>ssh.c\<close> relies on: a read is within its limit, both calls keep the connection
  good, and what is buffered comes out first and in order.
\<close>

locale io_callbacks =
  fixes rdf :: "'s \<Rightarrow> nat \<Rightarrow> rd_result \<times> 's" and wrf :: "'s \<Rightarrow> bytes \<Rightarrow> bool \<times> 's"
    and buffered :: "'s \<Rightarrow> bytes" and good :: "'s \<Rightarrow> bool"
  assumes rd_within: "rdf s n = (RdData bs, s') \<Longrightarrow> length bs \<le> n"
    and rd_good: "good s \<Longrightarrow> good (snd (rdf s n))"
    and wr_good: "good s \<Longrightarrow> good (snd (wrf s b))"
    and wr_buffered: "good s \<Longrightarrow> buffered (snd (wrf s b)) = buffered s"
    and rd_order: "good s \<Longrightarrow> buffered s \<noteq> [] \<Longrightarrow> \<exists>bs. fst (rdf s n) = RdData bs \<and> buffered s = bs @ buffered (snd (rdf s n))"

text \<open>A sequence of calls: a read with its limit, or a write; the bytes read.\<close>

datatype io_call = IoRead nat | IoWrite bytes

definition rd_bytes :: "rd_result \<Rightarrow> bytes" where
  "rd_bytes r = (case r of RdErr \<Rightarrow> [] | RdData bs \<Rightarrow> bs)"

fun io_run :: "('s \<Rightarrow> nat \<Rightarrow> rd_result \<times> 's) \<Rightarrow> ('s \<Rightarrow> bytes \<Rightarrow> bool \<times> 's) \<Rightarrow> io_call list \<Rightarrow> 's \<Rightarrow> bytes \<times> 's" where
  "io_run rdf wrf [] s = ([], s)"
| "io_run rdf wrf (IoRead n # xs) s = (let (r, s) = rdf s n; (out, s) = io_run rdf wrf xs s in (rd_bytes r @ out, s))"
| "io_run rdf wrf (IoWrite b # xs) s = io_run rdf wrf xs (snd (wrf s b))"

context io_callbacks begin

lemma run_good: "good s \<Longrightarrow> good (snd (io_run rdf wrf xs s))"
proof (induction xs arbitrary: s)
  case (Cons x xs)
  then show ?case using rd_good wr_good by (cases x) (simp_all add: Let_def split_beta)
qed simp

lemma run_order: "good s \<Longrightarrow> prefix (buffered s) (fst (io_run rdf wrf xs s) @ buffered (snd (io_run rdf wrf xs s)))"
proof (induction xs arbitrary: s)
  case (Cons x xs)
  show ?case
  proof (cases x)
    case (IoWrite b)
    from Cons.IH [OF wr_good [OF Cons.prems, of b]] wr_buffered [OF Cons.prems, of b] IoWrite
    show ?thesis by simp
  next
    case (IoRead n)
    note ih = Cons.IH [OF rd_good [OF Cons.prems, of n]]
    show ?thesis
    proof (cases "buffered s = []")
      case False
      obtain bs where "fst (rdf s n) = RdData bs" "buffered s = bs @ buffered (snd (rdf s n))"
        using rd_order [OF Cons.prems False] by blast
      with ih IoRead show ?thesis by (simp add: Let_def split_beta rd_bytes_def)
    qed simp
  qed
qed simp

end

definition net_good :: "('w, 'z) tcp_fw_scheme \<Rightarrow> net_conn \<times> 'w \<Rightarrow> bool" where
  "net_good fw s \<longleftrightarrow> data_law fw \<and> rx_ok (fst s) \<and> Tcp (fst s) \<noteq> 0"

lemma net_rd_within: "net_rd fw s n = (RdData bs, s') \<Longrightarrow> length bs \<le> n"
  by (auto simp: net_rd_def NetRead_def Let_def split_beta split: if_splits)

lemma net_write_loop_conn:
  "net_write_loop fw buf c w = Some (r, c', w') \<Longrightarrow> c' = c \<or> c' = c\<lparr>Closed := True\<rparr>"
proof (induction fw buf c w rule: net_write_loop.induct)
  case (1 fw buf c w)
  obtain st ev w1 where e: "MakeEvent fw w = ((st, ev), w1)" by (metis prod.collapse)
  obtain s2 w2 where s: "send_chunk fw (Tcp c) ev (take NET_TX_CHUNK buf) w1 = Some (s2, w2)"
    using send_chunk_returns [of fw "Tcp c" ev "take NET_TX_CHUNK buf" w1] by blast
  show ?case
  proof (cases "buf = [] \<or> EFI_ERROR st \<or> EFI_ERROR s2")
    case True
    with e s 1(2) show ?thesis by (subst (asm) net_write_loop.simps) (auto simp: Let_def split: if_splits)
  next
    case False
    then have "net_write_loop fw (drop NET_TX_CHUNK buf) c (CloseEvent fw ev w2) = Some (r, c', w')"
      using e s 1(2) by (subst (asm) net_write_loop.simps) (simp add: Let_def)
    with 1(1) [OF _ e [symmetric] refl _ s refl refl] False show ?thesis by simp
  qed
qed

lemma net_wr_conn: "\<exists>cl. fst (snd (net_wr fw s b)) = (fst s)\<lparr>Closed := cl\<rparr>"
proof -
  obtain r c' w' where w: "NetWrite fw b (fst s) (snd s) = Some (r, c', w')"
    using NetWrite_returns [of fw b "fst s" "snd s"] by auto
  have "c' = fst s \<or> c' = (fst s)\<lparr>Closed := True\<rparr>"
    using w net_write_loop_conn [of fw b "fst s" "snd s"] by (auto simp: NetWrite_def split: if_splits)
  then have "\<exists>cl. c' = (fst s)\<lparr>Closed := cl\<rparr>"
  proof
    assume "c' = fst s"
    then have "c' = (fst s)\<lparr>Closed := Closed (fst s)\<rparr>" by simp
    then show ?thesis by blast
  qed blast
  with w show ?thesis by (simp add: net_wr_def)
qed

interpretation net_io: io_callbacks "net_rd fw" "net_wr fw" "\<lambda>s. unread (fst s)" "net_good fw" for fw
proof
  show "length bs \<le> n" if "net_rd fw s n = (RdData bs, s')" for s n bs s'
    using that by (rule net_rd_within)
next
  fix s n assume g: "net_good fw s"
  obtain r bs c' w' where r: "NetRead fw n (fst s) (snd s) = (r, bs, c', w')" by (metis prod.collapse)
  note l = NetRead_lemma [OF r]
  show "net_good fw (snd (net_rd fw s n))" using l g r by (auto simp: net_good_def net_rd_def)
  show "\<exists>bs. fst (net_rd fw s n) = RdData bs \<and> unread (fst s) = bs @ unread (fst (snd (net_rd fw s n)))"
    if "unread (fst s) \<noteq> []"
  proof -
    have "RxAvail (fst s) \<noteq> 0" using that by (auto simp: unread_def)
    then show ?thesis using l g r by (auto simp: net_good_def net_rd_def)
  qed
next
  fix s b assume "net_good fw s"
  then show "net_good fw (snd (net_wr fw s b))" using net_wr_conn [of fw s b] by (auto simp: net_good_def rx_ok_def)
next
  fix s b
  show "unread (fst (snd (net_wr fw s b))) = unread (fst s)" using net_wr_conn [of fw s b] by (auto simp: unread_def)
qed

subsection \<open>The bytes sent\<close>

function chunks :: "bytes \<Rightarrow> bytes list" where
  "chunks buf = (if buf = [] then [] else take NET_TX_CHUNK buf # chunks (drop NET_TX_CHUNK buf))"
  by pat_completeness auto
termination
  by (relation "measure length") (auto simp: NET_TX_CHUNK_def)

declare chunks.simps [simp del]

lemma chunks_Nil [simp]: "chunks [] = []"
  by (subst chunks.simps) simp

lemma concat_chunks: "concat (chunks buf) = buf"
proof (induction buf rule: chunks.induct)
  case (1 buf)
  then show ?case by (subst chunks.simps) simp
qed

lemma chunks_bound: "d \<in> set (chunks buf) \<Longrightarrow> d \<noteq> [] \<and> length d \<le> NET_TX_CHUNK"
proof (induction buf rule: chunks.induct)
  case (1 buf)
  from 1(2) show ?case
    by (subst (asm) chunks.simps) (use 1(1) in \<open>auto simp: NET_TX_CHUNK_def split: if_splits\<close>)
qed

lemma net_write_loop_sent:
  "net_write_loop fw buf c w = Some (r, c', w') \<Longrightarrow> sent_law fw sent \<Longrightarrow>
   (r = 0 \<longrightarrow> sent w' = sent w @ chunks buf) \<and> (\<exists>k. sent w' = sent w @ take k (chunks buf)) \<and> r \<in> {0, - 1}"
proof (induction fw buf c w rule: net_write_loop.induct)
  case (1 fw buf c w)
  have q: "quiet fw sent" and ce: "\<And>w. sent (snd (MakeEvent fw w)) = sent w" and cl: "\<And>e w. sent (CloseEvent fw e w) = sent w"
    and tr: "\<And>h e d w. sent (snd (Transmit fw h e d w)) = (if EFI_ERROR (fst (Transmit fw h e d w)) then sent w else sent w @ [d])"
    using 1(3) by (simp_all add: sent_law_def MakeEvent_def)
  obtain st ev w1 where e: "MakeEvent fw w = ((st, ev), w1)" by (metis prod.collapse)
  then have w1: "sent w1 = sent w" using ce [of w] by simp
  show ?case
  proof (cases "buf = [] \<or> EFI_ERROR st")
    case True
    have "(r = 0 \<longrightarrow> buf = []) \<and> sent w' = sent w \<and> r \<in> {0, - 1}"
      using True e w1 1(2) by (subst (asm) net_write_loop.simps) (auto split: if_splits)
    then have "r = 0 \<longrightarrow> sent w' = sent w @ chunks buf" "sent w' = sent w @ take 0 (chunks buf)" "r \<in> {0, - 1}" by auto
    then show ?thesis by blast
  next
    case False
    let ?d = "take NET_TX_CHUNK buf"
    have ch: "chunks buf = ?d # chunks (drop NET_TX_CHUNK buf)" using False by (subst chunks.simps) simp
    obtain s2 w2 where s: "send_chunk fw (Tcp c) ev ?d w1 = Some (s2, w2)"
      using send_chunk_returns [of fw "Tcp c" ev ?d w1] by blast
    note sw = send_chunk_world [OF s q]
    have s3: "sent (CloseEvent fw ev w2) = (if EFI_ERROR (fst (Transmit fw (Tcp c) ev ?d w1)) then sent w else sent w @ [?d])"
      using sw(1) tr w1 cl by simp
    show ?thesis
    proof (cases "EFI_ERROR s2")
      case True
      have r: "r = - 1" "w' = CloseEvent fw ev w2"
        using False e s 1(2) True net_write_loop.simps [of fw buf c w] by (simp_all add: Let_def)
      have "\<exists>k. sent w' = sent w @ take k (chunks buf)"
      proof (cases "EFI_ERROR (fst (Transmit fw (Tcp c) ev ?d w1))")
        case True
        then show ?thesis using r s3 by (intro exI [of _ 0]) simp
      next
        case no: False
        then show ?thesis using r s3 ch by (intro exI [of _ 1]) simp
      qed
      then show ?thesis using r by simp
    next
      case s2: False
      then have t: "\<not> EFI_ERROR (fst (Transmit fw (Tcp c) ev ?d w1))" using sw(2) by blast
      have "net_write_loop fw (drop NET_TX_CHUNK buf) c (CloseEvent fw ev w2) = Some (r, c', w')"
        using False s2 e s 1(2) by (subst (asm) net_write_loop.simps) (simp add: Let_def)
      with 1(1) [OF _ e [symmetric] refl _ s refl refl] False s2 1(3)
      have ih: "r = 0 \<longrightarrow> sent w' = sent (CloseEvent fw ev w2) @ chunks (drop NET_TX_CHUNK buf)"
        "\<exists>k. sent w' = sent (CloseEvent fw ev w2) @ take k (chunks (drop NET_TX_CHUNK buf))" "r \<in> {0, - 1}" by simp_all
      from ih(2) obtain k where "sent w' = sent w @ [?d] @ take k (chunks (drop NET_TX_CHUNK buf))" using s3 t by auto
      then have "sent w' = sent w @ take (Suc k) (chunks buf)" using ch by simp
      then have "\<exists>k. sent w' = sent w @ take k (chunks buf)" by blast
      moreover have "r = 0 \<longrightarrow> sent w' = sent w @ chunks buf" using ih(1) s3 t ch by simp
      ultimately show ?thesis using ih(3) by blast
    qed
  qed
qed

subsection \<open>The listener\<close>

lemma children_lawD:
  assumes "children_law fw kids"
  shows "quiet fw kids" "0 \<notin> kids w" "kids (DestroyChild fw h w) = kids w - {h}"
    "CreateChild fw w = ((st, ch), w') \<Longrightarrow> EFI_ERROR st \<Longrightarrow> kids w' = kids w"
    "CreateChild fw w = ((st, ch), w') \<Longrightarrow> \<not> EFI_ERROR st \<Longrightarrow> ch \<notin> kids w \<and> kids w' = insert ch (kids w)"
proof -
  note l = assms [unfolded children_law_def]
  show "quiet fw kids" "0 \<notin> kids w" "kids (DestroyChild fw h w) = kids w - {h}" using l by simp_all
  have "CreateChild fw w = ((st, ch), w') \<longrightarrow>
      (if EFI_ERROR st then kids w' = kids w else ch \<notin> kids w \<and> kids w' = insert ch (kids w))" using l by blast
  then show "CreateChild fw w = ((st, ch), w') \<Longrightarrow> EFI_ERROR st \<Longrightarrow> kids w' = kids w"
    "CreateChild fw w = ((st, ch), w') \<Longrightarrow> \<not> EFI_ERROR st \<Longrightarrow> ch \<notin> kids w \<and> kids w' = insert ch (kids w)" by simp_all
qed

lemma NetListenStop_children:
  assumes "NetListenStop fw m w = (m', w')" and law: "children_law fw kids" and "mSb m"
  shows "kids w' = kids w - {mListenHandle m} \<and> mListenHandle m' = 0"
proof -
  note L = children_lawD [OF law]
  have "kids (if mListen m \<noteq> 0 then snd (Configure fw (mListen m) None w) else w) = kids w"
    using quietD(7) [OF L(1)] by simp
  then show ?thesis using assms(1,3) L(2,3) by (auto simp: NetListenStop_def Let_def split: if_splits)
qed

lemma NetListenStart_children:
  assumes "NetListenStart fw port m w = Some (st, m', w')" and law: "children_law fw kids"
  shows "if EFI_ERROR st then kids w' = kids w
    else mSb m' \<and> mListenHandle m' \<notin> kids w \<and> kids w' = insert (mListenHandle m') (kids w)"
proof -
  note L = children_lawD [OF law]
  obtain s1 found w1 where l: "LocateTcp fw w = ((s1, found), w1)" by (metis prod.collapse)
  then have 1: "kids w1 = kids w" using quietD(5) [OF L(1)] by (metis snd_conv)
  show ?thesis
  proof (cases "EFI_ERROR s1 \<or> \<not> found")
    case True
    with assms(1) l 1 show ?thesis by (auto simp: NetListenStart_def Let_def)
  next
    case False
    obtain s2 hd w2 where c: "CreateChild fw w1 = ((s2, hd), w2)" by (metis prod.collapse)
    show ?thesis
    proof (cases "EFI_ERROR s2")
      case True
      with assms(1) l False c 1 L(4) [OF c True] show ?thesis by (auto simp: NetListenStart_def Let_def)
    next
      case s2: False
      note ch = L(5) [OF c s2, unfolded 1]
      obtain s3 i w3 where o: "OpenTcp fw hd w2 = ((s3, i), w3)" by (metis prod.collapse)
      then have 3: "kids w3 = kids w2" using quietD(6) [OF L(1)] by (metis snd_conv)
      let ?m = "m\<lparr>mLocalIn := True, mSb := found, mListenHandle := hd, mListen := i\<rparr>"
      have m: "m\<lparr>mLocalIn := True, mSb := found, mListenHandle := hd\<rparr>\<lparr>mListen := i\<rparr> = ?m" by simp
      show ?thesis
      proof (cases "EFI_ERROR s3")
        case True
        with assms(1) l False c s2 o 3 ch L(3) show ?thesis by (auto simp: NetListenStart_def Let_def)
      next
        case s3: False
        have "map_option (\<lambda>(st, w). if EFI_ERROR st then (let (m, w) = NetListenStop fw ?m w in (st, m, w))
              else (EFI_SUCCESS, ?m, snd (GetRemote fw (mListen ?m) w))) (config_loop fw ?m port 240 EFI_SUCCESS w3)
            = Some (st, m', w')"
          using assms(1) l False c s2 o s3 by (simp add: NetListenStart_def Let_def)
        then obtain s4 w4 where k: "config_loop fw ?m port 240 EFI_SUCCESS w3 = Some (s4, w4)" and
          r: "(if EFI_ERROR s4 then (let (m, w) = NetListenStop fw ?m w4 in (s4, m, w))
              else (EFI_SUCCESS, ?m, snd (GetRemote fw (mListen ?m) w4))) = (st, m', w')"
          by auto
        have 4: "kids w4 = insert hd (kids w)" "hd \<notin> kids w" using config_loop_quiet [OF L(1) k] 3 ch by simp_all
        show ?thesis
        proof (cases "EFI_ERROR s4")
          case True
          obtain m5 w5 where s: "NetListenStop fw ?m w4 = (m5, w5)" by (cases "NetListenStop fw ?m w4")
          have "kids w5 = kids w4 - {hd}" using NetListenStop_children [OF s law] False by simp
          then show ?thesis using r True s 4 by auto
        next
          case s4: False
          then have "st = EFI_SUCCESS" "m' = ?m" "w' = snd (GetRemote fw (mListen ?m) w4)" using r by auto
          then show ?thesis using 4 quietD(8) [OF L(1)] False by simp
        qed
      qed
    qed
  qed
qed

subsection \<open>Properties\<close>

text \<open>C32: The connection's I/O always returns: whatever the driver does, \<^verbatim>\<open>NetWrite\<close> and \<^verbatim>\<open>NetCloseConn\<close>
  come back, because each wait in them has a limit, and so does any wait with a nonzero limit.\<close>
theorem net_calls_return:
  "(\<exists>r c' w'. NetWrite fw buf c w = Some (r, c', w')) \<and> (\<exists>c' w'. NetCloseConn fw m c w = Some (c', w')) \<and>
   (\<exists>st w'. WaitToken fw tcp ev (Suc n) w = Some (st, w'))"
  using NetWrite_returns [of fw buf c w] NetCloseConn_returns [of fw m c w] WaitToken_returns [of "Suc n" fw tcp ev w] by blast


text \<open>A completed receive: a read with nothing buffered hands out and keeps exactly what the driver put
  into the buffer, at most 16384 bytes; before that it returns 0, after an error -1.\<close>
theorem NetRead_delivers:
  assumes "data_law fw" and "rx_ok c" and "Tcp c \<noteq> 0" and "NetRead fw n c w = (r, bs, c', w')"
  shows "bs @ unread c' = unread (fst (net_fill fw c w)) \<and> rx_ok c' \<and> length bs \<le> n \<and>
    (r = - 1 \<and> bs = [] \<or> r = int (length bs))"
  using NetRead_lemma [OF assms(4,1,2,3)] by blast

text \<open>The transmit stream: \<^verbatim>\<open>NetWrite\<close> hands the driver the buffer in order in pieces of at most 8192
  bytes; success means all of them, a failure means a prefix.\<close>
theorem NetWrite_in_order:
  assumes "sent_law fw sent" and "NetWrite fw buf c w = Some (r, c', w')"
  shows "(r = 0 \<longrightarrow> (\<exists>ds. sent w' = sent w @ ds \<and> concat ds = buf \<and> (\<forall>d\<in>set ds. d \<noteq> [] \<and> length d \<le> NET_TX_CHUNK))) \<and>
    (\<exists>ds. sent w' = sent w @ ds \<and> prefix (concat ds) buf) \<and> r \<in> {0, - 1}"
proof (cases "Tcp c = 0 \<or> Closed c")
  case True
  with assms(2) have "r = - 1" "w' = w" by (auto simp: NetWrite_def)
  then show ?thesis by (auto intro!: exI [of _ "[]"])
next
  case False
  then have "net_write_loop fw buf c w = Some (r, c', w')" using assms(2) by (auto simp: NetWrite_def)
  note l = net_write_loop_sent [OF this assms(1)]
  then obtain k where k: "sent w' = sent w @ take k (chunks buf)" by blast
  have "concat (take k (chunks buf)) @ concat (drop k (chunks buf)) = buf"
    by (metis append_take_drop_id concat_append concat_chunks)
  then have "prefix (concat (take k (chunks buf))) buf" unfolding prefix_def by metis
  then have "\<exists>ds. sent w' = sent w @ ds \<and> prefix (concat ds) buf" using k by blast
  moreover have "r = 0 \<longrightarrow> (\<exists>ds. sent w' = sent w @ ds \<and> concat ds = buf \<and> (\<forall>d\<in>set ds. d \<noteq> [] \<and> length d \<le> NET_TX_CHUNK))"
    using l concat_chunks chunks_bound by blast
  ultimately show ?thesis using l by blast
qed

text \<open>C34: No event leaks: \<^verbatim>\<open>NetWrite\<close> closes every event it creates on every path; \<^verbatim>\<open>NetAccept\<close> leaves
  exactly the receive event of the connection it returns, and none when it fails; \<^verbatim>\<open>NetCloseConn\<close>
  closes that one and releases the handle.\<close>
theorem net_events_balanced:
  assumes "events_law fw live"
  shows "(NetWrite fw buf c w = Some (r, c1, w1) \<longrightarrow> live w1 = live w) \<and>
    (NetAccept fw m c w = Some (st, c2, w2) \<longrightarrow>
       (if EFI_ERROR st then live w2 = live w else RxEvent c2 \<notin> live w \<and> live w2 = insert (RxEvent c2) (live w))) \<and>
    (NetCloseConn fw m c w = Some (c3, w3) \<and> Tcp c \<noteq> 0 \<longrightarrow> live w3 = live w - {RxEvent c} \<and> Tcp c3 = 0 \<and> Handle c3 = 0)"
proof -
  have "live w1 = live w" if "NetWrite fw buf c w = Some (r, c1, w1)"
    using that net_write_loop_events [OF _ assms] by (auto simp: NetWrite_def split: if_splits)
  then show ?thesis
    using NetAccept_events [OF _ assms, of m c w st c2 w2] NetCloseConn_events [OF _ assms, of m c w c3 w3] by blast
qed

text \<open>No child leaks: \<^verbatim>\<open>NetListenStart\<close> leaves one new TCP child when it succeeds and none on any
  failure, and \<^verbatim>\<open>NetListenStop\<close> destroys the one it left.\<close>
theorem listener_children_balanced:
  assumes "children_law fw kids" and "NetListenStart fw port m w = Some (st, m', w')"
  shows "(EFI_ERROR st \<longrightarrow> kids w' = kids w) \<and>
    (\<not> EFI_ERROR st \<longrightarrow> (\<forall>v. kids v = kids w' \<longrightarrow> kids (snd (NetListenStop fw m' v)) = kids w))"
proof -
  note s = NetListenStart_children [OF assms(2,1)]
  have "kids (snd (NetListenStop fw m' v)) = kids w" if "\<not> EFI_ERROR st" "kids v = kids w'" for v
    using NetListenStop_children [OF surjective_pairing assms(1), of m' v] s that by auto
  then show ?thesis using s by auto
qed

subsection \<open>A driver for the witnesses\<close>

text \<open>Its world: the next event, the live events, the children, the chunks sent.\<close>

type_synonym toy_world = "nat \<times> nat set \<times> nat set \<times> bytes list"

definition toy_fw :: "toy_world tcp_fw" where
  "toy_fw = \<lparr>GetTime = \<lambda>w. (None, w), Stall = \<lambda>n w. w, AllocatePool = \<lambda>n w. (None, w),
     ReadKeyStroke = \<lambda>w. (None, w),
     CreateEvent = (\<lambda>(n, l, k, s). if Suc n \<in> l then ((EFI_OUT_OF_RESOURCES, 0), (n, l, k, s)) else ((EFI_SUCCESS, Suc n), (Suc n, insert (Suc n) l, k, s))),
     CloseEvent = (\<lambda>e (n, l, k, s). (n, l - {e}, k, s)),
     CheckEvent = \<lambda>e w. (EFI_SUCCESS, w), LocateTcp = \<lambda>w. ((EFI_SUCCESS, True), w),
     CreateChild = (\<lambda>(n, l, k, s). if 7 \<in> k then ((EFI_OUT_OF_RESOURCES, 0), (n, l, k, s)) else ((EFI_SUCCESS, 7), (n, l, insert 7 k, s))),
     DestroyChild = (\<lambda>h (n, l, k, s). (n, l, k - {h}, s)),
     OpenTcp = \<lambda>h w. ((EFI_SUCCESS, 9), w), Configure = \<lambda>h p w. (EFI_SUCCESS, w),
     GetRemote = \<lambda>h w. ((EFI_SUCCESS, 0, 0), w), Poll = \<lambda>h w. w, Accept = \<lambda>h e w. (EFI_SUCCESS, w),
     Receive = \<lambda>h e n w. (EFI_SUCCESS, w),
     Transmit = (\<lambda>h e d (n, l, k, s). (EFI_SUCCESS, (n, l, k, s @ [d]))),
     Cancel = \<lambda>h e w. w, TcpClose = \<lambda>h e w. (EFI_SUCCESS, w), TokStatus = \<lambda>e w. EFI_SUCCESS,
     TokChild = \<lambda>e w. 11, TokData = \<lambda>e w. (replicate NET_RX_SIZE 65, 3)\<rparr>"

lemma toy_data: "data_law toy_fw"
  by (simp add: data_law_def toy_fw_def)

lemma toy_sent: "sent_law toy_fw (\<lambda>w. snd (snd (snd w)))"
  by (auto simp: sent_law_def quiet_def toy_fw_def split: prod.splits)

lemma toy_events: "events_law toy_fw (\<lambda>w. fst (snd w) - {0})"
  by (auto simp: events_law_def quiet_def toy_fw_def split: prod.splits if_splits)

lemma toy_children: "children_law toy_fw (\<lambda>w. fst (snd (snd w)) - {0})"
  by (auto simp: children_law_def quiet_def toy_fw_def split: prod.splits if_splits)

definition toy_conn :: net_conn where
  "toy_conn = net_zero\<lparr>Tcp := 9, Handle := 11, RxEvent := 1, RxAvail := 2\<rparr>"

lemma toy_good: "rx_ok toy_conn" "Tcp toy_conn = 9" "\<not> Closed toy_conn" "unread toy_conn = [0, 0]"
  by (simp_all add: rx_ok_def toy_conn_def net_zero_def NET_RX_SIZE_def unread_def numeral_2_eq_2)

text \<open>The world before anything was sent.\<close>

definition toy_start :: toy_world where
  "toy_start = (1, {}, {}, [])"


theorem NetRead_delivers_witness:
  "\<exists>r bs c' w'. NetRead toy_fw 2 (toy_conn\<lparr>RxAvail := 0\<rparr>) toy_start = (r, bs, c', w') \<and>
     bs @ unread c' = unread (fst (net_fill toy_fw (toy_conn\<lparr>RxAvail := 0\<rparr>) toy_start))"
proof -
  obtain r bs c' w' where r: "NetRead toy_fw 2 (toy_conn\<lparr>RxAvail := 0\<rparr>) toy_start = (r, bs, c', w')" by (metis prod.collapse)
  have "rx_ok (toy_conn\<lparr>RxAvail := 0\<rparr>)" "Tcp (toy_conn\<lparr>RxAvail := 0\<rparr>) \<noteq> 0"
    using toy_good by (simp_all add: rx_ok_def)
  from NetRead_delivers [OF toy_data this r] r show ?thesis by blast
qed

theorem NetWrite_in_order_witness:
  "\<exists>r c' n' l' k' s'. NetWrite toy_fw [1, 2, 3] toy_conn (0, {}, {}, []) = Some (r, c', n', l', k', s') \<and> prefix (concat s') [1, 2, 3]"
proof -
  obtain r c' n l k s where "NetWrite toy_fw [1, 2, 3] toy_conn (0, {}, {}, []) = Some (r, c', n, l, k, s)"
    using NetWrite_returns [of toy_fw "[1, 2, 3]" toy_conn "(0, {}, {}, [])"] by auto
  from NetWrite_in_order [OF toy_sent this] this show ?thesis by auto
qed

theorem net_events_balanced_witness:
  "\<exists>r c' w'. NetWrite toy_fw [1, 2, 3] toy_conn (0, {}, {}, []) = Some (r, c', w') \<and> fst (snd w') - {0} = {}"
proof -
  obtain r c' w' where n: "NetWrite toy_fw [1, 2, 3] toy_conn (0, {}, {}, []) = Some (r, c', w')"
    using NetWrite_returns [of toy_fw "[1, 2, 3]" toy_conn "(0, {}, {}, [])"] by auto
  have "fst (snd w') - {0} = {}"
    using net_events_balanced [OF toy_events, THEN conjunct1, THEN mp, OF n] by simp
  with n show ?thesis by simp
qed

theorem listener_children_balanced_witness:
  "\<exists>st m' w'. NetListenStart toy_fw 22 \<lparr>mSb = False, mListenHandle = 0, mListen = 0, mLocalIn = False\<rparr> (0, {}, {}, []) =
     Some (st, m', w') \<and> fst (snd (snd (snd (NetListenStop toy_fw m' w')))) - {0} = {}"
proof -
  let ?m = "\<lparr>mSb = False, mListenHandle = 0, mListen = 0, mLocalIn = False\<rparr>"
  have "config_loop toy_fw m p (Suc n) EFI_SUCCESS w = Some (EFI_SUCCESS, w)" for m p n and w :: toy_world
  proof -
    have "Configure toy_fw h q v = (EFI_SUCCESS, v)" for h q v by (simp add: toy_fw_def)
    moreover have "EFI_SUCCESS \<noteq> EFI_NO_MAPPING" by (simp add: efi_status_defs)
    ultimately show ?thesis by simp
  qed
  from this [of _ _ 239] have c: "config_loop toy_fw m p 240 EFI_SUCCESS w = Some (EFI_SUCCESS, w)" for m p and w :: toy_world
    by simp
  have "\<exists>m' w'. NetListenStart toy_fw 22 ?m (0, {}, {}, []) = Some (EFI_SUCCESS, m', w')"
    by (simp add: NetListenStart_def Let_def split_beta c) (simp add: toy_fw_def)
  then obtain m' w' where s: "NetListenStart toy_fw 22 ?m (0, {}, {}, []) = Some (EFI_SUCCESS, m', w')" by blast
  from listener_children_balanced [OF toy_children s, THEN conjunct2, THEN mp, OF EFI_SUCCESS_ok, rule_format, OF refl]
  have "fst (snd (snd (snd (NetListenStop toy_fw m' w')))) - {0} = {}" by simp
  with s show ?thesis by blast
qed

end
