(* ===== verification/Args.thy ===== *)
theory Args
  imports Auth Runtime
begin

text \<open>
  The command line of \<^verbatim>\<open>SshShellServer.c\<close>: its 16-bit string helpers, the tokenizer that cuts the
  load options in place, and the options. An array is the list of its cells; a read or write
  outside it is \<open>None\<close>, so that the results proved to be \<open>Some\<close> are memory safety as well.
\<close>

subsection \<open>Strings\<close>

text \<open>The string an array of cells starts with, and writing one with its terminator.\<close>

definition text_of :: "'c::zero list \<Rightarrow> 'c list" where
  "text_of s = takeWhile (\<lambda>c. c \<noteq> 0) s"

definition put_str :: "'c::zero list \<Rightarrow> 'c list \<Rightarrow> 'c list option" where
  "put_str d cs = (if length cs < length d then Some (cs @ 0 # drop (Suc (length cs)) d) else None)"

fun StrLen16 :: "u16 list \<Rightarrow> nat option" where
  "StrLen16 [] = None"
| "StrLen16 (c # s) = (if c = 0 then Some 0 else map_option Suc (StrLen16 s))"

text \<open>The characters the copy loops take: while \<^verbatim>\<open>i + 1 < cap && s[i] != 0\<close>.\<close>

fun copy_chars :: "nat \<Rightarrow> u16 list \<Rightarrow> u16 list option" where
  "copy_chars cap [] = (if cap \<le> 1 then Some [] else None)"
| "copy_chars cap (c # s) = (if cap \<le> 1 \<or> c = 0 then Some [] else map_option ((#) c) (copy_chars (cap - 1) s))"

definition StrCpy16 :: "u16 list \<Rightarrow> u16 list \<Rightarrow> nat \<Rightarrow> u16 list option" where
  "StrCpy16 d s cap = Option.bind (copy_chars cap s) (put_str d)"

definition StrCat16 :: "u16 list \<Rightarrow> u16 list \<Rightarrow> nat \<Rightarrow> u16 list option" where
  "StrCat16 d s cap = Option.bind (StrLen16 d) (\<lambda>n.
     map_option ((@) (take n d)) (StrCpy16 (drop n d) s (unat (of_nat cap - of_nat n :: u64))))"

definition ascii :: "u16 \<Rightarrow> byte" where
  "ascii c = (if c < 0x80 then ucast c else 63)"

definition ToAscii :: "u16 list \<Rightarrow> bytes \<Rightarrow> nat \<Rightarrow> bytes option" where
  "ToAscii s d cap = Option.bind (map_option (map ascii) (copy_chars cap s)) (put_str d)"

subsection \<open>Configuration\<close>

definition SSH_DEFAULT_PORT :: u16 where "SSH_DEFAULT_PORT = 22"
definition SSH_DEFAULT_USER :: string where "SSH_DEFAULT_USER = ''admin''"
definition SSH_DEFAULT_PASS :: string where "SSH_DEFAULT_PASS = ''admin''"
definition SSH_DEFAULT_SHELL_OPTS :: string where "SSH_DEFAULT_SHELL_OPTS = ''-nostartup''"

text \<open>\<^verbatim>\<open>SERVER_CFG\<close> with the cells of its five fields, static and hence zero at first.\<close>

record server_cfg =
  User :: bytes
  Pass :: bytes
  Port :: u16
  ShellPath :: "u16 list"
  ShellOpts :: "u16 list"

definition mCfg0 :: server_cfg where
  "mCfg0 = \<lparr>User = replicate 64 0, Pass = replicate 128 0, Port = 0, ShellPath = replicate 260 0, ShellOpts = replicate 128 0\<rparr>"

text \<open>What \<^verbatim>\<open>CheckPassword\<close> compares with.\<close>

definition creds_of :: "server_cfg \<Rightarrow> server_creds" where
  "creds_of cfg = \<lparr>cfg_User = text_of (User cfg), cfg_Pass = text_of (Pass cfg)\<rparr>"

text \<open>\<^verbatim>\<open>strncpy\<close> of a literal into an array, up to its last cell.\<close>

definition set_literal :: "bytes \<Rightarrow> string \<Rightarrow> bytes" where
  "set_literal d lit = (let m = mem_of (d @ bytes_of lit @ [0]) in
     cells_at (strncpy 0 (length d) (length d - 1) m) 0 (length d))"

definition default_opts :: "u16 list" where
  "default_opts = take 127 (map ucast (bytes_of SSH_DEFAULT_SHELL_OPTS))"

definition default_cfg :: "server_cfg \<Rightarrow> server_cfg option" where
  "default_cfg cfg = Option.bind (put_str (ShellPath cfg) []) (\<lambda>path.
     map_option (\<lambda>opts. cfg\<lparr>User := set_literal (User cfg) SSH_DEFAULT_USER, Pass := set_literal (Pass cfg) SSH_DEFAULT_PASS,
         Port := SSH_DEFAULT_PORT, ShellPath := path, ShellOpts := opts\<rparr>) (put_str (ShellOpts cfg) default_opts))"

subsection \<open>The tokenizer\<close>

definition ARGV :: nat where "ARGV = 24"

definition is_blank :: "u16 \<Rightarrow> bool" where
  "is_blank c \<longleftrightarrow> c = 32 \<or> c = 9"

function skip_blanks :: "u16 list \<Rightarrow> nat \<Rightarrow> nat option" where
  "skip_blanks buf p =
     (if \<not> p < length buf then None else if is_blank (buf ! p) then skip_blanks buf (Suc p) else Some p)"
  by pat_completeness auto
termination
  by (relation "measure (\<lambda>(buf, p). length buf - p)") auto

text \<open>To the end of a token: the terminator or a character that stops it.\<close>

function token_end :: "(u16 \<Rightarrow> bool) \<Rightarrow> u16 list \<Rightarrow> nat \<Rightarrow> nat option" where
  "token_end stop buf p =
     (if \<not> p < length buf then None
      else if buf ! p = 0 \<or> stop (buf ! p) then Some p else token_end stop buf (Suc p))"
  by pat_completeness auto
termination
  by (relation "measure (\<lambda>(stop, buf, p). length buf - p)") auto

declare skip_blanks.simps [simp del] token_end.simps [simp del]

text \<open>The buffer with the tokens cut and the start of each.\<close>

function tok_loop :: "u16 list \<Rightarrow> nat \<Rightarrow> nat list \<Rightarrow> (u16 list \<times> nat list) option" where
  "tok_loop buf p argv =
     (if \<not> p < length buf then None
      else if buf ! p = 0 \<or> \<not> length argv < ARGV then Some (buf, argv)
      else Option.bind (skip_blanks buf p) (\<lambda>p.
        if buf ! p = 0 then Some (buf, argv)
        else (let quoted = buf ! p = 34; start = (if quoted then p + 1 else p) in
          Option.bind (token_end (if quoted then (\<lambda>c. c = 34) else is_blank) buf start) (\<lambda>p.
            if buf ! p \<noteq> 0 then tok_loop (buf[p := 0]) (p + 1) (argv @ [start])
            else tok_loop buf p (argv @ [start])))))"
  by pat_completeness auto
termination
  by (relation "measure (\<lambda>(buf, p, argv). ARGV - length argv)") auto

declare tok_loop.simps [simp del]

subsection \<open>The options\<close>

text \<open>The cell at a pointer; \<open>a\<close> is what follows it in its array.\<close>

definition cell :: "u16 list \<Rightarrow> nat \<Rightarrow> u16 option" where
  "cell a i = (if i < length a then Some (a ! i) else None)"

text \<open>
  One option with its value: \<open>Some None\<close> is the default case of the switch. \<open>tmp\<close> are the
  sixteen cells of the local array; a port number beyond \<^verbatim>\<open>int\<close> has no defined meaning.
\<close>

definition set_option :: "bytes \<Rightarrow> u16 \<Rightarrow> u16 list \<Rightarrow> server_cfg \<Rightarrow> server_cfg option option" where
  "set_option tmp c v cfg =
     (if c = 112 then
        Option.bind (ToAscii v tmp 16) (\<lambda>tmp.
          case atoi (mem_of tmp) 0 of
            Some (Some n) \<Rightarrow> Some (Some (cfg\<lparr>Port := word_of_int n\<rparr>))
          | _ \<Rightarrow> None)
      else if c = 117 then map_option (\<lambda>x. Some (cfg\<lparr>User := x\<rparr>)) (ToAscii v (User cfg) 64)
      else if c = 119 then map_option (\<lambda>x. Some (cfg\<lparr>Pass := x\<rparr>)) (ToAscii v (Pass cfg) 128)
      else if c = 115 then map_option (\<lambda>x. Some (cfg\<lparr>ShellPath := x\<rparr>)) (StrCpy16 (ShellPath cfg) v 260)
      else if c = 111 then map_option (\<lambda>x. Some (cfg\<lparr>ShellOpts := x\<rparr>)) (StrCpy16 (ShellOpts cfg) v 128)
      else Some None)"

text \<open>
  The loop over \<^verbatim>\<open>argv\<close>: whether to go on, \<^verbatim>\<open>gDebug\<close> and the configuration. Every false result
  has printed \<^verbatim>\<open>Usage\<close> once.
\<close>

fun parse_opts :: "bytes \<Rightarrow> u16 list list \<Rightarrow> bool \<Rightarrow> server_cfg \<Rightarrow> (bool \<times> bool \<times> server_cfg) option" where
  "parse_opts tmp [] dbg cfg = Some (True, dbg, cfg)"
| "parse_opts tmp (a # args) dbg cfg = Option.bind (cell a 0) (\<lambda>c.
     if c \<noteq> 45 then parse_opts tmp args dbg cfg
     else Option.bind (cell a 1) (\<lambda>c.
       if c = 104 \<or> c = 63 then Some (False, dbg, cfg)
       else if c = 100 then parse_opts tmp args True cfg
       else (case args of
               [] \<Rightarrow> Some (False, dbg, cfg)
             | v # args \<Rightarrow> Option.bind (set_option tmp c v cfg) (\<lambda>r.
                 case r of None \<Rightarrow> Some (False, dbg, cfg) | Some cfg \<Rightarrow> parse_opts tmp args dbg cfg))))"

definition fix_port :: "server_cfg \<Rightarrow> server_cfg" where
  "fix_port cfg = (if Port cfg = 0 then cfg\<lparr>Port := SSH_DEFAULT_PORT\<rparr> else cfg)"

text \<open>The loaded image protocol: options with their size in bytes, device, and file path (an address).\<close>

record loaded_image =
  LoadOptions :: "u16 list option"
  LoadOptionsSize :: u32
  DeviceHandle :: nat
  FilePath :: u64

text \<open>
  \<open>li\<close> is what \<^verbatim>\<open>HandleProtocol\<close> yields; \<open>buf\<close> and \<open>tmp\<close> are the uninitialised local arrays of 512
  and 16 cells. The configuration is kept when a port of zero is asked for, not when \<^verbatim>\<open>Usage\<close> ends it.
\<close>

definition ParseArgs :: "u16 list \<Rightarrow> bytes \<Rightarrow> loaded_image option \<Rightarrow> bool \<Rightarrow> server_cfg \<Rightarrow> (bool \<times> bool \<times> server_cfg) option" where
  "ParseArgs buf tmp li dbg cfg = Option.bind (default_cfg cfg) (\<lambda>cfg.
     case Option.bind li LoadOptions of
       None \<Rightarrow> Some (True, dbg, cfg)
     | Some opts \<Rightarrow>
         (let n = unat (LoadOptionsSize (the li)) in
          if n < 2 then Some (True, dbg, cfg)
          else Option.bind (StrCpy16 buf opts (if n div 2 < 512 then n div 2 + 1 else 512)) (\<lambda>buf.
            Option.bind (tok_loop buf 0 []) (\<lambda>(buf, argv).
              map_option (\<lambda>(ok, dbg, cfg). (ok, dbg, if ok then fix_port cfg else cfg))
                (parse_opts tmp (map (\<lambda>i. drop i buf) argv) dbg cfg)))))"

definition Usage :: "(bytes \<times> print_arg list) list" where
  "Usage =
     [(bytes_of ''Usage: SshShell.efi [-p port] [-u user] [-w password] [-s '' @ 92 # bytes_of ''path'' @ 92 # bytes_of ''Shell.efi] [-o '' @
         34 # bytes_of ''shell options'' @ 34 # bytes_of ''] [-d]'' @ [10], []),
      (bytes_of ''  Defaults: port %u, user %s, shell options '' @ 34 # bytes_of ''%s'' @ [34, 10],
       [AUns (ucast SSH_DEFAULT_PORT), AStr (bytes_of SSH_DEFAULT_USER), AStr (bytes_of SSH_DEFAULT_SHELL_OPTS)])]"

subsection \<open>Strings: lemmas\<close>

lemma text_of_Nil [simp]: "text_of [] = []"
  by (simp add: text_of_def)

lemma text_of_Cons [simp]: "text_of (c # s) = (if c = 0 then [] else c # text_of s)"
  by (simp add: text_of_def)

lemma text_of_no_nul [simp]: "0 \<notin> set (text_of s)"
  by (auto simp: text_of_def dest: set_takeWhileD)

lemma text_of_end [simp]: "0 \<notin> set s \<Longrightarrow> text_of (s @ 0 # t) = s"
  by (induction s) auto

lemma text_of_append: "0 \<in> set s \<Longrightarrow> text_of (s @ t) = text_of s"
  by (induction s) auto

lemma text_of_split: "0 \<in> set s \<Longrightarrow> \<exists>t. s = text_of s @ 0 # t"
  by (induction s) auto

lemma length_text_of: "0 \<in> set s \<Longrightarrow> length (text_of s) < length s"
  using text_of_split [of s] by (metis length_append length_Cons less_add_Suc1 add_Suc_right)

lemma StrLen16_lemma: "0 \<in> set s \<Longrightarrow> StrLen16 s = Some (length (text_of s))"
  by (induction s) auto

lemma copy_chars_lemma: "0 \<in> set s \<or> cap \<le> length s + 1 \<Longrightarrow> copy_chars cap s = Some (take (cap - 1) (text_of s))"
proof (induction s arbitrary: cap)
  case (Cons c s)
  show ?case
  proof (cases "cap \<le> 1 \<or> c = 0")
    case False
    then have "\<not> cap \<le> 1" by blast
    then have "cap = Suc (Suc (cap - 2))" by arith
    then obtain n where n: "cap = Suc (Suc n)" by blast
    show ?thesis using Cons.IH [of "Suc n"] Cons.prems False by (auto simp: n)
  qed auto
qed simp

lemma put_str_lemma: "length cs < length d \<Longrightarrow> put_str d cs = Some (cs @ 0 # drop (Suc (length cs)) d)"
  by (simp add: put_str_def)

text \<open>An array that holds a string.\<close>

definition holds :: "nat \<Rightarrow> 'c::zero list \<Rightarrow> 'c list \<Rightarrow> bool" where
  "holds n d s \<longleftrightarrow> length d = n \<and> 0 \<in> set d \<and> text_of d = s"

lemma put_str_holds: "length cs < length d \<Longrightarrow> 0 \<notin> set cs \<Longrightarrow> \<exists>d'. put_str d cs = Some d' \<and> holds (length d) d' cs"
  by (simp add: put_str_lemma holds_def)

lemma StrCpy16_lemma:
  assumes "0 \<in> set s \<or> cap \<le> length s + 1" and "cap \<le> length d" and "0 < length d"
  shows "\<exists>d'. StrCpy16 d s cap = Some d' \<and> holds (length d) d' (take (cap - 1) (text_of s))"
proof -
  have "0 \<notin> set (take (cap - 1) (text_of s))" using text_of_no_nul set_take_subset by fastforce
  moreover have "length (take (cap - 1) (text_of s)) < length d"
    using assms(2,3) unfolding length_map length_take by arith
  ultimately show ?thesis
    using put_str_holds [of "take (cap - 1) (text_of s)" d] copy_chars_lemma [OF assms(1)] by (simp add: StrCpy16_def)
qed

lemma ascii_nz: "c \<noteq> 0 \<Longrightarrow> ascii c \<noteq> 0"
proof -
  assume c: "c \<noteq> 0"
  have "unat (ascii c) \<noteq> 0"
  proof (cases "c < 0x80")
    case True
    then have "unat c < 256" by (simp add: word_less_nat_alt)
    then have "unat (ucast c :: byte) = unat c" by (simp only: unsigned_ucast_eq take_bit_nat_eq_self_iff) simp
    with True c show ?thesis by (simp add: ascii_def unat_eq_0)
  next
    case False
    then show ?thesis by (simp add: ascii_def)
  qed
  then show ?thesis by auto
qed

lemma ToAscii_lemma:
  assumes "0 \<in> set s" and "cap \<le> length d" and "0 < length d"
  shows "\<exists>d'. ToAscii s d cap = Some d' \<and> holds (length d) d' (map ascii (take (cap - 1) (text_of s)))"
proof -
  let ?t = "map ascii (take (cap - 1) (text_of s))"
  have "c \<noteq> 0" if "c \<in> set (take (cap - 1) (text_of s))" for c
    using that text_of_no_nul [of s] by (metis in_set_takeD)
  then have "0 \<notin> set ?t" using ascii_nz by fastforce
  moreover have "length ?t < length d"
    using assms(2,3) unfolding length_map length_take by arith
  ultimately show ?thesis using put_str_holds [of ?t d] copy_chars_lemma [of s cap] assms(1) by (simp add: ToAscii_def)
qed

lemma set_literal_holds:
  assumes "0 \<notin> set (bytes_of lit)" and "length lit < length d" and "set d \<subseteq> {0}"
  shows "holds (length d) (set_literal d lit) (bytes_of lit)"
proof -
  let ?m = "mem_of (d @ bytes_of lit @ [0])" and ?n = "length d - 1"
  let ?r = "set_literal d lit"
  have s: "str_at ?m (length d) (bytes_of lit)"
  proof -
    have "cells_at ?m (length d) (length (bytes_of lit)) = bytes_of lit"
      by (rule nth_equalityI) (auto simp: mem_of_def nth_append)
    moreover have "?m (length d + length (bytes_of lit)) = 0" by (simp add: mem_of_def nth_append)
    ultimately show ?thesis using assms(1) by (simp add: str_at_def)
  qed
  note c = strncpy_lemma [OF s, of 0 ?n]
  have d: "length d = Suc ?n" using assms(2) by simp
  have "strncpy 0 (length d) ?n ?m ?n = ?m ?n" by (rule c(2)) simp_all
  moreover have "?m ?n = 0"
  proof -
    have "?m ?n = d ! ?n" using d by (simp add: mem_of_def nth_append)
    moreover have "d ! ?n \<in> set d" using d by simp
    ultimately show ?thesis using assms(3) by auto
  qed
  ultimately have e: "?r = take ?n (bytes_of lit @ replicate ?n 0) @ [0]"
    using c(1) unfolding set_literal_def Let_def by (subst d) (simp only: cells_at_snoc, simp)
  have "length lit \<le> ?n" using assms(2) by simp
  then have "?r = bytes_of lit @ 0 # replicate (?n - length lit) 0"
    unfolding e by (simp add: min_def flip: replicate_append_same)
  then show ?thesis using assms(1,2) by (simp add: holds_def)
qed

subsection \<open>The tokens\<close>

text \<open>The specification: a quoted token extends to the closing quote, another to the next blank.\<close>

function tokens :: "u16 list \<Rightarrow> u16 list list" where
  "tokens s = (case dropWhile is_blank s of
       [] \<Rightarrow> []
     | c # r \<Rightarrow>
         if c = 34 then takeWhile (\<lambda>x. x \<noteq> 34) r # tokens (drop 1 (dropWhile (\<lambda>x. x \<noteq> 34) r))
         else takeWhile (\<lambda>x. \<not> is_blank x) (c # r) # tokens (drop 1 (dropWhile (\<lambda>x. \<not> is_blank x) (c # r))))"
  by pat_completeness auto
termination
proof (relation "measure length")
  fix s c r assume d: "dropWhile is_blank s = c # r"
  then have l: "length r < length s" using length_dropWhile_le [of is_blank s] by simp
  show "(drop 1 (dropWhile (\<lambda>x. x \<noteq> 34) r), s) \<in> measure length"
    using l length_dropWhile_le [of "\<lambda>x. x \<noteq> 34" r] by simp
  have "\<not> is_blank c" using d hd_dropWhile [of is_blank s] by simp
  then show "(drop 1 (dropWhile (\<lambda>x. \<not> is_blank x) (c # r)), s) \<in> measure length"
    using l length_dropWhile_le [of "\<lambda>x. \<not> is_blank x" r] by (simp add: is_blank_def)
qed simp

declare tokens.simps [simp del]

lemma skip_blanks_lemma:
  "0 \<notin> set s \<Longrightarrow> skip_blanks (d @ s @ 0 # j) (length d) = Some (length d + length (takeWhile is_blank s))"
proof (induction s arbitrary: d)
  case Nil
  then show ?case by (subst skip_blanks.simps) (simp add: is_blank_def)
next
  case (Cons c s)
  from Cons.IH [of "d @ [c]"] Cons.prems show ?case by (subst skip_blanks.simps) simp
qed

lemma token_end_lemma:
  "0 \<notin> set s \<Longrightarrow> token_end stop (d @ s @ 0 # j) (length d) = Some (length d + length (takeWhile (\<lambda>c. \<not> stop c) s))"
proof (induction s arbitrary: d)
  case Nil
  then show ?case by (subst token_end.simps) simp
next
  case (Cons c s)
  from Cons.IH [of "d @ [c]"] Cons.prems show ?case by (subst token_end.simps) simp
qed

text \<open>What the strings at \<open>argv\<close> are; cutting behind a terminator leaves them alone.\<close>

definition args_at :: "u16 list \<Rightarrow> nat list \<Rightarrow> u16 list list" where
  "args_at buf argv = map (\<lambda>i. text_of (drop i buf)) argv"

definition cut :: "u16 list \<Rightarrow> nat list \<Rightarrow> bool" where
  "cut d argv \<longleftrightarrow> (\<forall>i\<in>set argv. i < length d \<and> 0 \<in> set (drop i d))"

lemma args_at_cut: "cut d argv \<Longrightarrow> args_at (d @ t) argv = args_at d argv"
  by (auto simp: args_at_def cut_def text_of_append)

lemma args_at_append [simp]: "args_at buf (a @ b) = args_at buf a @ args_at buf b"
  by (simp add: args_at_def)

lemma cut_append: "cut d argv \<Longrightarrow> cut (d @ t) argv"
  by (auto simp: cut_def)

lemma takeWhile_split: "\<exists>z. s = takeWhile P s @ z \<and> dropWhile P s = z"
  by (metis takeWhile_dropWhile_id)

text \<open>One token and what is left, from its start on.\<close>

lemma token_step:
  assumes "0 \<notin> set s" and "takeWhile (\<lambda>c. \<not> stop c) s = t" and "dropWhile (\<lambda>c. \<not> stop c) s = z"
  shows "token_end stop (d @ s @ 0 # j) (length d) = Some (length d + length t)"
    and "(d @ s @ 0 # j) ! (length d + length t) = (if z = [] then 0 else hd z)"
    and "z \<noteq> [] \<Longrightarrow> (d @ s @ 0 # j)[length d + length t := 0] = (d @ t @ [0]) @ tl z @ 0 # j"
proof -
  have s: "s = t @ z" using assms(2,3) by (metis takeWhile_dropWhile_id)
  show "token_end stop (d @ s @ 0 # j) (length d) = Some (length d + length t)"
    using token_end_lemma [OF assms(1), of stop d j] assms(2) by simp
  show "(d @ s @ 0 # j) ! (length d + length t) = (if z = [] then 0 else hd z)"
    by (cases z) (simp_all add: s nth_append)
  show "(d @ s @ 0 # j)[length d + length t := 0] = (d @ t @ [0]) @ tl z @ 0 # j" if "z \<noteq> []"
    using that by (cases z) (simp_all add: s list_update_append)
qed

lemma tok_loop_end: "p < length buf \<Longrightarrow> buf ! p = 0 \<Longrightarrow> tok_loop buf p argv = Some (buf, argv)"
  by (subst tok_loop.simps) simp

definition cuts :: "u16 list \<Rightarrow> u16 list \<Rightarrow> u16 list \<Rightarrow> nat list \<Rightarrow> u16 list list \<Rightarrow> (u16 list \<times> nat list) option \<Rightarrow> bool" where
  "cuts d s j argv ts r \<longleftrightarrow> (\<exists>s' new. r = Some (d @ s' @ 0 # j, argv @ new) \<and> length s' = length s \<and>
     args_at (d @ s' @ 0 # j) new = ts \<and> cut (d @ s' @ [0]) (argv @ new))"

lemma tok_tail:
  assumes IH: "\<And>d' argv'. cut d' argv' \<Longrightarrow> length argv' \<le> ARGV \<Longrightarrow> z \<noteq> [] \<Longrightarrow>
      cuts d' (tl z) j argv' (take (ARGV - length argv') (tokens (tl z))) (tok_loop (d' @ tl z @ 0 # j) (length d') argv')"
    and s: "0 \<notin> set s" and t: "takeWhile (\<lambda>c. \<not> stop c) s = t" and z: "dropWhile (\<lambda>c. \<not> stop c) s = z"
    and c: "cut d argv" and l: "length argv < ARGV"
  shows "cuts d s j argv (t # take (ARGV - Suc (length argv)) (tokens (tl z)))
    (Option.bind (token_end stop (d @ s @ 0 # j) (length d)) (\<lambda>p.
       if (d @ s @ 0 # j) ! p \<noteq> 0 then tok_loop ((d @ s @ 0 # j)[p := 0]) (p + 1) (argv @ [length d])
       else tok_loop (d @ s @ 0 # j) p (argv @ [length d])))"
proof -
  note st = token_step [OF s t z, of d j]
  have sz: "s = t @ z" using t z by (metis takeWhile_dropWhile_id)
  have t0: "0 \<notin> set t" using s sz by auto
  show ?thesis
  proof (cases "z = []")
    case True
    have "tok_loop (d @ s @ 0 # j) (length d + length t) (argv @ [length d]) = Some (d @ s @ 0 # j, argv @ [length d])"
      using st(2) True sz by (intro tok_loop_end) simp_all
    moreover have "args_at (d @ s @ 0 # j) [length d] = [t]" using True sz t0 by (simp add: args_at_def)
    moreover have "cut (d @ s @ [0]) (argv @ [length d])" using cut_append [OF c, of "s @ [0]"] unfolding cut_def by simp
    moreover have "tokens [] = []" by (subst tokens.simps) simp
    ultimately show ?thesis using st(1,2) True
      unfolding cuts_def by (intro exI [of _ s] exI [of _ "[length d]"]) simp
  next
    case False
    have nz: "hd z \<noteq> 0" using s sz False by (cases z) auto
    let ?d = "d @ t @ [0]"
    have c2: "cut ?d (argv @ [length d])" using cut_append [OF c, of "t @ [0]"] by (simp add: cut_def)
    obtain s' new where r: "tok_loop (?d @ tl z @ 0 # j) (length ?d) (argv @ [length d]) = Some (?d @ s' @ 0 # j, (argv @ [length d]) @ new)"
      and l': "length s' = length (tl z)"
      and a: "args_at (?d @ s' @ 0 # j) new = take (ARGV - length (argv @ [length d])) (tokens (tl z))"
      and c': "cut (?d @ s' @ [0]) ((argv @ [length d]) @ new)"
      using IH [OF c2 _ False] l unfolding cuts_def by auto
    have "args_at (?d @ s' @ 0 # j) [length d] = [t]" using t0 by (simp add: args_at_def)
    with a have "args_at (d @ (t @ 0 # s') @ 0 # j) (length d # new) = t # take (ARGV - Suc (length argv)) (tokens (tl z))"
      by (simp add: args_at_def)
    moreover have "length (t @ 0 # s') = length s" using l' sz False by (cases z) simp_all
    ultimately show ?thesis using r c' st nz False
      unfolding cuts_def by (intro exI [of _ "t @ 0 # s'"] exI [of _ "length d # new"]) simp
  qed
qed

lemma cuts_prefix: "cuts (d @ b) s j argv ts r \<Longrightarrow> cuts d (b @ s) j argv ts r"
  unfolding cuts_def
proof (elim exE conjE)
  fix s' new
  assume "r = Some ((d @ b) @ s' @ 0 # j, argv @ new)" "length s' = length s" "args_at ((d @ b) @ s' @ 0 # j) new = ts"
    "cut ((d @ b) @ s' @ [0]) (argv @ new)"
  then show "\<exists>s' new. r = Some (d @ s' @ 0 # j, argv @ new) \<and> length s' = length (b @ s) \<and> args_at (d @ s' @ 0 # j) new = ts \<and>
      cut (d @ s' @ [0]) (argv @ new)"
    by (intro exI [of _ "b @ s'"] exI [of _ new]) simp
qed

lemma tok_loop_lemma:
  assumes "0 \<notin> set s" and "cut d argv" and "length argv \<le> ARGV"
  shows "cuts d s j argv (take (ARGV - length argv) (tokens s)) (tok_loop (d @ s @ 0 # j) (length d) argv)"
  using assms
proof (induction "length s" arbitrary: s d argv rule: less_induct)
  case less
  let ?buf = "d @ s @ 0 # j"
  define b where "b = takeWhile is_blank s"
  define r where "r = dropWhile is_blank s"
  have s: "s = b @ r" by (simp add: b_def r_def)
  have r0: "0 \<notin> set r" using less.prems(1) s by auto
  have stay: "cuts d s j argv [] (Some (?buf, argv))"
    unfolding cuts_def using cut_append [OF less.prems(2)] by (intro exI [of _ s] exI [of _ "[]"]) (simp add: args_at_def)
  have t0: "tokens [] = []" by (subst tokens.simps) simp
  show ?case
  proof (cases "s = [] \<or> length argv = ARGV")
    case True
    then have "tok_loop ?buf (length d) argv = Some (?buf, argv)" by (subst tok_loop.simps) auto
    moreover have "take (ARGV - length argv) (tokens s) = []" using True t0 by auto
    ultimately show ?thesis using stay by metis
  next
    case False
    then have l: "length argv < ARGV" and nz: "?buf ! length d \<noteq> 0" using less.prems(1,3) by (cases s; auto)+
    have sk: "skip_blanks ?buf (length d) = Some (length d + length b)"
      using skip_blanks_lemma [OF less.prems(1), of d j] by (simp add: b_def)
    show ?thesis
    proof (cases r)
      case Nil
      then have "?buf ! (length d + length b) = 0" by (simp add: s nth_append)
      then have "tok_loop ?buf (length d) argv = Some (?buf, argv)" using l nz sk by (subst tok_loop.simps) simp
      moreover have "tokens s = []" by (subst tokens.simps) (simp only: Nil list.case flip: r_def)
      ultimately show ?thesis using stay by simp
    next
      case (Cons q r')
      have q: "?buf ! (length d + length b) = q" "q \<noteq> 0" using Cons r0 by (simp_all add: s nth_append)
      define w where "w = (if q = 34 then b @ [34] else b)"
      define u where "u = (if q = 34 then r' else r)"
      define stop where "stop = (if q = 34 then (\<lambda>c. c = 34) else is_blank)"
      have e: "s = w @ u" "length w = length b + (if q = 34 then 1 else 0)" using Cons by (simp_all add: s w_def u_def)
      define z where "z = dropWhile (\<lambda>c. \<not> stop c) u"
      have u0: "0 \<notin> set u" using less.prems(1) e(1) by simp
      have bf: "(d @ w) @ u @ 0 # j = ?buf" "length (d @ w) = length d + length w" by (simp_all add: e(1))
      have tk: "tokens s = takeWhile (\<lambda>c. \<not> stop c) u # tokens (tl z)"
        using Cons by (subst tokens.simps) (simp add: r_def u_def z_def stop_def drop_Suc)
      have T: "cuts (d @ w) u j argv (takeWhile (\<lambda>c. \<not> stop c) u # take (ARGV - Suc (length argv)) (tokens (tl z)))
        (Option.bind (token_end stop ((d @ w) @ u @ 0 # j) (length (d @ w))) (\<lambda>p.
           if ((d @ w) @ u @ 0 # j) ! p \<noteq> 0 then tok_loop (((d @ w) @ u @ 0 # j)[p := 0]) (p + 1) (argv @ [length (d @ w)])
           else tok_loop ((d @ w) @ u @ 0 # j) p (argv @ [length (d @ w)])))"
      proof (rule tok_tail)
        fix d' argv'
        assume a: "cut d' argv'" "length argv' \<le> ARGV" "z \<noteq> []"
        have zs: "length z \<le> length u" "set z \<subseteq> set u"
          using set_dropWhileD [of _ "\<lambda>c. \<not> stop c" u] by (auto simp: z_def length_dropWhile_le)
        have "length (tl z) < length s" using a(3) zs(1) e(1) by (cases z) simp_all
        moreover have "0 \<notin> set (tl z)" using zs(2) u0 a(3) list.set_sel(2) [of z 0] by auto
        ultimately show "cuts d' (tl z) j argv' (take (ARGV - length argv') (tokens (tl z))) (tok_loop (d' @ tl z @ 0 # j) (length d') argv')"
          using less.hyps a(1,2) by blast
      qed (use u0 cut_append [OF less.prems(2)] l in \<open>simp_all add: z_def\<close>)
      have "tok_loop ?buf (length d) argv = Option.bind (token_end stop ?buf (length d + length w)) (\<lambda>p.
           if ?buf ! p \<noteq> 0 then tok_loop (?buf[p := 0]) (p + 1) (argv @ [length d + length w])
           else tok_loop ?buf p (argv @ [length d + length w]))"
        using l nz sk q e(2) by (subst tok_loop.simps) (cases "q = 34", simp_all add: Let_def stop_def cong: if_cong)
      moreover have "take (ARGV - length argv) (x # xs) = x # take (ARGV - Suc (length argv)) xs" for x and xs :: "u16 list list"
        using Suc_diff_Suc [OF l] by (metis take_Suc_Cons)
      ultimately have "cuts (d @ w) u j argv (take (ARGV - length argv) (tokens s)) (tok_loop ?buf (length d) argv)"
        using T [unfolded bf] tk by simp
      from cuts_prefix [OF this] show ?thesis by (simp add: e(1))
    qed
  qed
qed

subsection \<open>The options: lemmas\<close>

text \<open>A configuration whose five arrays are terminated strings.\<close>

definition cfg_ok :: "server_cfg \<Rightarrow> bool" where
  "cfg_ok cfg \<longleftrightarrow> length (User cfg) = 64 \<and> 0 \<in> set (User cfg) \<and> length (Pass cfg) = 128 \<and> 0 \<in> set (Pass cfg) \<and>
     length (ShellPath cfg) = 260 \<and> 0 \<in> set (ShellPath cfg) \<and> length (ShellOpts cfg) = 128 \<and> 0 \<in> set (ShellOpts cfg)"

text \<open>The abstract configuration: four strings and the port.\<close>

definition settings :: "server_cfg \<Rightarrow> bytes \<times> bytes \<times> u16 \<times> u16 list \<times> u16 list" where
  "settings cfg = (text_of (User cfg), text_of (Pass cfg), Port cfg, text_of (ShellPath cfg), text_of (ShellOpts cfg))"

text \<open>The port a value stands for: what \<^verbatim>\<open>atoi\<close> makes of its first fifteen characters, on 16 bits.\<close>

definition port_of :: "u16 list \<Rightarrow> u16 option" where
  "port_of v = (case atoi (mem_of (map ascii (take 15 v))) 0 of Some (Some n) \<Rightarrow> Some (word_of_int n) | _ \<Rightarrow> None)"

definition set_spec :: "u16 \<Rightarrow> u16 list \<Rightarrow> bytes \<times> bytes \<times> u16 \<times> u16 list \<times> u16 list \<Rightarrow>
    (bytes \<times> bytes \<times> u16 \<times> u16 list \<times> u16 list) option" where
  "set_spec c v st = (case st of (u, w, p, s, opts) \<Rightarrow>
     if c = 112 then map_option (\<lambda>p. (u, w, p, s, opts)) (port_of v)
     else if c = 117 then Some (map ascii (take 63 v), w, p, s, opts)
     else if c = 119 then Some (u, map ascii (take 127 v), p, s, opts)
     else if c = 115 then Some (u, w, p, take 259 v, opts)
     else Some (u, w, p, s, take 127 v))"

text \<open>\<^verbatim>\<open>atoi\<close> returns on a string and sees nothing but it.\<close>

lemma atoi_digits_str:
  "str_at m a s \<Longrightarrow> str_at m' a' s \<Longrightarrow> \<exists>r. atoi_digits m a v = Some r \<and> atoi_digits m' a' v = Some r"
proof (induction s arbitrary: a a' v)
  case Nil
  then show ?case by (subst (1 2) atoi_digits.simps) (simp add: isdigit_def)
next
  case (Cons x s)
  then show ?case by (subst (1 2) atoi_digits.simps) (simp)
qed

lemma atoi_spaces_str:
  "str_at m a s \<Longrightarrow> str_at m' a' s \<Longrightarrow>
   \<exists>k\<le>length s. atoi_spaces m a = Some (a + k) \<and> atoi_spaces m' a' = Some (a' + k)"
proof (induction s arbitrary: a a')
  case Nil
  then show ?case by (subst (1 2) atoi_spaces.simps) (simp add: isspace_def)
next
  case (Cons x s)
  show ?case
  proof (cases "isspace (uint x)")
    case True
    obtain k where "k \<le> length s" "atoi_spaces m (Suc a) = Some (Suc a + k)" "atoi_spaces m' (Suc a') = Some (Suc a' + k)"
      using Cons.IH [of "Suc a" "Suc a'"] Cons.prems by auto
    then show ?thesis using Cons.prems True
      by (subst (1 2) atoi_spaces.simps) (auto intro!: exI [of _ "Suc k"])
  next
    case False
    then show ?thesis using Cons.prems by (subst (1 2) atoi_spaces.simps) simp
  qed
qed

lemma atoi_str:
  assumes "str_at m a s" and "str_at m' a' s"
  shows "\<exists>r. atoi m a = Some r \<and> atoi m' a' = Some r"
proof -
  obtain k where k: "k \<le> length s" "atoi_spaces m a = Some (a + k)" "atoi_spaces m' a' = Some (a' + k)"
    using atoi_spaces_str [OF assms] by auto
  let ?t = "drop k s"
  have t: "str_at m (a + k) ?t" "str_at m' (a' + k) ?t" using str_at_drop assms k(1) by auto
  obtain c where c: "m (a + k) = c" "m' (a' + k) = c" using t by (cases ?t) auto
  have d: "\<exists>r. atoi_digits m (a + k) 0 = Some r \<and> atoi_digits m' (a' + k) 0 = Some r" by (rule atoi_digits_str [OF t])
  have "\<exists>r. atoi_digits m (Suc (a + k)) 0 = Some r \<and> atoi_digits m' (Suc (a' + k)) 0 = Some r" if "c \<noteq> 0"
  proof (cases ?t)
    case Nil
    then show ?thesis using t c that by simp
  next
    case (Cons x u)
    then show ?thesis using t atoi_digits_str [of m "Suc (a + k)" u m' "Suc (a' + k)"] by simp
  qed
  then show ?thesis using d c k(2,3) by (auto simp: atoi_def)
qed

lemma str_at_mem_of: "0 \<notin> set s \<Longrightarrow> str_at (mem_of (s @ 0 # j)) 0 s" "0 \<notin> set s \<Longrightarrow> str_at (mem_of s) 0 s"
  by (auto simp: str_at_def mem_of_def nth_append intro!: nth_equalityI)

lemma set_option_lemma:
  assumes "cfg_ok cfg" and "0 \<in> set v" and "length tmp = 16" and "c \<in> {112, 117, 119, 115, 111}"
  shows "case set_spec c (text_of v) (settings cfg) of
      None \<Rightarrow> c = 112 \<and> port_of (text_of v) = None \<and> set_option tmp c v cfg = None
    | Some st \<Rightarrow> \<exists>cfg'. set_option tmp c v cfg = Some (Some cfg') \<and> cfg_ok cfg' \<and> settings cfg' = st"
proof -
  have ok: "length (User cfg) = 64" "length (Pass cfg) = 128" "length (ShellPath cfg) = 260" "length (ShellOpts cfg) = 128"
    using assms(1) by (simp_all add: cfg_ok_def)
  consider "c = 112" | "c = 117" | "c = 119" | "c = 115" | "c = 111" using assms(4) by auto
  then show ?thesis
  proof cases
    case 1
    obtain d where d: "ToAscii v tmp 16 = Some d" "holds 16 d (map ascii (take 15 (text_of v)))"
      using ToAscii_lemma [OF assms(2), of 16 tmp] assms(3) by auto
    let ?s = "map ascii (take 15 (text_of v))"
    have t: "text_of d = ?s" "0 \<in> set d" using d(2) by (simp_all add: holds_def)
    have s: "0 \<notin> set ?s" unfolding t(1) [symmetric] by simp
    obtain j where j: "d = ?s @ 0 # j" using text_of_split [OF t(2)] unfolding t(1) by blast
    obtain r where "atoi (mem_of d) 0 = Some r" "atoi (mem_of ?s) 0 = Some r"
      using atoi_str [OF str_at_mem_of(1) [OF s, of j] str_at_mem_of(2) [OF s]] j by auto
    then show ?thesis using 1 d(1) assms(1)
      by (auto simp: set_option_def set_spec_def settings_def port_of_def cfg_ok_def split: option.splits)
  next
    case 2
    then show ?thesis using ToAscii_lemma [OF assms(2), of 64 "User cfg"] ok(1) assms(1)
      by (auto simp: set_option_def set_spec_def settings_def cfg_ok_def holds_def)
  next
    case 3
    then show ?thesis using ToAscii_lemma [OF assms(2), of 128 "Pass cfg"] ok(2) assms(1)
      by (auto simp: set_option_def set_spec_def settings_def cfg_ok_def holds_def)
  next
    case 4
    then show ?thesis using StrCpy16_lemma [of v 260 "ShellPath cfg"] assms(2) ok(3) assms(1)
      by (auto simp: set_option_def set_spec_def settings_def cfg_ok_def holds_def)
  next
    case 5
    then show ?thesis using StrCpy16_lemma [of v 128 "ShellOpts cfg"] assms(2) ok(4) assms(1)
      by (auto simp: set_option_def set_spec_def settings_def cfg_ok_def holds_def)
  qed
qed

text \<open>The options over strings and the abstract configuration.\<close>

definition known_option :: "u16 \<Rightarrow> bool" where
  "known_option c \<longleftrightarrow> c \<in> {112, 117, 119, 115, 111}"

definition option_char :: "u16 list \<Rightarrow> u16" where
  "option_char a = (case a of _ # c # _ \<Rightarrow> c | _ \<Rightarrow> 0)"

fun opts_spec :: "u16 list list \<Rightarrow> bool \<Rightarrow> bytes \<times> bytes \<times> u16 \<times> u16 list \<times> u16 list \<Rightarrow>
    (bool \<times> bool \<times> bytes \<times> bytes \<times> u16 \<times> u16 list \<times> u16 list) option" where
  "opts_spec [] dbg st = Some (True, dbg, st)"
| "opts_spec (a # args) dbg st =
     (if a = [] \<or> hd a \<noteq> 45 then opts_spec args dbg st
      else if option_char a = 104 \<or> option_char a = 63 then Some (False, dbg, st)
      else if option_char a = 100 then opts_spec args True st
      else (case args of
              [] \<Rightarrow> Some (False, dbg, st)
            | v # args \<Rightarrow>
                if known_option (option_char a)
                then (case set_spec (option_char a) v st of None \<Rightarrow> None | Some st \<Rightarrow> opts_spec args dbg st)
                else Some (False, dbg, st)))"

definition parsed :: "(bool \<times> bool \<times> server_cfg) option \<Rightarrow> (bool \<times> bool \<times> bytes \<times> bytes \<times> u16 \<times> u16 list \<times> u16 list) option \<Rightarrow> bool" where
  "parsed r sp \<longleftrightarrow> map_option (\<lambda>(ok, d, c). (ok, d, settings c)) r = sp \<and> (\<forall>ok d c. r = Some (ok, d, c) \<longrightarrow> cfg_ok c)"

lemma cell_text:
  assumes "0 \<in> set a"
  shows "cell a 0 = Some (if text_of a = [] then 0 else hd (text_of a))"
    and "text_of a \<noteq> [] \<Longrightarrow> cell a 1 = Some (option_char (text_of a))"
proof -
  show "cell a 0 = Some (if text_of a = [] then 0 else hd (text_of a))" using assms by (cases a) (auto simp: cell_def)
  assume t: "text_of a \<noteq> []"
  then obtain x b where a: "a = x # b" "x \<noteq> 0" "0 \<in> set b" using assms by (cases a) (auto split: if_splits)
  then show "cell a 1 = Some (option_char (text_of a))" by (cases b) (auto simp: cell_def option_char_def)
qed

lemma parse_opts_lemma:
  assumes "list_all (\<lambda>a. 0 \<in> set a) args" and "cfg_ok cfg" and "length tmp = 16"
  shows "parsed (parse_opts tmp args dbg cfg) (opts_spec (map text_of args) dbg (settings cfg))"
  using assms(1,2)
proof (induction "length args" arbitrary: args dbg cfg rule: less_induct)
  case less
  have stop: "parsed (Some (ok, dbg, cfg)) (Some (ok, dbg, settings cfg))" for ok
    using less.prems(2) by (simp add: parsed_def)
  show ?case
  proof (cases args)
    case Nil
    then show ?thesis using stop by simp
  next
    case (Cons a as)
    have a: "0 \<in> set a" "list_all (\<lambda>a. 0 \<in> set a) as" using less.prems(1) Cons by simp_all
    note ih = less.hyps [of as, OF _ a(2) less.prems(2)]
    note c0 = cell_text(1) [OF a(1)]
    show ?thesis
    proof (cases "text_of a = [] \<or> hd (text_of a) \<noteq> 45")
      case True
      then show ?thesis using ih [of dbg] c0 Cons by auto
    next
      case False
      define c where "c = option_char (text_of a)"
      have c1: "cell a 0 = Some 45" "cell a 1 = Some c" using False c0 cell_text(2) [OF a(1)] by (simp_all add: c_def)
      consider "c = 104 \<or> c = 63" | "c = 100" | "c \<notin> {104, 63, 100}" "as = []"
        | v as' where "c \<notin> {104, 63, 100}" "as = v # as'" "known_option c"
        | v as' where "c \<notin> {104, 63, 100}" "as = v # as'" "\<not> known_option c" by (cases as) auto
      then show ?thesis
      proof cases
        case 4
        then have v: "0 \<in> set v" "list_all (\<lambda>a. 0 \<in> set a) as'" using a(2) by simp_all
        have k: "c \<in> {112, 117, 119, 115, 111}" using 4 by (simp add: known_option_def)
        note so = set_option_lemma [OF less.prems(2) v(1) assms(3) k]
        show ?thesis
        proof (cases "set_spec c (text_of v) (settings cfg)")
          case None
          then have "set_option tmp c v cfg = None" using so by auto
          then show ?thesis using None 4 False c1 Cons by (simp add: parsed_def flip: c_def)
        next
          case (Some st)
          then obtain cfg' where s: "set_option tmp c v cfg = Some (Some cfg')" "cfg_ok cfg'" "settings cfg' = st" using so by auto
          have "parsed (parse_opts tmp as' dbg cfg') (opts_spec (map text_of as') dbg st)"
            using less.hyps [of as' cfg' dbg] v(2) s Cons 4 by simp
          then show ?thesis using s(1) Some 4 False c1 Cons by (simp flip: c_def)
        qed
      next
        case 5
        then have "set_option tmp c v cfg = Some None" by (simp add: set_option_def known_option_def)
        then show ?thesis using 5 False c1 Cons stop [of False] by (simp flip: c_def)
      qed (use False c1 Cons stop [of False] ih [of True] in \<open>simp_all flip: c_def\<close>)
    qed
  qed
qed

text \<open>The defaults.\<close>

definition default_settings :: "bytes \<times> bytes \<times> u16 \<times> u16 list \<times> u16 list" where
  "default_settings = (bytes_of SSH_DEFAULT_USER, bytes_of SSH_DEFAULT_PASS, 22, [], map ucast (bytes_of SSH_DEFAULT_SHELL_OPTS))"

lemma default_cfg_lemma: "\<exists>cfg. default_cfg mCfg0 = Some cfg \<and> cfg_ok cfg \<and> settings cfg = default_settings"
proof -
  have u: "holds 64 (set_literal (replicate 64 0) SSH_DEFAULT_USER) (bytes_of SSH_DEFAULT_USER)"
    using set_literal_holds [of SSH_DEFAULT_USER "replicate 64 0"] by (simp add: SSH_DEFAULT_USER_def)
  have w: "holds 128 (set_literal (replicate 128 0) SSH_DEFAULT_PASS) (bytes_of SSH_DEFAULT_PASS)"
    using set_literal_holds [of SSH_DEFAULT_PASS "replicate 128 0"] by (simp add: SSH_DEFAULT_PASS_def)
  have o: "default_opts = map ucast (bytes_of SSH_DEFAULT_SHELL_OPTS)" "length default_opts < 128" "0 \<notin> set default_opts"
    by (simp_all add: default_opts_def SSH_DEFAULT_SHELL_OPTS_def)
  have put: "\<exists>x. put_str (replicate n 0) cs = Some x \<and> holds n x cs" if "length cs < n" "0 \<notin> set cs" for n and cs :: "u16 list"
    using put_str_holds [of cs "replicate n 0"] that by simp
  obtain p where p: "put_str (replicate 260 0) [] = Some p" "holds 260 p ([] :: u16 list)" using put [of "[]" 260] by auto
  obtain q where q: "put_str (replicate 128 0) default_opts = Some q" "holds 128 q default_opts" using put o by blast
  show ?thesis using u w p q o(1)
    by (auto simp: default_cfg_def mCfg0_def cfg_ok_def settings_def default_settings_def holds_def SSH_DEFAULT_PORT_def)
qed

definition fix_settings :: "bytes \<times> bytes \<times> u16 \<times> u16 list \<times> u16 list \<Rightarrow> bytes \<times> bytes \<times> u16 \<times> u16 list \<times> u16 list" where
  "fix_settings st = (case st of (u, w, p, s, opts) \<Rightarrow> (u, w, if p = 0 then 22 else p, s, opts))"

lemma fix_port_lemma: "settings (fix_port cfg) = fix_settings (settings cfg)" "cfg_ok (fix_port cfg) = cfg_ok cfg"
  by (simp_all add: fix_port_def settings_def fix_settings_def cfg_ok_def SSH_DEFAULT_PORT_def)

text \<open>The command line the code sees of the load options.\<close>

definition command_line :: "loaded_image \<Rightarrow> u16 list" where
  "command_line l = take (min 511 (unat (LoadOptionsSize l) div 2)) (text_of (the (LoadOptions l)))"

definition args_spec :: "loaded_image \<Rightarrow> bool \<Rightarrow> (bool \<times> bool \<times> bytes \<times> bytes \<times> u16 \<times> u16 list \<times> u16 list) option" where
  "args_spec l dbg = map_option (\<lambda>(ok, d, st). (ok, d, if ok then fix_settings st else st))
     (opts_spec (take ARGV (tokens (command_line l))) dbg default_settings)"

lemma parsed_fix:
  assumes "parsed r sp"
  shows "parsed (map_option (\<lambda>(ok, d, c). (ok, d, if ok then fix_port c else c)) r)
    (map_option (\<lambda>(ok, d, st). (ok, d, if ok then fix_settings st else st)) sp)"
proof (cases r)
  case None
  with assms show ?thesis by (simp add: parsed_def)
next
  case (Some x)
  obtain ok d c where x: "x = (ok, d, c)" by (metis prod.collapse)
  have "sp = Some (ok, d, settings c)" "cfg_ok c" using assms Some x by (simp_all add: parsed_def)
  then show ?thesis using Some x by (simp add: parsed_def fix_port_lemma)
qed

lemma ParseArgs_lemma:
  assumes "LoadOptions l = Some opts" and "2 \<le> unat (LoadOptionsSize l)" and "unat (LoadOptionsSize l) div 2 \<le> length opts"
    and "length buf = 512" and "length tmp = 16"
  shows "parsed (ParseArgs buf tmp (Some l) dbg mCfg0) (args_spec l dbg)"
proof -
  let ?n = "unat (LoadOptionsSize l) div 2"
  let ?cap = "if ?n < 512 then ?n + 1 else 512"
  obtain cfg where cfg: "default_cfg mCfg0 = Some cfg" "cfg_ok cfg" "settings cfg = default_settings"
    using default_cfg_lemma by blast
  have cap: "?cap - 1 = min 511 ?n" "?cap \<le> length opts + 1" "?cap \<le> length buf" using assms(3,4) by auto
  obtain b where b: "StrCpy16 buf opts ?cap = Some b" "holds 512 b (command_line l)"
    using StrCpy16_lemma [of opts ?cap buf] cap assms(1,4) by (fastforce simp: command_line_def)
  obtain j where j: "b = command_line l @ 0 # j" using b(2) text_of_split [of b] by (auto simp: holds_def)
  have nn: "0 \<notin> set (command_line l)" using b(2) text_of_no_nul [of b] by (simp add: holds_def)
  have "cuts [] (command_line l) j [] (take ARGV (tokens (command_line l))) (tok_loop b 0 [])"
    using tok_loop_lemma [OF nn, of "[]" "[]" j] by (simp add: j cut_def)
  then obtain b' argv where t: "tok_loop b 0 [] = Some (b', argv)" "args_at b' argv = take ARGV (tokens (command_line l))"
    and c: "\<forall>i\<in>set argv. 0 \<in> set (drop i b')"
    unfolding cuts_def by (fastforce simp: cut_def)
  have "list_all (\<lambda>a. 0 \<in> set a) (map (\<lambda>i. drop i b') argv)" using c by (simp add: list_all_iff)
  from parse_opts_lemma [OF this cfg(2) assms(5), of dbg]
  have p: "parsed (parse_opts tmp (map (\<lambda>i. drop i b') argv) dbg cfg) (opts_spec (take ARGV (tokens (command_line l))) dbg default_settings)"
    using t(2) cfg(3) by (simp add: args_at_def comp_def)
  have "ParseArgs buf tmp (Some l) dbg mCfg0 = map_option (\<lambda>(ok, dbg, cfg). (ok, dbg, if ok then fix_port cfg else cfg))
      (parse_opts tmp (map (\<lambda>i. drop i b') argv) dbg cfg)"
    using assms(1,2) cfg(1) b(1) t(1) by (simp add: ParseArgs_def Let_def)
  with parsed_fix [OF p] show ?thesis by (simp add: args_spec_def)
qed

lemma opts_spec_None: "opts_spec args dbg st = None \<Longrightarrow> \<exists>v\<in>set args. port_of v = None"
proof (induction args dbg st rule: opts_spec.induct)
  case (2 a args dbg st)
  show ?case
  proof (cases "a = [] \<or> hd a \<noteq> 45 \<or> option_char a \<in> {104, 63, 100} \<or> args = []")
    case True
    then show ?thesis using 2 by (auto split: if_splits)
  next
    case False
    then obtain v as where as: "args = v # as" by (cases args) auto
    have n: "(if known_option (option_char a)
        then (case set_spec (option_char a) v st of None \<Rightarrow> None | Some st \<Rightarrow> opts_spec as dbg st) else Some (False, dbg, st)) = None"
      using 2(4) False as by simp
    show ?thesis
    proof (cases "set_spec (option_char a) v st")
      case None
      then have "port_of v = None" by (auto simp: set_spec_def split: prod.splits if_splits)
      then show ?thesis using as by simp
    next
      case (Some st')
      with n have "known_option (option_char a)" "opts_spec as dbg st' = None" by (auto split: if_splits)
      with 2(3) [OF _ _ _ as this(1) Some] False have "\<exists>v\<in>set as. port_of v = None" by simp
      then show ?thesis using as by auto
    qed
  qed
qed simp

text \<open>The strings of a well-formed command line: the program, then options with their values.\<close>

definition words :: "(u16 \<times> u16 list) list \<Rightarrow> u16 list list" where
  "words ps = concat (map (\<lambda>(c, v). [[45, c], v]) ps)"

definition last_value :: "u16 \<Rightarrow> (u16 list \<Rightarrow> 'a) \<Rightarrow> 'a \<Rightarrow> (u16 \<times> u16 list) list \<Rightarrow> 'a" where
  "last_value c f d ps = foldl (\<lambda>x p. if fst p = c then f (snd p) else x) d ps"

lemma opts_spec_words:
  "list_all (\<lambda>p. known_option (fst p)) ps \<Longrightarrow> opts_spec (words ps) dbg (u, w, p, s, opts) = Some r \<Longrightarrow>
   \<exists>p'. r = (True, dbg, last_value 117 (\<lambda>v. map ascii (take 63 v)) u ps, last_value 119 (\<lambda>v. map ascii (take 127 v)) w ps, p',
     last_value 115 (take 259) s ps, last_value 111 (take 127) opts ps)"
proof (induction ps arbitrary: u w p s opts)
  case Nil
  then show ?case by (auto simp: words_def last_value_def)
next
  case (Cons q ps)
  obtain c v where q: "q = (c, v)" by (metis prod.collapse)
  have k: "known_option c" "list_all (\<lambda>p. known_option (fst p)) ps" using Cons.prems(1) q by simp_all
  have nk: "c \<noteq> 104" "c \<noteq> 63" "c \<noteq> 100" using k(1) by (auto simp: known_option_def)
  have w: "words (q # ps) = [45, c] # v # words ps" by (simp add: words_def q)
  obtain u' w' p' s' o' where st: "set_spec c v (u, w, p, s, opts) = Some (u', w', p', s', o')"
    using Cons.prems(2) k(1) nk unfolding w by (auto simp: option_char_def split: option.splits)
  have r: "opts_spec (words ps) dbg (u', w', p', s', o') = Some r"
    using Cons.prems(2) k(1) nk st unfolding w by (simp add: option_char_def)
  have l: "last_value x f d (q # ps) = last_value x f (if c = x then f v else d) ps" for x and f :: "u16 list \<Rightarrow> 'z" and d
    by (simp add: last_value_def q)
  show ?case
    using Cons.IH [OF k(2) r] st k(1) unfolding l
    by (auto simp: set_spec_def known_option_def split: option.splits)
qed

lemma opts_spec_prog: "prog = [] \<or> hd prog \<noteq> 45 \<Longrightarrow> opts_spec (prog # args) dbg st = opts_spec args dbg st"
  by auto

subsection \<open>Properties\<close>

text \<open>The tokenizer that cuts the buffer in place agrees with its specification: the strings at \<^verbatim>\<open>argv\<close>
  are the first 24 tokens, blanks separate them and double quotes keep them together, and it never
  reads or writes past the terminator.\<close>
theorem tokenizer_equivalence:
  assumes "0 \<notin> set s"
  shows "\<exists>buf argv. tok_loop (s @ 0 # j) 0 [] = Some (buf, argv) \<and> map (\<lambda>i. text_of (drop i buf)) argv = take 24 (tokens s) \<and>
    length argv \<le> 24 \<and> (\<forall>i\<in>set argv. i \<le> length s)"
proof -
  have "cuts [] s j [] (take ARGV (tokens s)) (tok_loop (s @ 0 # j) 0 [])"
    using tok_loop_lemma [OF assms, of "[]" "[]" j] by (simp add: cut_def)
  then obtain s' argv where r: "tok_loop (s @ 0 # j) 0 [] = Some (s' @ 0 # j, argv)" "length s' = length s"
    "args_at (s' @ 0 # j) argv = take ARGV (tokens s)" "cut (s' @ [0]) argv"
    unfolding cuts_def by auto
  have "length argv = length (args_at (s' @ 0 # j) argv)" by (simp add: args_at_def)
  then have "length argv \<le> 24" using r(3) by (simp add: ARGV_def)
  moreover have "\<forall>i\<in>set argv. i \<le> length s" using r(2,4) by (auto simp: cut_def)
  ultimately show ?thesis using r by (auto simp: args_at_def ARGV_def)
qed

theorem tokenizer_equivalence_witness:
  "\<exists>buf argv. tok_loop ([45, 111, 32, 34, 97, 32, 98, 34] @ 0 # []) 0 [] = Some (buf, argv) \<and>
     map (\<lambda>i. text_of (drop i buf)) argv = [[45, 111], [97, 32, 98]]"
proof -
  have "take 24 (tokens [45, 111, 32, 34, 97, 32, 98, 34]) = [[45, 111], [97, 32, 98]]" by code_simp
  with tokenizer_equivalence [of "[45, 111, 32, 34, 97, 32, 98, 34]" "[]"] show ?thesis by auto
qed

text \<open>\<^verbatim>\<open>ParseArgs\<close> is memory safe whatever the load options hold: with arrays of the declared sizes it returns,
  unless a port number overflows \<^verbatim>\<open>int\<close>, and leaves five terminated strings in their arrays and,
  when it succeeds, a port other than zero.\<close>
theorem ParseArgs_safe:
  assumes "LoadOptions l = Some opts" and "unat (LoadOptionsSize l) div 2 \<le> length opts"
    and "length buf = 512" and "length tmp = 16"
  shows "case ParseArgs buf tmp (Some l) dbg mCfg0 of
      None \<Rightarrow> \<exists>v\<in>set (tokens (command_line l)). port_of v = None
    | Some (ok, d, cfg) \<Rightarrow> cfg_ok cfg \<and> (ok \<longrightarrow> Port cfg \<noteq> 0)"
proof (cases "2 \<le> unat (LoadOptionsSize l)")
  case True
  note p = ParseArgs_lemma [OF assms(1) True assms(2-4), of dbg]
  show ?thesis
  proof (cases "ParseArgs buf tmp (Some l) dbg mCfg0")
    case None
    then have "args_spec l dbg = None" using p by (simp add: parsed_def)
    then have "\<exists>v\<in>set (take ARGV (tokens (command_line l))). port_of v = None"
      using opts_spec_None by (auto simp: args_spec_def)
    then show ?thesis using None by (auto dest: in_set_takeD)
  next
    case (Some r)
    obtain ok d cfg where r: "r = (ok, d, cfg)" by (metis prod.collapse)
    have c: "cfg_ok cfg" "args_spec l dbg = Some (ok, d, settings cfg)" using p Some r by (auto simp: parsed_def)
    have "Port cfg \<noteq> 0" if ok
    proof -
      obtain ok' d' st where "opts_spec (take ARGV (tokens (command_line l))) dbg default_settings = Some (ok', d', st)"
        "ok = ok'" "settings cfg = (if ok' then fix_settings st else st)" using c(2) by (auto simp: args_spec_def)
      then have "settings cfg = fix_settings st" using that by simp
      then show ?thesis by (cases st) (auto simp: settings_def fix_settings_def)
    qed
    then show ?thesis using Some r c(1) by simp
  qed
next
  case False
  obtain cfg where "default_cfg mCfg0 = Some cfg" "cfg_ok cfg" "settings cfg = default_settings" using default_cfg_lemma by blast
  then show ?thesis using False assms(1) by (simp add: ParseArgs_def Let_def settings_def default_settings_def)
qed

text \<open>C28: \<^verbatim>\<open>ParseArgs\<close> refines its specification over strings: the options are those of the first 24 tokens of at
  most 511 characters, values are cut to their fields and turned to ASCII, and the state of the
  arrays behind the terminators never matters.\<close>
theorem ParseArgs_refines:
  assumes "LoadOptions l = Some opts" and "2 \<le> unat (LoadOptionsSize l)" and "unat (LoadOptionsSize l) div 2 \<le> length opts"
    and "length buf = 512" and "length tmp = 16"
  shows "map_option (\<lambda>(ok, d, cfg). (ok, d, settings cfg)) (ParseArgs buf tmp (Some l) dbg mCfg0) = args_spec l dbg"
  using ParseArgs_lemma [OF assms, of dbg] by (simp add: parsed_def)

text \<open>C29: Who can log in: after a command line of options with values, each option's last value counts, and the
  password check accepts exactly the user and password given, or the defaults.\<close>
theorem command_line_login:
  assumes "LoadOptions l = Some opts" and "2 \<le> unat (LoadOptionsSize l)" and "unat (LoadOptionsSize l) div 2 \<le> length opts"
    and "length buf = 512" and "length tmp = 16" and "prog = [] \<or> hd prog \<noteq> 45"
    and "tokens (command_line l) = prog # words ps" and "length (words ps) < 24" and "list_all (\<lambda>p. known_option (fst p)) ps"
    and "ParseArgs buf tmp (Some l) dbg mCfg0 = Some (ok, d, cfg)"
  shows "ok \<and> d = dbg \<and> (CheckPassword (creds_of cfg) usr pw \<longleftrightarrow>
    usr = last_value 117 (\<lambda>v. map ascii (take 63 v)) (bytes_of SSH_DEFAULT_USER) ps \<and>
    pw = last_value 119 (\<lambda>v. map ascii (take 127 v)) (bytes_of SSH_DEFAULT_PASS) ps)"
proof -
  have t: "take ARGV (tokens (command_line l)) = prog # words ps" using assms(7,8) by (simp add: ARGV_def)
  have a: "args_spec l dbg = Some (ok, d, settings cfg)"
    using ParseArgs_lemma [OF assms(1-5), of dbg] assms(10) by (auto simp: parsed_def)
  then obtain ok' d' st where o: "opts_spec (words ps) dbg default_settings = Some (ok', d', st)"
    "ok = ok'" "d = d'" "settings cfg = (if ok' then fix_settings st else st)"
    unfolding args_spec_def t opts_spec_prog [OF assms(6)] by auto
  from opts_spec_words [OF assms(9) o(1) [unfolded default_settings_def]] o(2-4)
  show ?thesis
    by (auto simp: settings_def fix_settings_def creds_of_def CheckPassword_def ConstantTimeEq_eq)
qed

definition sample_line :: loaded_image where
  "sample_line = \<lparr>LoadOptions = Some ([83, 32, 45, 117, 32, 98, 32, 45, 119, 32, 34, 97, 32, 98, 34, 0]), LoadOptionsSize = 32,
     DeviceHandle = 1, FilePath = 0\<rparr>"

lemma sample_line_tokens: "command_line sample_line = [83, 32, 45, 117, 32, 98, 32, 45, 119, 32, 34, 97, 32, 98, 34]"
    "tokens [83, 32, 45, 117, 32, 98, 32, 45, 119, 32, 34, 97, 32, 98, 34] = [83] # words [(117, [98]), (119, [97, 32, 98])]"
  by (simp add: command_line_def sample_line_def) code_simp

lemma sample_line_ok:
  "LoadOptions sample_line = Some ([83, 32, 45, 117, 32, 98, 32, 45, 119, 32, 34, 97, 32, 98, 34, 0])"
  "unat (LoadOptionsSize sample_line) = 32"
  by (simp_all add: sample_line_def)

lemma sample_line_spec: "args_spec sample_line False \<noteq> None"
proof -
  have "opts_spec (take ARGV (tokens (command_line sample_line))) False default_settings \<noteq> None"
    unfolding sample_line_tokens
    by (simp add: words_def ARGV_def option_char_def known_option_def set_spec_def default_settings_def)
  then show ?thesis by (simp add: args_spec_def)
qed

lemma sample_parse:
  assumes "length buf = 512" and "length tmp = 16"
  obtains ok d cfg where "ParseArgs buf tmp (Some sample_line) False mCfg0 = Some (ok, d, cfg)"
proof -
  have "map_option (\<lambda>(ok, d, cfg). (ok, d, settings cfg)) (ParseArgs buf tmp (Some sample_line) False mCfg0) \<noteq> None"
    using ParseArgs_lemma [OF sample_line_ok(1) _ _ assms, of False] sample_line_spec by (simp add: parsed_def sample_line_ok(2))
  then show ?thesis using that by auto
qed

theorem ParseArgs_safe_witness:
  "\<exists>ok d cfg. ParseArgs (replicate 512 7) (replicate 16 7) (Some sample_line) False mCfg0 = Some (ok, d, cfg) \<and> cfg_ok cfg"
proof -
  have l: "length (replicate 512 7 :: u16 list) = 512" "length (replicate 16 7 :: bytes) = 16" by simp_all
  obtain ok d cfg where p: "ParseArgs (replicate 512 7) (replicate 16 7) (Some sample_line) False mCfg0 = Some (ok, d, cfg)"
    using sample_parse [OF l] .
  from ParseArgs_safe [OF sample_line_ok(1) _ l, of False] p show ?thesis by (simp add: sample_line_ok(2))
qed

theorem ParseArgs_refines_witness:
  "map_option (\<lambda>(ok, d, cfg). (ok, d, settings cfg)) (ParseArgs (replicate 512 7) (replicate 16 7) (Some sample_line) False mCfg0) =
     args_spec sample_line False"
  by (rule ParseArgs_refines [OF sample_line_ok(1)]) (simp_all add: sample_line_ok(2))

theorem command_line_login_witness:
  "\<exists>ok d cfg. ParseArgs (replicate 512 7) (replicate 16 7) (Some sample_line) False mCfg0 = Some (ok, d, cfg) \<and>
     CheckPassword (creds_of cfg) [98] [97, 32, 98] \<and> \<not> CheckPassword (creds_of cfg) [97] [97, 32, 98]"
proof -
  have l: "length (replicate 512 7 :: u16 list) = 512" "length (replicate 16 7 :: bytes) = 16" by simp_all
  obtain ok d cfg where p: "ParseArgs (replicate 512 7) (replicate 16 7) (Some sample_line) False mCfg0 = Some (ok, d, cfg)"
    using sample_parse [OF l] .
  have k: "list_all (\<lambda>p. known_option (fst p)) [(117, [98]), (119, [97, 32, 98])]" by (simp add: known_option_def)
  have w: "length (words [(117, [98]), (119, [97, 32, 98])]) < 24" "[83] = [] \<or> hd [83] \<noteq> (45 :: u16)" by (simp_all add: words_def)
  have "CheckPassword (creds_of cfg) u q \<longleftrightarrow> u = [98] \<and> q = [97, 32, 98]" for u q
    using command_line_login [OF sample_line_ok(1) _ _ l w(2) _ w(1) k p, of u q]
    by (simp add: sample_line_ok(2) sample_line_tokens last_value_def ascii_def)
  then show ?thesis using p by simp
qed

end
