(* ===== verification/Launch.thy ===== *)
theory Launch
  imports Args Efi
begin

text \<open>
  Starting the nested Shell (\<^verbatim>\<open>SshShellServer.c\<close>): from the firmware volumes or from a file whose
  device path is put together in pool memory. The boot services are the parameter \<open>launch_fw\<close>
  over the rest of the program's state \<open>'s\<close>; they leave the memory the code works on alone. An
  image that never exits makes \<open>StartImage\<close> \<open>None\<close>.
\<close>

text \<open>
  \<open>OwnImage\<close>, \<open>ImageInfo\<close>, \<open>FvProtocol\<close>, \<open>DevicePath\<close>: \<^verbatim>\<open>HandleProtocol\<close> for the image, device
  path and firmware volume protocols, succeeding with a non-null interface. Images, handles and
  volumes are numbers, pool pointers 64-bit words.
\<close>

record 's launch_fw = "'s pool_firmware" +
  OwnImage :: "'s \<Rightarrow> loaded_image option"
  ImageInfo :: "nat \<Rightarrow> 's \<Rightarrow> bool"
  SetOptions :: "nat \<Rightarrow> u16 list \<Rightarrow> u32 \<Rightarrow> 's \<Rightarrow> 's"
  StartImage :: "nat \<Rightarrow> 's \<Rightarrow> ((efi_status \<times> u64) \<times> 's) option"
  LocateFvs :: "'s \<Rightarrow> (efi_status \<times> (u64 \<times> nat list) option) \<times> 's"
  FvProtocol :: "nat \<Rightarrow> 's \<Rightarrow> nat option"
  ReadSection :: "nat \<Rightarrow> 's \<Rightarrow> (efi_status \<times> u64) \<times> 's"
  LoadBuffer :: "u64 \<Rightarrow> 's \<Rightarrow> (efi_status \<times> nat) \<times> 's"
  LoadPath :: "bytes \<Rightarrow> 's \<Rightarrow> (efi_status \<times> nat) \<times> 's"
  DevicePath :: "nat \<Rightarrow> 's \<Rightarrow> u64 option"
  LocalPrint :: "u16 list \<Rightarrow> 's \<Rightarrow> 's"

text \<open>A message on the local console; every format of the file is well formed.\<close>

definition say :: "('s, 'z) launch_fw_scheme \<Rightarrow> bytes \<Rightarrow> print_arg list \<Rightarrow> 's \<Rightarrow> 's" where
  "say fw fmt args s = (case Print True fmt args of None \<Rightarrow> s | Some cs \<Rightarrow> LocalPrint fw cs s)"

subsection \<open>Starting an image\<close>

definition StartImageWithOpts :: "('s, 'z) launch_fw_scheme \<Rightarrow> u16 list \<Rightarrow> nat \<Rightarrow> 's \<Rightarrow> (efi_status \<times> 's) option" where
  "StartImageWithOpts fw opts img s =
     Option.bind (StrLen16 opts) (\<lambda>n.
       let s = (if opts ! 0 \<noteq> 0 \<and> ImageInfo fw img s then SetOptions fw img (take n opts) (of_nat ((n + 1) * 2)) s else s)
       in map_option (\<lambda>((st, exit_data), s). (st, if exit_data \<noteq> 0 then FreePool fw exit_data s else s)) (StartImage fw img s))"

subsection \<open>From a firmware volume\<close>

fun fv_loop :: "('s, 'z) launch_fw_scheme \<Rightarrow> u16 list \<Rightarrow> u64 \<Rightarrow> nat list \<Rightarrow> 's \<Rightarrow> (efi_status \<times> 's) option" where
  "fv_loop fw opts fvs [] s = Some (EFI_NOT_FOUND, FreePool fw fvs s)"
| "fv_loop fw opts fvs (f # hs) s =
     (case FvProtocol fw f s of
        None \<Rightarrow> fv_loop fw opts fvs hs s
      | Some fv \<Rightarrow>
          (case ReadSection fw fv s of ((st, pe), s) \<Rightarrow>
             if EFI_ERROR st \<or> pe = 0 then fv_loop fw opts fvs hs s
             else (case LoadBuffer fw pe s of ((st, img), s) \<Rightarrow>
                     if EFI_ERROR st then fv_loop fw opts fvs hs (FreePool fw pe s)
                     else StartImageWithOpts fw opts img
                            (say fw (bytes_of ''Starting the firmware volume Shell'' @ [10]) [] (FreePool fw fvs (FreePool fw pe s))))))"

definition TryFv :: "('s, 'z) launch_fw_scheme \<Rightarrow> u16 list \<Rightarrow> 's \<Rightarrow> (efi_status \<times> 's) option" where
  "TryFv fw opts s =
     (case LocateFvs fw s of ((st, r), s) \<Rightarrow>
        if EFI_ERROR st \<or> r = None then Some (EFI_NOT_FOUND, s)
        else fv_loop fw opts (fst (the r)) (snd (the r)) s)"

subsection \<open>Device paths in memory\<close>

definition MEDIA_DEVICE_PATH :: byte where "MEDIA_DEVICE_PATH = 0x04"
definition MEDIA_FILEPATH_DP :: byte where "MEDIA_FILEPATH_DP = 0x04"
definition END_DEVICE_PATH_TYPE :: byte where "END_DEVICE_PATH_TYPE = 0x7F"
definition END_ENTIRE_DEVICE_PATH_SUBTYPE :: byte where "END_ENTIRE_DEVICE_PATH_SUBTYPE = 0xFF"

lemmas dp_defs = MEDIA_DEVICE_PATH_def MEDIA_FILEPATH_DP_def END_DEVICE_PATH_TYPE_def END_ENTIRE_DEVICE_PATH_SUBTYPE_def

text \<open>The length field of the node at \<open>dp\<close>, and whether it ends the path.\<close>

definition node_len :: "mem \<Rightarrow> nat \<Rightarrow> nat" where
  "node_len m dp = unat (ucast (m (dp + 2)) OR push_bit 8 (ucast (m (dp + 3))) :: u64)"

definition is_end :: "mem \<Rightarrow> nat \<Rightarrow> bool" where
  "is_end m dp \<longleftrightarrow> m dp = END_DEVICE_PATH_TYPE \<and> m (dp + 1) = END_ENTIRE_DEVICE_PATH_SUBTYPE"

definition load16 :: "mem \<Rightarrow> nat \<Rightarrow> u16" where
  "load16 m a = ucast (m a) OR push_bit 8 (ucast (m (a + 1)))"

partial_function (option) dev_path_len :: "mem \<Rightarrow> nat \<Rightarrow> nat \<Rightarrow> nat option" where
  "dev_path_len m dp n =
     (if node_len m dp < 4 then Some n
      else if is_end m dp then Some n
      else dev_path_len m (dp + node_len m dp) (n + node_len m dp))"

declare dev_path_len.simps [code]

definition DevPathLen :: "mem \<Rightarrow> nat \<Rightarrow> nat option" where
  "DevPathLen m dp = dev_path_len m dp 0"

text \<open>The number of characters up to and with the last backslash of a path in memory.\<close>

function cut_loop :: "mem \<Rightarrow> nat \<Rightarrow> nat \<Rightarrow> nat \<Rightarrow> nat \<Rightarrow> nat" where
  "cut_loop m path chars i c =
     (if i < chars \<and> load16 m (path + 2 * i) \<noteq> 0
      then cut_loop m path chars (i + 1) (if load16 m (path + 2 * i) = 92 then i + 1 else c) else c)"
  by pat_completeness auto
termination
  by (relation "measure (\<lambda>(m, path, chars, i, c). chars - i)") auto

declare cut_loop.simps [simp del]

text \<open>One node of \<^verbatim>\<open>OwnDirectory\<close>: a file path node sets the directory when it fits.\<close>

definition own_node :: "mem \<Rightarrow> nat \<Rightarrow> nat \<Rightarrow> u16 list \<Rightarrow> u16 list option" where
  "own_node m dp cap out =
     (if m dp = MEDIA_DEVICE_PATH \<and> m (dp + 1) = MEDIA_FILEPATH_DP
      then (let path = dp + 4; chars = (node_len m dp - 4) div 2; c = cut_loop m path chars 0 0 in
            if c + 1 < cap then put_str out (map (\<lambda>i. load16 m (path + 2 * i)) [0..<c]) else Some out)
      else Some out)"

partial_function (option) own_loop :: "mem \<Rightarrow> nat \<Rightarrow> nat \<Rightarrow> u16 list \<Rightarrow> u16 list option" where
  "own_loop m dp cap out =
     (if node_len m dp < 4 \<or> is_end m dp then Some out
      else Option.bind (own_node m dp cap out) (own_loop m (dp + node_len m dp) cap))"

declare own_loop.simps [code]

definition OwnDirectory :: "mem \<Rightarrow> loaded_image \<Rightarrow> u16 list \<Rightarrow> nat \<Rightarrow> u16 list option" where
  "OwnDirectory m li out cap = Option.bind (put_str out []) (\<lambda>out.
     if FilePath li = 0 then Some out else own_loop m (unat (FilePath li)) cap out)"

subsection \<open>From a file\<close>

definition utf16 :: "u16 list \<Rightarrow> bytes" where
  "utf16 cs = concat (map (\<lambda>c. [ucast c, ucast (drop_bit 8 c)]) cs)"

definition store_bytes :: "nat \<Rightarrow> bytes \<Rightarrow> mem \<Rightarrow> mem" where
  "store_bytes a bs m = (\<lambda>x. if a \<le> x \<and> x < a + length bs then bs ! (x - a) else m x)"

text \<open>The file path node at \<open>node\<close> and the end node behind it; \<open>path\<close> with its terminator.\<close>

definition put_node :: "nat \<Rightarrow> u16 list \<Rightarrow> mem \<Rightarrow> mem" where
  "put_node node path m =
     (let len = 4 + length path * 2;
          m = m(node := MEDIA_DEVICE_PATH, node + 1 := MEDIA_FILEPATH_DP, node + 2 := of_nat len, node + 3 := of_nat (len div 256));
          m = store_bytes (node + 4) (utf16 path) m;
          node = node + len
      in m(node := END_DEVICE_PATH_TYPE, node + 1 := END_ENTIRE_DEVICE_PATH_SUBTYPE, node + 2 := 4, node + 3 := 0))"

definition TryFile :: "('s, 'z) launch_fw_scheme \<Rightarrow> u16 list \<Rightarrow> loaded_image \<Rightarrow> u16 list \<Rightarrow> mem \<times> 's \<Rightarrow> (efi_status \<times> mem \<times> 's) option" where
  "TryFile fw opts li path ms = (let (m, s) = ms in
     if DeviceHandle li = 0 \<or> path ! 0 = 0 then Some (EFI_NOT_FOUND, m, s)
     else (case DevicePath fw (DeviceHandle li) s of
       None \<Rightarrow> Some (EFI_NOT_FOUND, m, s)
     | Some dev \<Rightarrow>
         Option.bind (DevPathLen m (unat dev)) (\<lambda>devLen.
         Option.bind (StrLen16 path) (\<lambda>n.
           let nodeLen = 4 + (n + 1) * 2 in
           Option.bind (RtAllocZero fw (devLen + nodeLen + 4) (m, s)) (\<lambda>(dp, m, s).
             if dp = 0 then Some (EFI_OUT_OF_RESOURCES, m, s)
             else Option.bind (memcpy (unat dp) (unat dev) devLen m) (\<lambda>m.
               let m = put_node (unat dp + devLen) (take (n + 1) path) m;
                   ((st, img), s) = LoadPath fw (cells_at m (unat dp) (devLen + nodeLen + 4)) s;
                   (m, s) = RtFree fw dp (m, s)
               in if EFI_ERROR st then Some (st, m, s)
                  else Option.bind (ToAscii path (replicate 260 0) 260) (\<lambda>a.
                    map_option (\<lambda>(st, s). (st, m, s))
                      (StartImageWithOpts fw opts img (say fw (bytes_of ''Starting %s'' @ [10]) [AStr (text_of a)] s)))))))))"

subsection \<open>The search\<close>

text \<open>A wide string literal.\<close>

definition wide :: "string \<Rightarrow> u16 list" where
  "wide s = map ucast (bytes_of s)"

definition candidates :: "u16 list list" where
  "candidates =
     [wide ''Shell.efi'', wide ''shellx64.efi'',
      92 # wide ''Shell.efi'', 92 # wide ''shellx64.efi'',
      92 # wide ''EFI'' @ 92 # wide ''Shell.efi'', 92 # wide ''EFI'' @ 92 # wide ''shellx64.efi'',
      92 # wide ''EFI'' @ 92 # wide ''Boot'' @ 92 # wide ''Shell.efi'',
      92 # wide ''EFI'' @ 92 # wide ''Boot'' @ 92 # wide ''shellx64.efi'',
      92 # wide ''EFI'' @ 92 # wide ''Tools'' @ 92 # wide ''Shell.efi'']"

text \<open>The path of a candidate: \<open>Some None\<close> when it needs a directory and there is none.\<close>

definition full_path :: "u16 list \<Rightarrow> u16 list \<Rightarrow> u16 list \<Rightarrow> u16 list option option" where
  "full_path dir full cand =
     (if (cand @ [0]) ! 0 \<noteq> 92
      then (if dir ! 0 = 0 then Some None
            else map_option Some (Option.bind (StrCpy16 full dir 520) (\<lambda>full. StrCat16 full (cand @ [0]) 520)))
      else map_option Some (StrCpy16 full (cand @ [0]) 520))"

fun try_candidates :: "('s, 'z) launch_fw_scheme \<Rightarrow> u16 list \<Rightarrow> loaded_image \<Rightarrow> u16 list \<Rightarrow> u16 list \<Rightarrow> u16 list list \<Rightarrow> mem \<times> 's \<Rightarrow>
    (efi_status \<times> mem \<times> 's) option" where
  "try_candidates fw opts li dir full [] ms = Some (EFI_NOT_FOUND, ms)"
| "try_candidates fw opts li dir full (cand # cs) ms =
     Option.bind (full_path dir full cand) (\<lambda>p.
       case p of
         None \<Rightarrow> try_candidates fw opts li dir full cs ms
       | Some full \<Rightarrow>
           Option.bind (TryFile fw opts li full ms) (\<lambda>(st, ms).
             if st \<noteq> EFI_NOT_FOUND then Some (st, ms) else try_candidates fw opts li dir full cs ms))"

text \<open>After the \<^verbatim>\<open>-s\<close> path: the firmware volumes, then the candidates. \<open>dir\<close> and \<open>full\<close> are the local arrays.\<close>

definition launch_defaults :: "('s, 'z) launch_fw_scheme \<Rightarrow> server_cfg \<Rightarrow> u16 list \<Rightarrow> u16 list \<Rightarrow> loaded_image \<Rightarrow> mem \<times> 's \<Rightarrow>
    (efi_status \<times> mem \<times> 's) option" where
  "launch_defaults fw cfg dir full li ms =
     Option.bind (TryFv fw (ShellOpts cfg) (snd ms)) (\<lambda>(st, s).
       if st \<noteq> EFI_NOT_FOUND then Some (st, fst ms, s)
       else Option.bind (OwnDirectory (fst ms) li dir 260) (\<lambda>dir.
         try_candidates fw (ShellOpts cfg) li dir full candidates (fst ms, s)))"

definition LaunchShell :: "('s, 'z) launch_fw_scheme \<Rightarrow> server_cfg \<Rightarrow> u16 list \<Rightarrow> u16 list \<Rightarrow> mem \<times> 's \<Rightarrow>
    (efi_status \<times> mem \<times> 's) option" where
  "LaunchShell fw cfg dir full ms =
     (case OwnImage fw (snd ms) of
        None \<Rightarrow> Some (EFI_NOT_FOUND, ms)
      | Some li \<Rightarrow>
          if ShellPath cfg ! 0 \<noteq> 0
          then Option.bind (TryFile fw (ShellOpts cfg) li (ShellPath cfg) ms) (\<lambda>(st, m, s).
                 if st \<noteq> EFI_NOT_FOUND then Some (st, m, s)
                 else launch_defaults fw cfg dir full li
                        (m, say fw (bytes_of ''Shell not found at the -s path, trying the defaults'' @ [10]) [] s))
          else launch_defaults fw cfg dir full li ms)"

subsection \<open>Lemmas: nodes in memory\<close>

lemma or_push8: "unat (ucast (a :: byte) OR push_bit 8 (ucast (b :: byte)) :: u64) = unat a + 256 * unat b"
proof -
  have d: "(ucast a :: u64) AND push_bit 8 (ucast b) = 0"
    by (rule bit_word_eqI) (auto simp: bit_simps dest: bit_imp_le_length)
  have l: "unat a < 256" "unat b < 256" using unsigned_less [of a] unsigned_less [of b] by simp_all
  have u: "unat (ucast a :: u64) = unat a" "unat (ucast b :: u64) = unat b"
    using order.strict_trans [OF l(1), of "2 ^ 64"] order.strict_trans [OF l(2), of "2 ^ 64"]
    by (simp_all only: unsigned_ucast_eq take_bit_nat_eq_self_iff) simp_all
  have w: "unat b * 256 mod 18446744073709551616 = 256 * unat b" using l(2) by (subst mod_less) linarith+
  have p: "unat (push_bit 8 (ucast b :: u64)) = 256 * unat b"
    by (simp add: push_bit_eq_mult unat_word_ariths u w)
  have "(ucast a :: u64) OR push_bit 8 (ucast b) = ucast a + push_bit 8 (ucast b)"
    using d by (simp add: disjunctive_add_eq_or)
  moreover have "(unat a + 256 * unat b) mod 18446744073709551616 = unat a + 256 * unat b" using l by (subst mod_less) linarith+
  ultimately show ?thesis by (simp add: unat_word_ariths u p)
qed

lemma node_len_eq: "node_len m dp = unat (m (dp + 2)) + 256 * unat (m (dp + 3))"
  by (simp add: node_len_def or_push8)

lemma load16_eq: "load16 m a = of_nat (unat (m a) + 256 * unat (m (a + 1)))"
proof -
  have "load16 m a = ucast (ucast (m a) OR push_bit 8 (ucast (m (a + 1))) :: u64)"
    by (rule bit_word_eqI) (auto simp: load16_def bit_simps)
  then show ?thesis using or_push8 [of "m a" "m (a + 1)"] by (metis of_nat_unat)
qed

lemma node_cong:
  "m' b = m a \<Longrightarrow> m' (b + 1) = m (a + 1) \<Longrightarrow> m' (b + 2) = m (a + 2) \<Longrightarrow> m' (b + 3) = m (a + 3) \<Longrightarrow>
   node_len m' b = node_len m a \<and> is_end m' b = is_end m a"
  by (simp add: node_len_def is_end_def)

text \<open>The walk along a path sees nothing but its cells, then goes on behind them.\<close>

lemma dev_path_len_moved:
  assumes "dev_path_len m dp n = Some r"
  shows "n \<le> r \<and> (\<forall>m' b. (\<forall>i<r - n. m' (b + i) = m (dp + i)) \<longrightarrow> dev_path_len m' b n = dev_path_len m' (b + (r - n)) r)"
proof (rule dev_path_len.raw_induct [where P = "\<lambda>m dp n r. n \<le> r \<and> (\<forall>m' b. (\<forall>i<r - n. m' (b + i) = m (dp + i)) \<longrightarrow>
      dev_path_len m' b n = dev_path_len m' (b + (r - n)) r)", OF _ assms])
  fix walk m dp n r
  assume IH: "\<And>m dp n r. walk m dp n = Some r \<Longrightarrow> n \<le> r \<and> (\<forall>m' b. (\<forall>i<r - n. m' (b + i) = m (dp + i)) \<longrightarrow>
      dev_path_len m' b n = dev_path_len m' (b + (r - n)) r)"
    and eq: "(if node_len m dp < 4 then Some n else if is_end m dp then Some n else walk m (dp + node_len m dp) (n + node_len m dp)) = Some r"
  show "n \<le> r \<and> (\<forall>m' b. (\<forall>i<r - n. m' (b + i) = m (dp + i)) \<longrightarrow> dev_path_len m' b n = dev_path_len m' (b + (r - n)) r)"
  proof (cases "node_len m dp < 4 \<or> is_end m dp")
    case True
    then have "r = n" using eq by (auto split: if_splits)
    then show ?thesis by simp
  next
    case False
    let ?l = "node_len m dp"
    have w: "walk m (dp + ?l) (n + ?l) = Some r" using eq False by simp
    from IH [OF w] have le: "n + ?l \<le> r" and
      mv: "\<And>m' b. (\<forall>i<r - (n + ?l). m' (b + i) = m (dp + ?l + i)) \<Longrightarrow> dev_path_len m' b (n + ?l) = dev_path_len m' (b + (r - (n + ?l))) r"
      by auto
    have "dev_path_len m' b n = dev_path_len m' (b + (r - n)) r" if c: "\<forall>i<r - n. m' (b + i) = m (dp + i)" for m' b
    proof -
      have l4: "4 \<le> ?l" "?l \<le> r - n" using False le by auto
      have h: "node_len m' b = ?l \<and> is_end m' b = is_end m dp"
        by (rule node_cong) (use c [rule_format, of 0] c [rule_format, of 1] c [rule_format, of 2] c [rule_format, of 3] l4 in auto)
      have "\<forall>i<r - (n + ?l). m' (b + ?l + i) = m (dp + ?l + i)"
      proof (intro allI impI)
        fix i assume "i < r - (n + ?l)"
        then show "m' (b + ?l + i) = m (dp + ?l + i)" using c [rule_format, of "?l + i"] by (simp add: add.assoc)
      qed
      from mv [OF this] have "dev_path_len m' (b + ?l) (n + ?l) = dev_path_len m' (b + (r - n)) r"
        using le by (simp add: add.assoc)
      moreover have "dev_path_len m' b n = dev_path_len m' (b + ?l) (n + ?l)"
        using h False by (subst dev_path_len.simps) simp
      ultimately show ?thesis by simp
    qed
    then show ?thesis using le by simp
  qed
qed

text \<open>The file path node for a path, its terminator included, and the end node.\<close>

definition file_path_node :: "u16 list \<Rightarrow> bytes" where
  "file_path_node path = (let len = 4 + length path * 2 in
     [MEDIA_DEVICE_PATH, MEDIA_FILEPATH_DP, of_nat len, of_nat (len div 256)] @ utf16 path @
     [END_DEVICE_PATH_TYPE, END_ENTIRE_DEVICE_PATH_SUBTYPE, 4, 0])"

lemma length_utf16 [simp]: "length (utf16 cs) = 2 * length cs"
  by (induction cs) (simp_all add: utf16_def)

lemma length_file_path_node: "length (file_path_node path) = 8 + 2 * length path"
  by (simp add: file_path_node_def Let_def)

lemma file_path_node_nth:
  "i < 2 * length path \<Longrightarrow> file_path_node path ! (4 + i) = utf16 path ! i"
  "file_path_node path ! (4 + 2 * length path + j) = [END_DEVICE_PATH_TYPE, END_ENTIRE_DEVICE_PATH_SUBTYPE, 4, 0] ! j"
proof -
  let ?h = "[MEDIA_DEVICE_PATH, MEDIA_FILEPATH_DP, of_nat (4 + length path * 2), of_nat ((4 + length path * 2) div 256)]"
  let ?e = "[END_DEVICE_PATH_TYPE, END_ENTIRE_DEVICE_PATH_SUBTYPE, 4, 0]"
  have f: "file_path_node path = ?h @ utf16 path @ ?e" "length ?h = 4" by (simp_all add: file_path_node_def Let_def)
  show "file_path_node path ! (4 + i) = utf16 path ! i" if "i < 2 * length path"
    using nth_append_length_plus [of ?h "utf16 path @ ?e" i] that unfolding f by (simp only: f(2) nth_append length_utf16 if_True)
  show "file_path_node path ! (4 + 2 * length path + j) = ?e ! j"
    using nth_append_length_plus [of "?h @ utf16 path" ?e j] unfolding f(1) by (simp only: length_append f(2) length_utf16 append_assoc)
qed

lemma put_node_lemma:
  "cells_at (put_node a path m) a (8 + 2 * length path) = file_path_node path"
  "x < a \<or> a + (8 + 2 * length path) \<le> x \<Longrightarrow> put_node a path m x = m x"
proof -
  show "cells_at (put_node a path m) a (8 + 2 * length path) = file_path_node path"
  proof (rule nth_equalityI)
    fix i assume "i < length (cells_at (put_node a path m) a (8 + 2 * length path))"
    then have i: "i < 8 + 2 * length path" by simp
    consider "i = 0" | "i = 1" | "i = 2" | "i = 3" | "4 \<le> i" "i < 4 + 2 * length path" | j where "i = 4 + 2 * length path + j" "j < 4"
    proof -
      have "i < 4 \<or> 4 \<le> i \<and> i < 4 + 2 * length path \<or> (\<exists>j<4. i = 4 + 2 * length path + j)"
        using i le_Suc_ex [of "4 + 2 * length path" i] by force
      then show ?thesis using that by (auto simp: numeral_eq_Suc less_Suc_eq)
    qed
    then show "cells_at (put_node a path m) a (8 + 2 * length path) ! i = file_path_node path ! i"
    proof cases
      case 5
      then have "file_path_node path ! i = utf16 path ! (i - 4)" using file_path_node_nth(1) [of "i - 4" path] by simp
      moreover have "put_node a path m (a + i) = utf16 path ! (i - 4)"
        using 5 by (simp add: put_node_def Let_def store_bytes_def)
      ultimately show ?thesis using i by simp
    next
      case 6
      have "put_node a path m (a + i) = [END_DEVICE_PATH_TYPE, END_ENTIRE_DEVICE_PATH_SUBTYPE, 4, 0] ! j"
      proof -
        have "j = 0 \<or> j = 1 \<or> j = 2 \<or> j = 3" using 6(2) by arith
        then show ?thesis by (elim disjE) (simp_all add: put_node_def Let_def 6(1))
      qed
      then show ?thesis using i file_path_node_nth(2) [of path j] 6(1) by simp
    qed (use i in \<open>simp_all add: put_node_def Let_def store_bytes_def file_path_node_def\<close>)
  qed (simp add: length_file_path_node)
  show "put_node a path m x = m x" if "x < a \<or> a + (8 + 2 * length path) \<le> x"
    using that by (auto simp: put_node_def Let_def store_bytes_def)
qed

lemma byte_of_nat: "unat (of_nat n :: byte) = n mod 256"
  by (simp add: unat_of_nat take_bit_eq_mod)

text \<open>A device path with such a node behind it is well formed again.\<close>

lemma appended_path:
  assumes "DevPathLen m dev = Some k" and "4 + length path * 2 < 65536"
  defines "bs \<equiv> cells_at m dev k @ file_path_node path"
  shows "DevPathLen (mem_of bs) 0 = Some (k + (4 + length path * 2))" and "is_end (mem_of bs) (k + (4 + length path * 2))"
proof -
  let ?M = "mem_of bs" and ?l = "4 + length path * 2"
  have b: "?M i = m (dev + i)" if "i < k" for i using that by (simp add: mem_of_def bs_def nth_append)
  have f: "?M (k + i) = file_path_node path ! i" if "i < 8 + 2 * length path" for i
    using that by (simp add: mem_of_def bs_def nth_append length_file_path_node)
  have mod: "unat (of_nat (?l) :: byte) = ?l mod 256" "unat (of_nat (?l div 256) :: byte) = ?l div 256"
    using assms(2) byte_of_nat [of "?l"] byte_of_nat [of "?l div 256"] by simp_all
  have lo: "?M k = 4" "?M (k + 1) = 4" "?M (k + 2) = of_nat ?l" "?M (k + 3) = of_nat (?l div 256)"
    using f [of 0] f [of 1] f [of 2] f [of 3] by (simp_all add: file_path_node_def Let_def dp_defs)
  then have n: "node_len ?M k = ?l" unfolding node_len_eq using mod by simp
  have e: "\<not> is_end ?M k" using lo by (simp add: is_end_def dp_defs)
  have t: "file_path_node path ! (?l + j) = [0x7F, 0xFF, 4, 0] ! j" for j
    using file_path_node_nth(2) [of path j] by (simp add: dp_defs mult.commute)
  have en: "?M (k + (?l + j)) = [0x7F, 0xFF, 4, 0] ! j" if "j < 4" for j using f [of "?l + j"] t [of j] that by simp
  show end1: "is_end ?M (k + ?l)" using en [of 0] en [of 1] by (simp add: is_end_def dp_defs ac_simps)
  have "dev_path_len ?M 0 0 = dev_path_len ?M k k"
    using dev_path_len_moved [OF assms(1) [unfolded DevPathLen_def]] b by (metis add_0 diff_zero)
  also have "\<dots> = dev_path_len ?M (k + ?l) (k + ?l)" using n e by (subst dev_path_len.simps) simp
  also have "\<dots> = Some (k + ?l)" using end1 by (subst dev_path_len.simps) simp
  finally show "DevPathLen ?M 0 = Some (k + ?l)" by (simp add: DevPathLen_def)
qed

subsection \<open>Lemmas: a file\<close>

lemma text_of_Nil_iff: "0 \<in> set s \<Longrightarrow> text_of s = [] \<longleftrightarrow> s ! 0 = 0"
  by (cases s) auto

lemma take_text: "0 \<in> set s \<Longrightarrow> take (length (text_of s) + 1) s = text_of s @ [0]"
  using text_of_split [of s] by (metis append_eq_conv_conj length_append_singleton Suc_eq_plus1 append_Cons append_Nil append_assoc)

text \<open>The zeroed block, and that freeing it gives the pool pointer back.\<close>

lemma RtAllocZero_lemma:
  assumes "AllocatePool fw (n + 32) s = (Some raw, s')" and "pool_room raw (n + 32)" and "0 < n" and "n \<le> RT_INSANE_LEN"
  shows "\<exists>p m'. RtAllocZero fw n (m, s) = Some (p, m', s') \<and> p \<noteq> 0 \<and> unat raw + 16 \<le> unat p \<and> unat p + n \<le> unat raw + (n + 32) \<and>
    same_outside (unat raw) (unat raw + (n + 32)) m m' \<and> load64 m' (unat p - 8) = raw"
proof -
  let ?p = "align_raw raw"
  have r: "raw \<noteq> 0" "unat raw + (n + 32) < 2 ^ 64" using assms(2) by (simp_all add: pool_room_def)
  have "unat raw + 32 \<le> 2 ^ 64" using r(2) by simp
  note a = align_raw_bounds(2,3) [OF this]
  have p0: "?p \<noteq> 0" using a(1) by (metis add_is_0 le_zero_eq unat_0 zero_neq_numeral)
  let ?m = "store64 (unat ?p - 8) raw m"
  let ?z = "\<lambda>x. if unat ?p \<le> x \<and> x < unat ?p + n then 0 else ?m x"
  have "RtAllocZero fw n (m, s) = Some (?p, ?z, s')"
    using assms(1,3) r(1) p0 memset_lemma [OF assms(4), of "unat ?p" 0 ?m] by (simp add: RtAllocZero_def RtAlloc_mem_def Let_def)
  moreover have "same_outside (unat raw) (unat raw + (n + 32)) m ?z" using a by (auto simp: same_outside_def store64_def)
  moreover have "load64 ?z (unat ?p - 8) = load64 ?m (unat ?p - 8)"
    using a(1) by (intro load64_cong) auto
  ultimately show ?thesis using p0 a by auto
qed

definition msg_starting :: "('s, 'z) launch_fw_scheme \<Rightarrow> u16 list \<Rightarrow> 's \<Rightarrow> 's" where
  "msg_starting fw path s = say fw (bytes_of ''Starting %s'' @ [10]) [AStr (map ascii (take 259 path))] s"

text \<open>What \<^verbatim>\<open>TryFile\<close> does with a device path of \<open>k\<close> bytes outside the block the pool grants.\<close>

lemma TryFile_lemma:
  assumes path: "0 \<in> set path" "text_of path = t" "t \<noteq> []" and dev: "DeviceHandle li \<noteq> 0" "DevicePath fw (DeviceHandle li) s = Some dev"
    and k: "DevPathLen m (unat dev) = Some k" and n: "n = k + (8 + 2 * (length t + 1))" "n \<le> RT_INSANE_LEN"
    and pool: "AllocatePool fw (n + 32) s = (Some raw, s1)" "pool_room raw (n + 32)"
    and apart: "unat dev + k \<le> unat raw \<or> unat raw + (n + 32) \<le> unat dev"
    and load: "LoadPath fw (cells_at m (unat dev) k @ file_path_node (t @ [0])) s1 = ((st, img), s2)"
  shows "\<exists>m'. same_outside (unat raw) (unat raw + (n + 32)) m m' \<and>
    TryFile fw opts li path (m, s) =
      (if EFI_ERROR st then Some (st, m', FreePool fw raw s2)
       else map_option (\<lambda>(st, s). (st, m', s)) (StartImageWithOpts fw opts img (msg_starting fw t (FreePool fw raw s2))))"
proof -
  have p0: "path ! 0 \<noteq> 0" using text_of_Nil_iff [OF path(1)] path(2,3) by simp
  have len: "StrLen16 path = Some (length t)" using StrLen16_lemma [OF path(1)] path(2) by simp
  have tk: "take (length t + 1) path = t @ [0]" using take_text [OF path(1)] path(2) by simp
  obtain p m1 where a: "RtAllocZero fw n (m, s) = Some (p, m1, s1)" "p \<noteq> 0" "unat raw + 16 \<le> unat p" "unat p + n \<le> unat raw + (n + 32)"
    "same_outside (unat raw) (unat raw + (n + 32)) m m1" "load64 m1 (unat p - 8) = raw"
    using RtAllocZero_lemma [OF pool _ n(2), of m] n(1) by auto
  have kn: "k \<le> n" "k \<le> RT_INSANE_LEN" using n by simp_all
  let ?m2 = "moved (unat p) (unat dev) k m1"
  have cp: "memcpy (unat p) (unat dev) k m1 = Some ?m2"
    using apart a(3,4) kn n(1) by (intro memcpy_lemma) auto
  let ?m3 = "put_node (unat p + k) (t @ [0]) ?m2"
  note pn = put_node_lemma [where a = "unat p + k" and path = "t @ [0]" and m = ?m2]
  have in_block: "?m3 x = m1 x" if "x < unat p \<or> unat p + n \<le> x" for x
    using that pn(2) [of x] n(1) by (auto simp: moved_def)
  have c: "cells_at ?m3 (unat p) n = cells_at m (unat dev) k @ file_path_node (t @ [0])"
  proof -
    have "cells_at ?m3 (unat p) k = cells_at ?m2 (unat p) k" using pn(2) by (intro cells_at_cong) simp
    also have "\<dots> = cells_at m (unat dev) k"
      unfolding cells_at_moved using a(5) apart kn(1) by (intro cells_at_cong) (auto simp: same_outside_def)
    finally show ?thesis using pn(1) n(1) unfolding n(1) cells_at_add by simp
  qed
  have fr: "RtFree fw p (?m3, s2) = (?m3, FreePool fw raw s2)"
  proof -
    have "load64 ?m3 (unat p - 8) = load64 m1 (unat p - 8)" using a(3) by (intro load64_cong in_block) arith
    then show ?thesis using a(2,6) by (simp add: RtFree_def)
  qed
  have "same_outside (unat raw) (unat raw + (n + 32)) m ?m3"
    using a(3-5) in_block by (auto simp: same_outside_def)
  moreover obtain d where "ToAscii path (replicate 260 0) 260 = Some d" "text_of d = map ascii (take 259 t)"
    using ToAscii_lemma [OF path(1), of 260 "replicate 260 0"] path(2) by (auto simp: holds_def)
  moreover have "k + (4 + (length t + 1) * 2) + 4 = n" using n(1) by simp
  ultimately show ?thesis using p0 dev k len tk a(1,2) cp c fr load
    by (intro exI [of _ ?m3]) (simp add: TryFile_def Let_def msg_starting_def)
qed

text \<open>\<^verbatim>\<open>TryFile\<close> sees of its path only the string.\<close>

lemma TryFile_string:
  assumes "0 \<in> set path"
  shows "TryFile fw opts li path ms = TryFile fw opts li (text_of path @ [0]) ms"
proof -
  let ?q = "text_of path @ [0]"
  have t: "text_of ?q = text_of path" by simp
  have z: "path ! 0 = 0 \<longleftrightarrow> ?q ! 0 = 0" using text_of_Nil_iff [OF assms] text_of_Nil_iff [of ?q] t by simp
  have l: "StrLen16 path = Some (length (text_of path))" "StrLen16 ?q = Some (length (text_of path))"
    using StrLen16_lemma [OF assms] StrLen16_lemma [of ?q] t by simp_all
  have k: "take (length (text_of path) + 1) path = ?q" "take (length (text_of path) + 1) ?q = ?q"
    using take_text [OF assms] by simp_all
  have a: "ToAscii path d 260 = ToAscii ?q d 260" for d
    using copy_chars_lemma [of path 260] copy_chars_lemma [of ?q 260] assms t by (simp add: ToAscii_def)
  show ?thesis unfolding TryFile_def z l Option.bind.simps Let_def k a ..
qed

subsection \<open>Lemmas: the directory\<close>

text \<open>A path up to and with its last backslash.\<close>

definition dir_of :: "u16 list \<Rightarrow> u16 list" where
  "dir_of p = rev (dropWhile (\<lambda>c. c \<noteq> 92) (rev p))"

lemma dir_of_none: "92 \<notin> set p \<Longrightarrow> dir_of p = []"
  by (auto simp: dir_of_def)

lemma dir_of_Cons: "dir_of (c # p) = (if 92 \<in> set p then c # dir_of p else if c = 92 then [c] else [])"
proof (cases "92 \<in> set p")
  case True
  then show ?thesis by (simp add: dir_of_def dropWhile_append1)
next
  case False
  then have "dropWhile (\<lambda>c. c \<noteq> 92) (rev p) = []" by auto
  then show ?thesis using False by (simp add: dir_of_def dropWhile_append)
qed

lemma dir_of_take: "dir_of p = take (length (dir_of p)) p"
  by (induction p) (simp_all add: dir_of_Cons dir_of_none)

text \<open>The string of a file path node with room for \<open>chars\<close> characters.\<close>

definition node_string :: "mem \<Rightarrow> nat \<Rightarrow> nat \<Rightarrow> u16 list" where
  "node_string m path chars = takeWhile (\<lambda>c. c \<noteq> 0) (map (\<lambda>i. load16 m (path + 2 * i)) [0..<chars])"

lemma takeWhile_upt:
  assumes "i \<le> n"
  shows "takeWhile P (map f [i..<n]) = (if i < n \<and> P (f i) then f i # takeWhile P (map f [Suc i..<n]) else [])"
  using assms by (cases "i < n") (simp_all add: upt_rec)

lemma cut_loop_lemma:
  assumes "i \<le> chars"
  shows "cut_loop m path chars i c = (let q = takeWhile (\<lambda>c. c \<noteq> 0) (map (\<lambda>i. load16 m (path + 2 * i)) [i..<chars])
    in if 92 \<in> set q then i + length (dir_of q) else c)"
  using assms unfolding Let_def
proof (induction "chars - i" arbitrary: i c)
  case 0
  then show ?case by (subst cut_loop.simps) simp
next
  case (Suc k)
  then have i: "i < chars" "k = chars - Suc i" "Suc i \<le> chars" by simp_all
  let ?x = "load16 m (path + 2 * i)"
  let ?r = "takeWhile (\<lambda>c. c \<noteq> 0) (map (\<lambda>i. load16 m (path + 2 * i)) [Suc i..<chars])"
  note t = takeWhile_upt [OF less_imp_le [OF i(1)], of "\<lambda>c. c \<noteq> 0" "\<lambda>i. load16 m (path + 2 * i)"]
  show ?case
  proof (cases "?x = 0")
    case True
    then show ?thesis unfolding t by (subst cut_loop.simps) simp
  next
    case False
    have "cut_loop m path chars i c = cut_loop m path chars (Suc i) (if ?x = 92 then Suc i else c)"
      using False i(1) by (subst cut_loop.simps) simp
    with Suc.hyps(1) [OF i(2,3)] False i(1) show ?thesis unfolding t by (auto simp: dir_of_Cons dir_of_none)
  qed
qed

lemma cut_loop_dir: "cut_loop m path chars 0 0 = length (dir_of (node_string m path chars))"
  using cut_loop_lemma [of 0 chars m path 0] dir_of_none [of "node_string m path chars"] by (auto simp: node_string_def Let_def)

lemma map_load_dir:
  "map (\<lambda>i. load16 m (path + 2 * i)) [0..<length (dir_of (node_string m path chars))] = dir_of (node_string m path chars)"
proof -
  let ?q = "node_string m path chars" and ?a = "map (\<lambda>i. load16 m (path + 2 * i)) [0..<chars]"
  have l: "length (dir_of ?q) \<le> length ?q" by (subst dir_of_take) simp
  have q: "?q = take (length ?q) ?a" unfolding node_string_def by (rule takeWhile_eq_take)
  have lq: "length ?q \<le> chars" using length_takeWhile_le [of _ ?a] by (simp add: node_string_def)
  have "dir_of ?q = take (length (dir_of ?q)) (take (length ?q) ?a)" using dir_of_take [of ?q] q by simp
  also have "\<dots> = take (length (dir_of ?q)) ?a" using l by (simp add: min_def)
  also have "\<dots> = map (\<lambda>i. load16 m (path + 2 * i)) [0..<length (dir_of ?q)]" using l lq by (simp add: take_map)
  finally show ?thesis by simp
qed

lemma node_string_no_nul: "0 \<notin> set (node_string m path chars)"
  by (auto simp: node_string_def dest: set_takeWhileD)

lemma dir_of_subset: "set (dir_of p) \<subseteq> set p"
  by (subst dir_of_take) (rule set_take_subset)

text \<open>The directory of an image whose path is one file path node.\<close>

lemma OwnDirectory_lemma:
  assumes "FilePath li \<noteq> 0" and "unat (FilePath li) = a" and "m a = MEDIA_DEVICE_PATH" and "m (a + 1) = MEDIA_FILEPATH_DP"
    and "4 \<le> node_len m a" and "is_end m (a + node_len m a)" and "length out = 260"
    and "q = node_string m (a + 4) ((node_len m a - 4) div 2)"
  shows "\<exists>d. OwnDirectory m li out 260 = Some d \<and> holds 260 d (if length (dir_of q) + 1 < 260 then dir_of q else [])"
proof -
  obtain o0 where o0: "put_str out [] = Some o0" "holds 260 o0 []" using put_str_holds [of "[]" out] assms(7) by auto
  have lo: "length o0 = 260" using o0(2) by (simp add: holds_def)
  let ?n = "node_len m a"
  have ne: "\<not> is_end m a" using assms(3) by (simp add: is_end_def dp_defs)
  have e: "own_loop m (a + ?n) 260 o1 = Some o1" for o1 using assms(6) by (subst own_loop.simps) simp
  have "own_loop m a 260 o0 = own_node m a 260 o0"
    using ne assms(5) by (subst own_loop.simps) (simp add: e cong: Option.bind_cong)
  moreover have "own_node m a 260 o0 = (if length (dir_of q) + 1 < 260 then put_str o0 (dir_of q) else Some o0)"
    using assms(3,4) map_load_dir [of m "a + 4" "(?n - 4) div 2"] by (simp add: own_node_def Let_def cut_loop_dir assms(8))
  moreover have "0 \<notin> set (dir_of q)" using dir_of_subset [of q] node_string_no_nul assms(8) by blast
  ultimately show ?thesis using put_str_holds [of "dir_of q" o0] lo o0 assms(1,2) by (auto simp: OwnDirectory_def)
qed

subsection \<open>Lemmas: the search\<close>

text \<open>Trying attempts in turn: the first status other than \<open>EFI_NOT_FOUND\<close> decides.\<close>

fun search :: "('a \<Rightarrow> (efi_status \<times> 'a) option) list \<Rightarrow> 'a \<Rightarrow> (efi_status \<times> 'a) option" where
  "search [] s = Some (EFI_NOT_FOUND, s)"
| "search (f # fs) s = Option.bind (f s) (\<lambda>(st, s). if st \<noteq> EFI_NOT_FOUND then Some (st, s) else search fs s)"

definition search_paths :: "u16 list \<Rightarrow> u16 list list" where
  "search_paths d = (if d = [] then [] else [d @ wide ''Shell.efi'', d @ wide ''shellx64.efi'']) @ drop 2 candidates"

lemma wide_no_nul: "list_all (\<lambda>c. c \<noteq> 0) (concat candidates)" "list_all (\<lambda>c. length c \<le> 22) candidates"
  unfolding candidates_def wide_def by code_simp+

lemma candidate_ok: "c \<in> set candidates \<Longrightarrow> 0 \<notin> set c \<and> length c \<le> 22"
  using wide_no_nul by (auto simp: list_all_iff)

lemma candidates_ok: "list_all (\<lambda>c. 0 \<notin> set c \<and> length c \<le> 22) candidates"
  using candidate_ok by (auto simp: list_all_iff)

lemma candidate_heads: "map (\<lambda>c. (c @ [0]) ! 0 = 92) candidates = [False, False, True, True, True, True, True, True, True]"
  unfolding candidates_def wide_def by code_simp

lemma StrCat16_lemma:
  assumes "holds 520 d s" and "0 \<notin> set t" and "length s + length t < 520"
  shows "\<exists>d'. StrCat16 d (t @ [0]) 520 = Some d' \<and> holds 520 d' (s @ t)"
proof -
  have d: "length d = 520" "0 \<in> set d" "text_of d = s" using assms(1) by (simp_all add: holds_def)
  let ?n = "length s"
  have n: "StrLen16 d = Some ?n" using StrLen16_lemma [OF d(2)] d(3) by simp
  have c: "unat (520 - of_nat ?n :: u64) = 520 - ?n"
    using assms(3) by (simp add: unat_sub_if' word_le_nat_alt unat_of_nat take_bit_nat_eq_self_iff)
  obtain d' where d': "StrCpy16 (drop ?n d) (t @ [0]) (520 - ?n) = Some d'" "holds (520 - ?n) d' t"
    using StrCpy16_lemma [of "t @ [0]" "520 - ?n" "drop ?n d"] d(1) assms(2,3) by auto
  have s: "take ?n d = s" using text_of_split [OF d(2)] d(3) by (metis append_eq_conv_conj)
  have s0: "0 \<notin> set s" using d(3) text_of_no_nul by blast
  have "text_of (s @ x) = s @ text_of x" for x using s0 by (induction s) auto
  then have "holds 520 (s @ d') (s @ t)" using d'(2) assms(3) by (simp add: holds_def)
  moreover have "StrCat16 d (t @ [0]) 520 = Some (s @ d')" using n c d'(1) s by (simp add: StrCat16_def)
  ultimately show ?thesis by blast
qed

lemma full_path_lemma:
  assumes "holds 260 dir d" and "length full = 520" and "0 \<notin> set cand" and "length cand \<le> 22"
  shows "if (cand @ [0]) ! 0 \<noteq> 92 \<and> d = [] then full_path dir full cand = Some None
    else \<exists>f. full_path dir full cand = Some (Some f) \<and> holds 520 f (if (cand @ [0]) ! 0 = 92 then cand else d @ cand)"
proof -
  have dir: "length dir = 260" "0 \<in> set dir" "text_of dir = d" using assms(1) by (simp_all add: holds_def)
  have l: "length d < 260" using length_text_of [OF dir(2)] dir by simp
  have d0: "dir ! 0 = 0 \<longleftrightarrow> d = []" using text_of_Nil_iff [OF dir(2)] dir(3) by simp
  obtain f1 where f1: "StrCpy16 full dir 520 = Some f1" "holds 520 f1 d"
    using StrCpy16_lemma [of dir 520 full] dir assms(2) l by auto
  obtain f2 where f2: "StrCat16 f1 (cand @ [0]) 520 = Some f2" "holds 520 f2 (d @ cand)"
    using StrCat16_lemma [OF f1(2) assms(3)] l assms(4) by auto
  obtain f3 where f3: "StrCpy16 full (cand @ [0]) 520 = Some f3" "holds 520 f3 cand"
    using StrCpy16_lemma [of "cand @ [0]" 520 full] assms(2-4) by auto
  show ?thesis using d0 f1(1) f2 f3 by (auto simp: full_path_def)
qed

text \<open>The candidates a directory yields, in order.\<close>

definition paths_of :: "u16 list \<Rightarrow> u16 list list \<Rightarrow> u16 list list" where
  "paths_of d cs = concat (map (\<lambda>c. if (c @ [0]) ! 0 = 92 then [c] else if d = [] then [] else [d @ c]) cs)"

lemma paths_of_candidates: "paths_of d candidates = search_paths d"
proof -
  have "\<exists>a b x. candidates = a # b # x \<and> a = wide ''Shell.efi'' \<and> b = wide ''shellx64.efi''" by (simp add: candidates_def)
  then obtain x where c: "candidates = wide ''Shell.efi'' # wide ''shellx64.efi'' # x" by blast
  have h: "(wide ''Shell.efi'' @ [0]) ! 0 \<noteq> 92" "(wide ''shellx64.efi'' @ [0]) ! 0 \<noteq> 92" "list_all (\<lambda>c. (c @ [0]) ! 0 = 92) x"
    using candidate_heads unfolding c by (auto simp: list_all_iff map_eq_Cons_conv)
  have "paths_of d x = x" using h(3) by (induction x) (simp_all add: paths_of_def)
  then show ?thesis using h(1,2) by (simp add: paths_of_def search_paths_def c)
qed

lemma try_candidates_lemma:
  assumes "holds 260 dir d" and "list_all (\<lambda>c. 0 \<notin> set c \<and> length c \<le> 22) cs" and "length full = 520"
  shows "try_candidates fw opts li dir full cs ms = search (map (\<lambda>p. TryFile fw opts li (p @ [0])) (paths_of d cs)) ms"
  using assms(2,3)
proof (induction cs arbitrary: full ms)
  case (Cons c cs)
  note fp = full_path_lemma [OF assms(1) Cons.prems(2), of c]
  have c: "0 \<notin> set c" "length c \<le> 22" "list_all (\<lambda>c. 0 \<notin> set c \<and> length c \<le> 22) cs" using Cons.prems(1) by simp_all
  show ?case
  proof (cases "(c @ [0]) ! 0 \<noteq> 92 \<and> d = []")
    case True
    then show ?thesis using fp c Cons.IH [OF c(3) Cons.prems(2)] by (simp add: paths_of_def)
  next
    case False
    let ?p = "if (c @ [0]) ! 0 = 92 then c else d @ c"
    obtain f where f: "full_path dir full c = Some (Some f)" "holds 520 f ?p" using fp c False by auto
    have f': "0 \<in> set f" "text_of f = ?p" using f(2) unfolding holds_def by blast+
    have t: "TryFile fw opts li f x = TryFile fw opts li (?p @ [0]) x" for x
      using TryFile_string [OF f'(1)] unfolding f'(2) .
    have l: "length f = 520" using f(2) by (simp add: holds_def)
    have "paths_of d (c # cs) = ?p # paths_of d cs" using False by (auto simp: paths_of_def)
    then show ?thesis using f(1) t Cons.IH [OF c(3) l] by (simp cong: if_cong)
  qed
qed (simp add: paths_of_def)

subsection \<open>Properties\<close>

text \<open>C31: The path \<^verbatim>\<open>TryFile\<close> loads: the device's path followed by one file path node with the file's name and
  an end node, itself a well-formed device path; nothing outside the pool block is written, the
  block is freed before the image starts, and a load error is the result.\<close>
theorem TryFile_device_path:
  assumes "0 \<in> set path" and "text_of path = t" and "t \<noteq> []" and "length t < 32000"
    and "DeviceHandle li \<noteq> 0" and "DevicePath fw (DeviceHandle li) s = Some dev"
    and "DevPathLen m (unat dev) = Some k" and "n = k + (8 + 2 * (length t + 1))" and "n \<le> RT_INSANE_LEN"
    and "AllocatePool fw (n + 32) s = (Some raw, s1)" and "pool_room raw (n + 32)"
    and "unat dev + k \<le> unat raw \<or> unat raw + (n + 32) \<le> unat dev"
    and "bs = cells_at m (unat dev) k @ file_path_node (t @ [0])" and "LoadPath fw bs s1 = ((st, img), s2)"
  shows "DevPathLen (mem_of bs) 0 = Some (n - 4) \<and> is_end (mem_of bs) (n - 4) \<and>
    (\<exists>m'. same_outside (unat raw) (unat raw + (n + 32)) m m' \<and>
      TryFile fw opts li path (m, s) =
        (if EFI_ERROR st then Some (st, m', FreePool fw raw s2)
         else map_option (\<lambda>(st, s). (st, m', s)) (StartImageWithOpts fw opts img (msg_starting fw t (FreePool fw raw s2)))))"
proof -
  have "n - 4 = k + (4 + length (t @ [0]) * 2)" using assms(8) by simp
  moreover have "4 + length (t @ [0]) * 2 < 65536" using assms(4) by simp
  ultimately have "DevPathLen (mem_of bs) 0 = Some (n - 4) \<and> is_end (mem_of bs) (n - 4)"
    using appended_path [OF assms(7), of "t @ [0]"] unfolding assms(13) by simp
  then show ?thesis using TryFile_lemma [OF assms(1-3,5-12)] assms(13,14) by blast
qed

text \<open>The image's own directory: for a path of one file path node it is the path up to and with the last
  backslash, in any case inside its 260 cells; one too long, or without a backslash, gives none.\<close>
theorem OwnDirectory_dir:
  assumes "FilePath li \<noteq> 0" and "unat (FilePath li) = a" and "m a = MEDIA_DEVICE_PATH" and "m (a + 1) = MEDIA_FILEPATH_DP"
    and "4 \<le> node_len m a" and "is_end m (a + node_len m a)" and "length out = 260"
  shows "\<exists>d. OwnDirectory m li out 260 = Some d \<and> length d = 260 \<and>
    (let p = dir_of (node_string m (a + 4) ((node_len m a - 4) div 2)) in text_of d = (if length p < 259 then p else []))"
  using OwnDirectory_lemma [OF assms refl] by (auto simp: holds_def Let_def)

text \<open>C30: The search for a Shell: without \<^verbatim>\<open>-s\<close> the firmware volumes come first, then, in this order, \<^verbatim>\<open>Shell.efi\<close>
  and \<^verbatim>\<open>shellx64.efi\<close> next to the image, and the fixed places; the first status other than
  \<^verbatim>\<open>EFI_NOT_FOUND\<close> ends it, and every path fits its buffer.\<close>
theorem LaunchShell_search:
  assumes "OwnImage fw s = Some li" and "cfg_ok cfg" and "text_of (ShellPath cfg) = []"
    and "TryFv fw (ShellOpts cfg) s = Some (st, s1)" and "OwnDirectory m li dir 260 = Some d" and "holds 260 d p" and "length full = 520"
  shows "LaunchShell fw cfg dir full (m, s) =
    (if st \<noteq> EFI_NOT_FOUND then Some (st, m, s1)
     else search (map (\<lambda>p. TryFile fw (ShellOpts cfg) li (p @ [0])) (search_paths p)) (m, s1))"
proof -
  have "ShellPath cfg ! 0 = 0" using text_of_Nil_iff [of "ShellPath cfg"] assms(2,3) by (simp add: cfg_ok_def)
  then show ?thesis
    using assms(1,4,5) by (simp add: LaunchShell_def launch_defaults_def paths_of_candidates try_candidates_lemma [OF assms(6) candidates_ok assms(7)])
qed

text \<open>A Shell taken for missing: when the firmware volume's Shell runs and itself exits with \<^verbatim>\<open>EFI_NOT_FOUND\<close>,
  the search goes on, and with no file to be found the caller is told that no Shell was started.\<close>
theorem shell_exit_not_found:
  assumes "OwnImage fw s = Some li" and "cfg_ok cfg" and "text_of (ShellPath cfg) = []" and "DeviceHandle li = 0" and "FilePath li = 0"
    and "LocateFvs fw s = ((EFI_SUCCESS, Some (fvs, [f])), s1)" and "FvProtocol fw f s1 = Some fv"
    and "ReadSection fw fv s1 = ((EFI_SUCCESS, pe), s2)" and "pe \<noteq> 0" and "LoadBuffer fw pe s2 = ((EFI_SUCCESS, img), s3)"
    and "StartImageWithOpts fw (ShellOpts cfg) img
      (say fw (bytes_of ''Starting the firmware volume Shell'' @ [10]) [] (FreePool fw fvs (FreePool fw pe s3))) = Some (EFI_NOT_FOUND, s4)"
    and "length dir = 260" and "length full = 520"
  shows "LaunchShell fw cfg dir full (m, s) = Some (EFI_NOT_FOUND, m, s4)"
proof -
  have fv: "TryFv fw (ShellOpts cfg) s = Some (EFI_NOT_FOUND, s4)" using assms(6-11) by (simp add: TryFv_def)
  obtain d where d: "put_str dir [] = Some d" "holds 260 d []" using put_str_holds [of "[]" dir] assms(12) by auto
  have od: "OwnDirectory m li dir 260 = Some d" using d(1) assms(5) by (simp add: OwnDirectory_def)
  have z: "ShellPath cfg ! 0 = 0" using text_of_Nil_iff [of "ShellPath cfg"] assms(2,3) by (simp add: cfg_ok_def)
  have "search (map (\<lambda>p. TryFile fw (ShellOpts cfg) li (p @ [0])) ps) (m, x) = Some (EFI_NOT_FOUND, m, x)" for ps x
    by (induction ps) (simp_all add: TryFile_def assms(4))
  then show ?thesis using assms(1) fv od z
    by (simp add: LaunchShell_def launch_defaults_def try_candidates_lemma [OF d(2) candidates_ok assms(13)])
qed

subsection \<open>A firmware for the witnesses\<close>

text \<open>Its state: the pool pointers freed and the device path last loaded.\<close>

definition toy_launch :: "(u64 list \<times> bytes) launch_fw" where
  "toy_launch = \<lparr>GetTime = \<lambda>s. (None, s), Stall = \<lambda>n s. s, AllocatePool = \<lambda>n s. (Some 4096, s), FreePool = \<lambda>p (fr, b). (p # fr, b),
     OwnImage = \<lambda>s. Some \<lparr>LoadOptions = None, LoadOptionsSize = 0, DeviceHandle = 0, FilePath = 0\<rparr>,
     ImageInfo = \<lambda>i s. True, SetOptions = \<lambda>i opts n s. s, StartImage = \<lambda>i s. Some ((if i = 9 then EFI_SUCCESS else EFI_NOT_FOUND, 0), s),
     LocateFvs = \<lambda>s. ((EFI_SUCCESS, Some (64, [1])), s), FvProtocol = \<lambda>f s. Some 2, ReadSection = \<lambda>v s. ((EFI_SUCCESS, 128), s),
     LoadBuffer = \<lambda>p s. ((EFI_SUCCESS, 8), s), LoadPath = \<lambda>b (fr, _). ((EFI_SUCCESS, 9), (fr, b)), DevicePath = \<lambda>h s. Some 100,
     LocalPrint = \<lambda>cs s. s\<rparr>"

lemma toy_fields [simp]:
  "AllocatePool toy_launch n s = (Some 4096, s)" "FreePool toy_launch p (fr, b) = (p # fr, b)" "ImageInfo toy_launch i s"
  "OwnImage toy_launch s = Some \<lparr>LoadOptions = None, LoadOptionsSize = 0, DeviceHandle = 0, FilePath = 0\<rparr>"
  "SetOptions toy_launch i opts k s = s" "LocateFvs toy_launch s = ((EFI_SUCCESS, Some (64, [1])), s)" "FvProtocol toy_launch h s = Some 2"
  "StartImage toy_launch i s = Some ((if i = 9 then EFI_SUCCESS else EFI_NOT_FOUND, 0), s)"
  "ReadSection toy_launch h s = ((EFI_SUCCESS, 128), s)" "LoadBuffer toy_launch q s = ((EFI_SUCCESS, 8), s)"
  "LoadPath toy_launch bs (fr, b) = ((EFI_SUCCESS, 9), (fr, bs))" "DevicePath toy_launch h s = Some 100" "LocalPrint toy_launch cs s = s"
  by (simp_all add: toy_launch_def)

lemma toy_say [simp]: "say toy_launch fmt args s = s"
  by (simp add: say_def split: option.split)

theorem TryFile_device_path_witness:
  "\<exists>m'. TryFile toy_launch [0] \<lparr>LoadOptions = None, LoadOptionsSize = 0, DeviceHandle = 1, FilePath = 0\<rparr> [65, 0] (\<lambda>_. 0, ([], [])) =
     Some (EFI_SUCCESS, m', ([4096], [4, 4, 8, 0, 65, 0, 0, 0, 0x7F, 0xFF, 4, 0]))"
proof -
  let ?li = "\<lparr>LoadOptions = None, LoadOptionsSize = 0, DeviceHandle = 1, FilePath = 0\<rparr>"
  let ?bs = "[4, 4, 8, 0, 65, 0, 0, 0, 0x7F, 0xFF, 4, 0] :: bytes"
  have 1: "0 \<in> set [65, 0 :: u16]" "text_of [65, 0 :: u16] = [65]" "[65 :: u16] \<noteq> []" "length [65 :: u16] < 32000"
    "DeviceHandle ?li \<noteq> 0" "DevicePath toy_launch (DeviceHandle ?li) ([], []) = Some 100" by simp_all
  have 2: "DevPathLen (\<lambda>_. 0) (unat (100 :: u64)) = Some 0"
    unfolding DevPathLen_def by (subst dev_path_len.simps) (simp add: node_len_def)
  have 3: "12 = 0 + (8 + 2 * (length [65 :: u16] + 1))" "12 \<le> RT_INSANE_LEN"
    "AllocatePool toy_launch (12 + 32) ([], []) = (Some 4096, ([], []))" "pool_room 4096 (12 + 32)"
    "unat (100 :: u64) + 0 \<le> unat (4096 :: u64) \<or> unat (4096 :: u64) + (12 + 32) \<le> unat (100 :: u64)"
    by (simp_all add: RT_INSANE_LEN_def pool_room_def)
  have 4: "?bs = cells_at (\<lambda>_. 0) (unat (100 :: u64)) 0 @ file_path_node ([65] @ [0])"
    by (simp add: file_path_node_def Let_def utf16_def dp_defs)
  have 5: "LoadPath toy_launch ?bs ([], []) = ((EFI_SUCCESS, 9), ([], ?bs))" by (simp only: toy_fields)
  from TryFile_device_path [OF 1 2 3 4 5, of "[0]"]
  obtain m' where "TryFile toy_launch [0] ?li [65, 0] (\<lambda>_. 0, ([], [])) = map_option (\<lambda>(st, s). (st, m', s))
      (StartImageWithOpts toy_launch [0] 9 (msg_starting toy_launch [65] (FreePool toy_launch 4096 ([], ?bs))))"
    unfolding if_not_P [OF EFI_SUCCESS_ok] by blast
  moreover have "StartImageWithOpts toy_launch [0] 9 s = Some (EFI_SUCCESS, s)" for s
    by (simp add: StartImageWithOpts_def)
  ultimately show ?thesis by (simp add: msg_starting_def)
qed

definition path_mem :: mem where
  "path_mem = (\<lambda>a. mem_of [4, 4, 12, 0, 92, 0, 97, 0, 92, 0, 98, 0, 0x7F, 0xFF, 4, 0] (a - 100))"

theorem OwnDirectory_dir_witness:
  "\<exists>d. OwnDirectory path_mem \<lparr>LoadOptions = None, LoadOptionsSize = 0, DeviceHandle = 0, FilePath = 100\<rparr> (replicate 260 7) 260 = Some d \<and>
     text_of d = [92, 97, 92]"
proof -
  have n: "node_len path_mem 100 = 12" by (simp add: node_len_eq path_mem_def mem_of_def)
  have s: "node_string path_mem (100 + 4) 4 = [92, 97, 92, 98]"
    by (simp add: node_string_def load16_eq path_mem_def mem_of_def upt_rec)
  have d: "dir_of [92, 97, 92, 98] = [92, 97, 92]" by (simp add: dir_of_def)
  show ?thesis
    using OwnDirectory_dir [of "\<lparr>LoadOptions = None, LoadOptionsSize = 0, DeviceHandle = 0, FilePath = 100\<rparr>" 100 path_mem "replicate 260 7"] n s d
    by (auto simp: dp_defs is_end_def path_mem_def mem_of_def)
qed

lemma toy_cfg: obtains cfg where "default_cfg mCfg0 = Some cfg" "cfg_ok cfg" "text_of (ShellPath cfg) = []"
  using default_cfg_lemma by (auto simp: settings_def default_settings_def)

theorem LaunchShell_search_witness:
  "\<exists>cfg. LaunchShell (toy_launch\<lparr>LocateFvs := \<lambda>s. ((EFI_NOT_FOUND, None), s)\<rparr>) cfg (replicate 260 7) (replicate 520 7) (\<lambda>_. 0, ([], [])) =
     Some (EFI_NOT_FOUND, \<lambda>_. 0, ([], []))"
proof -
  obtain cfg where c: "cfg_ok cfg" "text_of (ShellPath cfg) = []" using toy_cfg .
  let ?fw = "toy_launch\<lparr>LocateFvs := \<lambda>s. ((EFI_NOT_FOUND, None), s)\<rparr>"
  let ?li = "\<lparr>LoadOptions = None, LoadOptionsSize = 0, DeviceHandle = 0, FilePath = 0\<rparr>"
  have o: "OwnImage ?fw ([], []) = Some ?li" by simp
  have f: "TryFv ?fw (ShellOpts cfg) ([], []) = Some (EFI_NOT_FOUND, ([], []))" by (simp add: TryFv_def)
  obtain d where d: "put_str (replicate 260 7) [] = Some d" "holds 260 d ([] :: u16 list)"
    using put_str_holds [of "[]" "replicate 260 (7 :: u16)"] by auto
  have od: "OwnDirectory (\<lambda>_. 0) ?li (replicate 260 7) 260 = Some d" using d(1) by (simp add: OwnDirectory_def)
  have "search (map (\<lambda>p. TryFile ?fw (ShellOpts cfg) ?li (p @ [0])) ps) (m, x) = Some (EFI_NOT_FOUND, m, x)" for ps m x
    by (induction ps) (simp_all add: TryFile_def)
  with LaunchShell_search [OF o c f od d(2), of "replicate 520 7"] show ?thesis by auto
qed

theorem shell_exit_not_found_witness:
  "\<exists>cfg. LaunchShell toy_launch cfg (replicate 260 7) (replicate 520 7) (\<lambda>_. 0, ([], [])) = Some (EFI_NOT_FOUND, \<lambda>_. 0, ([64, 128], []))"
proof -
  obtain cfg where c: "cfg_ok cfg" "text_of (ShellPath cfg) = []" using toy_cfg .
  obtain n where n: "StrLen16 (ShellOpts cfg) = Some n" using StrLen16_lemma c(1) by (auto simp: cfg_ok_def)
  let ?s = "([64, 128], [])"
  have f: "FreePool toy_launch 64 (FreePool toy_launch 128 ([], [])) = ?s" by simp
  have st: "StartImageWithOpts toy_launch (ShellOpts cfg) 8 ?s = Some (EFI_NOT_FOUND, ?s)"
    using n by (simp add: StartImageWithOpts_def)
  have "LaunchShell toy_launch cfg (replicate 260 7) (replicate 520 7) (\<lambda>_. 0, ([], [])) = Some (EFI_NOT_FOUND, \<lambda>_. 0, ?s)"
    by (rule shell_exit_not_found [of toy_launch "([], [])" "\<lparr>LoadOptions = None, LoadOptionsSize = 0, DeviceHandle = 0, FilePath = 0\<rparr>" cfg
          64 1 "([], [])" 2 128 "([], [])" 8 "([], [])"]) (use c st in simp_all)
  then show ?thesis by blast
qed

end
