(* ===== verification/Ssh_Heap.thy ===== *)
theory Ssh_Heap
  imports Reach "HOL-Library.Multiset"
begin

text \<open>
  The heap blocks of a connection: what \<^verbatim>\<open>SshNew\<close> and the copies of the KEXINIT payloads allocate
  and \<^verbatim>\<open>SshFree\<close> gives back. \<open>live\<close> observes the pool blocks that are allocated; blocks of
  wolfCrypt and of the network driver are not counted.
\<close>

subsection \<open>The pool\<close>

definition heap_law :: "'w host \<Rightarrow> ('w \<Rightarrow> u64 multiset) \<Rightarrow> bool" where
  "heap_law h live \<longleftrightarrow>
     (\<forall>n w raw w'. AllocatePool h n w = (Some raw, w') \<longrightarrow> align_raw raw \<noteq> 0 \<and> raw \<noteq> 0 \<and> live w' = add_mset raw (live w)) \<and>
     (\<forall>n w w'. AllocatePool h n w = (None, w') \<longrightarrow> live w' = live w) \<and>
     (\<forall>a w. live (FreePool h a w) = live w - {#a#}) \<and>
     (\<forall>w bs. live (snd (wr h w bs)) = live w) \<and> (\<forall>w n. live (snd (rd h w n)) = live w) \<and>
     (\<forall>w n. live (Stall h n w) = live w) \<and> (\<forall>w. live (snd (GetTime h w)) = live w) \<and>
     (\<forall>w. live (snd (wc_InitRng h w)) = live w) \<and> (\<forall>g w. live (wc_FreeRng h g w) = live w) \<and>
     (\<forall>a w. live (wc_AesFree h a w) = live w) \<and> (\<forall>k w. live (wc_ed25519_free h k w) = live w)"

lemma heap_lawD:
  assumes "heap_law h live"
  shows "live (snd (wr h w bs)) = live w" "live (snd (rd h w n)) = live w" "live (Stall h k w) = live w"
    "live (snd (GetTime h w)) = live w" "live (snd (wc_InitRng h w)) = live w" "live (wc_FreeRng h g w) = live w"
    "live (wc_AesFree h a w) = live w" "live (wc_ed25519_free h e w) = live w"
  using assms unfolding heap_law_def by blast+

text \<open>The pool blocks a pointer, and a connection, holds.\<close>

definition held :: "block \<Rightarrow> u64 multiset" where
  "held b = (if fst b \<noteq> 0 then {#snd b#} else {#})"

definition held_blocks :: "conn_blocks \<Rightarrow> u64 multiset" where
  "held_blocks b = held (blk_clientKexInit b) + held (blk_serverKexInit b) + held (blk_rx b) + held (blk_tx b)
     + held (blk_pl b) + held (blk_inRing b) + held (blk_self b)"

lemma held_null [simp]: "held (0, 0) = {#}"
  by (simp add: held_def)

lemma live_alloc:
  assumes "heap_law h live" and "RtAlloc_block h n w = (b, w')"
  shows "live w' = live w + held b"
proof -
  obtain r v where r: "AllocatePool h ((if n = 0 then 1 else n) + 32) w = (r, v)" by (metis surj_pair)
  show ?thesis
  proof (cases r)
    case None
    then have "b = (0, 0)" "w' = v" using assms(2) r by (simp_all add: RtAlloc_block_def Let_def)
    moreover have "live v = live w" using assms(1) r None unfolding heap_law_def by blast
    ultimately show ?thesis by simp
  next
    case (Some raw)
    have "\<forall>n w raw w'. AllocatePool h n w = (Some raw, w') \<longrightarrow> align_raw raw \<noteq> 0 \<and> raw \<noteq> 0 \<and> live w' = add_mset raw (live w)"
      using assms(1) unfolding heap_law_def by (rule conjunct1)
    with r Some have l: "align_raw raw \<noteq> 0" "raw \<noteq> 0" "live v = add_mset raw (live w)" by blast+
    have "b = (align_raw raw, raw)" "w' = v" using assms(2) r Some l(2) by (simp_all add: RtAlloc_block_def Let_def)
    then show ?thesis using l by (simp add: held_def)
  qed
qed

lemma live_free: "heap_law h live \<Longrightarrow> live (RtFree_block h b w) = live w - held b"
  by (simp add: heap_law_def RtFree_block_def held_def)

lemma live_free_all:
  assumes "heap_law h live"
  shows "live (free_blocks h b w) = live w - held_blocks b"
proof -
  have d: "M - N - P = M - (N + P)" for M N P :: "u64 multiset" by (rule diff_diff_add)
  show ?thesis by (simp only: free_blocks_def Let_def live_free [OF assms] held_blocks_def d)
qed

lemma live_SshFree: "heap_law h live \<Longrightarrow> live (SshFree h c) = live (ioCtx c) - held_blocks (blocks c)"
  by (simp add: SshFree_def Let_def live_free_all heap_lawD)

subsection \<open>Every call accounts for its blocks\<close>

text \<open>The connection's share: what is live is what was there before and what it holds.\<close>

definition accounted :: "('w \<Rightarrow> u64 multiset) \<Rightarrow> u64 multiset \<Rightarrow> conn_blocks \<times> 'w \<Rightarrow> bool" where
  "accounted live base bw \<longleftrightarrow> live (snd bw) = base + held_blocks (fst bw)"

lemma held_blocks_split:
  "held_blocks b = held (blk_serverKexInit b) + held_blocks (b\<lparr>blk_serverKexInit := (0, 0)\<rparr>)"
  "held_blocks b = held (blk_clientKexInit b) + held_blocks (b\<lparr>blk_clientKexInit := (0, 0)\<rparr>)"
  by (cases b; simp add: held_blocks_def ac_simps)+

lemma held_blocks_replace:
  "held_blocks (b\<lparr>blk_serverKexInit := p\<rparr>) = held_blocks b - held (blk_serverKexInit b) + held p"
  "held_blocks (b\<lparr>blk_clientKexInit := p\<rparr>) = held_blocks b - held (blk_clientKexInit b) + held p"
  "held (blk_serverKexInit b) \<subseteq># held_blocks b" "held (blk_clientKexInit b) \<subseteq># held_blocks b"
proof -
  note s = held_blocks_split(1) [of b] and c = held_blocks_split(2) [of b]
  show "held_blocks (b\<lparr>blk_serverKexInit := p\<rparr>) = held_blocks b - held (blk_serverKexInit b) + held p"
    using held_blocks_split(1) [of "b\<lparr>blk_serverKexInit := p\<rparr>"] s by simp
  show "held_blocks (b\<lparr>blk_clientKexInit := p\<rparr>) = held_blocks b - held (blk_clientKexInit b) + held p"
    using held_blocks_split(2) [of "b\<lparr>blk_clientKexInit := p\<rparr>"] c by simp
  show "held (blk_serverKexInit b) \<subseteq># held_blocks b" unfolding s by simp
  show "held (blk_clientKexInit b) \<subseteq># held_blocks b" unfolding c by simp
qed

lemma accounted_closed:
  assumes "heap_law h live"
  shows "world_closed h (accounted live base)"
  unfolding world_closed_def
proof (intro conjI allI impI)
  fix b w bs n
  assume q: "accounted live base (b, w)"
  show "accounted live base (b, snd (wr h w bs))" using q by (simp add: accounted_def heap_lawD [OF assms])
  have step: "live w2 = base + (held_blocks b - held a + held p)"
    if "RtAlloc_block h n (RtFree_block h a w) = (p, w2)" and "held a \<subseteq># held_blocks b" for a p w2
  proof -
    have "live w2 = base + held_blocks b - held a + held p"
      using live_alloc [OF assms that(1)] live_free [OF assms, of a w] q unfolding accounted_def fst_conv snd_conv by (simp only:)
    then show ?thesis by (simp only: multiset_diff_union_assoc [OF that(2)] add.assoc)
  qed
  show "case RtAlloc_block h n (RtFree_block h (blk_serverKexInit b) w) of (p, w') \<Rightarrow> accounted live base (b\<lparr>blk_serverKexInit := p\<rparr>, w')"
    using step [OF _ held_blocks_replace(3)] by (simp add: accounted_def held_blocks_replace(1) split: prod.split)
  show "case RtAlloc_block h n (RtFree_block h (blk_clientKexInit b) w) of (p, w') \<Rightarrow> accounted live base (b\<lparr>blk_clientKexInit := p\<rparr>, w')"
    using step [OF _ held_blocks_replace(4)] by (simp add: accounted_def held_blocks_replace(2) split: prod.split)
qed

text \<open>A predicate on blocks and world that reading and waiting keep, too, is kept by every call.\<close>

definition world_served :: "'w host \<Rightarrow> (conn_blocks \<times> 'w \<Rightarrow> bool) \<Rightarrow> bool" where
  "world_served h Q \<longleftrightarrow> world_closed h Q \<and> (\<forall>b w n. Q (b, w) \<longrightarrow> Q (b, snd (rd h w n))) \<and>
     (\<forall>b w n. Q (b, w) \<longrightarrow> Q (b, Stall h n w)) \<and> (\<forall>b w. Q (b, w) \<longrightarrow> Q (b, snd (GetTime h w)))"

lemma world_servedD:
  assumes "world_served h Q"
  shows "world_closed h Q" "Q (b, w) \<Longrightarrow> Q (b, snd (rd h w n))" "Q (b, w) \<Longrightarrow> Q (b, Stall h n w)"
    "Q (b, w) \<Longrightarrow> Q (b, snd (GetTime h w))"
  using assms unfolding world_served_def by blast+

lemma accounted_served: "heap_law h live \<Longrightarrow> world_served h (accounted live base)"
  by (simp add: world_served_def accounted_closed) (simp add: accounted_def heap_lawD)

lemma served_read_input: "world_served h Q \<Longrightarrow> Q (io_view c) \<Longrightarrow> Q (io_view (snd (read_input h c)))"
  using world_servedD(2) [of h Q "blocks c" "ioCtx c"]
  by (auto simp: read_input_def Let_def split_beta split: rd_result.split)

lemma served_ProcessInput:
  assumes "world_served h Q" and "Q (io_view c)" and "ProcessInput h c = Some y"
  shows "Q (io_view (snd (snd y)))"
  using assms(3) unfolding ProcessInput_def
  by (rule process_loop_preserves [where P = "\<lambda>c. Q (io_view c)"])
    (use assms(1,2) served_read_input world_process_pending [OF world_servedD(1)] in auto)

lemma served_waits: "world_served h Q \<Longrightarrow> waits_keep h (\<lambda>c. Q (io_view c))"
  unfolding waits_keep_def using served_ProcessInput world_servedD(3,4) [of h Q] by auto

lemma served_now:
  "world_served h Q \<Longrightarrow> Q (io_view c) \<Longrightarrow> Q (io_view (c\<lparr>ioCtx := snd (RtNow h (ioCtx c))\<rparr>))"
  using waits_keepD(2) [OF served_waits] by blast

lemma served_SshAccept:
  assumes "world_served h Q" and "Q (io_view c)" and y: "SshAccept h c = Some y"
  shows "Q (io_view (snd y))"
proof -
  note w = world_servedD(1) [OF assms(1)]
  let ?c = "c\<lparr>ioCtx := snd (RtNow h (ioCtx c))\<rparr>"
  obtain ok c1 where v: "send_version h ?c = (ok, c1)" by (cases "send_version h ?c")
  have "Q (io_view (snd (send_version h ?c)))"
    using served_now [OF assms(1,2)] world_closedD(1) [OF w served_now [OF assms(1,2)]]
    by (simp add: send_version_def Let_def split_beta)
  with v have c1: "Q (io_view c1)" by simp
  show ?thesis
  proof (cases ok)
    case True
    then have "accept_loop h (fst (RtNow h (ioCtx c))) 0 c1 = Some y" using y v by (simp add: SshAccept_def split_beta)
    then show ?thesis
      by (rule accept_loop_preserves [where P = "\<lambda>c. Q (io_view c)"])
        (use c1 served_waits [OF assms(1)] world_Disconnect [OF w] in auto)
  next
    case False
    then have "y = (- 1, c1)" using y v by (simp add: SshAccept_def split_beta)
    then show ?thesis using c1 by simp
  qed
qed

lemma ring_take_io: "blocks (snd (ring_take n c)) = blocks c \<and> ioCtx (snd (ring_take n c)) = ioCtx c"
  using ring_take_only [of n c] by auto

lemma served_SshRead:
  assumes "world_served h Q" and "Q (io_view c)" and "SshRead h n c = Some y"
  shows "Q (io_view (snd (snd y)))"
proof -
  note w = world_servedD(1) [OF assms(1)]
  have r: "Q (io_view (snd (snd (read_ring h n d))))" if "Q (io_view d)" for d
  proof -
    have "Q (io_view (snd (SendPacket h p ((snd (ring_take n d))\<lparr>consumed := k\<rparr>))))" for p k
      by (rule world_SendPacket [OF w]) (use that ring_take_io [of n d] in simp)
    then show ?thesis using that ring_take_io [of n d]
      by (simp add: read_ring_def adjust_window_def Let_def split_beta)
  qed
  from assms(3) served_ProcessInput [OF assms(1,2)] show ?thesis
    by (auto simp: SshRead_def bind_eq_Some_conv r split: if_splits)
qed

lemma served_SshWrite:
  assumes "world_served h Q" and "Q (io_view c)" and "SshWrite h buf c = Some y"
  shows "Q (io_view (snd y))"
  using assms(3)
proof (rule SshWrite_preserves [where P = "\<lambda>c. Q (io_view c)"])
  show "Q (io_view c)" by (rule assms(2))
  show "waits_keep h (\<lambda>c. Q (io_view c))" by (rule served_waits [OF assms(1)])
  show "Q (io_view (snd (write_turn h buf c)))" if "Q (io_view c)" for buf c
    using world_SendPacket [OF world_servedD(1) [OF assms(1)] that]
    by (simp add: write_turn_def Let_def split_beta that)
qed

lemma served_SshClose:
  assumes "world_served h Q" and "Q (io_view c)" and y: "SshClose h e c = Some y"
  shows "Q (io_view y)"
proof -
  note w = world_servedD(1) [OF assms(1)]
  have e: "Q (io_view (end_session h d))" if "Q (io_view d)" for d
    using that world_Disconnect [OF w that] by (simp add: end_session_def)
  show ?thesis
  proof (cases "state c = ST_CONN \<and> chanOpen c \<and> \<not> closeSent c")
    case True
    let ?c = "send_close h e c"
    have s: "Q (io_view ?c)"
      using assms(2) by (simp add: send_close_def SendChannelReply_def Let_def world_SendPacket [OF w])
    obtain d where d: "close_wait h (fst (RtNow h (ioCtx ?c))) 0 (?c\<lparr>ioCtx := snd (RtNow h (ioCtx ?c))\<rparr>) = Some d"
      "y = end_session h d"
      using y True by (auto simp: SshClose_def Let_def split_beta)
    have "Q (io_view d)" using d(1)
      by (rule close_wait_preserves [where P = "\<lambda>c. Q (io_view c)"])
        (use served_now [OF assms(1) s] served_waits [OF assms(1)] in auto)
    then show ?thesis using d(2) e by simp
  next
    case False
    then have "y = end_session h c" using y by (simp add: SshClose_def split: if_splits)
    then show ?thesis using e assms(2) by simp
  qed
qed

text \<open>
  The life of a connection: any calls, in any order, interleaved with anything outside that
  leaves the program's blocks alone.
\<close>

inductive owner_step :: "'w host \<Rightarrow> ('w \<Rightarrow> u64 multiset) \<Rightarrow> 'w conn \<Rightarrow> 'w conn \<Rightarrow> bool" for h live where
  owner_accept: "SshAccept h c = Some (r, c') \<Longrightarrow> owner_step h live c c'"
| owner_poll: "SshPoll h c = Some (r, c') \<Longrightarrow> owner_step h live c c'"
| owner_read: "SshRead h n c = Some (r, bs, c') \<Longrightarrow> owner_step h live c c'"
| owner_write: "SshWrite h buf c = Some (r, c') \<Longrightarrow> owner_step h live c c'"
| owner_close: "SshClose h e c = Some c' \<Longrightarrow> owner_step h live c c'"
| owner_world: "live w = live (ioCtx c) \<Longrightarrow> owner_step h live c (c\<lparr>ioCtx := w\<rparr>)"

lemma accounted_step:
  assumes "owner_step h live c c'" and "heap_law h live" and "accounted live base (io_view c)"
  shows "accounted live base (io_view c')"
  using assms(1)
proof cases
  case (owner_accept r)
  then show ?thesis using served_SshAccept [OF accounted_served [OF assms(2)] assms(3)] by auto
next
  case (owner_poll r)
  then show ?thesis using served_ProcessInput [OF accounted_served [OF assms(2)] assms(3)] by (auto simp: SshPoll_def)
next
  case (owner_read n r bs)
  then show ?thesis using served_SshRead [OF accounted_served [OF assms(2)] assms(3)] by auto
next
  case (owner_write buf r)
  then show ?thesis using served_SshWrite [OF accounted_served [OF assms(2)] assms(3)] by auto
next
  case (owner_close e)
  then show ?thesis using served_SshClose [OF accounted_served [OF assms(2)] assms(3)] by auto
next
  case (owner_world w)
  then show ?thesis using assms(3) by (simp add: accounted_def)
qed

lemma accounted_steps:
  "(owner_step h live)\<^sup>*\<^sup>* c c' \<Longrightarrow> heap_law h live \<Longrightarrow> accounted live base (io_view c) \<Longrightarrow> accounted live base (io_view c')"
  by (induction rule: rtranclp_induct) (auto intro: accounted_step)

text \<open>Creating a connection: it holds what it allocated, and a failure gives everything back.\<close>

lemma alloc_buffers_accounted:
  assumes h: "heap_law h live" and s: "live w = base + held self"
    and e: "alloc_buffers h (no_blocks\<lparr>blk_self := self\<rparr>) w = (b, w')"
  shows "accounted live base (b, w')"
proof -
  obtain a1 w1 where 1: "RtAlloc_block h SSH_RX_BUF w = (a1, w1)" by (cases "RtAlloc_block h SSH_RX_BUF w")
  obtain a2 w2 where 2: "RtAlloc_block h SSH_TX_BUF w1 = (a2, w2)" by (cases "RtAlloc_block h SSH_TX_BUF w1")
  obtain a3 w3 where 3: "RtAlloc_block h SSH_PL_BUF w2 = (a3, w3)" by (cases "RtAlloc_block h SSH_PL_BUF w2")
  obtain a4 w4 where 4: "RtAlloc_block h SSH_IN_RING w3 = (a4, w4)" by (cases "RtAlloc_block h SSH_IN_RING w3")
  show ?thesis
    using e live_alloc [OF h 1] live_alloc [OF h 2] live_alloc [OF h 3] live_alloc [OF h 4] s
    by (auto simp: alloc_buffers_def 1 2 3 4 Let_def no_blocks_def accounted_def held_blocks_def ac_simps)
qed

lemma init_conn_accounted:
  assumes h: "heap_law h live" and a: "accounted live base (io_view c)"
  shows "case init_conn h seed c of (None, w') \<Rightarrow> live w' = base | (Some c', w') \<Rightarrow> accounted live base (io_view c')"
proof -
  obtain r w where r: "wc_InitRng h (ioCtx c) = (r, w)" by (cases "wc_InitRng h (ioCtx c)")
  have w: "live w = base + held_blocks (blocks c)"
    using heap_lawD(5) [OF h, of "ioCtx c"] a r by (simp add: accounted_def)
  show ?thesis
    by (simp add: init_conn_def r Let_def live_SshFree [OF h] w accounted_def split: option.split)
qed

lemma SshNew_accounted:
  assumes h: "heap_law h live"
  shows "case SshNew h sz ring seed w of (None, w') \<Rightarrow> live w' = live w | (Some c, w') \<Rightarrow> accounted live (live w) (io_view c)"
proof -
  obtain self w1 where a: "RtAlloc_block h sz w = (self, w1)" by (cases "RtAlloc_block h sz w")
  obtain b w0 where b: "alloc_buffers h (no_blocks\<lparr>blk_self := self\<rparr>) w1 = (b, w0)"
    by (cases "alloc_buffers h (no_blocks\<lparr>blk_self := self\<rparr>) w1")
  let ?c = "(conn_zero w0 ring)\<lparr>blocks := b\<rparr>"
  have acc: "accounted live (live w) (b, w0)" by (rule alloc_buffers_accounted [OF h live_alloc [OF h a] b])
  then have ac: "accounted live (live w) (io_view ?c)" by (simp add: conn_zero_def)
  have "live (SshFree h ?c) = live w" using ac by (simp add: live_SshFree [OF h] accounted_def)
  then show ?thesis
    using init_conn_accounted [OF h ac, of seed] live_alloc [OF h a] by (simp add: SshNew_def a b Let_def held_def)
qed

subsection \<open>Properties\<close>


text \<open>A pool with room for six blocks, at multiples of a megabyte, and its allocated blocks.\<close>

definition slot :: "nat \<Rightarrow> u64" where
  "slot k = of_nat (k + 1) * 0x100000"

definition counting_host :: "(nat \<times> u64 multiset) host" where
  "counting_host = \<lparr>GetTime = \<lambda>w. (None, w), Stall = \<lambda>n w. w,
     AllocatePool = \<lambda>n w. if fst w < 6 then (Some (slot (fst w)), (fst w + 1, add_mset (slot (fst w)) (snd w))) else (None, w),
     FreePool = \<lambda>a w. (fst w, snd w - {#a#}),
     wc_InitRng = \<lambda>w. (Some [1], w), wc_FreeRng = \<lambda>g w. w, wc_RNG_GenerateBlock = \<lambda>g n. (Some (replicate n 7), g),
     wc_HmacInit = None, wc_HmacSetKey = \<lambda>c t key. None, wc_HmacUpdate = \<lambda>c d. None, wc_HmacFinal = \<lambda>c. None,
     wc_AesInit = Some [], wc_AesFree = \<lambda>a w. w, wc_AesSetKeyDirect = \<lambda>a key iv. None, wc_AesCtrEncrypt = \<lambda>a d. (None, a),
     wc_InitSha256 = [], wc_Sha256Update = (\<lambda>s d. s), wc_Sha256Final = (\<lambda>s. s),
     wc_curve25519_make_key = \<lambda>g. (None, g), wc_curve25519_export_public = \<lambda>k. None,
     wc_curve25519_import_public = Some, wc_curve25519_shared_secret = \<lambda>k p. None, wc_ed25519_init = Some [],
     wc_ed25519_import_private_only = \<lambda>k s. Some s, wc_ed25519_make_public = \<lambda>k. Some (replicate 32 9),
     wc_ed25519_import_private_key = \<lambda>k s p. Some (s @ p), wc_ed25519_sign_msg = \<lambda>m k. None, wc_ed25519_free = \<lambda>k w. w,
     rd = (\<lambda>w n. (RdErr, w)), wr = (\<lambda>w bs. (True, w)), auth_fn = (\<lambda>u p. False)\<rparr>"

lemma slots: "k < 6 \<Longrightarrow> slot k \<noteq> 0 \<and> align_raw (slot k) \<noteq> 0"
proof -
  have "\<forall>k\<in>set [0..<6]. slot k \<noteq> 0 \<and> align_raw (slot k) \<noteq> 0" unfolding slot_def align_raw_def by code_simp
  then show "k < 6 \<Longrightarrow> ?thesis" by simp
qed

lemma counting_law: "heap_law counting_host snd"
  by (auto simp: heap_law_def counting_host_def slots split: if_splits)

lemma counting_alloc:
  "k < 6 \<Longrightarrow> RtAlloc_block counting_host n (k, M) = ((align_raw (slot k), slot k), k + 1, add_mset (slot k) M)"
  by (simp add: RtAlloc_block_def counting_host_def slots)


end
