(* ===== verification/Login.thy ===== *)
theory Login
  imports Reach
begin

text \<open>
  Who is behind an authenticated connection: in every reachable state the user name the
  connection carries is one the password callback has accepted with some password.
\<close>

subsection \<open>The name and the flag\<close>

definition auth_view :: "'w conn \<Rightarrow> bool \<times> bytes" where
  "auth_view c = (authenticated c, user c)"

definition login_ok :: "'w host \<Rightarrow> 'w conn \<Rightarrow> bool" where
  "login_ok h c \<longleftrightarrow> (fst (auth_view c) \<longrightarrow> (\<exists>pw. auth_fn h (c_str (snd (auth_view c))) pw))"

definition login_inv :: "'w host \<Rightarrow> 'w conn \<Rightarrow> bool" where
  "login_inv h c \<longleftrightarrow> conn_inv c \<and> login_ok h c"

lemma auth_view_sess: "sess_view c' = sess_view c \<Longrightarrow> auth_view c' = auth_view c"
  by (simp add: sess_view_def auth_view_def)

lemma auth_view_send [simp]:
  "auth_view (snd (SendPacket h p c)) = auth_view c" "auth_view (Disconnect h e m c) = auth_view c"
  "auth_view (snd (protocol_error h m c)) = auth_view c" "auth_view (snd (SendAuthFailure h c)) = auth_view c"
  by (rule auth_view_sess, simp)+

lemma auth_view_updates [simp]:
  "auth_view (c\<lparr>ioCtx := w\<rparr>) = auth_view c" "auth_view (c\<lparr>state := s\<rparr>) = auth_view c" "auth_view (c\<lparr>rx := bs\<rparr>) = auth_view c"
  "auth_view (c\<lparr>rxHaveLen := b\<rparr>) = auth_view c" "auth_view (c\<lparr>rxPktLen := v\<rparr>) = auth_view c"
  "auth_view (c\<lparr>dir_in := d\<rparr>) = auth_view c" "auth_view (c\<lparr>remoteEof := b\<rparr>) = auth_view c"
  "auth_view (c\<lparr>versionSent := b\<rparr>) = auth_view c" "auth_view (c\<lparr>consumed := v\<rparr>) = auth_view c"
  "auth_view (c\<lparr>closeSent := b\<rparr>) = auth_view c" "auth_view (c\<lparr>inTail := n\<rparr>) = auth_view c"
  "auth_view (c\<lparr>remoteWindow := v\<rparr>) = auth_view c" "auth_view (c\<lparr>ignoreNextKexPacket := b\<rparr>) = auth_view c"
  "auth_view (c\<lparr>clientVersion := v', overrun := b', state := s, kex := k\<rparr>) = auth_view c"
  by (simp_all add: auth_view_def)

text \<open>Only the authentication handler touches the two.\<close>

lemma auth_view_kex [simp]:
  "auth_view (snd (SendKexInit h c)) = auth_view c" "auth_view (snd (DoKexDh h p c)) = auth_view c"
  "auth_view (snd (ApplyNewKeys h c)) = auth_view c" "auth_view (snd (handle_kexinit h p c)) = auth_view c"
  by (rule auth_view_sess, simp add: handle_kexinit_def answer_kexinit_def Let_def split_beta)+

lemma auth_view_requests [simp]:
  "auth_view (snd (handle_service_request h p c)) = auth_view c"
  "auth_view (snd (handle_global_request h p c)) = auth_view c"
  by (simp_all add: handle_service_request_def handle_global_request_def Let_def split_beta)

lemma channel_user:
  "user (snd (channel_request t r c)) = user c" "user (RingPush ds c) = user c"
  "authenticated (RingPush ds c) = authenticated c"
  using RingPush_only [of ds c] by (auto simp: channel_request_def set_dims_def Let_def split_beta)

lemma auth_view_channel [simp]:
  "auth_view (snd (HandleChannelOpen h p c)) = auth_view c" "auth_view (snd (HandleChannelRequest h p c)) = auth_view c"
  "auth_view (snd (handle_channel_data h p c)) = auth_view c" "auth_view (snd (handle_window_adjust p c)) = auth_view c"
  "auth_view (snd (handle_channel_close h c)) = auth_view c"
  by (simp_all add: auth_view_def) (simp_all add: HandleChannelOpen_def HandleChannelRequest_def handle_channel_data_def
      handle_window_adjust_def handle_channel_close_def SendChannelReply_def channel_user Let_def split_beta)

lemma check_login_ok: "\<not> authenticated c \<Longrightarrow> login_ok h (snd (check_login h pw c))"
  by (simp add: check_login_def login_ok_def Let_def) (auto simp: auth_view_def)

lemma HandleUserauth_ok:
  assumes "\<not> authenticated c"
  shows "login_ok h (snd (HandleUserauth h p c))"
proof -
  have 1: "login_ok h (snd (SendAuthFailure h (c\<lparr>user := u\<rparr>)))" "login_ok h (Disconnect h e m c)" for u e m
    using assms by (simp_all add: login_ok_def) (simp_all add: auth_view_def)
  have 2: "login_ok h (snd (check_login h pw (c\<lparr>user := u\<rparr>)))" for u pw by (rule check_login_ok) (simp add: assms)
  show ?thesis by (simp add: HandleUserauth_def Let_def split_beta 1 2)
qed

subsection \<open>Every call keeps the invariant\<close>

lemma login_inv_dispatch:
  assumes "conn_inv c" and "login_ok h c"
  shows "login_ok h (snd (dispatch_msg h msg p c))"
proof -
  have "state c = ST_AUTH \<Longrightarrow> \<not> authenticated c" using conn_invD(2) [OF assms(1)] by (auto simp: auth_inv_def)
  then show ?thesis
    using assms(2) by (intro dispatch_msg_branches [where P = "login_ok h"]) (simp_all add: HandleUserauth_ok, simp_all add: login_ok_def)
qed

lemma login_HandlePacket:
  "conn_inv c \<Longrightarrow> login_ok h c \<Longrightarrow> login_ok h (snd (HandlePacket h p c))"
  using login_inv_dispatch [of c h]
  by (simp add: HandlePacket_def Let_def) (simp add: login_ok_def)

lemma login_process_packet:
  assumes "conn_inv c" and "login_ok h c"
  shows "login_ok h (snd (process_packet h c))"
proof -
  obtain o1 c1 where 1: "take_length h c = (o1, c1)" by (cases "take_length h c")
  have v1: "auth_view (snd (take_length h c)) = auth_view c"
    by (simp add: take_length_def check_len_def Let_def split: prod.split option.split)
  have i1: "conn_inv c1" using conn_inv_take_length [OF assms(1), of h] 1 by simp
  let ?n = "4 + unat (rxPktLen c1)"
  obtain o2 c2 where 2: "open_packet h ?n c1 = (o2, c2)" by (cases "open_packet h ?n c1")
  have v2: "auth_view (snd (open_packet h ?n c1)) = auth_view c1"
    by (simp add: open_packet_def check_mac_def Let_def split: prod.split option.split)
  have l: "login_ok h c1" "login_ok h c2" using v1 v2 1 2 assms(2) by (simp_all add: login_ok_def)
  show ?thesis
  proof (cases "o1 \<noteq> None \<or> length (rx c1) < ?n + (if active (dir_in c1) then macLen (dir_in c1) else 0) \<or> o2 \<noteq> None")
    case True
    then show ?thesis using l by (auto simp: process_packet_def 1 2 Let_def split: option.split)
  next
    case False
    then have "?n \<le> length (rx c1)" by simp
    then have i2: "conn_inv c2" using conn_inv_open_packet [OF i1, of ?n h] 2 by simp
    have d: "login_ok h (snd (deliver_packet h m c2))" for m
    proof -
      have "conn_inv (c2\<lparr>dir_in := (dir_in c2)\<lparr>seq := q\<rparr>\<rparr>)" for q by (rule conn_inv_dir_in(2) [OF i2])
      then have "login_ok h (snd (HandlePacket h b (c2\<lparr>dir_in := (dir_in c2)\<lparr>seq := q\<rparr>\<rparr>)))" for b q
        by (rule login_HandlePacket) (use l(2) in \<open>simp add: login_ok_def\<close>)
      then show ?thesis using l(2)
        by (simp add: deliver_packet_def Let_def split_beta) (simp add: login_ok_def)
    qed
    show ?thesis using l d by (simp add: process_packet_def 1 2 Let_def split: option.split)
  qed
qed

lemma login_TryProcessOne:
  assumes "conn_inv c" and "login_ok h c"
  shows "login_ok h (snd (TryProcessOne h c))"
proof -
  have "auth_view (snd (process_version h c)) = auth_view c"
    by (simp add: process_version_def consume_line_def Let_def split_beta)
  then have "login_ok h (snd (process_version h c))" using assms(2) by (simp add: login_ok_def)
  then show ?thesis
    using assms(2) login_process_packet [OF assms] by (simp add: TryProcessOne_def)
qed

lemma login_process_pending:
  "login_inv h c \<Longrightarrow> login_inv h (snd (snd (process_pending h any c)))"
proof (induction h any c rule: process_pending.induct)
  case (1 h any c)
  obtain r c' where t: "TryProcessOne h c = (r, c')" by (cases "TryProcessOne h c")
  have c': "login_inv h c'"
    using 1(2) conn_inv_TryProcessOne [of c h] login_TryProcessOne [of c h] t by (simp add: login_inv_def)
  have "process_pending h any c =
    (if r < 0 then (False, any, c') else if r = 0 then (True, any, c') else process_pending h True c')"
    by (subst process_pending.simps) (simp add: t)
  with 1(1) [OF t [symmetric] refl] c' show ?case by (cases "r < 0 \<or> r = 0") auto
qed

lemma login_ProcessInput:
  assumes "ProcessInput h c = Some y" and "read_fits h" and "login_inv h c"
  shows "login_inv h (snd (snd y))"
proof -
  have "login_inv h (snd (read_input h d))" if "login_inv h d" for d
    using that conn_inv_read_input [OF _ assms(2), of d]
    by (simp add: login_inv_def login_ok_def read_input_def split: prod.split rd_result.split)
  then show ?thesis
    using assms(1) unfolding ProcessInput_def
    by (elim process_loop_preserves [where P = "login_inv h"]) (use assms(3) login_process_pending in blast)+
qed

lemma login_waits: "read_fits h \<Longrightarrow> waits_keep h (login_inv h)"
  unfolding waits_keep_def
proof (intro conjI allI impI)
  show "login_inv h (snd (snd y))" if "read_fits h" "ProcessInput h c = Some y" "login_inv h c" for c y
    using login_ProcessInput [OF that(2,1,3)] .
qed (simp_all add: login_inv_def login_ok_def)

text \<open>Sending and closing leave the pair alone.\<close>

lemma login_frame: "login_inv h c \<Longrightarrow> conn_inv c' \<Longrightarrow> auth_view c' = auth_view c \<Longrightarrow> login_inv h c'"
  by (simp add: login_inv_def login_ok_def)

lemma login_Disconnect: "login_inv h c \<Longrightarrow> login_inv h (Disconnect h e m c)"
  by (rule login_frame) (simp_all add: login_inv_def conn_inv_Disconnect)

lemma login_read_ring: "login_inv h c \<Longrightarrow> login_inv h (snd (snd (read_ring h n c)))"
proof (rule login_frame)
  assume i: "login_inv h c"
  show "conn_inv (snd (snd (read_ring h n c)))" using i by (simp add: login_inv_def conn_inv_read_ring)
  obtain t where "snd (ring_take n c) = c\<lparr>inTail := t\<rparr>" using ring_take_only by blast
  then show "auth_view (snd (snd (read_ring h n c))) = auth_view c"
    by (simp add: read_ring_def adjust_window_def Let_def split_beta)
qed

lemma login_step:
  assumes "api_step h c c'" and "read_fits h" and "login_inv h c"
  shows "login_inv h c'"
  using assms(1)
proof cases
  case (step_accept r)
  obtain s w where 1: "RtNow h (ioCtx c) = (s, w)" by (cases "RtNow h (ioCtx c)")
  obtain ok c1 where 2: "send_version h (c\<lparr>ioCtx := w\<rparr>) = (ok, c1)" by (cases "send_version h (c\<lparr>ioCtx := w\<rparr>)")
  have "auth_view (snd (send_version h (c\<lparr>ioCtx := w\<rparr>))) = auth_view c"
    by (simp add: send_version_def Let_def split_beta)
  then have c1: "login_inv h c1"
    using login_frame [OF assms(3)] conn_inv_send_version [of "c\<lparr>ioCtx := w\<rparr>" h] 2 assms(3) by (simp add: login_inv_def)
  show ?thesis
  proof (cases ok)
    case True
    then have "accept_loop h s 0 c1 = Some (r, c')" using step_accept 1 2 by (simp add: SshAccept_def)
    from accept_loop_preserves [where P = "login_inv h", OF this c1 login_waits [OF assms(2)] login_Disconnect]
    show ?thesis by simp
  next
    case False
    then show ?thesis using step_accept 1 2 c1 by (simp add: SshAccept_def)
  qed
next
  case (step_poll r)
  then show ?thesis using login_ProcessInput [OF _ assms(2,3)] by (auto simp: SshPoll_def)
next
  case (step_read n r bs)
  then obtain q prog d where d: "ProcessInput h c = Some (q, prog, d)" by (auto simp: SshRead_def bind_eq_Some_conv)
  have "login_inv h d" using login_ProcessInput [OF d assms(2,3)] by simp
  then show ?thesis using step_read d login_read_ring [of h d n] by (auto simp: SshRead_def split: if_splits)
next
  case (step_write buf r)
  have "login_inv h (snd (write_turn h b d))" if "login_inv h d" for b d
    by (rule login_frame [OF that]) (use that conn_inv_write_turn in \<open>simp_all add: login_inv_def write_turn_def Let_def split_beta conn_inv_SendPacket\<close>)
  from SshWrite_preserves [where P = "login_inv h", OF step_write assms(3) login_waits [OF assms(2)] this]
  show ?thesis by simp
next
  case (step_close e)
  have e: "login_inv h (end_session h d)" if "login_inv h d" for d using that by (simp add: end_session_def login_Disconnect)
  let ?c = "send_close h e c"
  have s: "login_inv h ?c"
  proof (rule login_frame [OF assms(3)])
    show "conn_inv ?c" by (rule conn_inv_send_close) (use assms(3) in \<open>simp add: login_inv_def\<close>)
    show "auth_view ?c = auth_view c" by (simp add: send_close_def SendChannelReply_def Let_def)
  qed
  show ?thesis
  proof (cases "state c = ST_CONN \<and> chanOpen c \<and> \<not> closeSent c")
    case True
    then obtain d where d: "close_wait h (fst (RtNow h (ioCtx ?c))) 0 (?c\<lparr>ioCtx := snd (RtNow h (ioCtx ?c))\<rparr>) = Some d"
      "c' = end_session h d" using step_close by (auto simp: SshClose_def Let_def split_beta)
    have "login_inv h d"
      by (rule close_wait_preserves [where P = "login_inv h", OF d(1) _ login_waits [OF assms(2)]])
        (use s in \<open>simp add: login_inv_def login_ok_def\<close>)
    then show ?thesis using d(2) e by simp
  next
    case False
    then have "c' = end_session h c" using step_close by (simp add: SshClose_def split: if_splits)
    then show ?thesis using e assms(3) by simp
  qed
next
  case (step_world w)
  then show ?thesis using login_frame [OF assms(3)] assms(3) by (simp add: login_inv_def)
qed

lemma login_reachable:
  assumes "reachable h c" and "read_fits h"
  shows "login_inv h c"
  using assms(1)
proof induction
  case (reach_new sz ring seed w c w')
  have i: "conn_inv c" by (rule conn_inv_SshNew [OF reach_new])
  obtain w0 b where "init_conn h seed ((conn_zero w0 ring)\<lparr>blocks := b\<rparr>) = (Some c, w')" using SshNew_some [OF reach_new] by blast
  from init_conn_some [OF this] have "\<not> authenticated c" by (auto simp: started_def conn_zero_def)
  with i show ?case by (simp add: login_inv_def login_ok_def auth_view_def)
next
  case (reach_step c d)
  then show ?case using login_step [OF _ assms(2)] by blast
qed

text \<open>
  The contract between a connection and its owner: whoever the callback accepts is known. What the
  owner then may rely on is that the user of an authenticated session is known.
\<close>

locale known_users = bounded_reads h for h :: "'w host" +
  fixes known :: "bytes \<Rightarrow> bool"
  assumes accepted_known: "auth_fn h u pw \<Longrightarrow> known u"
begin

lemma session_user_known: "reachable h c \<Longrightarrow> authenticated c \<Longrightarrow> known (SshUser c)"
  using login_reachable [OF _ fits, of c] accepted_known
  by (auto simp: login_inv_def login_ok_def auth_view_def SshUser_def)

end

subsection \<open>Properties\<close>


text \<open>A host that knows nobody.\<close>

definition closed_host :: "sample_world host" where
  "closed_host = sample_host\<lparr>auth_fn := \<lambda>u pw. False\<rparr>"

lemma closed_host: "read_fits closed_host" "reachable closed_host sample_new"
proof -
  show "read_fits closed_host" using sample_read_fits by (simp add: read_fits_def closed_host_def)
  have "RtAlloc_block closed_host n w = RtAlloc_block sample_host n w" for n w
    by (simp add: RtAlloc_block_def closed_host_def)
  then have a: "RtAlloc_block closed_host n w = ((4112, 4096), w)" for n w by (simp add: sample_alloc)
  have "SshNew closed_host 2000 (\<lambda>_. 0) (replicate 32 8) ([], []) = (Some sample_new, ([], []))"
    by (simp add: SshNew_def a alloc_buffers_def buffers_missing_def no_blocks_def)
      (simp add: init_conn_def closed_host_def sample_host_def LoadHostKey_def sample_new_def sample_blocks_def conn_zero_def dir_zero_def)
  then show "reachable closed_host sample_new" by (rule reach_new)
qed


end
