(* ===== verification/Handshake.thy ===== *)
theory Handshake
  imports Reach
begin

text \<open>
  An honest client gets its Shell: with wolfCrypt and the transport working, the messages of a
  correct client, from its KEXINIT to the shell request, are all accepted and leave a connection
  that is authenticated, has the announced channel and terminal size, and is ready for the Shell.
\<close>

subsection \<open>A host on which everything works\<close>

definition host_works :: "'w host \<Rightarrow> bool" where
  "host_works h \<longleftrightarrow>
     rng_fills h \<and> (\<forall>g n. fst (wc_RNG_GenerateBlock h g n) \<noteq> None) \<and> (\<forall>w bs. fst (wr h w bs)) \<and>
     (\<forall>d tx. packet_mac h d tx \<noteq> None) \<and> (\<forall>a d. fst (wc_AesCtrEncrypt h a d) \<noteq> None) \<and>
     (\<forall>a k iv. wc_AesSetKeyDirect h a k iv \<noteq> None) \<and> (\<forall>m k. \<exists>s. wc_ed25519_sign_msg h m k = Some s \<and> length s = 64) \<and>
     (\<forall>qc g. length qc = 32 \<longrightarrow> (\<exists>qs k. fst (kex_secret h qc g) = Some (qs, k) \<and> length qs = 32 \<and> length k = 32)) \<and>
     (\<forall>n w. fst (fst (RtAlloc_block h n w)) \<noteq> 0)"

lemma host_worksD:
  assumes "host_works h"
  shows "rng_fills h" "\<exists>p g'. wc_RNG_GenerateBlock h g n = (Some p, g')" "\<exists>w'. wr h w bs = (True, w')"
    "\<exists>m. packet_mac h d tx = Some m" "\<exists>e a'. wc_AesCtrEncrypt h a bs = (Some e, a')"
    "\<exists>a'. wc_AesSetKeyDirect h a k iv = Some a'" "\<exists>s. wc_ed25519_sign_msg h bs k = Some s \<and> length s = 64"
    "length qc = 32 \<Longrightarrow> \<exists>qs k g'. kex_secret h qc g = (Some (qs, k), g') \<and> length qs = 32 \<and> length k = 32"
    "\<exists>b w'. RtAlloc_block h n w = (b, w') \<and> fst b \<noteq> 0"
proof -
  note w = assms [unfolded host_works_def]
  show "rng_fills h" using w by blast
  show "\<exists>p g'. wc_RNG_GenerateBlock h g n = (Some p, g')"
    using w by (cases "wc_RNG_GenerateBlock h g n") (metis fst_conv not_None_eq)
  show "\<exists>w'. wr h w bs = (True, w')" using w by (cases "wr h w bs") (metis fst_conv)
  show "\<exists>m. packet_mac h d tx = Some m" using w by auto
  show "\<exists>e a'. wc_AesCtrEncrypt h a bs = (Some e, a')"
    using w by (cases "wc_AesCtrEncrypt h a bs") (metis fst_conv not_None_eq)
  show "\<exists>a'. wc_AesSetKeyDirect h a k iv = Some a'" using w by auto
  show "\<exists>s. wc_ed25519_sign_msg h bs k = Some s \<and> length s = 64" using w by blast
  show "\<exists>qs k g'. kex_secret h qc g = (Some (qs, k), g') \<and> length qs = 32 \<and> length k = 32" if "length qc = 32"
    using w that by (cases "kex_secret h qc g") (metis fst_conv)
  show "\<exists>b w'. RtAlloc_block h n w = (b, w') \<and> fst b \<noteq> 0" using w by (cases "RtAlloc_block h n w") (metis fst_conv)
qed

lemma works_seal: "host_works h \<Longrightarrow> fst (seal_and_send h tx c) = 0"
proof -
  assume h: "host_works h"
  have w: "fst (send_wire h bs d) = 0" for bs and d :: "'a conn"
    using host_worksD(3) [OF h, of "ioCtx d" bs] by (auto simp: send_wire_def Let_def)
  obtain m where m: "packet_mac h (dir_out c) tx = Some m" using host_worksD(4) [OF h] by blast
  obtain e a where "wc_AesCtrEncrypt h (aes (dir_out c)) tx = (Some e, a)" using host_worksD(5) [OF h] by blast
  with m w show ?thesis by (simp add: seal_and_send_def)
qed

lemma works_send:
  assumes "host_works h" and "state c \<noteq> ST_CLOSED" and "length p + 64 \<le> SSH_MAX_PACKET"
  shows "fst (SendPacket h p c) = 0" and "state (snd (SendPacket h p c)) = state c"
proof -
  obtain q g where "wc_RNG_GenerateBlock h (rng c) (pad_len (if active (dir_out c) then 16 else 8) (length p)) = (Some q, g)"
    using host_worksD(2) [OF assms(1)] by blast
  then show "fst (SendPacket h p c) = 0" using assms works_seal [OF assms(1)] by (simp add: SendPacket_def Let_def)
  then show "state (snd (SendPacket h p c)) = state c" by (rule SendPacket_ok_state)
qed

subsection \<open>One message at a time\<close>

text \<open>The whole of a client's messages, each of which must be accepted.\<close>

fun deliver_all :: "'w host \<Rightarrow> bytes list \<Rightarrow> 'w conn \<Rightarrow> bool \<times> 'w conn" where
  "deliver_all h [] c = (True, c)"
| "deliver_all h (p # ps) c =
     (case HandlePacket h p c of (r, c) \<Rightarrow> if r < 0 \<or> state c = ST_CLOSED then (False, c) else deliver_all h ps c)"

lemma HandlePacket_msg:
  "\<not> ignoreNextKexPacket c \<Longrightarrow> state c \<noteq> ST_VERSION \<Longrightarrow> HandlePacket h (m # q) c = dispatch_msg h m (m # q) c"
  by (simp add: HandlePacket_def)

lemma SendKexInit_works:
  assumes "host_works h" and "state c \<noteq> ST_CLOSED"
  shows "fst (SendKexInit h c) = 0" and "ignoreNextKexPacket (snd (SendKexInit h c)) = ignoreNextKexPacket c"
    and "clientKexInit (snd (SendKexInit h c)) = clientKexInit c"
proof -
  obtain p g where r: "wc_RNG_GenerateBlock h (rng c) 16 = (Some p, g)" using host_worksD(2) [OF assms(1)] by blast
  then have p: "length p = 16" using host_worksD(1) [OF assms(1)] by (auto simp: rng_fills_def)
  let ?d = "c\<lparr>rng := g\<rparr>"
  obtain b w where a: "RtAlloc_block h (length (wdata (kexinit_buf p))) (RtFree_block h (blk_serverKexInit (blocks c)) (ioCtx c)) = (b, w)" "fst b \<noteq> 0"
    using host_worksD(9) [OF assms(1)] by blast
  have l: "length (wdata (kexinit_buf p)) + 64 \<le> SSH_MAX_PACKET"
    by (simp add: kexinit_buf_msg [OF p] kexinit_msg_def own_kex_lists_def p SSH_MAX_PACKET_def)
  show "fst (SendKexInit h c) = 0" using works_send(1) [OF assms(1) _ l] assms(2)
    by (simp add: SendKexInit_def r kexinit_buf_msg(1) [OF p] a Let_def)
  show "ignoreNextKexPacket (snd (SendKexInit h c)) = ignoreNextKexPacket c" "clientKexInit (snd (SendKexInit h c)) = clientKexInit c"
    by (simp_all add: SendKexInit_def r kexinit_buf_msg(1) [OF p] a Let_def)
qed

text \<open>The KEXINIT: an offer with something in common in every list, and no guess.\<close>

definition common_offer :: "bytes \<Rightarrow> bytes list list \<Rightarrow> bool" where
  "common_offer cookie css \<longleftrightarrow> good_offer cookie css \<and> (\<forall>i<8. first_common (css ! i) (own_names_of i) \<noteq> None)"

lemma Negotiate_no_guess:
  assumes "clientKexInit c = offer cookie css 0 v" and "good_offer cookie css" and "fst (Negotiate h c) = 0"
  shows "\<not> ignoreNextKexPacket (snd (Negotiate h c))"
  using assms(3) parse_kexinit_msg [of cookie "map name_list css" 0 v] assms(1,2)
  by (auto simp: Negotiate_def offer_def good_offer_def Let_def split_beta kex_fail_def split: if_splits option.splits)

lemma kexinit_step:
  assumes h: "host_works h" and o: "common_offer cookie css"
    and c: "state c = ST_KEX" "kex c = KX_WAIT_KEXINIT" "\<not> ignoreNextKexPacket c"
  shows "\<exists>c'. HandlePacket h (offer cookie css 0 v) c = (0, c') \<and> state c' = ST_KEX \<and> kex c' = KX_WAIT_DH \<and>
    \<not> ignoreNextKexPacket c' \<and> sess_view c' = sess_view c"
proof -
  have p: "offer cookie css 0 v = MSG_KEXINIT # tl (offer cookie css 0 v)" by (simp add: offer_def kexinit_msg_def)
  let ?p = "offer cookie css 0 v"
  obtain b w where a: "RtAlloc_block h (length ?p) (RtFree_block h (blk_clientKexInit (blocks c)) (ioCtx c)) = (b, w)" "fst b \<noteq> 0"
    using host_worksD(9) [OF h] by blast
  let ?d = "c\<lparr>ioCtx := w, blocks := (blocks c)\<lparr>blk_clientKexInit := b\<rparr>, clientKexInit := ?p\<rparr>"
  define e where "e = (if \<not> kexInitSent ?d then SendKexInit h ?d else (0, ?d))"
  have dst: "state ?d \<noteq> ST_CLOSED" using c(1) by simp
  have e0: "fst e = 0" "state (snd e) = ST_KEX" "clientKexInit (snd e) = ?p"
    using SendKexInit_works [OF h dst] SendKexInit_ok_state [of h ?d] c(1) by (simp_all add: e_def)
  have sv: "sess_view (snd e) = sess_view c"
  proof -
    have "sess_view (snd e) = sess_view ?d" by (simp add: e_def)
    also have "\<dots> = sess_view c" by (simp add: sess_view_def)
    finally show ?thesis .
  qed
  let ?f = "(snd e)\<lparr>kexInitSent := False\<rparr>"
  have g: "good_offer cookie css" "fst (Negotiate h ?f) = 0"
    using o Negotiate_offer_lemma(1) [of ?f cookie css 0 v h] e0(3) by (simp_all add: common_offer_def)
  have n: "state (snd (Negotiate h ?f)) = ST_KEX" using Negotiate_cases [of h ?f] g(2) e0(2) by auto
  have i: "\<not> ignoreNextKexPacket (snd (Negotiate h ?f))" by (rule Negotiate_no_guess [OF _ g]) (simp add: e0(3))
  let ?c = "(snd (Negotiate h ?f))\<lparr>kex := KX_WAIT_DH\<rparr>"
  have "HandlePacket h ?p c = dispatch_msg h MSG_KEXINIT ?p c" using c
    by (subst (1 2) p) (simp add: HandlePacket_msg)
  also have "\<dots> = handle_kexinit h ?p c" by (simp add: dispatch_msg_def msg_defs)
  also have "\<dots> = answer_kexinit h ?d" using c(2) a by (simp add: handle_kexinit_def Let_def)
  also have "\<dots> = (0, ?c)" using e0(1) g(2) unfolding answer_kexinit_def e_def [symmetric] by (simp add: Let_def split_beta)
  finally have "HandlePacket h ?p c = (0, ?c)" .
  moreover have "sess_view ?c = sess_view c"
  proof -
    have "sess_view ?c = sess_view (snd (Negotiate h ?f))" by (simp add: sess_view_def)
    also have "\<dots> = sess_view (snd e)" unfolding Negotiate_views by (simp add: sess_view_def)
    finally show ?thesis using sv by simp
  qed
  ultimately show ?thesis using n i by auto
qed

text \<open>The Diffie-Hellman value and the switch to the new keys.\<close>

lemma switch_out_works:
  assumes "host_works h"
  shows "\<exists>c'. switch_out h ks c = (0, c') \<and> state c' = state c \<and> kex c' = KX_WAIT_NEWKEYS \<and>
    ignoreNextKexPacket c' = ignoreNextKexPacket c \<and> sess_view c' = sess_view c"
proof -
  obtain a where "wc_AesSetKeyDirect h (aes (dir_out c)) (take (nextEncKeyLenOut c) (keySc ks)) (ivSc ks) = Some a"
    using host_worksD(6) [OF assms] by blast
  then show ?thesis by (intro exI [of _ "snd (switch_out h ks c)"]) (simp add: switch_out_def sess_view_def)
qed

lemma kexdh_step:
  assumes h: "host_works h" and qc: "length qc = 32"
    and c: "state c = ST_KEX" "kex c = KX_WAIT_DH" "\<not> ignoreNextKexPacket c"
  shows "\<exists>c'. HandlePacket h (MSG_KEXDH_INIT # enc_str qc @ t) c = (0, c') \<and> state c' = ST_KEX \<and> kex c' = KX_WAIT_NEWKEYS \<and>
    \<not> ignoreNextKexPacket c' \<and> sess_view c' = sess_view c"
proof -
  let ?r = "RInit (enc_str qc @ t)" and ?p = "MSG_KEXDH_INIT # enc_str qc @ t"
  have q: "fst (RStr ?r) = qc" "\<not> rerr (snd (RStr ?r))"
    using str_codec.get_enc [of ?r qc t] qc rest_SomeD by auto
  obtain qs k g where k: "kex_secret h qc (rng c) = (Some (qs, k), g)" "length qs = 32" "length k = 32"
    using host_worksD(8) [OF h qc] by blast
  let ?b = "WMpint (WInit (4 + 33)) k"
  have b: "\<not> werr ?b"
  proof -
    have "length (strip_zeros k) \<le> 32" using k(3) length_strip_zeros [of k] by simp
    then have "length (enc_mpint k) \<le> 37" by (simp add: enc_mpint_def Let_def)
    from appends_WInit [OF appends_WMpint this] show ?thesis by simp
  qed
  let ?hh = "exchange_hash h (c\<lparr>rng := g\<rparr>) qc qs (wdata ?b)"
  define d where "d = (if haveSessionId c then c\<lparr>rng := g\<rparr> else c\<lparr>rng := g, sessionId := take 32 ?hh, haveSessionId := True\<rparr>)"
  have d: "state d = ST_KEX" "\<not> ignoreNextKexPacket d" "sess_view d = sess_view c" "state d \<noteq> ST_CLOSED"
    using c by (simp_all add: d_def sess_view_def)
  obtain sg where sg: "wc_ed25519_sign_msg h ?hh (hostKey d) = Some sg" "length sg = 64"
    using host_worksD(7) [OF h] by blast
  let ?rb = "kexdh_reply (host_key_blob (hostPub d)) qs sg"
  have hb: "length (host_key_blob (hostPub d)) \<le> 51"
  proof -
    have "wbuf_wf (WStr (WCStr (WInit (4 + 11 + 4 + 32)) ''ssh-ed25519'') (hostPub d))"
      by (intro writers_wf) (simp add: wbuf_wf_def)
    moreover have "wcap (WStr (WCStr (WInit (4 + 11 + 4 + 32)) ''ssh-ed25519'') (hostPub d)) = 51"
      by (simp add: WStr_def WCStr_def WU32_def WBytes_def)
    ultimately show ?thesis by (simp add: wbuf_wf_def host_key_blob_def)
  qed
  have rb: "\<not> werr ?rb" "length (wdata ?rb) + 64 \<le> SSH_MAX_PACKET"
    using kexdh_reply_msg [of "host_key_blob (hostPub d)" qs sg] hb k(2) sg(2) by (simp_all add: SSH_MAX_PACKET_def)
  define d1 where "d1 = snd (SendPacket h (wdata ?rb) d)"
  have d1: "fst (SendPacket h (wdata ?rb) d) = 0" "state d1 = ST_KEX" using works_send [OF h d(4) rb(2)] d(1) by (simp_all add: d1_def)
  define d2 where "d2 = snd (SendPacket h newkeys_payload d1)"
  have nk: "length newkeys_payload + 64 \<le> SSH_MAX_PACKET"
    by (simp add: newkeys_payload_def WByte_def WBytes_def SSH_MAX_PACKET_def)
  have d2: "fst (SendPacket h newkeys_payload d1) = 0" "state d2 = ST_KEX" using works_send [OF h _ nk] d1(2) by (simp_all add: d2_def)
  obtain c' where s: "switch_out h (derive_keys h d (wdata ?b) ?hh) d2 = (0, c')" "state c' = state d2" "kex c' = KX_WAIT_NEWKEYS"
    "ignoreNextKexPacket c' = ignoreNextKexPacket d2" "sess_view c' = sess_view d2"
    using switch_out_works [OF h] by blast
  have "HandlePacket h ?p c = DoKexDh h ?p c" using c by (simp add: HandlePacket_msg) (simp add: dispatch_msg_def msg_defs)
  also have "\<dots> = answer_kexdh h qs (wdata ?b) ?hh d"
    using q qc k b by (simp add: DoKexDh_def Let_def split_beta d_def)
  also have "\<dots> = switch_out h (derive_keys h d (wdata ?b) ?hh) d2"
    using sg rb d1(1) d2(1) by (simp add: answer_kexdh_def Let_def split_beta d1_def [symmetric] d2_def [symmetric])
  finally have e: "HandlePacket h ?p c = (0, c')" using s(1) by simp
  have "sess_view d2 = sess_view d" "ignoreNextKexPacket d2 = ignoreNextKexPacket d" by (simp_all add: d2_def d1_def)
  then show ?thesis using e s d d2(2) by (intro exI [of _ c']) simp
qed

lemma newkeys_step:
  assumes h: "host_works h" and c: "state c = ST_KEX" "kex c = KX_WAIT_NEWKEYS" "\<not> ignoreNextKexPacket c"
  shows "\<exists>c'. HandlePacket h (MSG_NEWKEYS # t) c = (0, c') \<and> state c' = ST_AUTH \<and> kex c' = KX_IDLE \<and>
    \<not> ignoreNextKexPacket c' \<and> active (dir_in c') \<and> sess_view c' = sess_view c"
proof -
  obtain a where a: "wc_AesSetKeyDirect h (aes (dir_in c)) (take (pendKeyLen c) (pendKey c)) (pendIv c) = Some a"
    using host_worksD(6) [OF h] by blast
  have e: "HandlePacket h (MSG_NEWKEYS # t) c = ApplyNewKeys h c"
    using c by (simp add: HandlePacket_msg) (simp add: dispatch_msg_def msg_defs)
  show ?thesis unfolding e
    by (intro exI [of _ "snd (ApplyNewKeys h c)"]) (use c a in \<open>simp add: ApplyNewKeys_def sess_view_def\<close>)
qed

subsection \<open>Logging in and opening the channel\<close>

lemma service_step:
  assumes h: "host_works h" and c: "state c = ST_AUTH" "\<not> ignoreNextKexPacket c"
  shows "\<exists>c'. HandlePacket h (MSG_SERVICE_REQUEST # enc_str (bytes_of ''ssh-userauth'') @ t) c = (0, c') \<and> send_rel c c' \<and> state c' = ST_AUTH"
proof -
  let ?r = "RInit (enc_str (bytes_of ''ssh-userauth'') @ t)" and ?p = "MSG_SERVICE_REQUEST # enc_str (bytes_of ''ssh-userauth'') @ t"
  have q: "fst (RStr ?r) = bytes_of ''ssh-userauth''" "\<not> rerr (snd (RStr ?r))"
    using str_codec.get_enc [of ?r "bytes_of ''ssh-userauth''" t] rest_SomeD by auto
  let ?m = "wdata (WCStr (WByte (WInit SSH_PL_BUF) MSG_SERVICE_ACCEPT) ''ssh-userauth'')"
  have l: "length ?m + 64 \<le> SSH_MAX_PACKET"
    by (simp add: WCStr_def WStr_def WU32_def WByte_def WBytes_def SSH_MAX_PACKET_def SSH_PL_BUF_def)
  have "HandlePacket h ?p c = SendPacket h ?m c"
  proof -
    have "HandlePacket h ?p c = handle_service_request h ?p c"
      using c by (simp add: HandlePacket_msg) (simp add: dispatch_msg_def msg_defs)
    then show ?thesis using c q by (simp add: handle_service_request_def Let_def split_beta NameIs_eq)
  qed
  moreover have "fst (SendPacket h ?m c) = 0" "state (snd (SendPacket h ?m c)) = ST_AUTH"
    using works_send [OF h _ l] c by simp_all
  ultimately show ?thesis using SendPacket_rel [of c h ?m] by (intro exI [of _ "snd (SendPacket h ?m c)"]) (simp add: prod_eq_iff)
qed

lemma auth_step:
  assumes h: "host_works h" and c: "state c = ST_AUTH" "\<not> ignoreNextKexPacket c"
    and u: "length usr < 2 ^ 32" "length pw < PW_CAP" "accepts h usr pw"
  shows "\<exists>c'. HandlePacket h (password_request usr pw t) c = (0, c') \<and>
    send_rel (c\<lparr>user := take (USER_CAP - 1) usr, authenticated := True, state := ST_CONN\<rparr>) c' \<and> state c' = ST_CONN"
proof -
  let ?m = "wdata (WByte (WInit SSH_PL_BUF) MSG_USERAUTH_SUCCESS)"
  let ?d = "c\<lparr>user := take (USER_CAP - 1) usr, authenticated := True, state := ST_CONN\<rparr>"
  have l: "length ?m + 64 \<le> SSH_MAX_PACKET" by (simp add: WByte_def WBytes_def SSH_MAX_PACKET_def SSH_PL_BUF_def)
  have "HandlePacket h (password_request usr pw t) c = HandleUserauth h (password_request usr pw t) c"
    using c by (simp add: password_request_def HandlePacket_msg) (simp add: dispatch_msg_def msg_defs)
  also have "\<dots> = SendPacket h ?m ?d"
    using u by (simp add: HandleUserauth_password_request check_login_def accepts_def)
  finally have e: "HandlePacket h (password_request usr pw t) c = SendPacket h ?m ?d" .
  have "fst (SendPacket h ?m ?d) = 0" "state (snd (SendPacket h ?m ?d)) = ST_CONN" using works_send [OF h _ l, of ?d] by simp_all
  then show ?thesis using e SendPacket_rel [of ?d h ?m] by (intro exI [of _ "snd (SendPacket h ?m ?d)"]) (simp add: prod_eq_iff)
qed

definition channel_open :: "u32 \<Rightarrow> u32 \<Rightarrow> u32 \<Rightarrow> bytes" where
  "channel_open sender window maxPkt =
     MSG_CHANNEL_OPEN # enc_str (bytes_of ''session'') @ PutU32 sender @ PutU32 window @ PutU32 maxPkt"

lemma open_step:
  assumes h: "host_works h" and c: "state c = ST_CONN" "\<not> ignoreNextKexPacket c" "\<not> chanOpen c"
  shows "\<exists>c'. HandlePacket h (channel_open sn wn mx) c = (0, c') \<and>
    send_rel (c\<lparr>chanOpen := True, remoteChan := sn, remoteWindow := wn, remoteMaxPkt := mx, closeSent := False,
      closeRecv := False, remoteEof := False\<rparr>) c' \<and> state c' = ST_CONN"
proof -
  let ?q = "enc_str (bytes_of ''session'') @ PutU32 sn @ PutU32 wn @ PutU32 mx" and ?s = "bytes_of ''session''"
  let ?r = "RInit ?q"
  note 1 = str_codec.get_enc [of ?r ?s "PutU32 sn @ PutU32 wn @ PutU32 mx", simplified]
  note 2 = u32_codec.get_enc [OF 1(3,2) TrueI]
  note 3 = u32_codec.get_enc [OF 2(3,2) TrueI]
  note 4 = u32_codec.get_enc [OF 3(3), of mx "[]"]
  have r: "fst (RStr ?r) = ?s" "fst (RU32 (snd (RStr ?r))) = sn" "fst (RU32 (snd (RU32 (snd (RStr ?r))))) = wn"
    "fst (RU32 (snd (RU32 (snd (RU32 (snd (RStr ?r))))))) = mx" "\<not> rerr (snd (RU32 (snd (RU32 (snd (RU32 (snd (RStr ?r))))))))"
    using 1(1) 2(1) 3(1) 4(1,2) 3(2) rest_SomeD by auto
  let ?d = "c\<lparr>chanOpen := True, remoteChan := sn, remoteWindow := wn, remoteMaxPkt := mx, closeSent := False,
      closeRecv := False, remoteEof := False\<rparr>"
  let ?m = "wdata (WU32 (WU32 (WU32 (WU32 (WByte (WInit SSH_PL_BUF) MSG_CHANNEL_OPEN_CONFIRM) sn) 0) SSH_LOCAL_WINDOW) SSH_LOCAL_MAXPKT)"
  have l: "length ?m + 64 \<le> SSH_MAX_PACKET" by (simp add: WU32_def WByte_def WBytes_def SSH_MAX_PACKET_def SSH_PL_BUF_def)
  have "HandlePacket h (channel_open sn wn mx) c = HandleChannelOpen h (channel_open sn wn mx) c"
    using c by (simp add: channel_open_def HandlePacket_msg) (simp add: dispatch_msg_def msg_defs)
  also have "\<dots> = SendPacket h ?m ?d"
    using r c(3) by (simp add: HandleChannelOpen_def channel_open_def Let_def split_beta NameIs_eq)
  finally have e: "HandlePacket h (channel_open sn wn mx) c = SendPacket h ?m ?d" .
  have "fst (SendPacket h ?m ?d) = 0" "state (snd (SendPacket h ?m ?d)) = ST_CONN"
    using works_send [OF h _ l, of ?d] c(1) by simp_all
  then show ?thesis using e SendPacket_rel [of ?d h ?m] by (intro exI [of _ "snd (SendPacket h ?m ?d)"]) (simp add: prod_eq_iff)
qed

subsection \<open>Asking for a terminal and a shell\<close>

definition pty_request :: "bytes \<Rightarrow> u32 \<Rightarrow> u32 \<Rightarrow> bytes \<Rightarrow> bytes" where
  "pty_request tm co ro t =
     MSG_CHANNEL_REQUEST # PutU32 0 @ enc_str (bytes_of ''pty-req'') @ 1 # enc_str tm @ PutU32 co @ PutU32 ro @ t"

definition shell_request :: bytes where
  "shell_request = MSG_CHANNEL_REQUEST # PutU32 0 @ enc_str (bytes_of ''shell'') @ [1]"

lemma request_step:
  assumes h: "host_works h" and c: "state c = ST_CONN" "\<not> ignoreNextKexPacket c" "chanOpen c"
    and p: "p = MSG_CHANNEL_REQUEST # PutU32 0 @ enc_str (bytes_of ty) @ 1 # t" and ty: "length ty < 2 ^ 32"
    and d: "\<And>r. rbuf_wf r \<Longrightarrow> rest r = Some t \<Longrightarrow> channel_request (bytes_of ty) r c = (ok, d)" and st: "state d = ST_CONN"
  shows "\<exists>c'. HandlePacket h p c = (0, c') \<and> send_rel d c' \<and> state c' = ST_CONN"
proof -
  let ?r = "RInit (PutU32 0 @ enc_str (bytes_of ty) @ 1 # t)"
  note 1 = u32_codec.get_enc [of ?r 0 "enc_str (bytes_of ty) @ 1 # t", simplified]
  note 2 = str_codec.get_enc [OF 1(3,2)]
  have 3: "rest (snd (RStr (snd (RU32 ?r)))) = Some ([1] @ t)" using 2(2) ty by simp
  note 4 = byte_codec.get_enc [OF _ 3 TrueI]
  have r: "fst (RU32 ?r) = 0" "fst (RStr (snd (RU32 ?r))) = bytes_of ty" "fst (RByte (snd (RStr (snd (RU32 ?r))))) = 1"
    "rest (snd (RByte (snd (RStr (snd (RU32 ?r)))))) = Some t" "rbuf_wf (snd (RByte (snd (RStr (snd (RU32 ?r))))))"
    using 1(1) 2 4 ty by simp_all
  have ne: "\<not> rerr (snd (RByte (snd (RStr (snd (RU32 ?r))))))" using rest_SomeD [OF r(4)] .
  let ?m = "wdata (WU32 (WByte (WInit SSH_PL_BUF) (if ok then MSG_CHANNEL_SUCCESS else MSG_CHANNEL_FAILURE)) (remoteChan d))"
  have l: "length ?m + 64 \<le> SSH_MAX_PACKET" by (simp add: WU32_def WByte_def WBytes_def SSH_MAX_PACKET_def SSH_PL_BUF_def)
  have "HandlePacket h p c = HandleChannelRequest h p c"
    using c by (simp add: p HandlePacket_msg) (simp add: dispatch_msg_def msg_defs)
  also have "\<dots> = SendPacket h ?m d"
    using r ne c(3) d [OF r(5,4)] by (simp add: p HandleChannelRequest_def Let_def split_beta SendChannelReply_def)
  finally have e: "HandlePacket h p c = SendPacket h ?m d" .
  have "fst (SendPacket h ?m d) = 0" "state (snd (SendPacket h ?m d)) = ST_CONN" using works_send [OF h _ l, of d] st by simp_all
  then show ?thesis using e SendPacket_rel [of d h ?m] by (intro exI [of _ "snd (SendPacket h ?m d)"]) (simp add: prod_eq_iff)
qed

lemma pty_granted:
  assumes "rbuf_wf r" and "rest r = Some (enc_str tm @ PutU32 co @ PutU32 ro @ t)" and "length tm < 2 ^ 32"
    and dims: "0 < co" "co < 1000" "0 < ro" "ro < 1000"
  shows "channel_request (bytes_of ''pty-req'') r c = (True, c\<lparr>cols := co, rows := ro\<rparr>)"
proof -
  note 1 = str_codec.get_enc [OF assms(1,2,3)]
  note 2 = u32_codec.get_enc [OF 1(3,2) TrueI]
  note 3 = u32_codec.get_enc [OF 2(3,2) TrueI]
  from 2(1) 3(1) rest_SomeD [OF 3(2)] dims show ?thesis
    by (simp add: channel_request_def Let_def split_beta NameIs_eq set_dims_def)
qed

lemma shell_granted: "channel_request (bytes_of ''shell'') r c = (True, c\<lparr>shellReady := True\<rparr>)"
  by (simp add: channel_request_def NameIs_eq bytes_of_def)

subsection \<open>The version line\<close>

lemma version_step:
  assumes h: "host_works h" and c: "state c = ST_VERSION" "\<not> kexInitSent c" "rx c = bytes_of ''SSH-2.0'' @ v @ [13, 10] @ t"
    and v: "10 \<notin> set v" "v \<noteq> []"
  shows "\<exists>c'. TryProcessOne h c = (1, c') \<and> rx c' = t \<and> state c' = ST_KEX \<and> kex c' = KX_WAIT_KEXINIT \<and>
    ignoreNextKexPacket c' = ignoreNextKexPacket c \<and> sess_view c' = sess_view c \<and> clientVersion c' = bytes_of ''SSH-2.0'' @ v \<and> rxHaveLen c' = rxHaveLen c"
proof -
  let ?l = "bytes_of ''SSH-2.0'' @ v"
  have nl: "takeWhile (\<lambda>b. b \<noteq> 10) (rx c) = ?l @ [13]"
    using v(1) by (simp add: c(3) bytes_of_def takeWhile_append)
  have i: "length (takeWhile (\<lambda>b. b \<noteq> 10) (rx c)) = length ?l + 1" unfolding nl by simp
  have cr: "rx c ! length ?l = 13" "take (length ?l) (rx c) = ?l" "take 4 (rx c) = bytes_of ''SSH-''" "take 7 (rx c) = bytes_of ''SSH-2.0''"
    by (simp_all add: c(3) nth_append bytes_of_def)
  let ?c = "c\<lparr>clientVersion := ?l, overrun := (overrun c \<or> CLIENT_VERSION_CAP \<le> length ?l), state := ST_KEX, kex := KX_WAIT_KEXINIT, rx := t\<rparr>"
  have dr: "drop (length ?l + 1 + 1) (rx c) = t" by (simp add: c(3) bytes_of_def)
  note k = SendKexInit_works [OF h, of ?c]
  have len: "4 \<le> length ?l" "\<not> length ?l < 8" "length ?l + 1 \<noteq> length (rx c)" using v(2) by (cases v; simp add: c(3) bytes_of_def)+
  have "TryProcessOne h c = consume_line h (length ?l + 1)
      (c\<lparr>clientVersion := ?l, overrun := (overrun c \<or> CLIENT_VERSION_CAP \<le> length ?l), state := ST_KEX, kex := KX_WAIT_KEXINIT\<rparr>)"
    using cr len unfolding TryProcessOne_def process_version_def Let_def i by (simp add: c(1))
  also have "\<dots> = (1, snd (SendKexInit h ?c))"
    using k c(2) dr by (simp add: consume_line_def Let_def split_beta)
  finally have e: "TryProcessOne h c = (1, snd (SendKexInit h ?c))" .
  have "rx_view (snd (SendKexInit h ?c)) = rx_view ?c" "sess_view (snd (SendKexInit h ?c)) = sess_view ?c" by simp_all
  moreover have "sess_view ?c = sess_view c" by (simp add: sess_view_def)
  ultimately show ?thesis using e k SendKexInit_ok_state [of h ?c]
    by (intro exI [of _ "snd (SendKexInit h ?c)"]) (simp add: rx_view_def)
qed

subsection \<open>The property\<close>

lemma deliver_all_append:
  "deliver_all h ps c = (True, d) \<Longrightarrow> deliver_all h (ps @ qs) c = deliver_all h qs d"
proof (induction ps arbitrary: c)
  case (Cons p ps)
  then show ?case by (cases "HandlePacket h p c") (simp split: if_splits)
qed simp

text \<open>The key exchange, then the session.\<close>

lemma keys_established:
  assumes h: "host_works h" and o: "common_offer cookie css" and qc: "length qc = 32"
    and c1: "state c1 = ST_KEX" "kex c1 = KX_WAIT_KEXINIT" "\<not> ignoreNextKexPacket c1"
  shows "\<exists>c4. deliver_all h [offer cookie css 0 0, MSG_KEXDH_INIT # enc_str qc, [MSG_NEWKEYS]] c1 = (True, c4) \<and>
    state c4 = ST_AUTH \<and> \<not> ignoreNextKexPacket c4 \<and> active (dir_in c4) \<and> sess_view c4 = sess_view c1"
proof -
  obtain c2 where 2: "HandlePacket h (offer cookie css 0 0) c1 = (0, c2)" "state c2 = ST_KEX" "kex c2 = KX_WAIT_DH"
    "\<not> ignoreNextKexPacket c2" "sess_view c2 = sess_view c1"
    using kexinit_step [OF h o c1, of 0] by blast
  obtain c3 where 3: "HandlePacket h (MSG_KEXDH_INIT # enc_str qc) c2 = (0, c3)" "state c3 = ST_KEX" "kex c3 = KX_WAIT_NEWKEYS"
    "\<not> ignoreNextKexPacket c3" "sess_view c3 = sess_view c2"
    using kexdh_step [OF h qc 2(2-4), of "[]"] by auto
  obtain c4 where 4: "HandlePacket h [MSG_NEWKEYS] c3 = (0, c4)" "state c4 = ST_AUTH"
    "\<not> ignoreNextKexPacket c4" "active (dir_in c4)" "sess_view c4 = sess_view c3"
    using newkeys_step [OF h 3(2-4), of "[]"] by blast
  then show ?thesis using 2 3 by (intro exI [of _ c4]) simp
qed

lemma session_granted:
  assumes h: "host_works h" and usr: "0 \<notin> set usr" "length usr < USER_CAP" and pw: "length pw < PW_CAP" "auth_fn h usr (c_str pw)"
    and tm: "length tm < 2 ^ 32" "0 < co" "co < 1000" "0 < ro" "ro < 1000"
    and 4: "state c4 = ST_AUTH" "\<not> ignoreNextKexPacket c4" "active (dir_in c4)" and nc: "\<not> chanOpen c4"
  shows "\<exists>c9. deliver_all h [MSG_SERVICE_REQUEST # enc_str (bytes_of ''ssh-userauth''), password_request usr pw [],
      channel_open sn wn mx, pty_request tm co ro [], shell_request] c4 = (True, c9) \<and>
    state c9 = ST_CONN \<and> authenticated c9 \<and> user c9 = usr \<and> chanOpen c9 \<and> shellReady c9 \<and> \<not> closeSent c9 \<and> \<not> closeRecv c9 \<and>
    active (dir_in c9) \<and> remoteChan c9 = sn \<and> remoteWindow c9 = wn \<and> remoteMaxPkt c9 = mx \<and> cols c9 = co \<and> rows c9 = ro"
proof -
  obtain c5 where 5: "HandlePacket h (MSG_SERVICE_REQUEST # enc_str (bytes_of ''ssh-userauth'')) c4 = (0, c5)" "send_rel c4 c5" "state c5 = ST_AUTH"
    using service_step [OF h 4(1,2), of "[]"] by auto
  have f5: "\<not> ignoreNextKexPacket c5" "\<not> chanOpen c5" "active (dir_in c5)" using 4 nc send_rel_frame(7,10,20) [OF 5(2)] by simp_all
  have u: "take (USER_CAP - 1) usr = usr" using usr(2) by simp
  have acc: "accepts h usr pw" using usr(1) pw(2) u by (simp add: accepts_def c_str_id)
  have ul: "length usr < 2 ^ 32" using usr(2) by (simp add: USER_CAP_def)
  let ?d5 = "c5\<lparr>user := usr, authenticated := True, state := ST_CONN\<rparr>"
  obtain c6 where 6: "HandlePacket h (password_request usr pw []) c5 = (0, c6)" "send_rel ?d5 c6" "state c6 = ST_CONN"
    using auth_step [OF h 5(3) f5(1) ul pw(1) acc, of "[]"] unfolding u by blast
  have f6: "\<not> ignoreNextKexPacket c6" "\<not> chanOpen c6" "active (dir_in c6)" "authenticated c6" "user c6 = usr"
    using f5 send_rel_frame(7,10,20,30,32) [OF 6(2)] by simp_all
  let ?d6 = "c6\<lparr>chanOpen := True, remoteChan := sn, remoteWindow := wn, remoteMaxPkt := mx, closeSent := False,
      closeRecv := False, remoteEof := False\<rparr>"
  obtain c7 where 7: "HandlePacket h (channel_open sn wn mx) c6 = (0, c7)" "send_rel ?d6 c7" "state c7 = ST_CONN"
    using open_step [OF h 6(3) f6(1,2)] by blast
  have f7: "\<not> ignoreNextKexPacket c7" "chanOpen c7" "active (dir_in c7)" "authenticated c7" "user c7 = usr" "remoteChan c7 = sn"
      "remoteWindow c7 = wn" "remoteMaxPkt c7 = mx" "\<not> closeSent c7" "\<not> closeRecv c7"
    using f6 send_rel_frame(7,10,20-23,26,27,30,32) [OF 7(2)] by simp_all
  let ?d7 = "c7\<lparr>cols := co, rows := ro\<rparr>"
  have g: "channel_request (bytes_of ''pty-req'') r c7 = (True, ?d7)" if "rbuf_wf r" "rest r = Some (enc_str tm @ PutU32 co @ PutU32 ro)" for r
    using pty_granted [of r tm co ro "[]"] that tm by simp
  have "\<exists>c8. HandlePacket h (pty_request tm co ro []) c7 = (0, c8) \<and> send_rel ?d7 c8 \<and> state c8 = ST_CONN"
    by (rule request_step [OF h 7(3) f7(1,2) _ _ g]) (simp_all add: pty_request_def 7(3))
  then obtain c8 where 8: "HandlePacket h (pty_request tm co ro []) c7 = (0, c8)" "send_rel ?d7 c8" "state c8 = ST_CONN" by blast
  have f8: "\<not> ignoreNextKexPacket c8" "chanOpen c8" "active (dir_in c8)" "authenticated c8" "user c8 = usr" "remoteChan c8 = sn"
      "remoteWindow c8 = wn" "remoteMaxPkt c8 = mx" "\<not> closeSent c8" "\<not> closeRecv c8" "cols c8 = co" "rows c8 = ro"
    using f7 send_rel_frame(7,10,20-23,26-30,32) [OF 8(2)] by simp_all
  let ?d8 = "c8\<lparr>shellReady := True\<rparr>"
  have "\<exists>c9. HandlePacket h shell_request c8 = (0, c9) \<and> send_rel ?d8 c9 \<and> state c9 = ST_CONN"
    by (rule request_step [OF h 8(3) f8(1,2) _ _ shell_granted]) (simp_all add: shell_request_def 8(3))
  then obtain c9 where 9: "HandlePacket h shell_request c8 = (0, c9)" "send_rel ?d8 c9" "state c9 = ST_CONN" by blast
  have f9: "chanOpen c9" "active (dir_in c9)" "authenticated c9" "user c9 = usr" "remoteChan c9 = sn" "shellReady c9"
      "remoteWindow c9 = wn" "remoteMaxPkt c9 = mx" "\<not> closeSent c9" "\<not> closeRecv c9" "cols c9 = co" "rows c9 = ro"
    using f8 send_rel_frame(10,20-24,26-30,32) [OF 9(2)] by simp_all
  show ?thesis using 5 6 7 8 9 f9 by (intro exI [of _ c9]) simp
qed

definition client_messages :: "bytes \<Rightarrow> bytes list list \<Rightarrow> bytes \<Rightarrow> bytes \<Rightarrow> bytes \<Rightarrow> u32 \<times> u32 \<times> u32 \<Rightarrow> bytes \<times> u32 \<times> u32 \<Rightarrow> bytes list" where
  "client_messages cookie css qc usr pw chan tm =
     [offer cookie css 0 0, MSG_KEXDH_INIT # enc_str qc, [MSG_NEWKEYS],
      MSG_SERVICE_REQUEST # enc_str (bytes_of ''ssh-userauth''), password_request usr pw [],
      channel_open (fst chan) (fst (snd chan)) (snd (snd chan)),
      pty_request (fst tm) (fst (snd tm)) (snd (snd tm)) [], shell_request]"

text \<open>An honest client gets its Shell: on a host where wolfCrypt and the transport work, a client that sends its
  version line, an offer with something in common, its key exchange value, the right password and the
  requests for a channel, a terminal and a shell has every message accepted; the connection ends up
  authenticated as that user, with the channel, the window and the terminal size the client named.\<close>
theorem honest_client_gets_shell:
  assumes "host_works h" and "common_offer cookie css" and "length qc = 32"
    and "0 \<notin> set usr" "length usr < USER_CAP" "length pw < PW_CAP" "auth_fn h usr (c_str pw)"
    and "length tm < 2 ^ 32" "0 < co" "co < 1000" "0 < ro" "ro < 1000"
    and "state c = ST_VERSION" "\<not> kexInitSent c" "\<not> ignoreNextKexPacket c" "\<not> chanOpen c"
    and "rx c = bytes_of ''SSH-2.0'' @ v @ [13, 10] @ t" "10 \<notin> set v" "v \<noteq> []"
  shows "\<exists>c1 c2. TryProcessOne h c = (1, c1) \<and> rx c1 = t \<and>
    deliver_all h (client_messages cookie css qc usr pw (sn, wn, mx) (tm, co, ro)) c1 = (True, c2) \<and>
    state c2 = ST_CONN \<and> authenticated c2 \<and> SshUser c2 = usr \<and> SshIsOpen c2 \<and> shellReady c2 \<and>
    active (dir_in c2) \<and> remoteChan c2 = sn \<and> remoteWindow c2 = wn \<and> remoteMaxPkt c2 = mx \<and> SshGetWindow c2 = (co, ro)"
proof -
  note h = assms(1)
  obtain c1 where 1: "TryProcessOne h c = (1, c1)" "rx c1 = t" "state c1 = ST_KEX" "kex c1 = KX_WAIT_KEXINIT"
    "\<not> ignoreNextKexPacket c1" "sess_view c1 = sess_view c"
    using version_step [OF h assms(13,14,17-19)] assms(15) by auto
  obtain c2 where 2: "deliver_all h [offer cookie css 0 0, MSG_KEXDH_INIT # enc_str qc, [MSG_NEWKEYS]] c1 = (True, c2)"
    "state c2 = ST_AUTH" "\<not> ignoreNextKexPacket c2" "active (dir_in c2)" "sess_view c2 = sess_view c1"
    using keys_established [OF h assms(2,3) 1(3-5)] by blast
  have "\<not> chanOpen c2" using 1(6) 2(5) assms(16) by (simp add: sess_view_def)
  from session_granted [OF h assms(4-12) 2(2-4) this] deliver_all_append [OF 2(1)] 1 assms(4)
  show ?thesis by (fastforce simp: client_messages_def SshUser_def SshIsOpen_def SshGetWindow_def c_str_id)
qed

lemma sample_works: "host_works sample_host"
proof -
  have 1: "\<exists>m. packet_mac sample_host d tx = Some m" for d tx by (simp add: packet_mac_def sample_host_def sample_final_def)
  have 2: "\<exists>qs k. fst (kex_secret sample_host qc g) = Some (qs, k) \<and> length qs = 32 \<and> length k = 32" for qc g
    by (simp add: kex_secret_def Let_def split_beta) (simp add: sample_host_def)
  have 3: "fst (fst (RtAlloc_block sample_host n w)) \<noteq> 0" for n w by (simp add: sample_alloc)
  have 4: "fst (wc_RNG_GenerateBlock sample_host g n) \<noteq> None" "fst (wr sample_host w bs)" "fst (wc_AesCtrEncrypt sample_host a d) \<noteq> None"
    "wc_AesSetKeyDirect sample_host a k iv \<noteq> None" "\<exists>s. wc_ed25519_sign_msg sample_host m k = Some s \<and> length s = 64"
    for g n w bs a d k iv m by (simp_all add: sample_host_def)
  show ?thesis unfolding host_works_def using sample_rng_fills 1 2 3 4 by (metis option.distinct(1))
qed

lemma sample_common: "common_offer (replicate 16 0) sample_css"
  using sample_css_good
  by (simp add: common_offer_def all8) (simp add: first_common_def own_names_of_def sample_css_def kex_names_def enc_names_def mac_names_def)

theorem honest_client_gets_shell_witness:
  "\<exists>c1 c2. TryProcessOne sample_host (sample_new\<lparr>rx := bytes_of ''SSH-2.0-x'' @ [13, 10]\<rparr>) = (1, c1) \<and>
     deliver_all sample_host (client_messages (replicate 16 0) sample_css (replicate 32 1) (bytes_of ''admin'') (bytes_of ''pw'')
       (0, 1000, 500) (bytes_of ''xterm'', 120, 40)) c1 = (True, c2) \<and> shellReady c2 \<and> SshGetWindow c2 = (120, 40)"
proof -
  have rx: "rx (sample_new\<lparr>rx := bytes_of ''SSH-2.0-x'' @ [13, 10]\<rparr>) = bytes_of ''SSH-2.0'' @ bytes_of ''-x'' @ [13, 10] @ []"
    by (simp add: bytes_of_def)
  have a: "auth_fn sample_host (bytes_of ''admin'') (c_str (bytes_of ''pw''))" "0 \<notin> set (bytes_of ''admin'')" "10 \<notin> set (bytes_of ''-x'')"
    "bytes_of ''-x'' \<noteq> []" "length (bytes_of ''admin'') < USER_CAP" "length (bytes_of ''pw'') < PW_CAP" "length (bytes_of ''xterm'') < 2 ^ 32"
    by (simp_all add: sample_host_def c_str_def bytes_of_def USER_CAP_def PW_CAP_def)
  have c: "state (sample_new\<lparr>rx := r\<rparr>) = ST_VERSION" "\<not> kexInitSent (sample_new\<lparr>rx := r\<rparr>)"
    "\<not> ignoreNextKexPacket (sample_new\<lparr>rx := r\<rparr>)" "\<not> chanOpen (sample_new\<lparr>rx := r\<rparr>)" for r
    by (simp_all add: sample_new_def conn_zero_def)
  have "length (replicate 32 (1 :: byte)) = 32" "(0 :: u32) < 120" "(120 :: u32) < 1000" "(0 :: u32) < 40" "(40 :: u32) < 1000" by simp_all
  from honest_client_gets_shell [OF sample_works sample_common this(1) a(2,5,6,1,7) this(2-5) c rx a(3,4), of 0 1000 500]
  show ?thesis by blast
qed

end
