(* ===== verification/Phase.thy ===== *)
theory Phase
  imports Reach
begin

text \<open>
  Nothing a connection has reached is taken back: the protocol state only moves forward, a direction
  that is encrypted stays so, the session identifier, the user and the channel stay what they are
  once fixed, and failed attempts are never forgotten. \<open>advances\<close> is the preorder; every handler and
  every call of \<^verbatim>\<open>ssh.h\<close> moves along it.
\<close>

named_theorems adv_intros

definition advances :: "'w conn \<Rightarrow> 'w conn \<Rightarrow> bool" where
  "advances c d \<longleftrightarrow> state c \<le> state d
   \<and> (haveSessionId c \<longrightarrow> haveSessionId d \<and> sessionId d = sessionId c)
   \<and> (active (dir_in c) \<longrightarrow> active (dir_in d)) \<and> (active (dir_out c) \<longrightarrow> active (dir_out d))
   \<and> (authenticated c \<longrightarrow> authenticated d \<and> user d = user c) \<and> authTries c \<le> authTries d
   \<and> (chanOpen c \<longrightarrow> chanOpen d \<and> remoteChan d = remoteChan c \<and> (closeSent c \<longrightarrow> closeSent d) \<and>
        (closeRecv c \<longrightarrow> closeRecv d) \<and> (remoteEof c \<longrightarrow> remoteEof d))
   \<and> (shellReady c \<longrightarrow> shellReady d)"

lemma adv_refl [adv_intros]: "advances c c"
  by (simp add: advances_def)

lemma adv_trans: "advances a b \<Longrightarrow> advances b c \<Longrightarrow> advances a c"
  unfolding advances_def using order_trans [of "state a" "state b" "state c"] by auto

lemma le_closed [simp]: "s \<le> ST_CLOSED"
  by (cases s) (simp_all add: less_eq_ssh_state_def)

lemma le_version [simp]: "s \<le> ST_VERSION \<longleftrightarrow> s = ST_VERSION"
  by (cases s) (simp_all add: less_eq_ssh_state_def)

lemma advD: "advances c d \<Longrightarrow> state c \<le> state d"
  by (simp add: advances_def)

lemma adv_send_rel: "send_rel c d \<Longrightarrow> advances c d"
  using send_rel_frame(48) [of c d] by (auto simp: advances_def send_rel_frame(1-47))

text \<open>Updates of fields the preorder does not mention, and of those it does in the right direction.\<close>

lemma adv_upd [adv_intros]:
  assumes "advances c d"
  shows "advances c (d\<lparr>ioCtx := w\<rparr>)" "advances c (d\<lparr>blocks := v1\<rparr>)" "advances c (d\<lparr>rng := v2\<rparr>)"
    "advances c (d\<lparr>kex := k\<rparr>)" "advances c (d\<lparr>clientKexInit := v2\<rparr>)" "advances c (d\<lparr>serverKexInit := v2\<rparr>)"
    "advances c (d\<lparr>kexInitSent := q\<rparr>)" "advances c (d\<lparr>ignoreNextKexPacket := q\<rparr>)"
    "advances c (d\<lparr>nextEncKeyLenIn := n\<rparr>)" "advances c (d\<lparr>nextEncKeyLenOut := n\<rparr>)"
    "advances c (d\<lparr>nextMacTypeIn := m\<rparr>)" "advances c (d\<lparr>nextMacTypeOut := m\<rparr>)"
    "advances c (d\<lparr>pendKey := v2\<rparr>)" "advances c (d\<lparr>pendIv := v2\<rparr>)" "advances c (d\<lparr>pendMac := v2\<rparr>)"
    "advances c (d\<lparr>pendKeyLen := n\<rparr>)" "advances c (d\<lparr>pendMacType := m\<rparr>)"
    "advances c (d\<lparr>rx := v2\<rparr>)" "advances c (d\<lparr>rxHaveLen := q\<rparr>)" "advances c (d\<lparr>rxPktLen := u\<rparr>)"
    "advances c (d\<lparr>clientVersion := v2\<rparr>)" "advances c (d\<lparr>overrun := q\<rparr>)" "advances c (d\<lparr>versionSent := q\<rparr>)"
    "advances c (d\<lparr>inRing := g\<rparr>)" "advances c (d\<lparr>inHead := n\<rparr>)" "advances c (d\<lparr>inTail := n\<rparr>)"
    "advances c (d\<lparr>consumed := u\<rparr>)" "advances c (d\<lparr>remoteWindow := u\<rparr>)" "advances c (d\<lparr>remoteMaxPkt := u\<rparr>)"
    "advances c (d\<lparr>cols := u\<rparr>)" "advances c (d\<lparr>rows := u\<rparr>)"
    "advances c (d\<lparr>state := ST_CLOSED\<rparr>)" "advances c (d\<lparr>shellReady := True\<rparr>)" "advances c (d\<lparr>closeSent := True\<rparr>)"
    "advances c (d\<lparr>closeRecv := True\<rparr>)" "advances c (d\<lparr>remoteEof := True\<rparr>)"
    "advances c (d\<lparr>dir_in := (dir_in d)\<lparr>aes := v2\<rparr>\<rparr>)" "advances c (d\<lparr>dir_in := (dir_in d)\<lparr>seq := u\<rparr>\<rparr>)"
    "advances c (d\<lparr>authTries := authTries d + 1\<rparr>)"
  using assms by (auto simp: advances_def)

lemma adv_active [adv_intros]:
  "advances c d \<Longrightarrow> advances c (d\<lparr>dir_out := (dir_out d)\<lparr>aes := a, macKey := k, macType := t, macLen := l, macKeyLen := n, active := True\<rparr>\<rparr>)"
  by (simp add: advances_def)

lemma adv_send [adv_intros]:
  "advances c d \<Longrightarrow> advances c (snd (SendPacket h p d))" "advances c d \<Longrightarrow> advances c (Disconnect h e m d)"
  "advances c d \<Longrightarrow> advances c (snd (protocol_error h m d))" "advances c d \<Longrightarrow> advances c (snd (kex_fail h m d))"
  "advances c d \<Longrightarrow> advances c (snd (SendChannelReply h x d))"
  using adv_trans [OF _ adv_send_rel [OF SendPacket_rel]] adv_trans [OF _ adv_send_rel [OF Disconnect_rel]]
    adv_trans [OF _ adv_send_rel [OF SendChannelReply_rel]]
  by (simp_all add: protocol_error_def kex_fail_def)

lemma adv_if [adv_intros]:
  "(p \<Longrightarrow> advances c (snd x)) \<Longrightarrow> (\<not> p \<Longrightarrow> advances c (snd y)) \<Longrightarrow> advances c (snd (if p then x else y))"
  "(p \<Longrightarrow> advances c d) \<Longrightarrow> (\<not> p \<Longrightarrow> advances c e) \<Longrightarrow> advances c (if p then d else e)"
  by simp_all

lemma adv_pair [adv_intros]: "advances c d \<Longrightarrow> advances c (snd (r, d))"
  by simp

lemma adv_option [adv_intros]:
  "(v = None \<Longrightarrow> advances c (snd x)) \<Longrightarrow> (\<And>z. v = Some z \<Longrightarrow> advances c (snd (k z))) \<Longrightarrow>
   advances c (snd (case v of None \<Rightarrow> x | Some z \<Rightarrow> k z))"
  by (cases v) simp_all

subsection \<open>The handlers\<close>

lemma adv_SendKexInit [adv_intros]: "advances c d \<Longrightarrow> advances c (snd (SendKexInit h d))"
  unfolding SendKexInit_def Let_def split_beta by (intro adv_intros)

lemma adv_Negotiate [adv_intros]: "advances c d \<Longrightarrow> advances c (snd (Negotiate h d))"
  unfolding Negotiate_def Let_def split_beta by (intro adv_intros)

lemma adv_kexinit: "advances c d \<Longrightarrow> advances c (snd (handle_kexinit h p d))"
  unfolding handle_kexinit_def answer_kexinit_def Let_def split_beta by (intro adv_intros)

lemma adv_switch_out [adv_intros]: "advances c d \<Longrightarrow> advances c (snd (switch_out h ks d))"
  unfolding switch_out_def by (intro adv_intros)

lemma adv_answer_kexdh [adv_intros]: "advances c d \<Longrightarrow> advances c (snd (answer_kexdh h qs k hh d))"
  unfolding answer_kexdh_def Let_def split_beta by (intro adv_intros)

lemma adv_first_id: "advances c d \<Longrightarrow> \<not> haveSessionId d \<Longrightarrow> advances c (d\<lparr>sessionId := x, haveSessionId := True\<rparr>)"
  by (auto simp: advances_def)

lemma adv_DoKexDh [adv_intros]: "advances c d \<Longrightarrow> advances c (snd (DoKexDh h p d))"
  unfolding DoKexDh_def Let_def split_beta by (intro adv_intros adv_first_id) simp_all

lemma adv_ApplyNewKeys: "advances c d \<Longrightarrow> advances c (snd (ApplyNewKeys h d))"
  unfolding ApplyNewKeys_def by (intro adv_intros) (auto simp: advances_def less_eq_ssh_state_def)

lemma adv_HandleUserauth: "advances c d \<Longrightarrow> \<not> authenticated d \<Longrightarrow> state d = ST_AUTH \<Longrightarrow> advances c (snd (HandleUserauth h p d))"
proof -
  assume a: "advances c d" and n: "\<not> authenticated d" "state d = ST_AUTH"
  have u: "advances c (d\<lparr>user := x\<rparr>)" for x using a n by (auto simp: advances_def)
  have l: "advances c (d\<lparr>user := x, authenticated := True, state := ST_CONN\<rparr>)" for x
    using a n by (auto simp: advances_def less_eq_ssh_state_def)
  show ?thesis unfolding HandleUserauth_def check_login_def SendAuthFailure_def Let_def split_beta
    using u l a by (intro adv_intros) auto
qed

lemma adv_requests:
  assumes "advances c d"
  shows "advances c (snd (handle_service_request h p d))" "advances c (snd (handle_global_request h p d))"
  unfolding handle_service_request_def handle_global_request_def Let_def split_beta by (intro adv_intros assms)+

lemma adv_RingPush: "advances c d \<Longrightarrow> advances c (RingPush ds d)"
  by (induction ds d rule: RingPush.induct) (simp_all add: Let_def adv_intros)

lemma adv_channel_request: "advances c d \<Longrightarrow> advances c (snd (channel_request t r d))"
  unfolding channel_request_def set_dims_def Let_def split_beta by (intro adv_intros)

lemma adv_channel:
  "advances c d \<Longrightarrow> advances c (snd (HandleChannelOpen h p d))"
  "advances c d \<Longrightarrow> advances c (snd (HandleChannelRequest h p d))"
  "advances c d \<Longrightarrow> advances c (snd (handle_channel_data h p d))"
  "advances c d \<Longrightarrow> advances c (snd (handle_window_adjust p d))"
  "advances c d \<Longrightarrow> advances c (snd (handle_channel_close h d))"
proof -
  assume a: "advances c d"
  have "advances c (d\<lparr>chanOpen := True, remoteChan := x, remoteWindow := y, remoteMaxPkt := z, closeSent := False,
      closeRecv := False, remoteEof := False\<rparr>)" if "\<not> chanOpen d" for x y z
    using a that by (auto simp: advances_def)
  then show "advances c (snd (HandleChannelOpen h p d))"
    unfolding HandleChannelOpen_def Let_def split_beta using a by (intro adv_intros) auto
  show "advances c (snd (HandleChannelRequest h p d))" "advances c (snd (handle_channel_data h p d))"
    "advances c (snd (handle_window_adjust p d))" "advances c (snd (handle_channel_close h d))"
    unfolding HandleChannelRequest_def handle_channel_data_def handle_window_adjust_def handle_channel_close_def Let_def split_beta
    by (intro adv_intros adv_channel_request adv_RingPush a)+
qed

lemma adv_dispatch:
  assumes "advances c d" and "state d = ST_AUTH \<longrightarrow> \<not> authenticated d"
  shows "advances c (snd (dispatch_msg h msg p d))"
  by (rule dispatch_msg_branches)
    (use assms in \<open>simp_all add: adv_intros adv_kexinit adv_ApplyNewKeys adv_requests adv_HandleUserauth adv_channel\<close>)

lemma adv_HandlePacket:
  assumes "advances c d" and "conn_inv d"
  shows "advances c (snd (HandlePacket h p d))"
proof -
  have "state d = ST_AUTH \<longrightarrow> \<not> authenticated d" using conn_invD(2) [OF assms(2)] by (auto simp: auth_inv_def)
  then show ?thesis unfolding HandlePacket_def Let_def using assms(1) by (intro adv_intros adv_dispatch)
qed

subsection \<open>Input assembly\<close>

lemma adv_consume_line: "advances c d \<Longrightarrow> advances c (snd (consume_line h i d))"
  unfolding consume_line_def Let_def split_beta by (intro adv_intros)

lemma adv_version: "state d = ST_VERSION \<Longrightarrow> advances c d \<Longrightarrow> advances c (snd (process_version h d))"
proof -
  assume s: "state d = ST_VERSION" and a: "advances c d"
  have n: "advances c (d\<lparr>clientVersion := x, overrun := y, state := ST_KEX, kex := z\<rparr>)" for x y z
    using s a by (auto simp: advances_def less_eq_ssh_state_def)
  show ?thesis unfolding process_version_def Let_def split_beta
    by (intro adv_if adv_consume_line n a adv_send adv_pair)
qed

lemma adv_split [adv_intros]:
  "(\<And>x y. q = (x, y) \<Longrightarrow> advances c (snd (k x y))) \<Longrightarrow> advances c (snd (case q of (x, y) \<Rightarrow> k x y))"
  by (cases q) simp

lemma adv_take_length: "advances c d \<Longrightarrow> advances c (snd (take_length h d))"
  unfolding take_length_def check_len_def Let_def by (intro adv_intros)

lemma adv_open_packet: "advances c d \<Longrightarrow> advances c (snd (open_packet h n d))"
  unfolding open_packet_def check_mac_def Let_def by (intro adv_intros)

lemma adv_deliver_packet: "advances c d \<Longrightarrow> conn_inv d \<Longrightarrow> advances c (snd (deliver_packet h n d))"
  unfolding deliver_packet_def Let_def split_beta
  by (intro adv_intros adv_HandlePacket) (simp_all add: conn_inv_dir_in)

lemma adv_process_packet:
  assumes "advances c d" and "conn_inv d"
  shows "advances c (snd (process_packet h d))"
proof -
  obtain o1 c1 where 1: "take_length h d = (o1, c1)" by (cases "take_length h d")
  obtain o2 c2 where 2: "open_packet h (4 + unat (rxPktLen c1)) c1 = (o2, c2)"
    by (cases "open_packet h (4 + unat (rxPktLen c1)) c1")
  have a1: "advances c c1" using adv_take_length [OF assms(1), of h] 1 by simp
  have a2: "advances c c2" using adv_open_packet [OF a1, of h "4 + unat (rxPktLen c1)"] 2 by simp
  have i1: "conn_inv c1" using conn_inv_take_length [OF assms(2), of h] 1 by simp
  have i2: "conn_inv c2" if "4 + unat (rxPktLen c1) \<le> length (rx c1)"
    using conn_inv_open_packet [OF i1 that, of h] 2 by simp
  show ?thesis
    using a1 a2 i2 adv_deliver_packet [OF a2] by (simp add: process_packet_def 1 2 Let_def split: option.split)
qed

lemma adv_TryProcessOne: "advances c d \<Longrightarrow> conn_inv d \<Longrightarrow> advances c (snd (TryProcessOne h d))"
  by (simp add: TryProcessOne_def adv_version adv_process_packet)

text \<open>With the invariant, which the steps need and keep.\<close>

definition going :: "'w conn \<Rightarrow> 'w conn \<Rightarrow> bool" where
  "going c d \<longleftrightarrow> advances c d \<and> conn_inv d"

lemma going_process_pending: "going c d \<Longrightarrow> going c (snd (snd (process_pending h any d)))"
proof (induction h any d rule: process_pending.induct)
  case (1 h any d)
  obtain r d' where t: "TryProcessOne h d = (r, d')" by (cases "TryProcessOne h d")
  then have "going c d'"
    using 1(2) adv_TryProcessOne [of c d h] conn_inv_TryProcessOne [of d h] by (simp add: going_def)
  with 1(1) [OF t [symmetric] refl] show ?case
    by (subst process_pending.simps) (simp add: t)
qed

lemma going_read_input: "read_fits h \<Longrightarrow> going c d \<Longrightarrow> going c (snd (read_input h d))"
proof -
  assume "read_fits h" and g: "going c d"
  then have "conn_inv (snd (read_input h d))" using conn_inv_read_input by (auto simp: going_def)
  moreover have "advances c (snd (read_input h d))"
    using g by (auto simp: read_input_def going_def intro!: adv_intros split: prod.split rd_result.split)
  ultimately show ?thesis by (simp add: going_def)
qed

lemma going_waits: "read_fits h \<Longrightarrow> waits_keep h (going c)"
  unfolding waits_keep_def ProcessInput_def
  using process_loop_preserves [of h False _ _ "going c"] going_read_input going_process_pending
  by (auto simp: going_def adv_intros; blast)

subsection \<open>The calls\<close>

lemma going_send: "going c d \<Longrightarrow> going c (snd (SendPacket h p d))" "going c d \<Longrightarrow> going c (Disconnect h e m d)"
  "going c d \<Longrightarrow> going c (snd (SendChannelReply h x d))"
  by (simp_all add: going_def adv_intros inv_intros)

lemma adv_read_ring:
  assumes "advances c d"
  shows "advances c (snd (snd (read_ring h n d)))"
proof -
  obtain t where t: "snd (ring_take n d) = d\<lparr>inTail := t\<rparr>" using ring_take_only by blast
  have "advances c (adjust_window h (d\<lparr>inTail := t, consumed := u\<rparr>))" for u
    unfolding adjust_window_def Let_def split_beta using assms by (intro adv_intros)
  then show ?thesis using assms by (simp add: read_ring_def Let_def split_beta t)
qed

lemma going_step:
  assumes s: "api_step h d d'" and f: "read_fits h" and g: "going c d"
  shows "going c d'"
proof -
  note w = going_waits [OF f, of c]
  have i: "conn_inv d'" using api_step_inv [OF s f] g by (simp add: going_def)
  from s show ?thesis
  proof cases
    case (step_accept r)
    obtain t w where t: "RtNow h (ioCtx d) = (t, w)" by (cases "RtNow h (ioCtx d)")
    obtain ok d1 where v: "send_version h (d\<lparr>ioCtx := w\<rparr>) = (ok, d1)" by (cases "send_version h (d\<lparr>ioCtx := w\<rparr>)")
    have "going c d1" using g conn_inv_send_version [of "d\<lparr>ioCtx := w\<rparr>" h] v
      by (auto simp: going_def send_version_def Let_def split_beta adv_intros split: if_splits)
    then show ?thesis using step_accept t v accept_loop_preserves [of h t 0 d1 _ "going c"] w going_send(2)
      by (fastforce simp: SshAccept_def split: if_splits)
  next
    case (step_poll r)
    then show ?thesis using waits_keepD(1) [OF w g] by (fastforce simp: SshPoll_def)
  next
    case (step_read n r bs)
    then obtain a b e where p: "ProcessInput h d = Some (a, b, e)" "read_ring h n e = (r, bs, d')" by (auto simp: SshRead_def)
    have "going c e" using waits_keepD(1) [OF w g p(1)] by simp
    then have "advances c (snd (snd (read_ring h n e)))" by (simp add: going_def adv_read_ring)
    then show ?thesis using p i by (simp add: going_def)
  next
    case (step_write buf r)
    have "going c (snd (write_turn h b e))" if "going c e" for b e
      using that conn_inv_write_turn [of e h b]
      by (auto simp: going_def write_turn_def Let_def split_beta adv_intros)
    then show ?thesis using SshWrite_preserves [of h buf d _ "going c", OF _ g w] step_write by fastforce
  next
    case (step_close e)
    show ?thesis
    proof (cases "state d = ST_CONN \<and> chanOpen d \<and> \<not> closeSent d")
      case True
      let ?d = "send_close h e d"
      have "advances c ?d" using g by (auto simp: send_close_def Let_def going_def intro!: adv_intros)
      then have gd: "going c ?d" using g by (simp add: going_def conn_inv_send_close)
      obtain t w d1 where 1: "close_wait h t 0 (?d\<lparr>ioCtx := w\<rparr>) = Some d1" "d' = end_session h d1"
        using step_close True by (auto simp: SshClose_def Let_def split_beta)
      have "going c (?d\<lparr>ioCtx := w\<rparr>)" using gd by (simp add: going_def adv_intros)
      from close_wait_preserves [OF 1(1) this w] show ?thesis using 1(2) by (simp add: end_session_def going_send(2))
    next
      case False
      then have "SshClose h e d = Some (end_session h d)" unfolding SshClose_def by (rule if_not_P)
      then show ?thesis using step_close g by (simp add: end_session_def going_send(2))
    qed
  next
    case (step_world w)
    then show ?thesis using g by (simp add: going_def adv_intros)
  qed
qed

lemma going_steps:
  assumes "(api_step h)\<^sup>*\<^sup>* c d" and f: "read_fits h" and i: "conn_inv c"
  shows "going c d"
  using assms(1)
proof (induction rule: rtranclp_induct)
  case base
  show ?case using i by (simp add: going_def adv_refl)
next
  case (step y z)
  show ?case by (rule going_step [OF step.hyps(2) f step.IH])
qed

lemma nothing_lost_lemma:
  assumes "read_fits h" and "reachable h c" and "(api_step h)\<^sup>*\<^sup>* c d"
  shows "advances c d"
  using going_steps [OF assms(3,1) reachable_inv_lemma [OF assms(1,2)]] by (simp add: going_def)

subsection \<open>Properties\<close>



end
