(* ===== verification/Segment.thy ===== *)
theory Segment
  imports Phase
begin

text \<open>
  The transport may cut the client's byte stream anywhere: what the server does with it depends on
  the bytes only. The handlers neither look at the bytes behind the packet in hand nor at what the
  transport still holds (locale \<open>unseen_input\<close>), the packet decoder resumes where it stopped, and
  so \<open>ProcessInput\<close> ends in the same state for every way of cutting the same bytes.
\<close>

subsection \<open>Input nobody has looked at yet\<close>

text \<open>More bytes at the end of the buffer, and a change \<open>f\<close> of what the transport holds.\<close>

definition unseen :: "('w \<Rightarrow> 'w) \<Rightarrow> bytes \<Rightarrow> 'w conn \<Rightarrow> 'w conn" where
  "unseen f b c = c\<lparr>ioCtx := f (ioCtx c), rx := rx c @ b\<rparr>"

lemma unseen_sel [simp]:
  "ioCtx (unseen f b c) = f (ioCtx c)" "rx (unseen f b c) = rx c @ b" "blocks (unseen f b c) = blocks c"
  "rng (unseen f b c) = rng c" "hostKey (unseen f b c) = hostKey c" "hostPub (unseen f b c) = hostPub c"
  "state (unseen f b c) = state c" "kex (unseen f b c) = kex c" "clientVersion (unseen f b c) = clientVersion c"
  "clientKexInit (unseen f b c) = clientKexInit c" "serverKexInit (unseen f b c) = serverKexInit c"
  "kexInitSent (unseen f b c) = kexInitSent c" "ignoreNextKexPacket (unseen f b c) = ignoreNextKexPacket c"
  "nextEncKeyLenIn (unseen f b c) = nextEncKeyLenIn c" "nextEncKeyLenOut (unseen f b c) = nextEncKeyLenOut c"
  "nextMacTypeIn (unseen f b c) = nextMacTypeIn c" "nextMacTypeOut (unseen f b c) = nextMacTypeOut c"
  "sessionId (unseen f b c) = sessionId c" "haveSessionId (unseen f b c) = haveSessionId c"
  "dir_in (unseen f b c) = dir_in c" "dir_out (unseen f b c) = dir_out c" "pendKey (unseen f b c) = pendKey c"
  "pendIv (unseen f b c) = pendIv c" "pendMac (unseen f b c) = pendMac c" "pendKeyLen (unseen f b c) = pendKeyLen c"
  "pendMacType (unseen f b c) = pendMacType c" "rxHaveLen (unseen f b c) = rxHaveLen c" "rxPktLen (unseen f b c) = rxPktLen c"
  "inRing (unseen f b c) = inRing c" "inHead (unseen f b c) = inHead c" "inTail (unseen f b c) = inTail c"
  "consumed (unseen f b c) = consumed c" "chanOpen (unseen f b c) = chanOpen c" "remoteChan (unseen f b c) = remoteChan c"
  "remoteWindow (unseen f b c) = remoteWindow c" "remoteMaxPkt (unseen f b c) = remoteMaxPkt c"
  "shellReady (unseen f b c) = shellReady c" "remoteEof (unseen f b c) = remoteEof c" "closeSent (unseen f b c) = closeSent c"
  "closeRecv (unseen f b c) = closeRecv c" "cols (unseen f b c) = cols c" "rows (unseen f b c) = rows c"
  "authenticated (unseen f b c) = authenticated c" "authTries (unseen f b c) = authTries c" "user (unseen f b c) = user c"
  "overrun (unseen f b c) = overrun c" "versionSent (unseen f b c) = versionSent c"
  by (simp_all add: unseen_def)

lemma unseen_upd [simp]:
  "(unseen f b c)\<lparr>ioCtx := f w\<rparr> = unseen f b (c\<lparr>ioCtx := w\<rparr>)" "(unseen f b c)\<lparr>rx := xs @ b\<rparr> = unseen f b (c\<lparr>rx := xs\<rparr>)"
  "(unseen f b c)\<lparr>blocks := v1\<rparr> = unseen f b (c\<lparr>blocks := v1\<rparr>)" "(unseen f b c)\<lparr>rng := v2\<rparr> = unseen f b (c\<lparr>rng := v2\<rparr>)"
  "(unseen f b c)\<lparr>state := v3\<rparr> = unseen f b (c\<lparr>state := v3\<rparr>)" "(unseen f b c)\<lparr>kex := v4\<rparr> = unseen f b (c\<lparr>kex := v4\<rparr>)"
  "(unseen f b c)\<lparr>clientVersion := v2\<rparr> = unseen f b (c\<lparr>clientVersion := v2\<rparr>)"
  "(unseen f b c)\<lparr>clientKexInit := v2\<rparr> = unseen f b (c\<lparr>clientKexInit := v2\<rparr>)"
  "(unseen f b c)\<lparr>serverKexInit := v2\<rparr> = unseen f b (c\<lparr>serverKexInit := v2\<rparr>)"
  "(unseen f b c)\<lparr>kexInitSent := q\<rparr> = unseen f b (c\<lparr>kexInitSent := q\<rparr>)"
  "(unseen f b c)\<lparr>ignoreNextKexPacket := q\<rparr> = unseen f b (c\<lparr>ignoreNextKexPacket := q\<rparr>)"
  "(unseen f b c)\<lparr>nextEncKeyLenIn := n\<rparr> = unseen f b (c\<lparr>nextEncKeyLenIn := n\<rparr>)"
  "(unseen f b c)\<lparr>nextEncKeyLenOut := n\<rparr> = unseen f b (c\<lparr>nextEncKeyLenOut := n\<rparr>)"
  "(unseen f b c)\<lparr>nextMacTypeIn := m\<rparr> = unseen f b (c\<lparr>nextMacTypeIn := m\<rparr>)"
  "(unseen f b c)\<lparr>nextMacTypeOut := m\<rparr> = unseen f b (c\<lparr>nextMacTypeOut := m\<rparr>)"
  "(unseen f b c)\<lparr>sessionId := v2\<rparr> = unseen f b (c\<lparr>sessionId := v2\<rparr>)"
  "(unseen f b c)\<lparr>haveSessionId := q\<rparr> = unseen f b (c\<lparr>haveSessionId := q\<rparr>)"
  "(unseen f b c)\<lparr>dir_in := d\<rparr> = unseen f b (c\<lparr>dir_in := d\<rparr>)" "(unseen f b c)\<lparr>dir_out := d\<rparr> = unseen f b (c\<lparr>dir_out := d\<rparr>)"
  "(unseen f b c)\<lparr>pendKey := v2\<rparr> = unseen f b (c\<lparr>pendKey := v2\<rparr>)" "(unseen f b c)\<lparr>pendIv := v2\<rparr> = unseen f b (c\<lparr>pendIv := v2\<rparr>)"
  "(unseen f b c)\<lparr>pendMac := v2\<rparr> = unseen f b (c\<lparr>pendMac := v2\<rparr>)" "(unseen f b c)\<lparr>pendKeyLen := n\<rparr> = unseen f b (c\<lparr>pendKeyLen := n\<rparr>)"
  "(unseen f b c)\<lparr>pendMacType := m\<rparr> = unseen f b (c\<lparr>pendMacType := m\<rparr>)"
  "(unseen f b c)\<lparr>rxHaveLen := q\<rparr> = unseen f b (c\<lparr>rxHaveLen := q\<rparr>)" "(unseen f b c)\<lparr>rxPktLen := u\<rparr> = unseen f b (c\<lparr>rxPktLen := u\<rparr>)"
  "(unseen f b c)\<lparr>inRing := g\<rparr> = unseen f b (c\<lparr>inRing := g\<rparr>)" "(unseen f b c)\<lparr>inHead := n\<rparr> = unseen f b (c\<lparr>inHead := n\<rparr>)"
  "(unseen f b c)\<lparr>inTail := n\<rparr> = unseen f b (c\<lparr>inTail := n\<rparr>)" "(unseen f b c)\<lparr>consumed := u\<rparr> = unseen f b (c\<lparr>consumed := u\<rparr>)"
  "(unseen f b c)\<lparr>chanOpen := q\<rparr> = unseen f b (c\<lparr>chanOpen := q\<rparr>)" "(unseen f b c)\<lparr>remoteChan := u\<rparr> = unseen f b (c\<lparr>remoteChan := u\<rparr>)"
  "(unseen f b c)\<lparr>remoteWindow := u\<rparr> = unseen f b (c\<lparr>remoteWindow := u\<rparr>)"
  "(unseen f b c)\<lparr>remoteMaxPkt := u\<rparr> = unseen f b (c\<lparr>remoteMaxPkt := u\<rparr>)"
  "(unseen f b c)\<lparr>shellReady := q\<rparr> = unseen f b (c\<lparr>shellReady := q\<rparr>)" "(unseen f b c)\<lparr>remoteEof := q\<rparr> = unseen f b (c\<lparr>remoteEof := q\<rparr>)"
  "(unseen f b c)\<lparr>closeSent := q\<rparr> = unseen f b (c\<lparr>closeSent := q\<rparr>)" "(unseen f b c)\<lparr>closeRecv := q\<rparr> = unseen f b (c\<lparr>closeRecv := q\<rparr>)"
  "(unseen f b c)\<lparr>cols := u\<rparr> = unseen f b (c\<lparr>cols := u\<rparr>)" "(unseen f b c)\<lparr>rows := u\<rparr> = unseen f b (c\<lparr>rows := u\<rparr>)"
  "(unseen f b c)\<lparr>authenticated := q\<rparr> = unseen f b (c\<lparr>authenticated := q\<rparr>)" "(unseen f b c)\<lparr>authTries := n\<rparr> = unseen f b (c\<lparr>authTries := n\<rparr>)"
  "(unseen f b c)\<lparr>user := v2\<rparr> = unseen f b (c\<lparr>user := v2\<rparr>)" "(unseen f b c)\<lparr>overrun := q\<rparr> = unseen f b (c\<lparr>overrun := q\<rparr>)"
  by (simp_all add: unseen_def)

lemma apsnd_branch:
  "apsnd g (if p then x else y) = (if p then apsnd g x else apsnd g y)"
  "apsnd g (case v of None \<Rightarrow> x | Some z \<Rightarrow> k z) = (case v of None \<Rightarrow> apsnd g x | Some z \<Rightarrow> apsnd g (k z))"
  by (simp_all split: option.split)

subsection \<open>The decoder\<close>

text \<open>A complete packet never leaves the decoder waiting.\<close>

lemma process_packet_enough:
  assumes "take_length h c = (None, c1)"
    and "4 + unat (rxPktLen c1) + (if active (dir_in c1) then macLen (dir_in c1) else 0) \<le> length (rx c1)"
  shows "fst (process_packet h c) \<noteq> 0"
proof -
  obtain o2 c2 where 2: "open_packet h (4 + unat (rxPktLen c1)) c1 = (o2, c2)"
    by (cases "open_packet h (4 + unat (rxPktLen c1)) c1")
  have "o2 \<noteq> Some 0" using open_packet_rc [of h "4 + unat (rxPktLen c1)" c1] 2 by auto
  then show ?thesis using assms 2 by (cases o2) (simp_all add: process_packet_def Let_def)
qed

lemma GetU32_append: "4 \<le> length p \<Longrightarrow> GetU32 (p @ t) = GetU32 p"
  using GetU32_take [of p] GetU32_take [of "p @ t"] by simp

lemma overwrite_append: "i + n \<le> length xs \<Longrightarrow> overwrite i n d (xs @ b) = overwrite i n d xs @ b"
  by (simp add: overwrite_def)

lemma take_length_enough:
  assumes "take_length h c = (None, c1)" and "conn_inv c"
  shows "5 \<le> unat (rxPktLen c1)" and "rxHaveLen c1"
proof -
  have "5 \<le> unat (rxPktLen c1) \<and> rxHaveLen c1"
  proof (cases "rxHaveLen c")
    case True
    with assms show ?thesis by (auto simp: take_length_def conn_inv_def buf_inv_def)
  next
    case False
    then obtain d where "check_len h d = (None, c1)"
      using assms(1) by (auto simp: take_length_def Let_def split: if_splits prod.splits option.splits)
    from check_len_None [OF this] show ?thesis by simp
  qed
  then show "5 \<le> unat (rxPktLen c1)" "rxHaveLen c1" by simp_all
qed

lemma take_length_state: "take_length h c = (None, c1) \<Longrightarrow> state c1 = state c"
proof -
  assume t: "take_length h c = (None, c1)"
  have "state c1 = state d" if "check_len h d = (None, c1)" for d using check_len_None [OF that] by simp
  with t show ?thesis by (fastforce simp: take_length_def Let_def split: if_splits prod.splits option.splits)
qed

lemma process_packet_waits:
  assumes "process_packet h c = (0, c')"
  shows "c' = c \<or> take_length h c = (None, c')"
proof -
  obtain o1 c1 where 1: "take_length h c = (o1, c1)" by (cases "take_length h c")
  show ?thesis
  proof (cases o1)
    case None
    let ?t = "4 + unat (rxPktLen c1)"
    let ?n = "?t + (if active (dir_in c1) then macLen (dir_in c1) else 0)"
    obtain o2 c2 where 2: "open_packet h ?t c1 = (o2, c2)" by (cases "open_packet h ?t c1")
    have e: "process_packet h c = (if length (rx c1) < ?n then (0, c1)
        else case o2 of Some rc \<Rightarrow> (rc, c2) | None \<Rightarrow> deliver_packet h ?n c2)"
      using 1 2 None by (simp add: process_packet_def Let_def)
    have "o2 \<noteq> Some 0" using open_packet_rc [of h ?t c1] 2 by auto
    moreover have "deliver_packet h ?n c2 \<noteq> (0, c')" using turn_nonzero(1) [of h ?n c2] by (metis fst_conv)
    ultimately have "c' = c1" using assms unfolding e by (auto split: if_splits option.splits)
    then show ?thesis using 1 None by simp
  next
    case (Some r)
    then have "take_length h c = (Some 0, c')" using assms 1 by (simp add: process_packet_def)
    then show ?thesis
      by (auto simp: take_length_def check_len_def Let_def split: if_splits prod.splits option.splits)
  qed
qed

lemma process_version_newline: "0 < fst (process_version h c) \<Longrightarrow> 10 \<in> set (rx c)"
proof (rule ccontr)
  assume p: "0 < fst (process_version h c)" and "10 \<notin> set (rx c)"
  then have "takeWhile (\<lambda>b. b \<noteq> 10) (rx c) = rx c" by (auto simp: takeWhile_eq_all_conv)
  with p show False by (simp add: process_version_def split: if_splits)
qed

lemma pending_step:
  "process_pending h any c = (if fst (TryProcessOne h c) < 0 then (False, any, snd (TryProcessOne h c))
     else if fst (TryProcessOne h c) = 0 then (True, any, snd (TryProcessOne h c))
     else process_pending h True (snd (TryProcessOne h c)))"
  by (subst process_pending.simps) (simp add: split_beta)

text \<open>
  A version line is refused for its length only while its newline is missing, so there the cut can
  matter; below the limit it does not.
\<close>

definition short_line :: "'w conn \<Rightarrow> bool" where
  "short_line c \<longleftrightarrow> state c = ST_VERSION \<longrightarrow> length (rx c) < 255"

lemma process_version_refuses: "fst (process_version h c) < 0 \<Longrightarrow> 10 \<in> set (rx c) \<or> 255 \<le> length (rx c)"
proof (rule ccontr)
  assume p: "fst (process_version h c) < 0" and n: "\<not> (10 \<in> set (rx c) \<or> 255 \<le> length (rx c))"
  then have "takeWhile (\<lambda>b. b \<noteq> 10) (rx c) = rx c" by (auto simp: takeWhile_eq_all_conv)
  with p n show False by (simp add: process_version_def)
qed

lemma short_line_kept:
  assumes "conn_inv c" "short_line c" "length (rx d) \<le> length (rx c)" "state c \<le> state d"
  shows "short_line d"
  using assms by (auto simp: short_line_def)

lemma TryProcessOne_short: "conn_inv c \<Longrightarrow> short_line c \<Longrightarrow> 0 < fst (TryProcessOne h c) \<Longrightarrow> short_line (snd (TryProcessOne h c))"
  using TryProcessOne_progress [of h c] advD [OF adv_TryProcessOne [OF adv_refl, of c h]]
  by (auto simp: short_line_def)

subsection \<open>The handlers\<close>

text \<open>
  The handlers reach the transport and the pool in three ways. A change of the world that these
  three calls carry along is one no handler can tell.
\<close>

locale unseen_input =
  fixes h :: "'w host" and f :: "'w \<Rightarrow> 'w"
  assumes wr_unseen: "wr h (f w) bs = apsnd f (wr h w bs)"
    and alloc_unseen: "AllocatePool h n (f w) = apsnd f (AllocatePool h n w)"
    and free_unseen: "FreePool h a (f w) = f (FreePool h a w)"
begin

lemma RtAlloc_unseen: "RtAlloc_block h n (f w) = apsnd f (RtAlloc_block h n w)"
  by (simp add: RtAlloc_block_def Let_def alloc_unseen split: prod.split option.split)

lemma RtFree_unseen: "RtFree_block h p (f w) = f (RtFree_block h p w)"
  by (simp add: RtFree_block_def free_unseen)

lemma send_wire_unseen: "send_wire h bs (unseen f b c) = apsnd (unseen f b) (send_wire h bs c)"
  by (simp add: send_wire_def Let_def wr_unseen split_beta)

lemma seal_unseen: "seal_and_send h tx (unseen f b c) = apsnd (unseen f b) (seal_and_send h tx c)"
  by (simp add: seal_and_send_def send_wire_unseen split: prod.split option.split)

lemma SendPacket_unseen: "SendPacket h p (unseen f b c) = apsnd (unseen f b) (SendPacket h p c)"
  by (simp add: SendPacket_def Let_def seal_unseen split: prod.split option.split)

lemma Disconnect_unseen: "Disconnect h e m (unseen f b c) = unseen f b (Disconnect h e m c)"
  by (simp add: Disconnect_def SendPacket_unseen)

lemma errors_unseen:
  "protocol_error h m (unseen f b c) = apsnd (unseen f b) (protocol_error h m c)"
  "kex_fail h m (unseen f b c) = apsnd (unseen f b) (kex_fail h m c)"
  by (simp_all add: protocol_error_def kex_fail_def Disconnect_unseen)

lemmas sends_unseen = SendPacket_unseen Disconnect_unseen errors_unseen

lemma SendKexInit_unseen: "SendKexInit h (unseen f b c) = apsnd (unseen f b) (SendKexInit h c)"
  by (simp add: SendKexInit_def Let_def RtAlloc_unseen RtFree_unseen sends_unseen split_beta split: option.split)

lemma Negotiate_unseen: "Negotiate h (unseen f b c) = apsnd (unseen f b) (Negotiate h c)"
  by (simp add: Negotiate_def Let_def sends_unseen split_beta apsnd_branch cong: option.case_cong if_cong)

lemma handle_kexinit_unseen: "handle_kexinit h p (unseen f b c) = apsnd (unseen f b) (handle_kexinit h p c)"
proof -
  have "answer_kexinit h (unseen f b d) = apsnd (unseen f b) (answer_kexinit h d)" for d
    by (simp add: answer_kexinit_def Let_def sends_unseen SendKexInit_unseen Negotiate_unseen split_beta)
  then show ?thesis
    by (simp add: handle_kexinit_def Let_def RtAlloc_unseen RtFree_unseen sends_unseen split_beta)
qed

lemma answer_kexdh_unseen: "answer_kexdh h qs k hh (unseen f b c) = apsnd (unseen f b) (answer_kexdh h qs k hh c)"
proof -
  have s: "switch_out h ks (unseen f b d) = apsnd (unseen f b) (switch_out h ks d)" for ks d
    by (simp add: switch_out_def sends_unseen split: option.split)
  have "derive_keys h (unseen f b c) k hh = derive_keys h c k hh" by (simp add: derive_keys_def DeriveKey_def)
  then show ?thesis
    by (simp add: answer_kexdh_def Let_def sends_unseen s split_beta split: option.split)
qed

lemma DoKexDh_unseen: "DoKexDh h p (unseen f b c) = apsnd (unseen f b) (DoKexDh h p c)"
proof -
  have e: "exchange_hash h (unseen f b d) qc qs k = exchange_hash h d qc qs k" for d qc qs k by (simp add: exchange_hash_def)
  show ?thesis
    by (simp add: DoKexDh_def Let_def sends_unseen e answer_kexdh_unseen split_beta split: option.split)
qed

lemma ApplyNewKeys_unseen: "ApplyNewKeys h (unseen f b c) = apsnd (unseen f b) (ApplyNewKeys h c)"
  by (simp add: ApplyNewKeys_def sends_unseen split: option.split)

lemma HandleUserauth_unseen: "HandleUserauth h p (unseen f b c) = apsnd (unseen f b) (HandleUserauth h p c)"
  by (simp add: HandleUserauth_def check_login_def SendAuthFailure_def Let_def sends_unseen split_beta)

lemma requests_unseen:
  "handle_service_request h p (unseen f b c) = apsnd (unseen f b) (handle_service_request h p c)"
  "handle_global_request h p (unseen f b c) = apsnd (unseen f b) (handle_global_request h p c)"
  by (simp_all add: handle_service_request_def handle_global_request_def Let_def sends_unseen split_beta)

lemma RingPush_unseen: "RingPush ds (unseen f b c) = unseen f b (RingPush ds c)"
  by (induction ds c rule: RingPush.induct) (simp_all add: Let_def)

lemma channel_request_unseen: "channel_request t r (unseen f b c) = apsnd (unseen f b) (channel_request t r c)"
proof -
  have d: "set_dims co ro (unseen f b d) = unseen f b (set_dims co ro d)" for co ro d by (simp add: set_dims_def Let_def)
  show ?thesis unfolding channel_request_def Let_def split_beta d apsnd_branch(1) apsnd_conv unseen_upd
    by (simp only: if_distrib [of "unseen f b"])
qed

lemma channel_unseen:
  "HandleChannelOpen h p (unseen f b c) = apsnd (unseen f b) (HandleChannelOpen h p c)"
  "HandleChannelRequest h p (unseen f b c) = apsnd (unseen f b) (HandleChannelRequest h p c)"
  "handle_channel_data h p (unseen f b c) = apsnd (unseen f b) (handle_channel_data h p c)"
  "handle_window_adjust p (unseen f b c) = apsnd (unseen f b) (handle_window_adjust p c)"
  "handle_channel_close h (unseen f b c) = apsnd (unseen f b) (handle_channel_close h c)"
  by (simp_all add: HandleChannelOpen_def HandleChannelRequest_def handle_channel_data_def handle_window_adjust_def
      handle_channel_close_def SendChannelReply_def Let_def sends_unseen RingPush_unseen channel_request_unseen split_beta)

lemma dispatch_unseen: "dispatch_msg h msg p (unseen f b c) = apsnd (unseen f b) (dispatch_msg h msg p c)"
  unfolding dispatch_msg_def apsnd_branch(1)
  by (simp only: unseen_sel unseen_upd sends_unseen handle_kexinit_unseen DoKexDh_unseen ApplyNewKeys_unseen
      HandleUserauth_unseen requests_unseen channel_unseen apsnd_conv)

lemma HandlePacket_unseen: "HandlePacket h p (unseen f b c) = apsnd (unseen f b) (HandlePacket h p c)"
  by (simp add: HandlePacket_def Let_def sends_unseen dispatch_unseen)


subsubsection \<open>The packet decoder\<close>

lemma check_len_unseen: "4 \<le> length (rx c) \<Longrightarrow> check_len h (unseen f b c) = apsnd (unseen f b) (check_len h c)"
  by (simp add: check_len_def Let_def sends_unseen GetU32_append)

lemma take_length_unseen:
  assumes "fst (take_length h c) \<noteq> Some 0"
  shows "take_length h (unseen f b c) = apsnd (unseen f b) (take_length h c)"
proof -
  have l: "rxHaveLen c \<or> (if active (dir_in c) then 16 else 4) \<le> length (rx c)" (is ?l)
  proof (rule ccontr)
    assume "\<not> ?l"
    then have "take_length h c = (Some 0, c)" by (simp add: take_length_def)
    with assms show False by simp
  qed
  have "check_len h (unseen f b (c\<lparr>dir_in := d, rx := overwrite 0 16 e (rx c)\<rparr>)) =
      apsnd (unseen f b) (check_len h (c\<lparr>dir_in := d, rx := overwrite 0 16 e (rx c)\<rparr>))" if "16 \<le> length (rx c)" for d e
    by (rule check_len_unseen) (use that in simp)
  with l check_len_unseen [of c b] show ?thesis
    by (auto simp: take_length_def Let_def sends_unseen overwrite_append apsnd_branch split: prod.split option.split)
qed

lemma check_mac_unseen:
  assumes "n + macLen (dir_in c) \<le> length (rx c)"
  shows "check_mac h n (unseen f b c) = apsnd (unseen f b) (check_mac h n c)"
proof -
  have "mac_diff (macLen (dir_in c)) mac (rx c @ b) n = mac_diff (macLen (dir_in c)) mac (rx c) n" for mac
    unfolding mac_diff_def by (intro foldl_cong refl) (use assms in \<open>simp add: nth_append\<close>)
  with assms show ?thesis by (simp add: check_mac_def sends_unseen split: option.split)
qed

lemma open_packet_unseen:
  assumes "n + (if active (dir_in c) then macLen (dir_in c) else 0) \<le> length (rx c)"
  shows "open_packet h n (unseen f b c) = apsnd (unseen f b) (open_packet h n c)"
proof -
  let ?d = "\<lambda>a e. c\<lparr>dir_in := (dir_in c)\<lparr>aes := a\<rparr>, rx := overwrite 16 (n - 16) e (rx c)\<rparr>"
  have "check_mac h n (unseen f b (?d a e)) = apsnd (unseen f b) (check_mac h n (?d a e))" if "16 < n" "active (dir_in c)" for a e
    by (rule check_mac_unseen) (use assms that in simp)
  moreover have "bslice 16 (n - 16) (rx c @ b) = bslice 16 (n - 16) (rx c)" if "16 < n"
    using assms that by (simp add: bslice_def split: if_splits)
  ultimately show ?thesis
    using assms check_mac_unseen [of n c b]
    by (auto simp: open_packet_def sends_unseen overwrite_append split: prod.split option.split)
qed

lemma deliver_packet_unseen:
  assumes "5 \<le> length (rx c)" "4 + unat (rxPktLen c) \<le> n" "n \<le> length (rx c)"
  shows "deliver_packet h n (unseen f b c) = apsnd (unseen f b) (deliver_packet h n c)"
proof -
  have "bslice 5 k (rx c @ b) = bslice 5 k (rx c)" if "k \<le> unat (rxPktLen c) - 1" for k
    using assms that by (simp add: bslice_def)
  moreover have "n \<le> length (rx (snd (HandlePacket h p (c\<lparr>dir_in := d\<rparr>))))" for p d
    using assms(3) HandlePacket_rx(1) [of h p "c\<lparr>dir_in := d\<rparr>"] by simp
  ultimately show ?thesis
    using assms by (simp add: deliver_packet_def Let_def sends_unseen HandlePacket_unseen split_beta nth_append)
qed


lemma process_packet_unseen:
  assumes inv: "conn_inv c" and "fst (process_packet h c) \<noteq> 0"
  shows "process_packet h (unseen f b c) = apsnd (unseen f b) (process_packet h c)"
proof -
  obtain o1 c1 where 1: "take_length h c = (o1, c1)" by (cases "take_length h c")
  let ?t = "4 + unat (rxPktLen c1)"
  let ?n = "?t + (if active (dir_in c1) then macLen (dir_in c1) else 0)"
  obtain o2 c2 where 2: "open_packet h ?t c1 = (o2, c2)" by (cases "open_packet h ?t c1")
  have "o1 \<noteq> Some 0" using assms(2) 1 by (auto simp: process_packet_def)
  then have u1: "take_length h (unseen f b c) = (o1, unseen f b c1)" using take_length_unseen [of c b] 1 by simp
  show ?thesis
  proof (cases o1)
    case None
    then have n: "?n \<le> length (rx c1)" using assms(2) 1 by (auto simp: process_packet_def Let_def not_le split: if_splits)
    then have u2: "open_packet h ?t (unseen f b c1) = (o2, unseen f b c2)" using open_packet_unseen [of ?t c1 b] 2 by simp
    have l2: "length (rx c2) = length (rx c1)" using open_packet_keeps [of ?t c1 h] n 2 by simp
    have p2: "rxPktLen c2 = rxPktLen c1" if "o2 = None"
      using 2 that by (auto simp: open_packet_def check_mac_def split: if_splits prod.splits option.splits)
    have "5 \<le> length (rx c2)" using take_length_enough(1) [OF _ inv, of h] 1 None n l2 by simp
    then have "deliver_packet h ?n (unseen f b c2) = apsnd (unseen f b) (deliver_packet h ?n c2)" if "o2 = None"
      by (rule deliver_packet_unseen) (use p2 [OF that] n l2 in auto)
    with 1 2 u1 u2 None n show ?thesis by (auto simp: process_packet_def Let_def split: option.split)
  qed (use 1 u1 in \<open>simp add: process_packet_def\<close>)
qed

text \<open>A decoder that waits has kept what it learned: going on later is the same as having had all bytes.\<close>

lemma process_packet_resume:
  assumes inv: "conn_inv c" and w: "process_packet h c = (0, c')"
  shows "process_packet h (unseen f b c') = process_packet h (unseen f b c)"
  using process_packet_waits [OF w]
proof
  assume t: "take_length h c = (None, c')"
  have "take_length h (unseen f b c') = (None, unseen f b c')"
    using take_length_enough(2) [OF t inv] by (simp add: take_length_def)
  moreover have "take_length h (unseen f b c) = (None, unseen f b c')" using take_length_unseen [of c b] t by simp
  ultimately show ?thesis by (simp add: process_packet_def)
qed simp

subsubsection \<open>The version line\<close>

lemma consume_line_unseen:
  "i < length (rx c) \<Longrightarrow> consume_line h i (unseen f b c) = apsnd (unseen f b) (consume_line h i c)"
  by (simp add: consume_line_def Let_def SendKexInit_unseen split_beta)

lemma process_version_unseen:
  assumes "10 \<in> set (rx c)"
  shows "process_version h (unseen f b c) = apsnd (unseen f b) (process_version h c)"
proof -
  let ?i = "length (takeWhile (\<lambda>b. b \<noteq> 10) (rx c))"
  have t: "takeWhile (\<lambda>b. b \<noteq> 10) (rx c @ b) = takeWhile (\<lambda>b. b \<noteq> 10) (rx c)"
    using takeWhile_append1 [of 10 "rx c" "\<lambda>b. b \<noteq> 10"] assms by simp
  have "10 \<in> set xs \<Longrightarrow> length (takeWhile (\<lambda>b. b \<noteq> 10) xs) < length xs" for xs :: bytes
    by (induction xs) auto
  then have i: "?i < length (rx c)" using assms by blast
  define L where "L = (if 0 < ?i \<and> rx c ! (?i - 1) = 13 then ?i - 1 else ?i)"
  have L: "L \<le> ?i" by (simp add: L_def)
  have k: "take k (rx c @ b) = take k (rx c)" if "k \<le> L" for k using that L i by simp
  have 4: "4 \<le> L \<and> take 4 (rx c @ b) = x \<longleftrightarrow> 4 \<le> L \<and> take 4 (rx c) = x" for x using k by auto
  have 8: "L < 8 \<or> take 7 (rx c @ b) \<noteq> x \<and> take 8 (rx c @ b) \<noteq> y \<longleftrightarrow> L < 8 \<or> take 7 (rx c) \<noteq> x \<and> take 8 (rx c) \<noteq> y" for x y
    using k [of 7] k [of 8] by auto
  have n: "(rx c @ b) ! (?i - 1) = rx c ! (?i - 1)" using less_imp_diff_less [OF i] by (simp add: nth_append del: One_nat_def)
  have j: "?i \<noteq> length (rx c @ b)" "?i \<noteq> length (rx c)" using i by auto
  show ?thesis
    unfolding process_version_def Let_def unseen_sel t n L_def [symmetric] 4 8 if_not_P [OF j(1)] if_not_P [OF j(2)] apsnd_branch
    by (simp only: sends_unseen consume_line_unseen i unseen_upd unseen_sel k [OF order_refl])
      (simp add: consume_line_unseen i)
qed

lemma TryProcessOne_unseen:
  assumes "conn_inv c" and "0 < fst (TryProcessOne h c) \<or> fst (TryProcessOne h c) < 0 \<and> short_line c"
  shows "TryProcessOne h (unseen f b c) = apsnd (unseen f b) (TryProcessOne h c)"
  using assms process_packet_unseen [OF assms(1), of b] process_version_unseen [of c b]
    process_version_newline [of h c] process_version_refuses [of h c]
  by (auto simp: TryProcessOne_def short_line_def)

lemma TryProcessOne_resume:
  assumes "conn_inv c" and w: "TryProcessOne h c = (0, c')"
  shows "TryProcessOne h (unseen f b c') = TryProcessOne h (unseen f b c)" and "state c' = state c"
proof -
  have s: "state c \<noteq> ST_CLOSED" using w by (auto simp: TryProcessOne_def)
  have "TryProcessOne h (unseen f b c') = TryProcessOne h (unseen f b c) \<and> state c' = state c"
  proof (cases "state c = ST_VERSION")
    case True
    then have "c' = c" using w process_version_wait [of h c] by (simp add: TryProcessOne_def)
    then show ?thesis by simp
  next
    case False
    then have p: "process_packet h c = (0, c')" using w s by (simp add: TryProcessOne_def)
    have "state c' = state c" using process_packet_waits [OF p] take_length_state by auto
    then show ?thesis using process_packet_resume [OF assms(1) p] False s by (simp add: TryProcessOne_def)
  qed
  then show "TryProcessOne h (unseen f b c') = TryProcessOne h (unseen f b c)" "state c' = state c" by simp_all
qed


subsubsection \<open>The inner loop\<close>

lemma pending_resume:
  "process_pending h any c = (True, any', c') \<Longrightarrow> conn_inv c \<Longrightarrow>
   process_pending h any (unseen f b c) = process_pending h any' (unseen f b c')"
proof (induction "length (rx c)" arbitrary: any c rule: less_induct)
  case less
  obtain r d where t: "TryProcessOne h c = (r, d)" by (cases "TryProcessOne h c")
  have d: "conn_inv d" using conn_inv_TryProcessOne [OF less.prems(2), of h] t by simp
  consider "r < 0" | "r = 0" | "0 < r" by linarith
  then show ?case
  proof cases
    case 1
    then show ?thesis using less.prems(1) t pending_step [of h any c] by simp
  next
    case 2
    then have e: "any' = any" "c' = d" using less.prems(1) t pending_step [of h any c] by simp_all
    have "TryProcessOne h (unseen f b d) = TryProcessOne h (unseen f b c)"
      using TryProcessOne_resume(1) [OF less.prems(2)] t 2 by simp
    then show ?thesis unfolding e by (subst (1 2) pending_step) simp
  next
    case 3
    then have p: "process_pending h True d = (True, any', c')" using less.prems(1) t pending_step [of h any c] by simp
    have "length (rx d) < length (rx c)" using TryProcessOne_progress [of h c] t 3 by simp
    from less.hyps [OF this p d] have "process_pending h True (unseen f b d) = process_pending h any' (unseen f b c')" .
    moreover have "TryProcessOne h (unseen f b c) = (r, unseen f b d)"
      using TryProcessOne_unseen [OF less.prems(2), of b] t 3 by simp
    ultimately show ?thesis using 3 pending_step [of h any "unseen f b c"] by simp
  qed
qed

lemma pending_fails:
  "process_pending h any c = (False, any', c') \<Longrightarrow> conn_inv c \<Longrightarrow> short_line c \<Longrightarrow>
   process_pending h any (unseen f b c) = (False, any', unseen f b c')"
proof (induction "length (rx c)" arbitrary: any c rule: less_induct)
  case less
  obtain r d where t: "TryProcessOne h c = (r, d)" by (cases "TryProcessOne h c")
  have d: "conn_inv d" "0 < r \<Longrightarrow> short_line d"
    using conn_inv_TryProcessOne [OF less.prems(2), of h] TryProcessOne_short [OF less.prems(2,3), of h] t by simp_all
  have "r \<noteq> 0" using less.prems(1) t pending_step [of h any c] by auto
  then have u: "TryProcessOne h (unseen f b c) = (r, unseen f b d)"
    using TryProcessOne_unseen [OF less.prems(2), of b] t less.prems(3) by (cases "r < 0") simp_all
  show ?case
  proof (cases "r < 0")
    case True
    then show ?thesis using less.prems(1) t u pending_step [of h any c] pending_step [of h any "unseen f b c"] by simp
  next
    case False
    then have "length (rx d) < length (rx c)" using TryProcessOne_progress [of h c] t \<open>r \<noteq> 0\<close> by simp
    moreover have "process_pending h True d = (False, any', c')"
      using less.prems(1) t pending_step [of h any c] False \<open>r \<noteq> 0\<close> by simp
    ultimately have "process_pending h True (unseen f b d) = (False, any', unseen f b c')"
      using less.hyps d False \<open>r \<noteq> 0\<close> by simp
    then show ?thesis using u False \<open>r \<noteq> 0\<close> pending_step [of h any "unseen f b c"] by simp
  qed
qed

end

lemma pending_any:
  "process_pending h any c = (fst (process_pending h False c), any \<or> fst (snd (process_pending h False c)), snd (snd (process_pending h False c)))"
proof (cases any)
  case True
  consider "fst (TryProcessOne h c) < 0" | "fst (TryProcessOne h c) = 0" | "0 < fst (TryProcessOne h c)" by linarith
  then show ?thesis
  proof cases
    case 3
    have "fst (snd (process_pending h True d))" for d
    proof (induction "length (rx d)" arbitrary: d rule: less_induct)
      case less
      then show ?case
        using TryProcessOne_progress [of h d] by (subst process_pending.simps) (auto simp: split_beta)
    qed
    with 3 True show ?thesis by (subst (1 2 3 4) process_pending.simps) (simp add: split_beta prod_eq_iff)
  qed (use True in \<open>(subst (1 2 3 4) process_pending.simps, simp add: split_beta)+\<close>)
qed simp

subsection \<open>A transport that holds the bytes in pieces\<close>

text \<open>
  \<open>cut_input h q put\<close>: the transport hands out the pieces \<open>q w\<close> in order, a piece that does not fit
  in parts. \<open>put\<close> exchanges the pieces and nothing else: writing and the pool do not depend on what
  has yet to be read.
\<close>

definition cut_input :: "'w host \<Rightarrow> ('w \<Rightarrow> bytes list) \<Rightarrow> (bytes list \<Rightarrow> 'w \<Rightarrow> 'w) \<Rightarrow> bool" where
  "cut_input h q put \<longleftrightarrow> (\<forall>w. put (q w) w = w) \<and> (\<forall>ss w. q (put ss w) = ss) \<and> (\<forall>ss ts w. put ss (put ts w) = put ss w) \<and>
     (\<forall>w n. rd h w n = (case q w of [] \<Rightarrow> (RdData [], w)
        | s # ss \<Rightarrow> if length s \<le> n then (RdData s, put ss w) else (RdData (take n s), put (drop n s # ss) w))) \<and>
     (\<forall>ss. unseen_input h (put ss))"

lemma cut_inputD:
  assumes "cut_input h q put"
  shows "put (q w) w = w" "q (put ss w) = ss" "put ss (put ts w) = put ss w" "unseen_input h (put ss)"
    "rd h w n = (case q w of [] \<Rightarrow> (RdData [], w)
        | s # ss \<Rightarrow> if length s \<le> n then (RdData s, put ss w) else (RdData (take n s), put (drop n s # ss) w))"
  using assms unfolding cut_input_def by blast+

lemma cut_read_fits:
  assumes "cut_input h q put" shows "read_fits h"
  by (auto simp: read_fits_def cut_inputD(5) [OF assms] split: list.splits if_splits)

text \<open>Handling messages leaves the pieces alone.\<close>

lemma cut_kept:
  assumes c: "cut_input h q put"
  shows "q (ioCtx (snd (snd (process_pending h any d)))) = q (ioCtx d)"
proof -
  note u = cut_inputD(4) [OF c]
  have w: "q (snd (wr h w bs)) = q w" for w bs
    using unseen_input.wr_unseen [OF u] cut_inputD(1,2) [OF c] by (metis snd_apsnd)
  have a: "q (snd (RtAlloc_block h n w)) = q w" for n w
    using unseen_input.RtAlloc_unseen [OF u] cut_inputD(1,2) [OF c] by (metis snd_apsnd)
  have r: "q (RtFree_block h p w) = q w" for p w
    using unseen_input.RtFree_unseen [OF u] cut_inputD(1,2) [OF c] by metis
  have "world_closed h (\<lambda>(b, w). q w = q (ioCtx d))"
    using w a r by (simp add: world_closed_def split_beta)
  from world_process_pending [OF this, of d any] show ?thesis by simp
qed

text \<open>All the pieces in the buffer at once.\<close>

definition gulp :: "('w \<Rightarrow> bytes list) \<Rightarrow> (bytes list \<Rightarrow> 'w \<Rightarrow> 'w) \<Rightarrow> 'w conn \<Rightarrow> 'w conn" where
  "gulp q put c = unseen (put []) (concat (q (ioCtx c))) c"

lemma short_gulp: "short_line (gulp q put c) \<Longrightarrow> short_line c"
  by (auto simp: short_line_def gulp_def)

lemma gulp_empty: "cut_input h q put \<Longrightarrow> q (ioCtx c) = [] \<Longrightarrow> gulp q put c = c"
  using cut_inputD(1) [of h q put "ioCtx c"] by (simp add: gulp_def unseen_def)

text \<open>The receive buffer never jams: a full one always holds a whole packet or an error.\<close>

lemma full_buffer_moves:
  assumes inv: "conn_inv c" and full: "length (rx c) = SSH_RX_BUF"
  shows "fst (TryProcessOne h c) \<noteq> 0"
proof
  assume z: "fst (TryProcessOne h c) = 0"
  then obtain c' where t: "TryProcessOne h c = (0, c')" by (cases "TryProcessOne h c") simp
  have s: "state c \<noteq> ST_CLOSED" using t by (auto simp: TryProcessOne_def)
  show False
  proof (cases "state c = ST_VERSION")
    case True
    then have "fst (process_version h c) = 0" using t by (simp add: TryProcessOne_def)
    then show False using full
      by (auto simp: process_version_def Let_def SSH_RX_BUF_def SSH_MAX_PACKET_def split: if_splits)
  next
    case False
    then have p: "process_packet h c = (0, c')" using t s by (simp add: TryProcessOne_def)
    obtain o1 c1 where 1: "take_length h c = (o1, c1)" by (cases "take_length h c")
    have "o1 \<noteq> Some 0"
      using full 1 by (auto simp: take_length_def check_len_def Let_def SSH_RX_BUF_def SSH_MAX_PACKET_def
          split: if_splits prod.splits option.splits)
    then have o: "o1 = None" using p 1 take_length_rc [of h c] by (auto simp: process_packet_def)
    have i1: "conn_inv c1" "length (rx c1) = SSH_RX_BUF"
      using conn_inv_take_length [OF inv, of h] take_length_keeps [of h c] full 1 by simp_all
    have "macLen (dir_in c1) \<le> 64" if "active (dir_in c1)"
      using i1(1) that MacLenOf_cases [of "macType (dir_in c1)"] by (auto simp: conn_inv_def dir_inv_def)
    moreover have "unat (rxPktLen c1) \<le> SSH_MAX_PACKET - 4"
      using i1(1) take_length_enough(2) [OF _ inv] 1 o by (simp add: conn_inv_def buf_inv_def)
    ultimately have "4 + unat (rxPktLen c1) + (if active (dir_in c1) then macLen (dir_in c1) else 0) \<le> length (rx c1)"
      using i1(2) by (auto simp: SSH_RX_BUF_def SSH_MAX_PACKET_def)
    then have "fst (process_packet h c) \<noteq> 0" using process_packet_enough 1 o by blast
    then show False using p by simp
  qed
qed

lemma read_cut:
  assumes c: "cut_input h q put" and inv: "conn_inv c" and ne: "[] \<notin> set (q (ioCtx c))"
  shows "\<exists>any c1. read_input h c = (Some any, c1) \<and> conn_inv c1 \<and> gulp q put c1 = gulp q put c \<and>
    [] \<notin> set (q (ioCtx c1)) \<and> state c1 = state c \<and>
    (if any then length (concat (q (ioCtx c1))) < length (concat (q (ioCtx c)))
     else c1 = c \<and> (q (ioCtx c) = [] \<or> length (rx c) = SSH_RX_BUF))"
proof (cases "length (rx c) < SSH_RX_BUF \<and> q (ioCtx c) \<noteq> []")
  case False
  have "length (rx c) \<le> SSH_RX_BUF" using inv by (simp add: conn_inv_def buf_inv_def)
  then have "read_input h c = (Some False, c)" "q (ioCtx c) = [] \<or> length (rx c) = SSH_RX_BUF"
    using False by (auto simp: read_input_def cut_inputD(5) [OF c])
  then show ?thesis using inv ne by (intro exI [of _ False] exI [of _ c]) simp
next
  case True
  let ?n = "SSH_RX_BUF - length (rx c)"
  obtain s ss where q: "q (ioCtx c) = s # ss" using True by (cases "q (ioCtx c)") auto
  have s: "s \<noteq> []" "0 < ?n" using ne q True by auto
  let ?rest = "if length s \<le> ?n then ss else drop ?n s # ss"
  let ?c = "c\<lparr>ioCtx := put ?rest (ioCtx c), rx := rx c @ take ?n s\<rparr>"
  have r: "read_input h c = (Some True, ?c)"
    using True q s by (auto simp: read_input_def cut_inputD(5) [OF c])
  then have "conn_inv ?c" using conn_inv_read_input [OF inv cut_read_fits [OF c]] by simp
  moreover have "gulp q put ?c = gulp q put c"
    using q append_take_drop_id [of ?n s]
    by (auto simp: gulp_def unseen_def cut_inputD(2,3) [OF c] simp del: append_take_drop_id)
  moreover have "[] \<notin> set ?rest" using ne q by auto
  moreover have "length (concat ?rest) < length (concat (q (ioCtx c)))" using q s by auto
  ultimately show ?thesis using r
    by (intro exI [of _ True] exI [of _ ?c]) (simp add: cut_inputD(2) [OF c])
qed

lemma pending_idle: "process_pending h any c = (True, False, c') \<Longrightarrow> fst (TryProcessOne h c) = 0"
  using pending_any [of h True "snd (TryProcessOne h c)"] by (subst (asm) pending_step) (auto split: if_splits)

text \<open>The outer loop does what the inner loop would do with everything in the buffer.\<close>

definition swallowed :: "'w host \<Rightarrow> ('w \<Rightarrow> bytes list) \<Rightarrow> (bytes list \<Rightarrow> 'w \<Rightarrow> 'w) \<Rightarrow> bool \<Rightarrow> 'w conn \<Rightarrow> int \<times> bool \<times> 'w conn \<Rightarrow> bool" where
  "swallowed h q put p c y \<longleftrightarrow> (case (y, process_pending h False (gulp q put c)) of ((r, p', c'), (ok, a, d)) \<Rightarrow>
     if r = 0 then ok \<and> d = c' \<and> q (ioCtx c') = [] \<and> p' = (p \<or> q (ioCtx c) \<noteq> [] \<or> a)
     else r = - 1 \<and> (short_line (gulp q put c) \<longrightarrow> \<not> ok \<and> d = gulp q put c'))"

lemma process_loop_cut:
  assumes c: "cut_input h q put"
  shows "conn_inv c \<Longrightarrow> [] \<notin> set (q (ioCtx c)) \<Longrightarrow> \<exists>y. process_loop h p c = Some y \<and> swallowed h q put p c y"
proof (induction "(length (concat (q (ioCtx c))), length (rx c))" arbitrary: p c rule: wf_induct [OF wf_lex_prod [OF wf_less_than wf_less_than]])
  case (1 c)
  note IH = 1(1) and inv = 1(2) and ne = 1(3) and u = cut_inputD(4) [OF c]
  show ?case
  proof (cases "state c = ST_CLOSED")
    case True
    then have "process_pending h False (gulp q put c) = (False, False, gulp q put c)"
      by (subst process_pending.simps) (simp add: gulp_def TryProcessOne_def)
    with True show ?thesis by (subst process_loop.simps) (simp add: swallowed_def)
  next
    case False
    obtain any c1 where r: "read_input h c = (Some any, c1)" "conn_inv c1" "gulp q put c1 = gulp q put c"
      "[] \<notin> set (q (ioCtx c1))" "state c1 = state c" and
      m: "if any then length (concat (q (ioCtx c1))) < length (concat (q (ioCtx c)))
          else c1 = c \<and> (q (ioCtx c) = [] \<or> length (rx c) = SSH_RX_BUF)"
      using read_cut [OF c inv ne] by blast
    obtain ok any2 c2 where p: "process_pending h any c1 = (ok, any2, c2)" by (cases "process_pending h any c1")
    have l: "process_loop h p c = (if \<not> ok then Some (- 1, p, c2) else if \<not> any2 then Some (0, p, c2) else process_loop h True c2)"
      using False r(1) p by (subst process_loop.simps) simp
    have q2: "q (ioCtx c2) = q (ioCtx c1)" using cut_kept [OF c, of any c1] p by simp
    have i2: "conn_inv c2" using conn_inv_process_pending [OF r(2), of h any] p by simp
    have pf: "process_pending h any c1 = (fst (process_pending h False c1), any \<or> fst (snd (process_pending h False c1)), snd (snd (process_pending h False c1)))"
      by (rule pending_any)
    consider "\<not> ok" | "ok" "\<not> any2" | "ok" "any2" by blast
    then show ?thesis
    proof cases
      case 1
      have "process_pending h any (gulp q put c1) = (False, any2, gulp q put c2)" if "short_line (gulp q put c)"
        unfolding gulp_def q2
        by (rule unseen_input.pending_fails [OF u _ r(2)]) (use p 1 short_gulp [of q put c1] r(3) that in simp_all)
      then have "fst (process_pending h False (gulp q put c)) = False \<and> snd (snd (process_pending h False (gulp q put c))) = gulp q put c2"
        if "short_line (gulp q put c)" using that pending_any [of h any "gulp q put c"] r(3) by simp
      with 1 l show ?thesis by (auto simp: swallowed_def split_beta)
    next
      case 2
      then have any: "\<not> any" using p pf by simp
      then have c1: "c1 = c" "q (ioCtx c) = [] \<or> length (rx c) = SSH_RX_BUF" using m by simp_all
      have "fst (TryProcessOne h c) = 0"
        using pending_idle [of h any c] p 2 c1(1) by simp
      then have q: "q (ioCtx c) = []" using c1(2) full_buffer_moves [OF inv] by blast
      then have "process_pending h False (gulp q put c) = (True, False, c2)" using gulp_empty [OF c q] p 2 any c1 by simp
      with 2 l q q2 c1 show ?thesis by (simp add: swallowed_def)
    next
      case 3
      let ?a = "process_pending h False (gulp q put c)" and ?b = "process_pending h False (gulp q put c2)"
      have "process_pending h any (gulp q put c1) = process_pending h any2 (gulp q put c2)"
        using unseen_input.pending_resume [OF u _ r(2)] p 3 by (simp add: gulp_def q2)
      then have e: "fst ?a = fst ?b" "snd (snd ?a) = snd (snd ?b)" "any \<or> fst (snd ?a)"
        using pending_any [of h any "gulp q put c"] pending_any [of h any2 "gulp q put c2"] 3 r(3) by simp_all
      have "state c1 \<le> state c2"
        using advD [of c1 c2] going_process_pending [of c1 c1 h any] p r(2) by (simp add: going_def adv_refl)
      then have "short_line (gulp q put c2)" if "short_line (gulp q put c1)"
        using that process_pending_shrinks [of h any c1] p 3 by (auto simp: short_line_def gulp_def q2)
      then have s: "short_line (gulp q put c2)" if "short_line (gulp q put c)" using that r(3) by simp
      have "((length (concat (q (ioCtx c2))), length (rx c2)), (length (concat (q (ioCtx c))), length (rx c))) \<in> less_than <*lex*> less_than"
        using m q2 p 3 process_pending_shrinks [of h any c1] by (cases any) auto
      then obtain y where y: "process_loop h True c2 = Some y" "swallowed h q put True c2 y"
        using IH i2 r(4) q2 by metis
      have "q (ioCtx c) \<noteq> []" if any using m that by auto
      then have "swallowed h q put p c y"
        using y(2) e s by (cases y) (auto simp: swallowed_def split_beta split: if_splits)
      then show ?thesis using y(1) l 3 by simp
    qed
  qed
qed

subsection \<open>Properties\<close>

text \<open>What a closed connection has left unread is of no interest.\<close>

definition drop_unread :: "(bytes list \<Rightarrow> 'w \<Rightarrow> 'w) \<Rightarrow> 'w conn \<Rightarrow> 'w conn" where
  "drop_unread put c = c\<lparr>ioCtx := put [] (ioCtx c), rx := []\<rparr>"

lemma gulp_drop: "cut_input h q put \<Longrightarrow> gulp q put c = gulp q put d \<Longrightarrow> drop_unread put c = drop_unread put d"
proof -
  assume c: "cut_input h q put" and g: "gulp q put c = gulp q put d"
  have "drop_unread put e = drop_unread put (gulp q put e)" for e
    by (simp add: drop_unread_def gulp_def unseen_def cut_inputD(3) [OF c])
  with g show ?thesis by metis
qed

lemma ProcessInput_cut:
  assumes c: "cut_input h q put" and inv: "conn_inv c" and ne: "[] \<notin> set ss"
    and sl: "state c = ST_VERSION \<longrightarrow> length (rx c @ concat ss) < 255"
  shows "\<exists>r p c'. ProcessInput h (c\<lparr>ioCtx := put ss w\<rparr>) = Some (r, p, c') \<and>
    (case process_pending h False (c\<lparr>ioCtx := put [] w, rx := rx c @ concat ss\<rparr>) of (ok, a, d) \<Rightarrow>
       if ok then r = 0 \<and> d = c' \<and> q (ioCtx c') = [] \<and> p = (ss \<noteq> [] \<or> a) else r = - 1 \<and> d = gulp q put c')"
proof -
  let ?c = "c\<lparr>ioCtx := put ss w\<rparr>"
  have g: "gulp q put ?c = c\<lparr>ioCtx := put [] w, rx := rx c @ concat ss\<rparr>"
    by (simp add: gulp_def unseen_def cut_inputD(2,3) [OF c])
  have s: "short_line (gulp q put ?c)" using sl unfolding g by (simp add: short_line_def)
  obtain r p c' where "process_loop h False ?c = Some (r, p, c')" "swallowed h q put False ?c (r, p, c')"
    using process_loop_cut [OF c, of ?c False] inv ne cut_inputD(2) [OF c] by fastforce
  with s show ?thesis unfolding ProcessInput_def
    by (intro exI [of _ r] exI [of _ p] exI [of _ c'])
      (auto simp: swallowed_def g cut_inputD(2) [OF c] split_beta split: if_splits)
qed

text \<open>C8: Segmentation: however the transport cuts the same bytes, \<^verbatim>\<open>ProcessInput\<close> returns the same code; if that is 0
  it leaves the same connection, down to the keys, the counters and everything written to the client, and
  reports the same progress, and if it is -1 the two closed connections differ only in what was left unread.
  (While the version line is still to come this needs fewer than 255 bytes.)\<close>
theorem segmentation_independent:
  assumes "cut_input h q put" and "conn_inv c" and "state c = ST_VERSION \<longrightarrow> length (rx c @ concat ss) < 255"
    and "concat ss = concat ts" and "[] \<notin> set ss" and "[] \<notin> set ts"
  shows "\<exists>r p p' c1 c2. ProcessInput h (c\<lparr>ioCtx := put ss w\<rparr>) = Some (r, p, c1) \<and>
    ProcessInput h (c\<lparr>ioCtx := put ts w\<rparr>) = Some (r, p', c2) \<and>
    (if r = 0 then c1 = c2 \<and> p = p' else r = - 1 \<and> drop_unread put c1 = drop_unread put c2)"
proof -
  have "ss = [] \<longleftrightarrow> ts = []" using assms(4-6) by (cases ss; cases ts) auto
  moreover obtain ok a d where p: "process_pending h False (c\<lparr>ioCtx := put [] w, rx := rx c @ concat ts\<rparr>) = (ok, a, d)"
    by (cases "process_pending h False (c\<lparr>ioCtx := put [] w, rx := rx c @ concat ts\<rparr>)")
  moreover obtain r1 p1 c1 where 1: "ProcessInput h (c\<lparr>ioCtx := put ss w\<rparr>) = Some (r1, p1, c1)"
    "if ok then r1 = 0 \<and> d = c1 \<and> q (ioCtx c1) = [] \<and> p1 = (ss \<noteq> [] \<or> a) else r1 = - 1 \<and> d = gulp q put c1"
    using ProcessInput_cut [OF assms(1,2,5,3), of w] unfolding assms(4) p by auto
  moreover obtain r2 p2 c2 where "ProcessInput h (c\<lparr>ioCtx := put ts w\<rparr>) = Some (r2, p2, c2)"
    "if ok then r2 = 0 \<and> d = c2 \<and> q (ioCtx c2) = [] \<and> p2 = (ts \<noteq> [] \<or> a) else r2 = - 1 \<and> d = gulp q put c2"
    using ProcessInput_cut [OF assms(1,2,6) assms(3) [unfolded assms(4)], of w] unfolding p by auto
  ultimately show ?thesis using gulp_drop [OF assms(1), of c1 c2] by (cases ok) simp_all
qed

text \<open>The sample host with a transport that keeps what did not fit.\<close>

definition cut_read :: "sample_world \<Rightarrow> nat \<Rightarrow> rd_result \<times> sample_world" where
  "cut_read w n = (case fst w of
     [] \<Rightarrow> (RdData [], w)
   | s # ss \<Rightarrow> if length s \<le> n then (RdData s, (ss, snd w)) else (RdData (take n s), (drop n s # ss, snd w)))"

definition cut_host :: "sample_world host" where
  "cut_host = sample_host\<lparr>rd := cut_read\<rparr>"

definition cut_put :: "bytes list \<Rightarrow> sample_world \<Rightarrow> sample_world" where
  "cut_put ss w = (ss, snd w)"

lemma cut_host_input: "cut_input cut_host fst cut_put"
proof -
  have "unseen_input cut_host (cut_put ss)" for ss
    by unfold_locales (simp_all add: cut_host_def sample_host_def cut_put_def)
  moreover have "rd cut_host = cut_read" by (simp add: cut_host_def)
  ultimately show ?thesis by (simp add: cut_input_def cut_put_def cut_read_def split: list.split)
qed

definition sample_kex :: "sample_world conn" where
  "sample_kex = (conn_zero ([], []) (\<lambda>_. 0))\<lparr>state := ST_KEX, kex := KX_WAIT_KEXINIT\<rparr>"

lemma conn_inv_sample_kex: "conn_inv sample_kex"
  using conn_inv_zero [of "([], [])" "\<lambda>_. 0"] by (simp add: sample_kex_def conn_inv_def inv_defs conn_zero_def dir_zero_def)

theorem segmentation_independent_witness:
  "\<exists>r p p' c1 c2.
     ProcessInput cut_host (sample_kex\<lparr>ioCtx := ([[0, 0], [0, 12, 10, 2, 7]], [])\<rparr>) = Some (r, p, c1) \<and>
     ProcessInput cut_host (sample_kex\<lparr>ioCtx := ([[0], [0, 0, 12], [10, 2, 7]], [])\<rparr>) = Some (r, p', c2) \<and> (r = 0 \<or> r = - 1)"
proof -
  have "concat [[0, 0], [0, 12, 10, 2, 7]] = concat [[0], [0, 0, 12], [10, 2, 7 :: byte]]" "state sample_kex \<noteq> ST_VERSION"
    "[] \<notin> set [[0, 0], [0, 12, 10, 2, 7 :: byte]]" "[] \<notin> set [[0], [0, 0, 12], [10, 2, 7 :: byte]]"
    by (simp_all add: sample_kex_def)
  with segmentation_independent [OF cut_host_input conn_inv_sample_kex _ this(1,3,4), of "([], [])"]
  show ?thesis by (fastforce simp: cut_put_def split: if_splits)
qed

end
