(* ===== verification/Client.thy ===== *)
theory Client
  imports Handshake Segment
begin

text \<open>
  The honest client again, at the level of bytes: it frames, pads, authenticates and encrypts its
  messages, the network cuts the result into pieces of any size, and \<^verbatim>\<open>ProcessInput\<close> reads them. This
  joins the decoder (\<^verbatim>\<open>Delivery\<close>), the independence of the cut (\<^verbatim>\<open>Segment\<close>) and the handlers (\<^verbatim>\<open>Handshake\<close>).
\<close>

subsection \<open>A client on the wire\<close>

text \<open>\<open>bs\<close> arrives in the pieces \<open>net bs\<close> and the server processes what there is.\<close>

definition arrive :: "'w host \<Rightarrow> (bytes list \<Rightarrow> 'w \<Rightarrow> 'w) \<Rightarrow> (bytes \<Rightarrow> bytes list) \<Rightarrow> bytes \<Rightarrow> 'w conn \<Rightarrow> (int \<times> bool \<times> 'w conn) option" where
  "arrive h put net bs c = ProcessInput h (c\<lparr>ioCtx := put (net bs) (ioCtx c)\<rparr>)"

text \<open>
  One packet after another, each in the state the server's receiving direction has by then (its
  sequence number, cipher and MAC key are the client's own); every one must be taken without error.
\<close>

fun send_packets :: "'w host \<Rightarrow> (bytes list \<Rightarrow> 'w \<Rightarrow> 'w) \<Rightarrow> (bytes \<Rightarrow> bytes list) \<Rightarrow> (nat \<Rightarrow> bytes) \<Rightarrow> bytes list \<Rightarrow> 'w conn \<Rightarrow> 'w conn option" where
  "send_packets h put net pad [] c = Some c"
| "send_packets h put net pad (p # ps) c =
     (case wire_image h (dir_in c) p (pad (pad_len (block_size (dir_in c)) (length p))) of
        None \<Rightarrow> None
      | Some (wire, d) \<Rightarrow>
          (case arrive h put net wire c of
             None \<Rightarrow> None
           | Some (r, prog, c) \<Rightarrow> if r = 0 then send_packets h put net pad ps c else None))"

text \<open>A network that loses nothing, and padding of the length asked for.\<close>

definition cuts :: "(bytes \<Rightarrow> bytes list) \<Rightarrow> bool" where
  "cuts net \<longleftrightarrow> (\<forall>bs. concat (net bs) = bs \<and> [] \<notin> set (net bs))"

definition pads :: "(nat \<Rightarrow> bytes) \<Rightarrow> bool" where
  "pads pad \<longleftrightarrow> (\<forall>n. length (pad n) = n)"

subsection \<open>One turn\<close>

text \<open>Between two packets nothing is buffered anywhere.\<close>

definition between :: "('w \<Rightarrow> bytes list) \<Rightarrow> 'w conn \<Rightarrow> bool" where
  "between q c \<longleftrightarrow> conn_inv c \<and> rx c = [] \<and> \<not> rxHaveLen c \<and> q (ioCtx c) = []"

text \<open>Where the connection is, and that its session is the one of \<open>e\<close>.\<close>

definition at_point :: "ssh_state \<Rightarrow> kex_state \<Rightarrow> 'w conn \<Rightarrow> 'w conn \<Rightarrow> bool" where
  "at_point s k e c \<longleftrightarrow> state c = s \<and> kex c = k \<and> \<not> ignoreNextKexPacket c \<and> sess_view c = sess_view e"

lemma at_point_unread [simp]:
  "at_point s k e (c\<lparr>ioCtx := w\<rparr>) = at_point s k e c" "at_point s k e (c\<lparr>rx := r\<rparr>) = at_point s k e c"
  "at_point s k e (c\<lparr>rxHaveLen := b\<rparr>) = at_point s k e c" "at_point s k e (c\<lparr>rxPktLen := n\<rparr>) = at_point s k e c"
  "at_point s k e (c\<lparr>dir_in := d\<rparr>) = at_point s k e c"
  by (simp_all add: at_point_def)

lemma at_point_received [simp]: "at_point s k e (received d p buf c) = at_point s k e c"
  by (simp add: received_def)

text \<open>An empty buffer makes the decoder wait.\<close>

lemma TryProcessOne_idle:
  assumes "rx c = []" "\<not> rxHaveLen c" "state c \<noteq> ST_VERSION" "state c \<noteq> ST_CLOSED"
  shows "TryProcessOne h c = (0, c)"
  using assms by (simp add: TryProcessOne_def process_packet_def take_length_def)

lemma arrive_one:
  assumes c: "cut_input h q put" and net: "cuts net" and inv: "conn_inv c" "rx c = []"
    and v: "state c = ST_VERSION \<longrightarrow> length bs < 255"
    and t: "TryProcessOne h (c\<lparr>ioCtx := put [] (ioCtx c), rx := bs\<rparr>) = (1, d)"
    and d: "rx d = []" "\<not> rxHaveLen d" "state d \<noteq> ST_VERSION" "state d \<noteq> ST_CLOSED"
  shows "\<exists>prog. arrive h put net bs c = Some (0, prog, d) \<and> between q d"
proof -
  let ?c = "c\<lparr>ioCtx := put [] (ioCtx c), rx := bs\<rparr>"
  have n: "concat (net bs) = bs" "[] \<notin> set (net bs)" using net by (simp_all add: cuts_def)
  have p: "process_pending h False ?c = (True, True, d)"
    using t TryProcessOne_idle [OF d] pending_step [of h False ?c] pending_step [of h True d] by simp
  obtain r prog c' where a: "ProcessInput h (c\<lparr>ioCtx := put (net bs) (ioCtx c)\<rparr>) = Some (r, prog, c')"
    "r = 0" "d = c'" "q (ioCtx c') = []"
    using ProcessInput_cut [OF c inv(1) n(2), of "ioCtx c"] v p by (auto simp: inv(2) n(1))
  have "conn_inv d" using conn_inv_ProcessInput [OF a(1) cut_read_fits [OF c]] inv(1) a(3) by simp
  with a d show ?thesis by (simp add: arrive_def between_def)
qed

lemma packet_turn:
  assumes c: "cut_input h q put" and net: "cuts net" and pad: "pads pad"
    and h: "host_works h" "ctr_stream h" "hmac_len h"
    and b: "between q c" and x: "at_point s k e c" and s: "s \<noteq> ST_VERSION" "s \<noteq> ST_CLOSED"
    and l: "length p + 64 \<le> SSH_MAX_PACKET"
    and step: "\<And>d. at_point s k e d \<Longrightarrow> \<exists>d'. HandlePacket h p d = (0, d') \<and> at_point s' k' e' d'"
    and s': "s' \<noteq> ST_VERSION" "s' \<noteq> ST_CLOSED"
  shows "\<exists>c'. (\<forall>ps. send_packets h put net pad (p # ps) c = send_packets h put net pad ps c') \<and> between q c' \<and> at_point s' k' e' c'"
proof -
  let ?pad = "pad (pad_len (block_size (dir_in c)) (length p))"
  let ?tx = "plain_packet p ?pad"
  have st: "state c = s" using x by (simp add: at_point_def)
  obtain m where m: "packet_mac h (dir_in c) ?tx = Some m" using host_worksD(4) [OF h(1)] by blast
  obtain ct a where "wc_AesCtrEncrypt h (aes (dir_in c)) ?tx = (Some ct, a)" using host_worksD(5) [OF h(1)] by blast
  with m obtain wire d where w: "wire_image h (dir_in c) p ?pad = Some (wire, d)" by (cases "active (dir_in c)") (auto simp: wire_image_def Let_def)
  let ?c = "c\<lparr>ioCtx := put [] (ioCtx c), rx := wire\<rparr>"
  have g: "good_pad (dir_in ?c) p ?pad" using l pad by (simp add: good_pad_def pads_def)
  have i: "dir_inv (dir_in ?c)" "\<not> rxHaveLen ?c" using b by (simp_all add: between_def conn_inv_def)
  obtain buf where u: "process_packet h ?c = finish [] (HandlePacket h p (received d p buf ?c))"
    using process_wire_image [OF _ g h(2,3) i, of wire d "[]"] w by auto
  have "at_point s k e (received d p buf ?c)" using x by simp
  then obtain d' where d': "HandlePacket h p (received d p buf ?c) = (0, d')" "at_point s' k' e' d'" using step by blast
  let ?d = "d'\<lparr>rx := [], rxHaveLen := False\<rparr>"
  have st': "state d' = s'" using d'(2) by (simp add: at_point_def)
  have t: "TryProcessOne h ?c = (1, ?d)" using u d' st st' s s' by (simp add: TryProcessOne_def finish_def)
  obtain prog where "arrive h put net wire c = Some (0, prog, ?d)" "between q ?d"
    using arrive_one [OF c net _ _ _ t] b st st' s s' by (auto simp: between_def)
  then show ?thesis using w d'(2) by (intro exI [of _ ?d]) simp
qed

subsection \<open>A conversation\<close>

text \<open>
  Messages that are accepted one after another, each from the point the one before has led to.
\<close>

type_synonym 'w point = "ssh_state \<times> kex_state \<times> 'w conn"

definition takes :: "'w host \<Rightarrow> bytes \<Rightarrow> 'w point \<Rightarrow> 'w point \<Rightarrow> bool" where
  "takes h p x y \<longleftrightarrow> (case (x, y) of ((s, k, e), (s', k', e')) \<Rightarrow>
     s \<noteq> ST_VERSION \<and> s \<noteq> ST_CLOSED \<and> s' \<noteq> ST_VERSION \<and> s' \<noteq> ST_CLOSED \<and> length p + 64 \<le> SSH_MAX_PACKET \<and>
     (\<forall>d. at_point s k e d \<longrightarrow> (\<exists>d'. HandlePacket h p d = (0, d') \<and> at_point s' k' e' d')))"

fun route :: "'w host \<Rightarrow> 'w point \<Rightarrow> (bytes \<times> 'w point) list \<Rightarrow> 'w point \<Rightarrow> bool" where
  "route h x [] z \<longleftrightarrow> x = z"
| "route h x ((p, y) # ps) z \<longleftrightarrow> takes h p x y \<and> route h y ps z"

lemma route_sent:
  assumes c: "cut_input h q put" "cuts net" "pads pad" "host_works h" "ctr_stream h" "hmac_len h"
  shows "route h (s, k, e) ps (s', k', e') \<Longrightarrow> between q c \<Longrightarrow> at_point s k e c \<Longrightarrow>
    \<exists>c'. send_packets h put net pad (map fst ps) c = Some c' \<and> between q c' \<and> at_point s' k' e' c'"
proof (induction ps arbitrary: s k e c)
  case (Cons y ps)
  obtain p s1 k1 e1 where y: "y = (p, s1, k1, e1)" by (cases y)
  have t: "takes h p (s, k, e) (s1, k1, e1)" "route h (s1, k1, e1) ps (s', k', e')" using Cons.prems(1) by (simp_all add: y)
  obtain c1 where 1: "\<And>ps. send_packets h put net pad (p # ps) c = send_packets h put net pad ps c1" "between q c1" "at_point s1 k1 e1 c1"
    using packet_turn [OF c Cons.prems(2,3), of p s1 k1 e1] t(1) by (auto simp: takes_def)
  from Cons.IH [OF t(2) 1(2,3)] 1(1) show ?case by (simp add: y)
qed simp

subsection \<open>The client's messages\<close>

lemma takesI:
  assumes "\<And>d. at_point s k e d \<Longrightarrow> \<exists>d'. HandlePacket h p d = (0, d') \<and> at_point s' k' e' d'"
    and "length p + 64 \<le> SSH_MAX_PACKET" "s \<in> {ST_KEX, ST_AUTH, ST_CONN}" "s' \<in> {ST_KEX, ST_AUTH, ST_CONN}"
  shows "takes h p (s, k, e) (s', k', e')"
  using assms by (auto simp: takes_def)

text \<open>The answer to a message leaves the session at the point the message has led to.\<close>

lemma at_point_answer:
  assumes "send_rel d d'" "state d' = s" "kex d = k" "\<not> ignoreNextKexPacket d" "sess_view d = sess_view e"
  shows "at_point s k e d'"
  using assms(2-) send_rel_frame(1,7) [OF assms(1)] send_rel_views(1) [OF assms(1)] by (simp add: at_point_def)

lemma takes_kexinit:
  assumes "host_works h" and "common_offer cookie css" and "length (offer cookie css 0 0) + 64 \<le> SSH_MAX_PACKET"
  shows "takes h (offer cookie css 0 0) (ST_KEX, KX_WAIT_KEXINIT, e) (ST_KEX, KX_WAIT_DH, e)"
  using assms(3) by (intro takesI) (use kexinit_step [OF assms(1,2)] in \<open>fastforce simp: at_point_def\<close>)+

lemma takes_kexdh:
  assumes "host_works h" and "length qc = 32"
  shows "takes h (MSG_KEXDH_INIT # enc_str qc) (ST_KEX, KX_WAIT_DH, e) (ST_KEX, KX_WAIT_NEWKEYS, e)"
proof (rule takesI)
  show "\<exists>d'. HandlePacket h (MSG_KEXDH_INIT # enc_str qc) d = (0, d') \<and> at_point ST_KEX KX_WAIT_NEWKEYS e d'"
    if "at_point ST_KEX KX_WAIT_DH e d" for d
    using kexdh_step [OF assms, of d "[]"] that by (auto simp: at_point_def)
qed (simp_all add: assms(2) SSH_MAX_PACKET_def)

lemma takes_newkeys:
  assumes "host_works h"
  shows "takes h [MSG_NEWKEYS] (ST_KEX, KX_WAIT_NEWKEYS, e) (ST_AUTH, KX_IDLE, e)"
proof (rule takesI)
  show "\<exists>d'. HandlePacket h [MSG_NEWKEYS] d = (0, d') \<and> at_point ST_AUTH KX_IDLE e d'"
    if "at_point ST_KEX KX_WAIT_NEWKEYS e d" for d
    using newkeys_step [OF assms, of d "[]"] that by (auto simp: at_point_def)
qed (simp_all add: SSH_MAX_PACKET_def)

lemma takes_service:
  assumes "host_works h"
  shows "takes h (MSG_SERVICE_REQUEST # enc_str (bytes_of ''ssh-userauth'')) (ST_AUTH, KX_IDLE, e) (ST_AUTH, KX_IDLE, e)"
proof (rule takesI)
  fix d assume d: "at_point ST_AUTH KX_IDLE e d"
  then obtain d' where 1: "HandlePacket h (MSG_SERVICE_REQUEST # enc_str (bytes_of ''ssh-userauth'')) d = (0, d')"
    "send_rel d d'" "state d' = ST_AUTH"
    using service_step [OF assms, of d "[]"] by (auto simp: at_point_def)
  have "at_point ST_AUTH KX_IDLE e d'" by (rule at_point_answer [OF 1(2,3)]) (use d in \<open>simp_all add: at_point_def\<close>)
  with 1(1) show "\<exists>d'. HandlePacket h (MSG_SERVICE_REQUEST # enc_str (bytes_of ''ssh-userauth'')) d = (0, d') \<and> at_point ST_AUTH KX_IDLE e d'"
    by blast
qed (simp_all add: SSH_MAX_PACKET_def bytes_of_def)

lemma takes_password:
  assumes "host_works h" and "0 \<notin> set usr" "length usr < USER_CAP" "length pw < PW_CAP" "auth_fn h usr (c_str pw)"
  shows "takes h (password_request usr pw []) (ST_AUTH, KX_IDLE, e) (ST_CONN, KX_IDLE, e\<lparr>user := usr, authenticated := True\<rparr>)"
proof (rule takesI)
  fix d assume d: "at_point ST_AUTH KX_IDLE e d"
  have u: "take (USER_CAP - 1) usr = usr" "length usr < 2 ^ 32" using assms(3) by (simp_all add: USER_CAP_def)
  have "accepts h usr pw" using assms u by (simp add: accepts_def c_str_id)
  then obtain d' where 1: "HandlePacket h (password_request usr pw []) d = (0, d')"
    "send_rel (d\<lparr>user := usr, authenticated := True, state := ST_CONN\<rparr>) d'" "state d' = ST_CONN"
    using auth_step [OF assms(1) _ _ u(2) assms(4), of d "[]"] d unfolding u(1) by (auto simp: at_point_def)
  have "at_point ST_CONN KX_IDLE (e\<lparr>user := usr, authenticated := True\<rparr>) d'"
    by (rule at_point_answer [OF 1(2,3)]) (use d in \<open>simp_all add: at_point_def sess_view_def\<close>)
  with 1(1) show "\<exists>d'. HandlePacket h (password_request usr pw []) d = (0, d') \<and>
      at_point ST_CONN KX_IDLE (e\<lparr>user := usr, authenticated := True\<rparr>) d'" by blast
qed (use assms in \<open>simp_all add: password_request_def bytes_of_def SSH_MAX_PACKET_def USER_CAP_def PW_CAP_def\<close>)

lemma takes_open:
  assumes "host_works h" and "\<not> chanOpen e"
  shows "takes h (channel_open sn wn mx) (ST_CONN, KX_IDLE, e) (ST_CONN, KX_IDLE,
    e\<lparr>chanOpen := True, remoteChan := sn, remoteWindow := wn, remoteMaxPkt := mx, closeSent := False, closeRecv := False, remoteEof := False\<rparr>)"
proof (rule takesI)
  let ?f = "\<lambda>d. d\<lparr>chanOpen := True, remoteChan := sn, remoteWindow := wn, remoteMaxPkt := mx, closeSent := False,
    closeRecv := False, remoteEof := False\<rparr>"
  fix d assume d: "at_point ST_CONN KX_IDLE e d"
  then have "\<not> chanOpen d" using assms(2) by (simp add: at_point_def sess_view_def)
  then obtain d' where 1: "HandlePacket h (channel_open sn wn mx) d = (0, d')" "send_rel (?f d) d'" "state d' = ST_CONN"
    using open_step [OF assms(1), of d sn wn mx] d by (auto simp: at_point_def)
  have "at_point ST_CONN KX_IDLE (?f e) d'"
    by (rule at_point_answer [OF 1(2,3)]) (use d in \<open>simp_all add: at_point_def sess_view_def\<close>)
  with 1(1) show "\<exists>d'. HandlePacket h (channel_open sn wn mx) d = (0, d') \<and> at_point ST_CONN KX_IDLE (?f e) d'" by blast
qed (simp_all add: channel_open_def bytes_of_def SSH_MAX_PACKET_def)

lemma takes_request:
  assumes h: "host_works h" "chanOpen e" and p: "p = MSG_CHANNEL_REQUEST # PutU32 0 @ enc_str (bytes_of ty) @ 1 # t" "length ty < 2 ^ 32"
    and g: "\<And>r d. rbuf_wf r \<Longrightarrow> rest r = Some t \<Longrightarrow> channel_request (bytes_of ty) r d = (True, f d)"
    and f: "\<And>d. state (f d) = state d \<and> kex (f d) = kex d \<and> ignoreNextKexPacket (f d) = ignoreNextKexPacket d"
      "\<And>d. sess_view d = sess_view e \<Longrightarrow> sess_view (f d) = sess_view (f e)"
    and l: "length p + 64 \<le> SSH_MAX_PACKET"
  shows "takes h p (ST_CONN, KX_IDLE, e) (ST_CONN, KX_IDLE, f e)"
proof (rule takesI)
  fix d assume d: "at_point ST_CONN KX_IDLE e d"
  then have c: "state d = ST_CONN" "\<not> ignoreNextKexPacket d" "chanOpen d" using h(2) by (simp_all add: at_point_def sess_view_def)
  have "\<exists>d'. HandlePacket h p d = (0, d') \<and> send_rel (f d) d' \<and> state d' = ST_CONN"
    by (rule request_step [OF h(1) c p g]) (use f(1) [of d] c(1) in simp_all)
  then obtain d' where 1: "HandlePacket h p d = (0, d')" "send_rel (f d) d'" "state d' = ST_CONN" by blast
  have "at_point ST_CONN KX_IDLE (f e) d'"
    by (rule at_point_answer [OF 1(2,3)]) (use d f(1) [of d] f(2) [of d] in \<open>simp_all add: at_point_def\<close>)
  with 1(1) show "\<exists>d'. HandlePacket h p d = (0, d') \<and> at_point ST_CONN KX_IDLE (f e) d'" by blast
qed (use l in simp_all)

lemma takes_pty:
  assumes "host_works h" "chanOpen e" "length tm < 30000" "0 < co" "co < 1000" "0 < ro" "ro < 1000"
  shows "takes h (pty_request tm co ro []) (ST_CONN, KX_IDLE, e) (ST_CONN, KX_IDLE, e\<lparr>cols := co, rows := ro\<rparr>)"
proof -
  have g: "channel_request (bytes_of ''pty-req'') r d = (True, d\<lparr>cols := co, rows := ro\<rparr>)"
    if "rbuf_wf r" "rest r = Some (enc_str tm @ PutU32 co @ PutU32 ro)" for r and d :: "'a conn"
    using pty_granted [of r tm co ro "[]"] that assms(3-) by simp
  show ?thesis
    by (rule takes_request [OF assms(1,2) _ _ g])
      (use assms(3) in \<open>simp_all add: pty_request_def sess_view_def SSH_MAX_PACKET_def bytes_of_def\<close>)
qed

lemma takes_shell:
  assumes "host_works h" "chanOpen e"
  shows "takes h shell_request (ST_CONN, KX_IDLE, e) (ST_CONN, KX_IDLE, e\<lparr>shellReady := True\<rparr>)"
  by (rule takes_request [OF assms _ _ shell_granted])
    (simp_all add: shell_request_def sess_view_def SSH_MAX_PACKET_def bytes_of_def)

subsection \<open>The start\<close>

lemma SshNew_start:
  assumes "SshNew h sz ring seed w = (Some c, w')"
  shows "conn_inv c" "state c = ST_VERSION" "\<not> kexInitSent c" "\<not> ignoreNextKexPacket c" "\<not> versionSent c"
    "rx c = []" "\<not> rxHaveLen c" "\<not> chanOpen c"
proof -
  show "conn_inv c" by (rule conn_inv_SshNew [OF assms])
  obtain w0 b where 1: "init_conn h seed ((conn_zero w0 ring)\<lparr>blocks := b\<rparr>) = (Some c, w')" using SshNew_some [OF assms] by blast
  obtain g k pub a where c: "c = started ((conn_zero w0 ring)\<lparr>blocks := b\<rparr>) w' g k pub a" using init_conn_some [OF 1] by blast
  show "state c = ST_VERSION" "\<not> kexInitSent c" "\<not> ignoreNextKexPacket c" "\<not> versionSent c"
    "rx c = []" "\<not> rxHaveLen c" "\<not> chanOpen c"
    by (simp_all add: c started_def conn_zero_def)
qed

lemma version_turn:
  assumes c: "cut_input h q put" "cuts net" "host_works h"
    and i: "conn_inv c" "state c = ST_VERSION" "\<not> kexInitSent c" "\<not> ignoreNextKexPacket c" "rx c = []" "\<not> rxHaveLen c"
    and v: "10 \<notin> set v" "v \<noteq> []" "length v \<le> 245"
  shows "\<exists>prog d. arrive h put net (bytes_of ''SSH-2.0'' @ v @ [13, 10]) c = Some (0, prog, d) \<and> between q d \<and>
    at_point ST_KEX KX_WAIT_KEXINIT c d"
proof -
  let ?bs = "bytes_of ''SSH-2.0'' @ v @ [13, 10]"
  let ?c = "c\<lparr>ioCtx := put [] (ioCtx c), rx := ?bs\<rparr>"
  obtain d where d: "TryProcessOne h ?c = (1, d)" "rx d = []" "state d = ST_KEX" "kex d = KX_WAIT_KEXINIT"
    "ignoreNextKexPacket d = ignoreNextKexPacket ?c" "sess_view d = sess_view ?c" "rxHaveLen d = rxHaveLen ?c"
    using version_step [OF c(3), of ?c v "[]"] i v(1,2) by auto
  have "length ?bs < 255" using v(3) by (simp add: bytes_of_def)
  then obtain prog where "arrive h put net ?bs c = Some (0, prog, d)" "between q d"
    using arrive_one [OF c(1,2) i(1,5) _ d(1,2)] d i by auto
  then show ?thesis using d i by (auto simp: at_point_def)
qed

subsection \<open>The property\<close>

text \<open>C5: An honest client gets its Shell, from the first byte: on a host where wolfCrypt and the transport work, a
  client that connects, sends its version line, an offer with something in common, its key exchange value,
  the right password and the requests for a channel, a terminal and a shell, framed, padded, authenticated
  and encrypted packet by packet, and cut by the network into pieces of any size, has every packet taken by
  \<^verbatim>\<open>ProcessInput\<close>; the connection ends up encrypted, authenticated as that user, with the channel, the window
  and the terminal size the client named, ready for the Shell and with nothing left unread.\<close>
theorem client_bytes_get_shell:
  assumes "host_works h" "ctr_stream h" "hmac_len h" and "cut_input h q put" "cuts net" "pads pad"
    and "common_offer cookie css" "length (offer cookie css 0 0) + 64 \<le> SSH_MAX_PACKET" "length qc = 32"
    and "0 \<notin> set usr" "length usr < USER_CAP" "length pw < PW_CAP" "auth_fn h usr (c_str pw)"
    and "length tm < 30000" "0 < co" "co < 1000" "0 < ro" "ro < 1000"
    and "10 \<notin> set v" "v \<noteq> []" "length v \<le> 245"
    and "SshNew h sz ring seed w0 = (Some c0, w1)"
  shows "\<exists>c prog c1 c2. send_version h c0 = (True, c) \<and>
    arrive h put net (bytes_of ''SSH-2.0'' @ v @ [13, 10]) c = Some (0, prog, c1) \<and>
    send_packets h put net pad (client_messages cookie css qc usr pw (sn, wn, mx) (tm, co, ro)) c1 = Some c2 \<and>
    state c2 = ST_CONN \<and> active (dir_in c2) \<and> active (dir_out c2) \<and> authenticated c2 \<and> SshUser c2 = usr \<and>
    SshIsOpen c2 \<and> shellReady c2 \<and> remoteChan c2 = sn \<and> remoteWindow c2 = wn \<and> remoteMaxPkt c2 = mx \<and>
    SshGetWindow c2 = (co, ro) \<and> rx c2 = [] \<and> q (ioCtx c2) = []"
proof -
  note h = assms(1)
  note n = SshNew_start [OF assms(22)]
  obtain w where "wr h (ioCtx c0) version_line = (True, w)" using host_worksD(3) [OF h] by blast
  then have s: "send_version h c0 = (True, c0\<lparr>ioCtx := w, versionSent := True\<rparr>)" using n(5) by (simp add: send_version_def)
  let ?c = "c0\<lparr>ioCtx := w, versionSent := True\<rparr>"
  obtain prog c1 where 1: "arrive h put net (bytes_of ''SSH-2.0'' @ v @ [13, 10]) ?c = Some (0, prog, c1)"
    "between q c1" "at_point ST_KEX KX_WAIT_KEXINIT ?c c1"
    using version_turn [OF assms(4,5) h _ _ _ _ _ _ assms(19-21), of ?c] n by auto
  let ?e1 = "?c\<lparr>user := usr, authenticated := True\<rparr>"
  let ?e2 = "?e1\<lparr>chanOpen := True, remoteChan := sn, remoteWindow := wn, remoteMaxPkt := mx, closeSent := False,
    closeRecv := False, remoteEof := False\<rparr>"
  let ?e3 = "?e2\<lparr>cols := co, rows := ro\<rparr>"
  let ?e4 = "?e3\<lparr>shellReady := True\<rparr>"
  let ?r = "[(offer cookie css 0 0, ST_KEX, KX_WAIT_DH, ?c), (MSG_KEXDH_INIT # enc_str qc, ST_KEX, KX_WAIT_NEWKEYS, ?c),
    ([MSG_NEWKEYS], ST_AUTH, KX_IDLE, ?c), (MSG_SERVICE_REQUEST # enc_str (bytes_of ''ssh-userauth''), ST_AUTH, KX_IDLE, ?c),
    (password_request usr pw [], ST_CONN, KX_IDLE, ?e1), (channel_open sn wn mx, ST_CONN, KX_IDLE, ?e2),
    (pty_request tm co ro [], ST_CONN, KX_IDLE, ?e3), (shell_request, ST_CONN, KX_IDLE, ?e4)]"
  have o: "\<not> chanOpen ?e1" "chanOpen ?e2" "chanOpen ?e3" using n(8) by simp_all
  have "route h (ST_KEX, KX_WAIT_KEXINIT, ?c) ?r (ST_CONN, KX_IDLE, ?e4)"
    using takes_kexinit [OF h assms(7,8)] takes_kexdh [OF h assms(9)] takes_newkeys [OF h] takes_service [OF h]
      takes_password [OF h assms(10-13)] takes_open [OF h o(1)] takes_pty [OF h o(2) assms(14-18)] takes_shell [OF h o(3)]
    unfolding route.simps by blast
  moreover have "map fst ?r = client_messages cookie css qc usr pw (sn, wn, mx) (tm, co, ro)" by (simp add: client_messages_def)
  ultimately obtain c2 where 2: "send_packets h put net pad (client_messages cookie css qc usr pw (sn, wn, mx) (tm, co, ro)) c1 = Some c2"
    "between q c2" "at_point ST_CONN KX_IDLE ?e4 c2"
    using route_sent [OF assms(4-6) h assms(2,3) _ 1(2,3)] by metis
  have "active (dir_in c2)" "active (dir_out c2)"
    using 2(2,3) by (auto simp: between_def at_point_def conn_inv_def phase_inv_def)
  have v: "authenticated c2" "user c2 = usr" "chanOpen c2" "\<not> closeRecv c2" "\<not> closeSent c2" "shellReady c2" "remoteChan c2 = sn"
    "remoteWindow c2 = wn" "remoteMaxPkt c2 = mx" "cols c2 = co" "rows c2 = ro" "state c2 = ST_CONN"
    using 2(3) by (simp_all add: at_point_def sess_view_def)
  have "rx c2 = []" "q (ioCtx c2) = []" using 2(2) by (simp_all add: between_def)
  have "SshUser c2 = usr" "SshIsOpen c2" "SshGetWindow c2 = (co, ro)"
    using v by (simp_all add: SshUser_def SshIsOpen_def SshGetWindow_def c_str_id [OF assms(10)])
  show ?thesis
    by (rule exI [of _ ?c], rule exI [of _ prog], rule exI [of _ c1], rule exI [of _ c2]) (intro conjI; fact)
qed

text \<open>The sample host with the transport of \<^verbatim>\<open>Segment\<close> and a network that delivers single bytes.\<close>

lemma cut_host_laws: "host_works cut_host" "ctr_stream cut_host" "hmac_len cut_host"
proof -
  have p: "packet_mac cut_host = packet_mac sample_host" "RtAlloc_block cut_host = RtAlloc_block sample_host"
    "kex_secret cut_host = kex_secret sample_host"
    by (intro ext, simp add: packet_mac_def RtAlloc_block_def kex_secret_def cut_host_def)+
  have s: "rng_fills cut_host = rng_fills sample_host" by (simp add: rng_fills_def cut_host_def)
  show "host_works cut_host" using sample_works unfolding host_works_def p s by (simp add: cut_host_def)
  have e: "wc_AesCtrEncrypt cut_host = wc_AesCtrEncrypt sample_host" "wc_HmacInit cut_host = wc_HmacInit sample_host"
    "wc_HmacSetKey cut_host = wc_HmacSetKey sample_host" "wc_HmacUpdate cut_host = wc_HmacUpdate sample_host"
    "wc_HmacFinal cut_host = wc_HmacFinal sample_host"
    by (simp_all add: cut_host_def)
  show "ctr_stream cut_host" using sample_ctr_stream unfolding ctr_stream_def e .
  show "hmac_len cut_host" using sample_hmac_len unfolding hmac_len_def e .
qed

lemma cut_new: "SshNew cut_host 2000 (\<lambda>_. 0) (replicate 32 8) ([], []) = (Some sample_new, ([], []))"
proof -
  have a: "RtAlloc_block cut_host n w = ((4112, 4096), w)" for n w using sample_alloc [of n w] by (simp add: RtAlloc_block_def cut_host_def)
  show ?thesis by (simp add: SshNew_def a alloc_buffers_def buffers_missing_def no_blocks_def)
    (simp add: init_conn_def cut_host_def sample_host_def LoadHostKey_def sample_new_def sample_blocks_def conn_zero_def dir_zero_def)
qed

theorem client_bytes_get_shell_witness:
  "\<exists>c prog c1 c2. send_version cut_host sample_new = (True, c) \<and>
     arrive cut_host cut_put (map (\<lambda>b. [b])) (bytes_of ''SSH-2.0'' @ bytes_of ''-x'' @ [13, 10]) c = Some (0, prog, c1) \<and>
     send_packets cut_host cut_put (map (\<lambda>b. [b])) (\<lambda>n. replicate n 0) (client_messages (replicate 16 0) sample_css (replicate 32 1)
       (bytes_of ''admin'') (bytes_of ''pw'') (0, 1000, 500) (bytes_of ''xterm'', 120, 40)) c1 = Some c2 \<and>
     shellReady c2 \<and> SshGetWindow c2 = (120, 40)"
proof -
  have "concat (map (\<lambda>b. [b]) bs) = bs" for bs :: bytes by (induction bs) simp_all
  then have n: "cuts (map (\<lambda>b. [b]))" "pads (\<lambda>n. replicate n 0)" by (auto simp: cuts_def pads_def)
  have l: "length (offer (replicate 16 0) sample_css 0 0) + 64 \<le> SSH_MAX_PACKET"
    by (simp add: offer_def kexinit_msg_def sample_css_def enc_names_def mac_names_def bytes_of_def SSH_MAX_PACKET_def)
  have a: "auth_fn cut_host (bytes_of ''admin'') (c_str (bytes_of ''pw''))" "0 \<notin> set (bytes_of ''admin'')" "10 \<notin> set (bytes_of ''-x'')"
    "bytes_of ''-x'' \<noteq> []" "length (bytes_of ''admin'') < USER_CAP" "length (bytes_of ''pw'') < PW_CAP" "length (bytes_of ''xterm'') < 30000"
    "length (bytes_of ''-x'') \<le> 245"
    by (simp_all add: cut_host_def sample_host_def c_str_def bytes_of_def USER_CAP_def PW_CAP_def)
  have k: "length (replicate 32 (1 :: byte)) = 32" "(0 :: u32) < 120" "(120 :: u32) < 1000" "(0 :: u32) < 40" "(40 :: u32) < 1000" by simp_all
  from client_bytes_get_shell [OF cut_host_laws cut_host_input n sample_common l k(1) a(2,5,6,1,7) k(2-5) a(3,4,8) cut_new, of 0 1000 500]
  show ?thesis by blast
qed

end
