(* ===== verification/Server.thy ===== *)
theory Server
  imports Install Net Fingerprint Launch Ssh_Heap Login Client
begin

text \<open>
  \<^verbatim>\<open>EfiMain\<close>: the listener, the sessions one after another, the end. It puts the parts together:
  \<^verbatim>\<open>ssh.c\<close> over \<^verbatim>\<open>net.c\<close>, the console shim over \<^verbatim>\<open>ssh.c\<close>, and the Shell over the shim.
\<close>

text \<open>
  What the program runs on: the firmware as each part sees it, wolfCrypt, the sizes of the
  structures. The images run with the system table and the
  installed shim as their state.
\<close>

record 'w machine =
  Tcp4 :: "'w tcp_fw"
  Heap :: "'w pool_firmware"
  Crypto :: "(net_conn \<times> 'w) host"
  OldConsole :: "(net_conn \<times> 'w) console"
  Boot :: "(net_conn \<times> 'w) shim_boot"
  Images :: "(system_table \<times> (net_conn \<times> 'w) installation) launch_fw"
  LocalText :: "u16 list \<Rightarrow> 'w \<Rightarrow> 'w"
  SetWatchdogTimer :: "'w \<Rightarrow> 'w"
  OwnOptions :: "'w \<Rightarrow> loaded_image option"
  LoadedImage :: "nat \<Rightarrow> (u64 \<times> u64) option"
  TableFields :: "nat \<Rightarrow> nat \<times> nat \<times> nat"
  Sizes :: "nat \<times> nat \<times> nat"

text \<open>The generated seed of the host key.\<close>

definition HOST_KEY_SEED :: bytes where
  "HOST_KEY_SEED = [0x60, 0xd8, 0xa1, 0xad, 0xcd, 0x6a, 0x81, 0x7e, 0x24, 0xbe, 0x15, 0x16, 0x67, 0x5c, 0xd2, 0xe8,
     0x8d, 0xa4, 0x44, 0xb9, 0xe0, 0x65, 0x36, 0x38, 0x11, 0x18, 0xe1, 0x54, 0xf7, 0x7f, 0x17, 0x37]"

lemma length_HOST_KEY_SEED: "length HOST_KEY_SEED = 32"
  by (simp add: HOST_KEY_SEED_def)

text \<open>
  The connection layer over the socket layer, with the firmware's services and the server's password
  check. Clock and pool do not touch the socket.
\<close>

definition behind_conn :: "('w \<Rightarrow> 'a \<times> 'w) \<Rightarrow> net_conn \<times> 'w \<Rightarrow> 'a \<times> net_conn \<times> 'w" where
  "behind_conn g s = (case g (snd s) of (r, w) \<Rightarrow> (r, (fst s, w)))"

definition ssh_host :: "'w machine \<Rightarrow> server_cfg \<Rightarrow> (net_conn \<times> 'w) host" where
  "ssh_host M cfg = (Crypto M)\<lparr>
     GetTime := behind_conn (GetTime (Tcp4 M)), Stall := (\<lambda>n. map_prod id (Stall (Tcp4 M) n)),
     AllocatePool := (\<lambda>n. behind_conn (AllocatePool (Heap M) n)), FreePool := (\<lambda>a. map_prod id (FreePool (Heap M) a)),
     rd := net_rd (Tcp4 M), wr := net_wr (Tcp4 M), auth_fn := CheckPassword (creds_of cfg)\<rparr>"

text \<open>The program's state between sessions.\<close>

record 'w server =
  Globals :: rt_globals
  Module :: net_module
  Memory :: mem
  Table :: system_table
  Conn :: net_conn
  World :: 'w

definition print_line :: "'w machine \<Rightarrow> bytes \<Rightarrow> print_arg list \<Rightarrow> 'w \<Rightarrow> 'w" where
  "print_line M fmt args w = (case Print True fmt args of None \<Rightarrow> w | Some cs \<Rightarrow> LocalText M cs w)"

text \<open>The same while the world is behind a connection.\<close>

definition print_conn :: "'w machine \<Rightarrow> bytes \<Rightarrow> print_arg list \<Rightarrow> (net_conn \<times> 'w) conn \<Rightarrow> (net_conn \<times> 'w) conn" where
  "print_conn M fmt args c = c\<lparr>ioCtx := map_prod id (print_line M fmt args) (ioCtx c)\<rparr>"

definition line :: "string \<Rightarrow> bytes" where
  "line s = bytes_of s @ [10]"

subsection \<open>One session\<close>

definition no_shell_msg :: bytes where
  "no_shell_msg = [13, 10] @ bytes_of ''No UEFI Shell image could be started on this system. Put Shell.efi next to SshShell.efi or pass -s.'' @ [13, 10]"

text \<open>What follows \<^verbatim>\<open>LaunchShell\<close>: the console is restored, a failure is told to both sides.\<close>

definition after_shell :: "'w machine \<Rightarrow> server_cfg \<Rightarrow> efi_status \<Rightarrow> system_table \<times> (net_conn \<times> 'w) installation \<Rightarrow>
    (system_table \<times> (net_conn \<times> 'w) conn) option" where
  "after_shell M cfg st TI =
     Option.bind (ShimRemove (ssh_host M cfg) (OldConsole M) (Boot M) (fst TI) (snd TI)) (\<lambda>(T, I).
       let c = Ssh (Con I) in
       if EFI_ERROR st
       then (let c = print_conn M (line ''Could not start a Shell: %r'') [A64 st] c in
             map_option (\<lambda>(r, c). (T, c)) (SshWrite (ssh_host M cfg) no_shell_msg c))
       else Some (T, c))"

text \<open>The shell of an accepted connection; \<open>dir\<close> and \<open>full\<close> are local arrays of \<^verbatim>\<open>LaunchShell\<close>.\<close>

definition run_shell :: "'w machine \<Rightarrow> server_cfg \<Rightarrow> u16 list \<Rightarrow> u16 list \<Rightarrow> mem \<Rightarrow> system_table \<Rightarrow> (net_conn \<times> 'w) conn \<Rightarrow>
    (mem \<times> system_table \<times> (net_conn \<times> 'w) conn) option" where
  "run_shell M cfg dir full m T c =
     (let c = print_conn M (line ''Session for %s started. This console is redirected until the Shell exits.'') [AStr (SshUser c)] c in
      Option.bind (ShimInstall (ssh_host M cfg) (OldConsole M) (Boot M) c T) (\<lambda>(st, T, I).
        if EFI_ERROR st
        then Some (m, T, print_conn M (line ''Console shim install failed: %r'') [A64 st] (Ssh (Con I)))
        else Option.bind (LaunchShell (Images M) cfg dir full (m, (T, I))) (\<lambda>(st, m, TI).
               map_option (\<lambda>(T, c). (m, T, c)) (after_shell M cfg st TI))))"

text \<open>
  From the accepted socket to its end. \<open>ring\<close>, \<open>dir\<close> and \<open>full\<close> are uninitialised memory.
\<close>

definition end_conn :: "'w machine \<Rightarrow> 'w server \<Rightarrow> net_conn \<times> 'w \<Rightarrow> 'w server option" where
  "end_conn M s cw = map_option (\<lambda>(c, w). s\<lparr>Conn := c, World := w\<rparr>) (NetCloseConn (Tcp4 M) (Module s) (fst cw) (snd cw))"

definition serve :: "'w machine \<Rightarrow> server_cfg \<Rightarrow> (nat \<Rightarrow> byte) \<Rightarrow> u16 list \<Rightarrow> u16 list \<Rightarrow> 'w server \<Rightarrow> 'w server option" where
  "serve M cfg ring dir full s =
     (case SshNew (ssh_host M cfg) (snd (snd (Sizes M))) ring HOST_KEY_SEED (Conn s, World s) of
        (None, cw) \<Rightarrow> end_conn M s cw
      | (Some c, cw) \<Rightarrow>
          Option.bind (SshAccept (ssh_host M cfg) c) (\<lambda>(r, c).
          Option.bind (if r = 0 then run_shell M cfg dir full (Memory s) (Table s) c else Some (Memory s, Table s, c)) (\<lambda>(m, T, c).
          Option.bind (SshClose (ssh_host M cfg) 0 c) (\<lambda>c.
            map_option (\<lambda>s. s\<lparr>World := print_line M (line ''Session ended'') [] (World s)\<rparr>)
              (end_conn M (s\<lparr>Memory := m, Table := T\<rparr>) (SshFree (ssh_host M cfg) c))))))"

subsection \<open>The main loop\<close>

definition client_line :: "net_conn \<Rightarrow> print_arg list" where
  "client_line c = [AInt (uint (drop_bit 24 (Remote c))), AInt (uint (drop_bit 16 (Remote c) AND 0xFF)),
     AInt (uint (drop_bit 8 (Remote c) AND 0xFF)), AInt (uint (Remote c AND 0xFF)), AUns (ucast (RemotePort c))]"

partial_function (option) accept_loop_main :: "'w machine \<Rightarrow> server_cfg \<Rightarrow> (nat \<Rightarrow> byte) \<Rightarrow> u16 list \<Rightarrow> u16 list \<Rightarrow> nat \<Rightarrow> 'w server \<Rightarrow>
    'w server option" where
  "accept_loop_main M cfg ring dir full failures s =
     Option.bind (NetAccept (Tcp4 M) (Module s) (Conn s)
         (print_line M (line ''Waiting for a client. Press ESC or q here to stop.'') [] (World s))) (\<lambda>(st, c, w).
       let s = s\<lparr>Conn := c, World := w\<rparr> in
       if st = EFI_ABORTED then Some s
       else if EFI_ERROR st then
         (if 5 \<le> failures + 1 then Some (s\<lparr>World := print_line M (line ''Giving up after repeated accept failures'') [] w\<rparr>)
          else accept_loop_main M cfg ring dir full (failures + 1) (s\<lparr>World := Stall (Tcp4 M) 500000 w\<rparr>))
       else
         Option.bind (serve M cfg ring dir full
             (s\<lparr>World := print_line M (line ''Client %d.%d.%d.%d:%u connected'') (client_line c) w\<rparr>))
           (accept_loop_main M cfg ring dir full 0))"

declare accept_loop_main.simps [code]

text \<open>Printing the lines of \<^verbatim>\<open>Usage\<close>, and the banner.\<close>

definition print_usage :: "'w machine \<Rightarrow> 'w \<Rightarrow> 'w" where
  "print_usage M w = foldl (\<lambda>w (fmt, args). print_line M fmt args w) w Usage"

definition banner :: "'w machine \<Rightarrow> server_cfg \<Rightarrow> bool \<Rightarrow> rt_globals \<Rightarrow> 'w \<Rightarrow> 'w" where
  "banner M cfg dbg g w =
     (let w = print_line M (line ''UEFI SSH Shell server'') [] w;
          w = (case LoadedImage M (gImageHandle g) of
                 Some (base, sz) \<Rightarrow> if dbg then print_line M (line ''Image base %lx size %lx'') [A64 base, A64 sz] w else w
               | None \<Rightarrow> w);
          w = LocalText M (map (\<lambda>ch. of_nat (of_char ch)) (SshPrintHostKey (ssh_host M cfg) HOST_KEY_SEED) @ [0]) w
      in print_line M (line ''Login: user %s'') [AStr (text_of (User cfg))] w)"

text \<open>The two blocks of the program; \<open>EfiMain\<close> runs with both addresses.\<close>

definition run_server :: "'w machine \<Rightarrow> server_cfg \<Rightarrow> (nat \<Rightarrow> byte) \<Rightarrow> u16 list \<Rightarrow> u16 list \<Rightarrow> u64 \<Rightarrow> u64 \<Rightarrow> 'w server \<Rightarrow>
    (efi_status \<times> 'w server) option" where
  "run_server M cfg ring dir full pc ps s =
     (let free = (\<lambda>s. let (m, w) = RtFree (Heap M) ps (RtFree (Heap M) pc (Memory s, World s)) in s\<lparr>Memory := m, World := w\<rparr>) in
      Option.bind (NetListenStart (Tcp4 M) (Port cfg) (Module s) (World s)) (\<lambda>(st, md, w).
        let s = s\<lparr>Module := md, World := w\<rparr> in
        if EFI_ERROR st then Some (st, free s)
        else map_option (\<lambda>s.
               let (md, w) = NetListenStop (Tcp4 M) (Module s) (World s);
                   s = free (s\<lparr>Module := md, World := w\<rparr>)
               in (EFI_SUCCESS, s\<lparr>World := print_line M (line ''Server stopped'') [] (World s)\<rparr>))
             (accept_loop_main M cfg ring dir full 0 s)))"

definition EfiMain :: "'w machine \<Rightarrow> nat \<Rightarrow> nat \<Rightarrow> u16 list \<Rightarrow> bytes \<Rightarrow> (nat \<Rightarrow> byte) \<Rightarrow> u16 list \<Rightarrow> u16 list \<Rightarrow> 'w server \<Rightarrow>
    (efi_status \<times> 'w server) option" where
  "EfiMain M ImageHandle SystemTable buf tmp ring dir full s0 =
     (let s = s0\<lparr>Globals := RtInit ImageHandle SystemTable (TableFields M SystemTable) (LoadedImage M) (Globals s0)\<rparr> in
      Option.bind (ParseArgs buf tmp (OwnOptions M (World s)) False mCfg0) (\<lambda>(ok, dbg, cfg).
       if \<not> ok then Some (EFI_INVALID_PARAMETER, s\<lparr>World := print_usage M (World s)\<rparr>)
       else (let w = banner M cfg dbg (Globals s) (SetWatchdogTimer M (World s)) in
         Option.bind (RtAllocZero (Heap M) (fst (Sizes M)) (Memory s, w)) (\<lambda>(pc, m, w).
         Option.bind (RtAllocZero (Heap M) (fst (snd (Sizes M))) (m, w)) (\<lambda>(ps, m, w).
           let s = s\<lparr>Memory := m, World := w\<rparr> in
           if pc = 0 \<or> ps = 0
           then Some (EFI_OUT_OF_RESOURCES, s\<lparr>World := print_line M (line ''Out of memory'') [] w\<rparr>)
           else run_server M cfg ring dir full pc ps (s\<lparr>Conn := net_zero\<rparr>))))))"

end
