(* ===== verification/Serving.thy ===== *)
theory Serving
  imports Server
begin

text \<open>
  The program as a whole: whatever the Shell does through the services it is given, the firmware's
  console is back when its session is over; the Shell runs for nobody but the configured user; and
  the main loop ends when every accept fails.
\<close>

subsection \<open>A launch is a sequence of service calls\<close>

text \<open>
  One call of a boot service, or the run of a started image, as a step on the rest of the program's
  state. What every step keeps, \<^verbatim>\<open>LaunchShell\<close> keeps.
\<close>

inductive service_step :: "('s, 'z) launch_fw_scheme \<Rightarrow> 's \<Rightarrow> 's \<Rightarrow> bool" for fw where
  svc_alloc: "service_step fw s (snd (AllocatePool fw n s))"
| svc_free: "service_step fw s (FreePool fw a s)"
| svc_options: "service_step fw s (SetOptions fw i os n s)"
| svc_start: "StartImage fw i s = Some (r, s') \<Longrightarrow> service_step fw s s'"
| svc_locate: "service_step fw s (snd (LocateFvs fw s))"
| svc_section: "service_step fw s (snd (ReadSection fw f s))"
| svc_buffer: "service_step fw s (snd (LoadBuffer fw p s))"
| svc_path: "service_step fw s (snd (LoadPath fw bs s))"
| svc_print: "service_step fw s (LocalPrint fw cs s)"

abbreviation service_steps :: "('s, 'z) launch_fw_scheme \<Rightarrow> 's \<Rightarrow> 's \<Rightarrow> bool" where
  "service_steps fw \<equiv> (service_step fw)\<^sup>*\<^sup>*"

lemma then_service:
  assumes "service_steps fw s t"
  shows "service_steps fw s (snd (AllocatePool fw n t))" "service_steps fw s (FreePool fw a t)"
    "service_steps fw s (SetOptions fw i os k t)" "StartImage fw i t = Some (r, u) \<Longrightarrow> service_steps fw s u"
    "service_steps fw s (snd (LocateFvs fw t))" "service_steps fw s (snd (ReadSection fw f t))"
    "service_steps fw s (snd (LoadBuffer fw p t))" "service_steps fw s (snd (LoadPath fw bs t))"
    "service_steps fw s (LocalPrint fw cs t)"
  using assms by (auto intro: rtranclp.rtrancl_into_rtrancl service_step.intros)

lemma say_steps: "service_steps fw s t \<Longrightarrow> service_steps fw s (say fw fmt args t)"
  by (simp add: say_def then_service(9) split: option.split)

lemma alloc_steps:
  assumes "RtAllocZero fw n (m, t) = Some (p, m', t')" and "service_steps fw s t"
  shows "service_steps fw s t'"
proof -
  obtain p1 m1 t1 where a: "RtAlloc_mem fw n (m, t) = (p1, m1, t1)" by (metis prod.collapse)
  obtain r u where r: "AllocatePool fw ((if n = 0 then 1 else n) + 32) t = (r, u)" by (metis surj_pair)
  have "t1 = u" using a r by (cases r) (simp_all add: RtAlloc_mem_def Let_def split: if_splits)
  then have "t1 = snd (AllocatePool fw ((if n = 0 then 1 else n) + 32) t)" using r by simp
  moreover have "t' = t1" using assms(1) a by (auto simp: RtAllocZero_def bind_eq_Some_conv split: if_splits)
  ultimately show ?thesis using then_service(1) [OF assms(2)] by simp
qed

lemma free_steps: "service_steps fw s t \<Longrightarrow> service_steps fw s (snd (RtFree fw p (m, t)))"
  by (simp add: RtFree_def then_service(2))

lemma start_steps:
  assumes "StartImageWithOpts fw opts img t = Some (st, t')" and "service_steps fw s t"
  shows "service_steps fw s t'"
proof -
  obtain n where n: "StrLen16 opts = Some n" using assms(1) by (auto simp: StartImageWithOpts_def bind_eq_Some_conv)
  define t1 where "t1 = (if opts ! 0 \<noteq> 0 \<and> ImageInfo fw img t then SetOptions fw img (take n opts) (of_nat ((n + 1) * 2)) t else t)"
  have 1: "service_steps fw s t1" unfolding t1_def using assms(2) by (simp add: then_service(3) del: of_nat_mult of_nat_add of_nat_Suc)
  obtain d t2 where "StartImage fw img t1 = Some ((st, d), t2)" "t' = (if d \<noteq> 0 then FreePool fw d t2 else t2)"
    using assms(1) by (auto simp: StartImageWithOpts_def n Let_def t1_def [symmetric])
  then show ?thesis by (simp add: then_service(2) then_service(4) [OF 1])
qed

lemma fv_loop_steps: "fv_loop fw opts fvs hs t = Some (st, t') \<Longrightarrow> service_steps fw s t \<Longrightarrow> service_steps fw s t'"
proof (induction hs arbitrary: t)
  case Nil
  then show ?case by (auto simp: then_service(2))
next
  case (Cons f hs)
  show ?case
  proof (cases "FvProtocol fw f t")
    case None
    with Cons show ?thesis by simp
  next
    case (Some fv)
    obtain st1 pe t1 where 1: "ReadSection fw fv t = ((st1, pe), t1)" by (metis prod.collapse)
    obtain st2 img t2 where 2: "LoadBuffer fw pe t1 = ((st2, img), t2)" by (metis prod.collapse)
    have r1: "service_steps fw s t1" using then_service(6) [OF Cons.prems(2), of fv] 1 by simp
    have r2: "service_steps fw s t2" using then_service(7) [OF r1, of pe] 2 by simp
    consider "EFI_ERROR st1 \<or> pe = 0" | "\<not> (EFI_ERROR st1 \<or> pe = 0)" "EFI_ERROR st2"
      | "\<not> (EFI_ERROR st1 \<or> pe = 0)" "\<not> EFI_ERROR st2" by blast
    then show ?thesis
    proof cases
      case a: 1
      then show ?thesis using Cons.prems(1) Cons.IH [OF _ r1] Some 1 by simp
    next
      case b: 2
      then show ?thesis using Cons.prems(1) Cons.IH [OF _ then_service(2) [OF r2]] Some 1 2 by simp
    next
      case c: 3
      then have "StartImageWithOpts fw opts img
          (say fw (bytes_of ''Starting the firmware volume Shell'' @ [10]) [] (FreePool fw fvs (FreePool fw pe t2))) = Some (st, t')"
        using Cons.prems(1) Some 1 2 by simp
      then show ?thesis by (rule start_steps [OF _ say_steps [OF then_service(2) [OF then_service(2) [OF r2]]]])
    qed
  qed
qed

lemma TryFv_steps: "TryFv fw opts t = Some (st, t') \<Longrightarrow> service_steps fw s t \<Longrightarrow> service_steps fw s t'"
proof -
  assume y: "TryFv fw opts t = Some (st, t')" and s: "service_steps fw s t"
  obtain st1 r t1 where l: "LocateFvs fw t = ((st1, r), t1)" by (metis prod.collapse)
  have "service_steps fw s t1" using then_service(5) [OF s] by (simp add: l)
  then show ?thesis using y l by (auto simp: TryFv_def split: if_splits intro: fv_loop_steps)
qed

lemma TryFile_steps:
  assumes "TryFile fw opts li path (m, t) = Some (st, m', t')" and "service_steps fw s t"
  shows "service_steps fw s t'"
proof (cases "DeviceHandle li = 0 \<or> path ! 0 = 0 \<or> DevicePath fw (DeviceHandle li) t = None")
  case True
  then show ?thesis using assms by (auto simp: TryFile_def split: option.splits)
next
  case False
  then obtain dev where d: "DevicePath fw (DeviceHandle li) t = Some dev" "DeviceHandle li \<noteq> 0" "path ! 0 \<noteq> 0" by auto
  then obtain k n p m1 t1 where
    1: "DevPathLen m (unat dev) = Some k" "StrLen16 path = Some n" "RtAllocZero fw (k + (4 + (n + 1) * 2) + 4) (m, t) = Some (p, m1, t1)"
    using assms(1) by (auto simp: TryFile_def Let_def bind_eq_Some_conv)
  have r1: "service_steps fw s t1" by (rule alloc_steps [OF 1(3) assms(2)])
  show ?thesis
  proof (cases "p = 0")
    case True
    then show ?thesis using assms(1) d 1 r1 by (simp add: TryFile_def Let_def)
  next
    case False
    then obtain m2 where 2: "memcpy (unat p) (unat dev) k m1 = Some m2"
      using assms(1) d 1 by (auto simp: TryFile_def Let_def bind_eq_Some_conv)
    let ?m = "put_node (unat p + k) (take (n + 1) path) m2"
    obtain st1 img t2 where 3: "LoadPath fw (cells_at ?m (unat p) (k + (4 + (n + 1) * 2) + 4)) t1 = ((st1, img), t2)"
      by (metis prod.collapse)
    obtain m3 t3 where 4: "RtFree fw p (?m, t2) = (m3, t3)" by (cases "RtFree fw p (?m, t2)")
    have "service_steps fw s t2" using then_service(8) [OF r1, of "cells_at ?m (unat p) (k + (4 + (n + 1) * 2) + 4)"] unfolding 3 by simp
    then have r3: "service_steps fw s t3" using free_steps [of fw s t2 p ?m] 4 by simp
    have e: "(if EFI_ERROR st1 then Some (st1, m3, t3)
        else Option.bind (ToAscii path (replicate 260 0) 260) (\<lambda>a. map_option (\<lambda>(st, s). (st, m3, s))
          (StartImageWithOpts fw opts img (say fw (bytes_of ''Starting %s'' @ [10]) [AStr (text_of a)] t3)))) = Some (st, m', t')"
      using assms(1) d 1 2 3 4 False by (simp add: TryFile_def Let_def)
    show ?thesis
    proof (cases "EFI_ERROR st1")
      case True
      with e r3 show ?thesis by simp
    next
      case no: False
      with e obtain a where "StartImageWithOpts fw opts img (say fw (bytes_of ''Starting %s'' @ [10]) [AStr (text_of a)] t3) = Some (st, t')"
        by (auto simp: bind_eq_Some_conv)
      then show ?thesis by (rule start_steps [OF _ say_steps [OF r3]])
    qed
  qed
qed

lemma try_candidates_steps:
  "try_candidates fw opts li dir full cs (m, t) = Some (st, m', t') \<Longrightarrow> service_steps fw s t \<Longrightarrow> service_steps fw s t'"
proof (induction cs arbitrary: full m t)
  case (Cons c cs)
  obtain p where p: "full_path dir full c = Some p" using Cons.prems(1) by (auto simp: bind_eq_Some_conv)
  show ?case
  proof (cases p)
    case None
    with Cons p show ?thesis by simp
  next
    case (Some f)
    with Cons.prems(1) p obtain st1 m1 t1 where 1: "TryFile fw opts li f (m, t) = Some (st1, m1, t1)"
      by (auto simp: bind_eq_Some_conv)
    have "service_steps fw s t1" by (rule TryFile_steps [OF 1 Cons.prems(2)])
    then show ?thesis using Cons.prems(1) Cons.IH p Some 1 by (auto split: if_splits)
  qed
qed simp

lemma launch_defaults_steps:
  assumes "launch_defaults fw cfg dir full li (m, t) = Some (st, m', t')" and "service_steps fw s t"
  shows "service_steps fw s t'"
proof -
  obtain st1 t1 where 1: "TryFv fw (ShellOpts cfg) t = Some (st1, t1)"
    using assms(1) by (auto simp: launch_defaults_def bind_eq_Some_conv)
  have "service_steps fw s t1" by (rule TryFv_steps [OF 1 assms(2)])
  then show ?thesis using assms(1) 1 by (auto simp: launch_defaults_def bind_eq_Some_conv split: if_splits intro: try_candidates_steps)
qed

lemma LaunchShell_steps:
  assumes "LaunchShell fw cfg dir full (m, t) = Some (st, m', t')"
  shows "service_steps fw t t'"
proof (cases "OwnImage fw t")
  case None
  then show ?thesis using assms rtranclp.rtrancl_refl by (simp add: LaunchShell_def)
next
  case (Some li)
  show ?thesis
  proof (cases "ShellPath cfg ! 0 \<noteq> 0")
    case False
    then show ?thesis using assms Some rtranclp.rtrancl_refl by (auto simp: LaunchShell_def intro: launch_defaults_steps)
  next
    case True
    then obtain st1 m1 t1 where 1: "TryFile fw (ShellOpts cfg) li (ShellPath cfg) (m, t) = Some (st1, m1, t1)"
      using assms Some by (auto simp: LaunchShell_def bind_eq_Some_conv)
    have "service_steps fw t t1" by (rule TryFile_steps [OF 1 rtranclp.rtrancl_refl])
    then show ?thesis using assms Some True 1
      by (auto simp: LaunchShell_def split: if_splits intro: launch_defaults_steps say_steps)
  qed
qed

subsection \<open>The console comes back\<close>

text \<open>
  What a service may do while the shim is the console: anything to the system table, and to the
  shim only what its protocols, timers and the world underneath it allow.
\<close>

definition moves :: "'w host \<Rightarrow> 'w console \<Rightarrow> system_table \<times> 'w installation \<Rightarrow> system_table \<times> 'w installation \<Rightarrow> bool" where
  "moves h l TI TI' \<longleftrightarrow> (\<exists>S. (shim_step h l)\<^sup>*\<^sup>* (Con (snd TI)) S \<and> snd TI' = (snd TI)\<lparr>Con := S\<rparr>)"

definition through_shim :: "'w machine \<Rightarrow> server_cfg \<Rightarrow> bool" where
  "through_shim M cfg \<longleftrightarrow> (\<forall>TI TI'. service_step (Images M) TI TI' \<longrightarrow> moves (ssh_host M cfg) (OldConsole M) TI TI')"

lemma moves_refl: "moves h l TI TI"
  unfolding moves_def by (rule exI [of _ "Con (snd TI)"]) simp

lemma moves_trans: "moves h l A B \<Longrightarrow> moves h l B C \<Longrightarrow> moves h l A C"
proof -
  assume "moves h l A B" and "moves h l B C"
  then obtain S U where "(shim_step h l)\<^sup>*\<^sup>* (Con (snd A)) S" "(shim_step h l)\<^sup>*\<^sup>* S U" "snd C = (snd A)\<lparr>Con := U\<rparr>"
    by (auto simp: moves_def)
  then show ?thesis unfolding moves_def by (intro exI [of _ U]) (auto intro: rtranclp_trans)
qed

lemma launch_moves:
  assumes "through_shim M cfg" and "service_steps (Images M) TI TI'"
  shows "moves (ssh_host M cfg) (OldConsole M) TI TI'"
  using assms(2)
proof induction
  case base
  show ?case by (rule moves_refl)
next
  case (step B C)
  then have "moves (ssh_host M cfg) (OldConsole M) B C" using assms(1) unfolding through_shim_def by blast
  then show ?case by (rule moves_trans [OF step.IH])
qed

lemma run_shell_console:
  assumes "run_shell M cfg dir full m T c = Some (m', T', c')" and "through_shim M cfg"
  shows "console_of T' = console_of T"
proof -
  let ?h = "ssh_host M cfg"
  obtain c1 st T1 I where i: "ShimInstall ?h (OldConsole M) (Boot M) c1 T = Some (st, T1, I)"
    and r: "(if EFI_ERROR st
        then Some (m, T1, print_conn M (line ''Console shim install failed: %r'') [A64 st] (Ssh (Con I)))
        else Option.bind (LaunchShell (Images M) cfg dir full (m, (T1, I))) (\<lambda>(st, m, TI).
               map_option (\<lambda>(T, c). (m, T, c)) (after_shell M cfg st TI))) = Some (m', T', c')"
    using assms(1) by (auto simp: run_shell_def Let_def bind_eq_Some_conv)
  show ?thesis
  proof (cases "EFI_ERROR st")
    case True
    then show ?thesis using r ShimInstall_outcomes [OF i] by simp
  next
    case False
    then obtain st2 m2 T2 J where l: "LaunchShell (Images M) cfg dir full (m, (T1, I)) = Some (st2, m2, (T2, J))"
      and a: "after_shell M cfg st2 (T2, J) = Some (T', c')"
      using r by (auto simp: bind_eq_Some_conv)
    obtain S where S: "(shim_step ?h (OldConsole M))\<^sup>*\<^sup>* (Con I) S" "J = I\<lparr>Con := S\<rparr>"
      using launch_moves [OF assms(2) LaunchShell_steps [OF l]] by (auto simp: moves_def)
    obtain K where "ShimRemove ?h (OldConsole M) (Boot M) T2 (I\<lparr>Con := S\<rparr>) = Some (T', K)"
      using a S(2) by (auto simp: after_shell_def Let_def bind_eq_Some_conv split: if_splits)
    from shim_round_trip_lemma [OF i False S(1) this] show ?thesis by blast
  qed
qed

text \<open>Closing the socket does not touch the table.\<close>

lemma end_conn_table: "end_conn M s cw = Some s' \<Longrightarrow> Table s' = Table s"
  by (auto simp: end_conn_def)

lemma serve_console:
  assumes "serve M cfg ring dir full s = Some s'" and "through_shim M cfg"
  shows "console_of (Table s') = console_of (Table s)"
proof -
  let ?h = "ssh_host M cfg"
  obtain o1 cw where n: "SshNew ?h (snd (snd (Sizes M))) ring HOST_KEY_SEED (Conn s, World s) = (o1, cw)" by (metis surj_pair)
  show ?thesis
  proof (cases o1)
    case None
    then show ?thesis using assms(1) n by (auto simp: serve_def dest: end_conn_table)
  next
    case (Some c)
    obtain r c1 m T c2 c3 t where "(if r = (0 :: int) then run_shell M cfg dir full (Memory s) (Table s) c1 else Some (Memory s, Table s, c1)) = Some (m, T, c2)"
      and "end_conn M (s\<lparr>Memory := m, Table := T\<rparr>) (SshFree ?h c3) = Some t"
      and "s' = t\<lparr>World := print_line M (line ''Session ended'') [] (World t)\<rparr>"
      using assms(1) n Some by (auto simp: serve_def bind_eq_Some_conv)
    note 1 = this
    have "console_of T = console_of (Table s)" using 1(1) run_shell_console [OF _ assms(2)] by (auto split: if_splits)
    then show ?thesis using 1(3) end_conn_table [OF 1(2)] by simp
  qed
qed

lemma accept_loop_main_console:
  assumes "accept_loop_main M cfg ring dir full k s = Some s'" and "through_shim M cfg"
  shows "console_of (Table s') = console_of (Table s)"
proof -
  have "M = M \<and> cfg = cfg \<longrightarrow> console_of (Table s') = console_of (Table s)"
  proof (rule accept_loop_main.raw_induct [where P = "\<lambda>N g ring dir full k s s'. N = M \<and> g = cfg \<longrightarrow> console_of (Table s') = console_of (Table s)", OF _ assms(1)], intro impI, elim conjE)
    fix loop N g ring dir full k s s'
    assume IH: "\<And>N g ring dir full k s s'. loop N g ring dir full k s = Some s' \<Longrightarrow> N = M \<and> g = cfg \<longrightarrow> console_of (Table s') = console_of (Table s)"
      and eq: "Option.bind (NetAccept (Tcp4 N) (Module s) (Conn s)
         (print_line N (line ''Waiting for a client. Press ESC or q here to stop.'') [] (World s))) (\<lambda>(st, c, w).
       let s = s\<lparr>Conn := c, World := w\<rparr> in
       if st = EFI_ABORTED then Some s
       else if EFI_ERROR st then
         (if 5 \<le> k + 1 then Some (s\<lparr>World := print_line N (line ''Giving up after repeated accept failures'') [] w\<rparr>)
          else loop N g ring dir full (k + 1) (s\<lparr>World := Stall (Tcp4 N) 500000 w\<rparr>))
       else
         Option.bind (serve N g ring dir full
             (s\<lparr>World := print_line N (line ''Client %d.%d.%d.%d:%u connected'') (client_line c) w\<rparr>))
           (loop N g ring dir full 0)) = Some s'"
      and N: "N = M" "g = cfg"
    obtain st c w where a: "NetAccept (Tcp4 M) (Module s) (Conn s)
         (print_line M (line ''Waiting for a client. Press ESC or q here to stop.'') [] (World s)) = Some (st, c, w)"
      using eq N by (auto simp: bind_eq_Some_conv)
    consider "st = EFI_ABORTED \<or> EFI_ERROR st \<and> 5 \<le> k + 1" | "st \<noteq> EFI_ABORTED" "EFI_ERROR st" "\<not> 5 \<le> k + 1"
      | "st \<noteq> EFI_ABORTED" "\<not> EFI_ERROR st" by blast
    then show "console_of (Table s') = console_of (Table s)"
    proof cases
      case 1
      then show ?thesis using eq N a by (auto simp: Let_def split: if_splits)
    next
      case 2
      then have "loop M cfg ring dir full (k + 1) (s\<lparr>Conn := c, World := Stall (Tcp4 M) 500000 w\<rparr>) = Some s'"
        using eq N a by (simp add: Let_def)
      from IH [OF this] show ?thesis by simp
    next
      case 3
      let ?s = "s\<lparr>Conn := c, World := print_line M (line ''Client %d.%d.%d.%d:%u connected'') (client_line c) w\<rparr>"
      obtain t where t: "serve M cfg ring dir full ?s = Some t" "loop M cfg ring dir full 0 t = Some s'"
        using 3 eq N a by (auto simp: Let_def bind_eq_Some_conv)
      from IH [OF t(2)] serve_console [OF t(1) assms(2)] show ?thesis by simp
    qed
  qed
  then show ?thesis by simp
qed

lemma run_server_console:
  assumes "run_server M cfg ring dir full pc ps s = Some (st, s')" and "through_shim M cfg"
  shows "console_of (Table s') = console_of (Table s)"
proof -
  obtain st1 md w where n: "NetListenStart (Tcp4 M) (Port cfg) (Module s) (World s) = Some (st1, md, w)"
    using assms(1) by (auto simp: run_server_def bind_eq_Some_conv)
  show ?thesis
  proof (cases "EFI_ERROR st1")
    case True
    then show ?thesis using assms(1) n by (auto simp: run_server_def Let_def split_beta)
  next
    case False
    then obtain t where t: "accept_loop_main M cfg ring dir full 0 (s\<lparr>Module := md, World := w\<rparr>) = Some t" "Table s' = Table t"
      using assms(1) n by (auto simp: run_server_def Let_def split_beta)
    from accept_loop_main_console [OF t(1) assms(2)] t(2) show ?thesis by simp
  qed
qed

subsection \<open>No shell without a login\<close>

lemma ssh_host_read_fits: "read_fits (ssh_host M cfg)"
  by (auto simp: read_fits_def ssh_host_def dest: net_rd_within)

lemma accept_loop_ready:
  assumes "accept_loop h start i c = Some y"
  shows "fst y = 0 \<longrightarrow> shellReady (snd y)"
proof (rule accept_loop.raw_induct [where P = "\<lambda>h s i c y. fst y = 0 \<longrightarrow> shellReady (snd y)", OF _ assms])
  fix loop h s i c y
  assume IH: "\<And>h s i c y. loop h s i c = Some y \<Longrightarrow> fst y = (0 :: int) \<longrightarrow> shellReady (snd y)"
    and eq: "(if state c = ST_CLOSED then Some (- 1, c)
       else Option.bind (ProcessInput h c) (\<lambda>(r, prog, c).
        if r < 0 then Some (- 1, c)
        else if shellReady c then Some (0, c)
        else if prog then
          (case RtNow h (ioCtx c) of (start, w) \<Rightarrow> loop h start 0 (c\<lparr>ioCtx := w\<rparr>))
        else
          (case idle_turn h s i SSH_ACCEPT_TIMEOUT_MS c of (late, c) \<Rightarrow>
             if late then Some (- 1, Disconnect h DISC_BY_APPLICATION ''handshake timeout'' c)
             else loop h s (i + 1) c))) = Some y"
  show "fst y = 0 \<longrightarrow> shellReady (snd y)"
  proof (cases "state c = ST_CLOSED")
    case True
    then show ?thesis using eq by auto
  next
    case False
    then obtain r prog c1 where 1: "ProcessInput h c = Some (r, prog, c1)" using eq by (auto simp: bind_eq_Some_conv)
    show ?thesis using False eq 1 IH by (auto simp: split_beta split: if_splits)
  qed
qed

lemma SshAccept_ready:
  assumes "SshAccept h c = Some (0, c')"
  shows "shellReady c'"
proof -
  obtain start w where n: "RtNow h (ioCtx c) = (start, w)" by (cases "RtNow h (ioCtx c)")
  obtain ok d where v: "send_version h (c\<lparr>ioCtx := w\<rparr>) = (ok, d)" by (metis surj_pair)
  have "accept_loop h start 0 d = Some (0, c')" using assms n v by (simp add: SshAccept_def split: if_splits)
  from accept_loop_ready [OF this] show ?thesis by simp
qed

text \<open>
  The server keeps both contracts of a connection: \<^verbatim>\<open>NetRead\<close> stays within its limit, and
  \<^verbatim>\<open>CheckPassword\<close> accepts nobody but the configured user.
\<close>

interpretation server_reads: bounded_reads "ssh_host M cfg" for M cfg
  by unfold_locales (rule ssh_host_read_fits)

interpretation server_users: known_users "ssh_host M cfg" "\<lambda>u. u = text_of (User cfg)" for M cfg
  by unfold_locales (simp add: ssh_host_def CheckPassword_def ConstantTimeEq_eq creds_of_def)

text \<open>
  And what the socket has received but not handed out changes nothing for the handlers of messages:
  \<^verbatim>\<open>NetWrite\<close>, the clock and the pool carry it along.
\<close>

definition received_data :: "bytes \<Rightarrow> nat \<Rightarrow> nat \<Rightarrow> net_conn \<times> 'w \<Rightarrow> net_conn \<times> 'w" where
  "received_data buf n off = map_prod (\<lambda>c. c\<lparr>RxBuf := buf, RxAvail := n, RxOff := off\<rparr>) id"

lemma net_write_loop_received:
  "net_write_loop fw bs (c\<lparr>RxBuf := buf, RxAvail := n, RxOff := off\<rparr>) w =
     map_option (\<lambda>(r, c, w). (r, c\<lparr>RxBuf := buf, RxAvail := n, RxOff := off\<rparr>, w)) (net_write_loop fw bs c w)"
proof (induction "length bs" arbitrary: bs c w rule: less_induct)
  case less
  let ?f = "\<lambda>c. c\<lparr>RxBuf := buf, RxAvail := n, RxOff := off\<rparr>"
  have IH: "bs \<noteq> [] \<Longrightarrow> net_write_loop fw (drop NET_TX_CHUNK bs) (?f c) v =
      map_option (\<lambda>(r, c, w). (r, ?f c, w)) (net_write_loop fw (drop NET_TX_CHUNK bs) c v)" for v
    by (rule less) (simp add: NET_TX_CHUNK_def)
  obtain st ev w1 where m: "MakeEvent fw w = ((st, ev), w1)" by (metis surj_pair)
  show ?case
  proof (cases "send_chunk fw (Tcp c) ev (take NET_TX_CHUNK bs) w1")
    case None
    then show ?thesis using m by (subst (1 2) net_write_loop.simps) simp
  next
    case (Some y)
    then show ?thesis using m IH by (subst (1 2) net_write_loop.simps) (simp add: Let_def split_beta)
  qed
qed

lemma net_wr_received: "net_wr fw (received_data buf n off s) bs = apsnd (received_data buf n off) (net_wr fw s bs)"
  by (cases s) (auto simp: received_data_def net_wr_def NetWrite_def net_write_loop_received split: option.splits)

interpretation server_unseen: unseen_input "ssh_host M cfg" "received_data buf n off" for M cfg buf n off
  by unfold_locales (simp_all add: ssh_host_def net_wr_received,
    simp_all add: received_data_def behind_conn_def prod_eq_iff split_beta)

text \<open>So the server answers a message the same whatever the socket holds behind it.\<close>

lemma answers_ignore_socket_data:
  assumes "HandlePacket (ssh_host M cfg) p c = (r, c')"
  shows "HandlePacket (ssh_host M cfg) p (unseen (received_data buf n off) b c) = (r, unseen (received_data buf n off) b c')"
  using server_unseen.HandlePacket_unseen [of M cfg p buf n off b c] assms by simp

text \<open>A session granted by the server's own callbacks belongs to the configured user.\<close>

lemma accepted_session:
  assumes "reachable (ssh_host M cfg) c" and "SshAccept (ssh_host M cfg) c = Some (0, c')"
  shows "shellReady c' \<and> chanOpen c' \<and> authenticated c' \<and> SshUser c' = text_of (User cfg)"
proof -
  have r: "reachable (ssh_host M cfg) c'" using reach_step [OF assms(1) step_accept [OF assms(2)]] .
  note s = SshAccept_ready [OF assms(2)]
  note a = server_reads.ready_has_channel [OF r s]
  with s server_users.session_user_known [OF r] show ?thesis by blast
qed

subsection \<open>When nobody can connect\<close>

lemma accept_loop_main_unfold:
  assumes "NetAccept (Tcp4 M) (Module s) (Conn s)
      (print_line M (line ''Waiting for a client. Press ESC or q here to stop.'') [] (World s)) = Some (st, c, w)"
    and "EFI_ERROR st"
  shows "accept_loop_main M cfg ring dir full k s =
    (if st = EFI_ABORTED then Some (s\<lparr>Conn := c, World := w\<rparr>)
     else if 5 \<le> k + 1 then Some (s\<lparr>Conn := c, World := print_line M (line ''Giving up after repeated accept failures'') [] w\<rparr>)
     else accept_loop_main M cfg ring dir full (k + 1) (s\<lparr>Conn := c, World := Stall (Tcp4 M) 500000 w\<rparr>))"
  using assms by (subst accept_loop_main.simps) (simp add: Let_def)

lemma accept_failures_lemma:
  assumes "\<And>c w. \<exists>st c' w'. NetAccept (Tcp4 M) md c w = Some (st, c', w') \<and> EFI_ERROR st" and "Module s = md"
  shows "\<exists>c w. accept_loop_main M cfg ring dir full k s = Some (s\<lparr>Conn := c, World := w\<rparr>)"
  using assms(2)
proof (induction "5 - k" arbitrary: k s)
  case 0
  obtain st c w where a: "NetAccept (Tcp4 M) (Module s) (Conn s)
      (print_line M (line ''Waiting for a client. Press ESC or q here to stop.'') [] (World s)) = Some (st, c, w)" "EFI_ERROR st"
    using assms(1) 0(2) by blast
  show ?case unfolding accept_loop_main_unfold [OF a] using 0(1) by auto
next
  case (Suc n)
  obtain st c w where a: "NetAccept (Tcp4 M) (Module s) (Conn s)
      (print_line M (line ''Waiting for a client. Press ESC or q here to stop.'') [] (World s)) = Some (st, c, w)" "EFI_ERROR st"
    using assms(1) Suc.prems by blast
  let ?s = "s\<lparr>Conn := c, World := Stall (Tcp4 M) 500000 w\<rparr>"
  have "n = 5 - (k + 1)" "Module ?s = md" using Suc.hyps(2) Suc.prems by simp_all
  from Suc.hyps(1) [OF this] obtain c' w' where "accept_loop_main M cfg ring dir full (k + 1) ?s = Some (?s\<lparr>Conn := c', World := w'\<rparr>)" by blast
  then show ?case unfolding accept_loop_main_unfold [OF a] by auto
qed

subsection \<open>Properties\<close>

text \<open>C4: The console comes back, for the program as a whole: whatever clients connect and whatever the Shells they
  start call, when \<^verbatim>\<open>EfiMain\<close> returns the six console fields of the system table are those the
  program was started with.\<close>
theorem EfiMain_restores_console:
  assumes "\<And>ok dbg cfg. ParseArgs buf tmp (OwnOptions M (World s)) False mCfg0 = Some (ok, dbg, cfg) \<Longrightarrow> through_shim M cfg"
    and "EfiMain M ImageHandle SystemTable buf tmp ring dir full s = Some (st, s')"
  shows "console_of (Table s') = console_of (Table s)"
proof -
  obtain ok dbg cfg where p: "ParseArgs buf tmp (OwnOptions M (World s)) False mCfg0 = Some (ok, dbg, cfg)"
    using assms(2) by (auto simp: EfiMain_def Let_def bind_eq_Some_conv)
  note t = assms(1) [OF p]
  show ?thesis
  proof (cases ok)
    case False
    then show ?thesis using assms(2) p by (auto simp: EfiMain_def Let_def)
  next
    case True
    let ?g = "RtInit ImageHandle SystemTable (TableFields M SystemTable) (LoadedImage M) (Globals s)"
    from True obtain pc ps m w where "Table s' = Table s \<or>
        run_server M cfg ring dir full pc ps (s\<lparr>Globals := ?g, Memory := m, World := w, Conn := net_zero\<rparr>) = Some (st, s')"
      using assms(2) p by (auto simp: EfiMain_def Let_def bind_eq_Some_conv split: if_splits)
    then show ?thesis using run_server_console [OF _ t] by force
  qed
qed



subsection \<open>Witnesses\<close>

text \<open>
  A machine without entropy whose driver creates no events, so that the listener starts and no
  accept succeeds; its images take the console out of the table and reset the shim's input.
\<close>

definition no_crypto :: "'w host" where
  "no_crypto = \<lparr>GetTime = \<lambda>w. (None, w), Stall = \<lambda>n w. w, AllocatePool = \<lambda>n w. (None, w), FreePool = \<lambda>a w. w,
     wc_InitRng = \<lambda>w. (None, w), wc_FreeRng = \<lambda>g w. w, wc_RNG_GenerateBlock = \<lambda>g n. (None, g),
     wc_HmacInit = None, wc_HmacSetKey = \<lambda>c t key. None, wc_HmacUpdate = \<lambda>c d. None, wc_HmacFinal = \<lambda>c. None,
     wc_AesInit = None, wc_AesFree = \<lambda>a w. w, wc_AesSetKeyDirect = \<lambda>a key iv. None, wc_AesCtrEncrypt = \<lambda>a d. (None, a),
     wc_InitSha256 = [], wc_Sha256Update = (\<lambda>s d. s), wc_Sha256Final = (\<lambda>s. s),
     wc_curve25519_make_key = \<lambda>g. (None, g), wc_curve25519_export_public = \<lambda>k. None,
     wc_curve25519_import_public = Some, wc_curve25519_shared_secret = \<lambda>k p. None, wc_ed25519_init = None,
     wc_ed25519_import_private_only = \<lambda>k s. None, wc_ed25519_make_public = \<lambda>k. None,
     wc_ed25519_import_private_key = \<lambda>k s p. None, wc_ed25519_sign_msg = \<lambda>m k. None, wc_ed25519_free = \<lambda>k w. w,
     rd = (\<lambda>w n. (RdErr, w)), wr = (\<lambda>w bs. (False, w)), auth_fn = (\<lambda>u p. False)\<rparr>"

definition rude_images :: "(system_table \<times> 'w installation) launch_fw" where
  "rude_images = \<lparr>GetTime = \<lambda>s. (None, s), Stall = \<lambda>n s. s, AllocatePool = \<lambda>n s. (Some 4096, s), FreePool = \<lambda>a s. s,
     OwnImage = \<lambda>s. None, ImageInfo = \<lambda>i s. True, SetOptions = \<lambda>i os n s. s,
     StartImage = \<lambda>i (T, I). Some ((EFI_SUCCESS, 0), T\<lparr>ConOut := NoConsole\<rparr>, I\<lparr>Con := snd (ShimInReset (Con I))\<rparr>),
     LocateFvs = \<lambda>s. ((EFI_SUCCESS, None), s), FvProtocol = \<lambda>f s. None, ReadSection = \<lambda>f s. ((EFI_SUCCESS, 0), s),
     LoadBuffer = \<lambda>p s. ((EFI_SUCCESS, 0), s), LoadPath = \<lambda>p s. ((EFI_SUCCESS, 0), s), DevicePath = \<lambda>d s. None,
     LocalPrint = \<lambda>cs s. s\<rparr>"

definition deaf_tcp :: "toy_world tcp_fw" where
  "deaf_tcp = toy_fw\<lparr>CreateEvent := \<lambda>w. ((EFI_OUT_OF_RESOURCES, 0), w)\<rparr>"

definition deaf_machine :: "toy_world machine" where
  "deaf_machine = \<lparr>Tcp4 = deaf_tcp,
     Heap = \<lparr>GetTime = \<lambda>w. (None, w), Stall = \<lambda>n w. w, AllocatePool = \<lambda>n w. (Some 4096, w), FreePool = \<lambda>a w. w\<rparr>,
     Crypto = no_crypto,
     OldConsole = \<lparr>LocalOut = \<lambda>_ w. w, LocalRead = \<lambda>w. ((EFI_NOT_READY, \<lparr>ScanCode = 0, UnicodeChar = 0\<rparr>), w),
       LocalReady = \<lambda>w. (EFI_NOT_READY, w), SignalEvent = \<lambda>_ w. w, Ticks = \<lambda>w. (0, w), NotifyFn = \<lambda>_ _ w. w\<rparr>,
     Boot = \<lparr>NewEvent = \<lambda>w. ((EFI_SUCCESS, 1), w), EndEvent = \<lambda>e w. w, InstallProtocols = \<lambda>w. ((EFI_SUCCESS, 5), w),
       UninstallProtocols = \<lambda>n w. (EFI_SUCCESS, w), CalculateCrc32 = \<lambda>T. Some 0\<rparr>,
     Images = rude_images, LocalText = \<lambda>cs w. w, SetWatchdogTimer = \<lambda>w. w, OwnOptions = \<lambda>w. None,
     LoadedImage = \<lambda>i. None, TableFields = \<lambda>t. (1, 2, 3), Sizes = (100, 200, 300)\<rparr>"

definition deaf_start :: "toy_world server" where
  "deaf_start = \<lparr>Globals = rt_zero, Module = \<lparr>mSb = False, mListenHandle = 0, mListen = 0, mLocalIn = False\<rparr>, Memory = \<lambda>_. 0,
     Table = sample_table, Conn = net_zero, World = toy_start\<rparr>"

lemma deaf_print [simp]: "print_line deaf_machine fmt args w = w" "banner deaf_machine cfg dbg g w = w"
proof -
  show p: "print_line deaf_machine fmt args w = w" for fmt args w
    by (simp add: print_line_def deaf_machine_def split: option.split)
  have "LocalText deaf_machine cs v = v" for cs v by (simp add: deaf_machine_def)
  then show "banner deaf_machine cfg dbg g w = w" by (simp add: banner_def p split: option.split)
qed

lemma deaf_accept: "\<exists>st c' w'. NetAccept (Tcp4 deaf_machine) m c w = Some (st, c', w') \<and> EFI_ERROR st"
proof -
  have "CreateEvent (Tcp4 deaf_machine) w = ((EFI_OUT_OF_RESOURCES, 0), w)" by (simp add: deaf_machine_def deaf_tcp_def)
  then have "NetAccept (Tcp4 deaf_machine) m c w = Some (EFI_OUT_OF_RESOURCES, c, w)" by (simp add: NetAccept_def MakeEvent_def)
  moreover have "EFI_ERROR EFI_OUT_OF_RESOURCES" by simp
  ultimately show ?thesis by blast
qed

lemma deaf_listen:
  "\<exists>m' w'. NetListenStart (Tcp4 deaf_machine) port m toy_start = Some (EFI_SUCCESS, m', w')"
proof -
  have cf: "Configure (Tcp4 deaf_machine) h q v = (EFI_SUCCESS, v)" for h q v by (simp add: deaf_machine_def deaf_tcp_def toy_fw_def)
  have "config_loop (Tcp4 deaf_machine) m p (Suc n) EFI_SUCCESS w = Some (EFI_SUCCESS, w)" for m p n and w :: toy_world
    by (simp add: cf) (simp add: efi_status_defs)
  from this [of _ _ 239] have c: "config_loop (Tcp4 deaf_machine) m p 240 EFI_SUCCESS w = Some (EFI_SUCCESS, w)" for m p and w :: toy_world
    by simp
  show ?thesis
    by (simp add: NetListenStart_def Let_def split_beta c) (simp add: deaf_machine_def deaf_tcp_def toy_fw_def toy_start_def)
qed

lemma rude_through_shim: "through_shim deaf_machine cfg"
proof -
  have "moves h l TI TI'" if "service_step (Images deaf_machine) TI TI'" for h l TI TI'
    using that
  proof cases
    case (svc_start i r)
    then have "snd TI' = (snd TI)\<lparr>Con := snd (ShimInReset (Con (snd TI)))\<rparr>"
      by (auto simp: deaf_machine_def rude_images_def split: prod.splits)
    moreover have "(shim_step h l)\<^sup>*\<^sup>* (Con (snd TI)) (snd (ShimInReset (Con (snd TI))))" by (intro r_into_rtranclp step_ireset)
    ultimately show ?thesis unfolding moves_def by blast
  qed (simp_all add: deaf_machine_def rude_images_def moves_refl)
  then show ?thesis unfolding through_shim_def by blast
qed

lemma deaf_alloc: "n \<in> {100, 200} \<Longrightarrow> \<exists>p m'. RtAllocZero (Heap deaf_machine) n (m, w) = Some (p, m', w) \<and> p \<noteq> 0"
  using RtAllocZero_lemma [of "Heap deaf_machine" n w 4096 w m]
  by (auto simp: deaf_machine_def pool_room_def RT_INSANE_LEN_def)

theorem EfiMain_restores_console_witness:
  "\<exists>s'. EfiMain deaf_machine 7 9 [] [] (\<lambda>_. 0) [] [] deaf_start = Some (EFI_SUCCESS, s') \<and> console_of (Table s') = console_of sample_table"
proof -
  obtain cfg where cfg: "default_cfg mCfg0 = Some cfg" using default_cfg_lemma by blast
  have o: "OwnOptions deaf_machine v = None" "SetWatchdogTimer deaf_machine v = v" "Sizes deaf_machine = (100, 200, 300)"
    "TableFields deaf_machine t = (1, 2, 3)" "LoadedImage deaf_machine = (\<lambda>i. None)" for v t
    by (simp_all add: deaf_machine_def)
  have w: "World deaf_start = toy_start" "Globals deaf_start = rt_zero" by (simp_all add: deaf_start_def)
  obtain pc m1 where 1: "RtAllocZero (Heap deaf_machine) 100 (Memory deaf_start, toy_start) = Some (pc, m1, toy_start)" "pc \<noteq> 0"
    using deaf_alloc [of 100 "Memory deaf_start" toy_start] by auto
  obtain ps m2 where 2: "RtAllocZero (Heap deaf_machine) 200 (m1, toy_start) = Some (ps, m2, toy_start)" "ps \<noteq> 0"
    using deaf_alloc [of 200 m1 toy_start] by auto
  let ?s = "deaf_start\<lparr>Globals := RtInit 7 9 (1, 2, 3) (\<lambda>i. None) rt_zero, Memory := m2, World := toy_start, Conn := net_zero\<rparr>"
  obtain md w1 where l: "NetListenStart (Tcp4 deaf_machine) (Port cfg) (Module deaf_start) toy_start = Some (EFI_SUCCESS, md, w1)"
    using deaf_listen by blast
  let ?t = "?s\<lparr>Module := md, World := w1\<rparr>"
  have "\<exists>c w. accept_loop_main deaf_machine cfg (\<lambda>_. 0) [] [] 0 ?t = Some (?t\<lparr>Conn := c, World := w\<rparr>)"
    by (rule accept_failures_lemma [OF deaf_accept]) simp
  then have "\<exists>s'. run_server deaf_machine cfg (\<lambda>_. 0) [] [] pc ps ?s = Some (EFI_SUCCESS, s')"
    using l by (auto simp: run_server_def Let_def split_beta)
  then obtain s' where "EfiMain deaf_machine 7 9 [] [] (\<lambda>_. 0) [] [] deaf_start = Some (EFI_SUCCESS, s')"
    by (auto simp: EfiMain_def ParseArgs_def cfg o w 1 2 Let_def)
  from EfiMain_restores_console [OF rude_through_shim this] this show ?thesis by (auto simp: deaf_start_def)
qed


end
