(* ===== verification/Spec2Isabelle.thy ===== *)
theory Spec2Isabelle
  imports Session Delivery Progress Fingerprint Serving
begin

text \<open>
  A model of SshShell, the UEFI application that serves a UEFI Shell over SSH, and the theorems that
  make it correct. The application is the C code under \<^verbatim>\<open>src/files\<close>: \<^verbatim>\<open>ssh.c\<close> is an SSH 2 server for one
  connection, \<^verbatim>\<open>net.c\<close> the sockets below it, \<^verbatim>\<open>ConsoleShim.c\<close> the console protocols the Shell talks to
  above it, \<^verbatim>\<open>SshShellServer.c\<close> the program, and \<^verbatim>\<open>uefirt.c\<close> the runtime library of all of them.

  \<^bold>\<open>How the parts work together.\<close> \<^verbatim>\<open>EfiMain\<close> reads the command line, opens a listener and takes one client
  at a time. A connection gets the socket calls \<^verbatim>\<open>NetRead\<close> and \<^verbatim>\<open>NetWrite\<close> and the password check as
  callbacks. \<^verbatim>\<open>SshAccept\<close> runs the handshake until a shell is requested on an open channel. The shim then
  replaces the console in the system table, and a Shell image is started on it: its output goes through
  \<^verbatim>\<open>SshWrite\<close>, its keys come out of \<^verbatim>\<open>SshRead\<close>. When it exits, the console is restored and the connection
  is closed and freed. There are no threads: everything is driven by polling, and a timer callback runs
  between two calls of the Shell.

  \<^bold>\<open>Conventions.\<close> Integers of a fixed width are words, pointers the numbers of their memory cells or, for
  opaque objects, handles with 0 for \<^verbatim>\<open>NULL\<close>. A structure is a record with the fields of the source; a
  pointer with a length is the list of the bytes it denotes; where addresses matter (\<^verbatim>\<open>Libc\<close>, \<^verbatim>\<open>Runtime\<close>,
  \<^verbatim>\<open>Launch\<close>) memory is a function from addresses to bytes. The result code of a C function is the first
  component of its result, the updated state the last. The world outside the program is a type variable
  \<open>'w\<close> threaded through every call in the order of the code. Loops whose end is evident are \<open>fun\<close> or
  \<open>function\<close> with a measure; a loop that may wait for ever, or memory that is read outside an array, is
  an option: \<open>None\<close> means that the call does not return. No fuel is used. Where a loop always ends this
  is a theorem of its own.

  \<^bold>\<open>What is a parameter.\<close> The firmware (\<open>firmware\<close>, \<open>tcp_fw\<close>, \<open>console\<close>, \<open>shim_boot\<close>, \<open>launch_fw\<close>), wolfCrypt
  and the callbacks (\<open>host\<close>), the processor's instructions, and the contents of uninitialised memory. What the theorems
  need of them is a named hypothesis with a witness that satisfies it: \<open>read_fits\<close> (a read is within its
  limit), \<open>finite_supply\<close> (a transport has finitely many bytes at a time), \<open>rng_fills\<close>, \<open>ctr_stream\<close>,
  \<open>hmac_len\<close>, \<open>sha_len\<close>, \<open>host_works\<close> (calls that succeed, output lengths, and that AES-CTR decrypts what it encrypted), \<open>heap_law\<close>
  (\<^verbatim>\<open>AllocatePool\<close> and \<^verbatim>\<open>FreePool\<close>), \<open>cut_input\<close> (a transport that holds its input in pieces), \<open>data_law\<close>, \<open>sent_law\<close>, \<open>events_law\<close>, \<open>children_law\<close> (the TCP4 driver),
  \<open>shim_events_law\<close> (events of the shim), \<open>through_shim\<close> (an image reaches the shim only through its
  protocols).
\<close>

text \<open>
  \<^bold>\<open>The theories, in the order of the code.\<close>

  \<^item> \<^verbatim>\<open>Prelude\<close>, \<^verbatim>\<open>Ring\<close>, \<^verbatim>\<open>Sample\<close>: the types and the simp sets all theories share; ring buffers with one
    free slot as queues (locale \<open>ring_queue\<close>, interpreted for the channel input in \<^verbatim>\<open>Channel\<close> and for the
    keys in \<^verbatim>\<open>Shim_State\<close>); the host of the witnesses.
  \<^item> \<^verbatim>\<open>Wire\<close>, \<^verbatim>\<open>Algs\<close>, \<^verbatim>\<open>Ssh_State\<close> (\<^verbatim>\<open>ssh.c\<close>, lines 1 to 360): the writers and readers of the wire format
    (locale \<open>wire_codec\<close>: each reader inverts its writer and stays inside the packet), the choice of
    algorithms, \<^verbatim>\<open>SSH_CONN\<close> and the constants.
  \<^item> \<^verbatim>\<open>Packet\<close>, \<^verbatim>\<open>Conn_Inv\<close>, \<^verbatim>\<open>Kex\<close>, \<^verbatim>\<open>Auth\<close>, \<^verbatim>\<open>Channel\<close>, \<^verbatim>\<open>Transport\<close> (\<^verbatim>\<open>ssh.c\<close>, lines 360 to 1290): sending a
    packet; the invariant of a connection; the key exchange against RFC 4253; password authentication
    (locale \<open>password_auth\<close>, interpreted for \<^verbatim>\<open>CheckPassword\<close>); the channel; the dispatch of every
    message and the input assembly. Each handler keeps the invariant, and each theory states what its
    messages do on every branch.
  \<^item> \<^verbatim>\<open>Delivery\<close>, \<^verbatim>\<open>Progress\<close>: sender and receiver together (what is sent arrives, what is not authentic does
    not), and that \<^verbatim>\<open>ProcessInput\<close> returns.
  \<^item> \<^verbatim>\<open>Ssh_Api\<close>, \<^verbatim>\<open>Reach\<close>, \<^verbatim>\<open>Login\<close>, \<^verbatim>\<open>Session\<close>, \<^verbatim>\<open>Ssh_Heap\<close>, \<^verbatim>\<open>Fingerprint\<close> (\<^verbatim>\<open>ssh.c\<close>, lines 1286 to 1606): the
    calls of \<^verbatim>\<open>ssh.h\<close>; every state a caller can reach by them (\<open>api_step\<close>, \<open>reachable\<close>) and its safety (locales
    \<open>bounded_reads\<close> and \<open>known_users\<close>, interpreted in \<^verbatim>\<open>Serving\<close> for the server's callbacks); who is logged
    in; what reading, writing and accepting guarantee; that no heap block leaks; the fingerprint.
  \<^item> \<^verbatim>\<open>Phase\<close>, \<^verbatim>\<open>Segment\<close>, \<^verbatim>\<open>Handshake\<close>, \<^verbatim>\<open>Client\<close> (the same code over whole runs): the preorder \<open>advances\<close> in which
    every call moves a connection forward; that the network may cut the client's bytes anywhere (locale
    \<open>unseen_input\<close>: no handler looks at input behind its packet; interpreted in \<^verbatim>\<open>Serving\<close> for the server's
    socket); that the messages of an honest client are accepted, and that its bytes are, from the
    version line to the shell request, composed of the three before and of \<^verbatim>\<open>Delivery\<close>.
  \<^item> \<^verbatim>\<open>Clock\<close>, \<^verbatim>\<open>Libc\<close>, \<^verbatim>\<open>Runtime\<close>, \<^verbatim>\<open>Efi\<close> (\<^verbatim>\<open>uefirt.c\<close>, \<^verbatim>\<open>uefi.h\<close>): time and timeouts, the C library over byte
    memory, the globals, the allocator with its hidden headers, \<^verbatim>\<open>Print\<close>, the stack scan and the halt
    behind it, entropy, status codes, protocol identifiers.
  \<^item> \<^verbatim>\<open>Net\<close> (\<^verbatim>\<open>net.c\<close>): listener, accept, read, write, close. Its calls are what \<^verbatim>\<open>ssh.c\<close> expects of its
    callbacks (locale \<open>io_callbacks\<close>, interpreted for \<^verbatim>\<open>NetRead\<close> and \<^verbatim>\<open>NetWrite\<close>).
  \<^item> \<^verbatim>\<open>Shim_State\<close>, \<^verbatim>\<open>Shim_Out\<close>, \<^verbatim>\<open>Shim_In\<close>, \<^verbatim>\<open>Install\<close> (\<^verbatim>\<open>ConsoleShim.c\<close>): output, refined against a terminal that
    interprets the bytes sent (\<open>term_run\<close>); the input decoder; every call of the Shell as a step
    (\<open>shim_step\<close>); installing and removing the shim.
  \<^item> \<^verbatim>\<open>Args\<close>, \<^verbatim>\<open>Launch\<close>, \<^verbatim>\<open>Server\<close>, \<^verbatim>\<open>Serving\<close> (\<^verbatim>\<open>SshShellServer.c\<close>): the command line against a specification on
    lists of words, the search for a Shell and the device path built for it, \<^verbatim>\<open>EfiMain\<close>, and what holds
    of the whole program.

  \<^bold>\<open>What the theorems show.\<close> Safety of a session in every reachable state, from the first byte of a client
  to the Shell behind the shim and the main loop around it: no channel and no Shell without the password,
  only authentic packets, all buffers within their bounds, nothing once established taken back; and a
  correct client is let in, however the network cuts its bytes. Functional behaviour: key exchange, delivery,
  the order of the data in both directions, the cursor and the keys of the shim, the command line, the
  device path. Resources: heap blocks, events, TCP children, the console. Termination of every wait with
  a limit. Where the code falls short, the theorem says how: a version line longer than its buffer, a
  packet size of zero, credit that is not returned, months that are not 31 days long, a cursor outside a
  smaller window, an enter key lost after a multi-byte character, a Shell restarted by its exit status.

  \<^bold>\<open>Bounds.\<close> The numbers are those of the code: 240 tries for an address, 100 turns to drain an accept, five
  failed accepts, and for every wait with a limit the number of turns after which \<^verbatim>\<open>RtTimedOut\<close> is true
  whatever the clock shows (\<open>RtTimedOut_spins\<close>). A block longer than \<open>RT_INSANE_LEN\<close> halts the machine.

  \<^bold>\<open>Not modelled.\<close> wolfCrypt and the firmware drivers (parameters), and with them the protocol interfaces
  declared in \<^verbatim>\<open>uefi.h\<close>, which are tables of their functions: the fields of \<open>tcp_fw\<close>, \<open>console\<close>, \<open>shim_boot\<close> and
  \<open>launch_fw\<close> stand for the calls the program makes of them; the instructions \<^verbatim>\<open>rdtsc\<close>, \<^verbatim>\<open>cpuid\<close> and \<^verbatim>\<open>rdrand\<close>
  (parameters); the progress and debug messages of \<^verbatim>\<open>ssh.c\<close>, \<^verbatim>\<open>net.c\<close> and the entropy source on the local
  screen (\<^verbatim>\<open>Print\<close> itself and the messages of \<^verbatim>\<open>SshShellServer.c\<close> are modelled); \<^verbatim>\<open>user_settings.h\<close>, which
  holds preprocessor switches of wolfCrypt and no code; the desktop test harness under \<^verbatim>\<open>test\<close> and the
  generator of \<^verbatim>\<open>hostkey.h\<close>, which are not part of the program. Memory written past \<^verbatim>\<open>clientVersion\<close> is
  recorded by the flag \<open>overrun\<close> and has no further effect in the model; the contents of freed blocks are
  not modelled.
\<close>

end
